(* ===== verification/Prelude.thy ===== *)
theory Prelude
  imports Main "HOL-Library.Word" "HOL-Library.Monad_Syntax"
begin

text \<open>
  Shared vocabulary of the development: the machine integer types of the C code, the
  convention for C code without a defined result, singly linked chains of C structures,
  and the one locale that every linked list of the kernel interprets.

  A C function whose execution may dereference NULL, index an array out of its bounds, fail an
  assertion or run for ever is modelled by a function into an \<open>option\<close> type, and \<open>None\<close> is
  that undefined outcome. Error codes that the C code returns are ordinary values.
\<close>

unbundle bit_operations_syntax

type_synonym u8 = "8 word"
type_synonym u16 = "16 word"
type_synonym u32 = "32 word"
type_synonym u64 = "64 word"

named_theorems state_simps \<open>how the fields of a component's state react to its updates\<close>
named_theorems chain_intros \<open>introduction rules for linked chains\<close>

lemma top_word32: "(0xffffffff :: u32) \<le> x \<Longrightarrow> x = 0xffffffff"
proof -
  have "unat x < 2 ^ LENGTH(32)" by (rule unsigned_less)
  then show "0xffffffff \<le> x \<Longrightarrow> x = 0xffffffff" by (simp add: word_le_nat_alt word_unat_eq_iff)
qed

section \<open>Control flow of C in the option type\<close>

text \<open>An assertion or a pointer check: execution goes on only if the condition holds.\<close>

definition check :: "bool \<Rightarrow> unit option" where
  "check b = (if b then Some () else None)"

lemma check_simps [simp]: "check True = Some ()" "check False = None"
  by (simp_all add: check_def)

lemma check_eq_Some [simp]: "check b = Some u \<longleftrightarrow> b"
  by (simp add: check_def)

lemma check_bind [simp]: "(check b \<bind> f) = (if b then f () else None)"
  by (simp add: check_def)

text \<open>A \<open>for\<close> loop whose body may have no defined result.\<close>

fun foldM :: "('a \<Rightarrow> 's \<Rightarrow> 's option) \<Rightarrow> 'a list \<Rightarrow> 's \<Rightarrow> 's option" where
  "foldM f [] s = Some s"
| "foldM f (x # xs) s = f x s \<bind> foldM f xs"

lemma foldM_append [simp]: "foldM f (xs @ ys) s = foldM f xs s \<bind> foldM f ys"
  by (induction xs arbitrary: s) (auto split: bind_splits)

lemma foldM_invariant:
  assumes "foldM f xs s = Some s'" and "P s"
    and "\<And>x s s'. x \<in> set xs \<Longrightarrow> P s \<Longrightarrow> f x s = Some s' \<Longrightarrow> P s'"
  shows "P s'"
  using assms
proof (induction xs arbitrary: s)
  case Nil
  then show ?case by simp
next
  case (Cons x xs)
  from Cons.prems(1) obtain s1 where "f x s = Some s1" "foldM f xs s1 = Some s'"
    by (auto split: bind_splits)
  with Cons show ?case by (metis list.set_intros)
qed

lemma fold_invariant_set:
  assumes "P s" and "\<And>x s. x \<in> set xs \<Longrightarrow> P s \<Longrightarrow> P (f x s)"
  shows "P (fold f xs s)"
  using assms by (induction xs arbitrary: s) auto

section \<open>Chains: singly linked lists of C structures\<close>

text \<open>
  A pointer is an \<open>option\<close>, with \<open>None\<close> for NULL, and a link field is a function from the address
  of a structure to the pointer stored in it. \<open>lseg nxt p xs q\<close> says that following \<open>nxt\<close> from
  \<open>p\<close> visits exactly the structures \<open>xs\<close> and then stands at \<open>q\<close>.
\<close>

primrec lseg :: "('a \<Rightarrow> 'a option) \<Rightarrow> 'a option \<Rightarrow> 'a list \<Rightarrow> 'a option \<Rightarrow> bool" where
  "lseg nxt p [] q \<longleftrightarrow> p = q"
| "lseg nxt p (x # xs) q \<longleftrightarrow> p = Some x \<and> lseg nxt (nxt x) xs q"

abbreviation linked :: "('a \<Rightarrow> 'a option) \<Rightarrow> 'a option \<Rightarrow> 'a list \<Rightarrow> bool" where
  "linked nxt p xs \<equiv> lseg nxt p xs None"

lemma lseg_append [simp]:
  "lseg nxt p (xs @ ys) q \<longleftrightarrow> (\<exists>r. lseg nxt p xs r \<and> lseg nxt r ys q)"
  by (induction xs arbitrary: p) auto

lemma linked_None [simp]: "linked nxt None xs \<longleftrightarrow> xs = []"
  by (cases xs) auto

lemma linked_Some: "linked nxt (Some x) xs \<longleftrightarrow> (\<exists>ys. xs = x # ys \<and> linked nxt (nxt x) ys)"
  by (cases xs) auto

lemma lseg_fun_upd [simp]: "x \<notin> set xs \<Longrightarrow> lseg (nxt(x := v)) p xs q \<longleftrightarrow> lseg nxt p xs q"
  by (induction xs arbitrary: p) auto

lemma lseg_cong: "(\<And>x. x \<in> set xs \<Longrightarrow> nxt x = nxt' x) \<Longrightarrow> lseg nxt p xs q \<longleftrightarrow> lseg nxt' p xs q"
  by (induction xs arbitrary: p) auto

lemma linked_unique: "linked nxt p xs \<Longrightarrow> linked nxt p ys \<Longrightarrow> xs = ys"
proof (induction xs arbitrary: p ys)
  case Nil
  then show ?case by simp
next
  case (Cons x xs)
  then show ?case by (cases ys) auto
qed

lemma linked_distinct: "linked nxt p xs \<Longrightarrow> distinct xs"
proof (induction xs arbitrary: p)
  case Nil
  then show ?case by simp
next
  case (Cons x xs)
  have "x \<notin> set xs"
  proof
    assume "x \<in> set xs"
    then obtain us vs where xs: "xs = us @ x # vs" by (meson split_list)
    from Cons.prems xs have "linked nxt (nxt x) vs" "linked nxt (nxt x) (us @ x # vs)"
      by auto
    then have "vs = us @ x # vs" by (rule linked_unique)
    then have "length vs = length (us @ x # vs)" by (rule arg_cong)
    then show False by simp
  qed
  with Cons show ?case by auto
qed

text \<open>
  \<open>for (t = head; t; t = t->next)\<close> over a chain that the loop body does not change: the visited
  structures, in order. A cyclic chain is visited for ever.
\<close>

partial_function (option) walk :: "('a \<Rightarrow> 'a option) \<Rightarrow> 'a option \<Rightarrow> 'a list option" where
  "walk nxt p = (case p of
      None \<Rightarrow> Some []
    | Some x \<Rightarrow> do { xs \<leftarrow> walk nxt (nxt x); Some (x # xs) })"

declare walk.simps [code]

lemma walk_linked: "linked nxt p xs \<Longrightarrow> walk nxt p = Some xs"
  by (induction xs arbitrary: p) (auto simp: walk.simps)

lemma linked_walk: "walk nxt p = Some xs \<Longrightarrow> linked nxt p xs"
proof (induction xs arbitrary: p)
  case Nil
  then show ?case by (subst (asm) walk.simps) (auto split: option.splits bind_splits)
next
  case (Cons x xs)
  from Cons.prems have "p = Some x" "walk nxt (nxt x) = Some xs"
    by (subst (asm) walk.simps, auto split: option.splits bind_splits)+
  with Cons.IH show ?case by simp
qed

lemma walk_iff: "walk nxt p = Some xs \<longleftrightarrow> linked nxt p xs"
  using walk_linked linked_walk by metis

section \<open>Unlinking, as the kernel does it\<close>

text \<open>
  Two routines of thread.c (\<open>mutex_remove_from_queue\<close> and \<open>mutex_unlock_internal\<close>) unlink a
  structure that is not the head of its list with the same loop, up to the link field:
  \<^verbatim>\<open>
    while (t->next)
    {
        if (t->next == x) t->next = x->next;
        t = t->next;
    }
  \<close>
  The loop does not leave when it has found \<open>x\<close>: it goes on from the structure behind \<open>x\<close>, and
  that is NULL when \<open>x\<close> was the last one.
\<close>

partial_function (option) unlink_loop ::
  "('s \<Rightarrow> 'p \<Rightarrow> 'p option) \<Rightarrow> ('p \<Rightarrow> 'p option \<Rightarrow> 's \<Rightarrow> 's) \<Rightarrow> 'p \<Rightarrow> 'p option \<Rightarrow> 's \<Rightarrow> 's option" where
  "unlink_loop get put x t s = (case t of
      None \<Rightarrow> None
    | Some t \<Rightarrow> (case get s t of
        None \<Rightarrow> Some s
      | Some n \<Rightarrow>
          let s' = (if n = x then put t (get s x) s else s)
          in unlink_loop get put x (get s' t) s'))"

declare unlink_loop.simps [code]

lemmas unlink_loop_pinduct = unlink_loop.raw_induct
  [where xa = "((((get, put), x), p), s)" for get put x p s, unfolded prod.case]

lemma unlink_loop_invariant:
  assumes "unlink_loop get put x p s = Some s'" and "P s" and "\<And>t s. P s \<Longrightarrow> P (put t (get s x) s)"
  shows "P s'"
proof -
  have "(\<forall>t s. P s \<longrightarrow> P (put t (get s x) s)) \<longrightarrow> P s \<longrightarrow> P s'"
    by (rule unlink_loop_pinduct [where P = "\<lambda>get put x p s s'.
          (\<forall>t s. P s \<longrightarrow> P (put t (get s x) s)) \<longrightarrow> P s \<longrightarrow> P s'", OF _ assms(1)])
      (auto simp: Let_def split: option.splits if_splits)
  with assms(2,3) show ?thesis by blast
qed

text \<open>The contract of a link field: storing it changes it there and nowhere else.\<close>

locale chain =
  fixes get :: "'s \<Rightarrow> 'p \<Rightarrow> 'p option"
    and put :: "'p \<Rightarrow> 'p option \<Rightarrow> 's \<Rightarrow> 's"
  assumes get_put: "get (put p v s) = (get s)(p := v)"
begin

lemma get_put_same [simp]: "get (put p v s) p = v"
  by (simp add: get_put)

lemma get_put_other: "q \<noteq> p \<Longrightarrow> get (put p v s) q = get s q"
  by (simp add: get_put)

lemma push_front:
  "linked (get s) h xs \<Longrightarrow> x \<notin> set xs \<Longrightarrow> linked (get (put x h s)) (Some x) (x # xs)"
  by (simp add: get_put)

lemma insert_after:
  assumes "linked (get s) h (xs @ t # ys)" and "x \<notin> set (xs @ t # ys)"
  shows "linked (get (put t (Some x) (put x (get s t) s))) h (xs @ t # x # ys)"
proof -
  from assms(1) have "t \<notin> set xs" "t \<notin> set ys"
    using linked_distinct by fastforce+
  with assms show ?thesis by (auto simp: get_put)
qed

lemma unlink_after:
  assumes "linked (get s) h (xs @ t # x # ys)"
  shows "linked (get (put t (get s x) s)) h (xs @ t # ys)"
proof -
  from assms have "distinct (xs @ t # x # ys)" by (rule linked_distinct)
  with assms show ?thesis by (auto simp: get_put)
qed

lemma unlink_loop_absent:
  "linked (get s) (Some t) (t # ys) \<Longrightarrow> x \<notin> set ys \<Longrightarrow> unlink_loop get put x (Some t) s = Some s"
proof (induction ys arbitrary: t)
  case Nil
  then show ?case by (simp add: unlink_loop.simps)
next
  case (Cons y ys)
  then show ?case
    by (subst unlink_loop.simps) (auto simp: Let_def)
qed

lemma unlink_loop_inner:
  assumes "linked (get s) (Some t) (t # xs @ x # y # ys)"
  shows "unlink_loop get put x (Some t) s
      = Some (put (last (t # xs)) (Some y) s)"
  using assms
proof (induction xs arbitrary: t)
  case Nil
  let ?s = "put t (Some y) s"
  have d: "distinct (t # x # y # ys)" using Nil linked_distinct by fastforce
  from Nil d have *: "linked (get ?s) (Some y) (y # ys)" by (auto simp: get_put)
  from Nil have "get s t = Some x" "get s x = Some y" by auto
  then have "unlink_loop get put x (Some t) s = unlink_loop get put x (Some y) ?s"
    by (subst unlink_loop.simps) (simp add: Let_def)
  also have "\<dots> = Some ?s" using * d by (intro unlink_loop_absent) auto
  finally show ?case by simp
next
  case (Cons u us)
  then have "distinct (t # (u # us) @ x # y # ys)" using linked_distinct by fastforce
  with Cons show ?case by (subst unlink_loop.simps) (auto simp: Let_def)
qed

lemma unlink_loop_last:
  assumes "linked (get s) (Some t) (t # xs @ [x])"
  shows "unlink_loop get put x (Some t) s = None"
  using assms
proof (induction xs arbitrary: t)
  case Nil
  then have "get s t = Some x" "get s x = None" by auto
  then show ?case by (subst unlink_loop.simps) (simp add: Let_def unlink_loop.simps)
next
  case (Cons u us)
  then have "distinct (t # (u # us) @ [x])" using linked_distinct by fastforce
  with Cons show ?case by (subst unlink_loop.simps) (auto simp: Let_def)
qed

end

end
