(* ===== verification/Thread.thy ===== *)
theory Thread
  imports Prelude
begin

text \<open>
  The kernel's scheduler and its blocking primitives: emcore/thread.c, the types of
  emcore/thread.h, and the part of emcore/panic.c that takes a thread out of the schedule.

  Addresses of \<open>struct scheduler_thread\<close>, \<open>struct mutex\<close> and \<open>struct wakeup\<close> are 32-bit words,
  pointers to them are \<open>option\<close>s. The kernel's objects live in three stores of \<open>kstate\<close>; the timer
  hardware appears as the current microsecond count and the wakeup that was last programmed, and the
  stack canaries as a word memory. A routine that ends in \<open>yield()\<close> is split there: it reports
  \<open>Blocks\<close>, and what it does after it has been scheduled again is a definition of its own.
\<close>

section \<open>Types (thread.h)\<close>

type_synonym tid = u32
type_synonym mid = u32
type_synonym wid = u32

datatype thread_state = THREAD_FREE | THREAD_SUSPENDED | THREAD_READY | THREAD_RUNNING
  | THREAD_BLOCKED | THREAD_DEFUNCT | THREAD_DEFUNCT_ACK

datatype thread_block = THREAD_NOT_BLOCKED | THREAD_BLOCK_SLEEP | THREAD_BLOCK_MUTEX
  | THREAD_BLOCK_WAKEUP | THREAD_DEFUNCT_STKOV | THREAD_DEFUNCT_PANIC

datatype thread_type = USER_THREAD | OS_THREAD | CORE_THREAD

datatype panic_severity = PANIC_KILLTHREAD | PANIC_KILLUSERTHREADS | PANIC_FATAL

record scheduler_thread =
  t_regs :: "u32 list"
  t_cpsr :: u32
  t_state :: thread_state
  t_name :: "string option"
  t_cputime_current :: u32
  t_cputime_total :: u64
  t_startusec :: u32
  t_thread_next :: "tid option"
  t_queue_next :: "tid option"
  t_owned_mutexes :: "mid option"
  t_timeout :: u32
  t_blocked_since :: u32
  t_blocked_by :: "u32 option"
  t_stack :: u32
  t_err_no :: int
  t_block_type :: thread_block
  t_type :: thread_type
  t_priority :: u8
  t_cpuload :: u8

record mutex =
  m_owner :: "tid option"
  m_waiters :: "tid option"
  m_owned_next :: "mid option"
  m_count :: int

record wakeup =
  w_waiter :: "tid option"
  w_signalled :: bool

text \<open>The objects at their addresses, the globals of thread.c and the hardware it reads.\<close>

record kstate =
  threads :: "tid \<Rightarrow> scheduler_thread"
  mutexes :: "mid \<Rightarrow> mutex"
  wakeups :: "wid \<Rightarrow> wakeup"
  head_thread :: "tid option"
  current_thread :: tid
  idle_thread :: tid
  dbgwakeup :: wid
  last_tick :: u32
  scheduler_frozen :: bool
  usec_timer :: u32
  timer_wakeup :: "u32 option"
  stackmem :: "u32 \<Rightarrow> u32"

text \<open>Return values (thread.h) and the scheduler's periods (configmagic.h).\<close>

definition THREAD_FOUND :: int where "THREAD_FOUND = 1"
definition THREAD_OK :: int where "THREAD_OK = 0"
definition THREAD_TIMEOUT :: int where "THREAD_TIMEOUT = - 1"
definition ALREADY_SUSPENDED :: int where "ALREADY_SUSPENDED = - 4"
definition ALREADY_RESUMED :: int where "ALREADY_RESUMED = - 5"
definition TIMEOUT_BLOCK :: u32 where "TIMEOUT_BLOCK = - 1"
definition SCHEDULER_TICK :: u32 where "SCHEDULER_TICK = 1048576"
definition SYSTEM_TICK :: u32 where "SYSTEM_TICK = 10000"
definition STACK_CANARY :: u32 where "STACK_CANARY = 0xaffebeaf"

text \<open>
  The recursion count of a mutex is a C \<open>int\<close>: it never leaves the range of 32-bit signed integers,
  and counting past \<open>INT_MAX\<close> is undefined.
\<close>

definition INT_MAX :: int where "INT_MAX = 2147483647"

lemmas thread_codes = THREAD_FOUND_def THREAD_OK_def THREAD_TIMEOUT_def
  ALREADY_SUSPENDED_def ALREADY_RESUMED_def

text \<open>
  \<open>TIME_AFTER(a, b)\<close> of timer.h: the difference of the two 32-bit times is negative.
\<close>

definition TIME_AFTER :: "u32 \<Rightarrow> u32 \<Rightarrow> bool" where
  "TIME_AFTER a b = (sint (b - a) < 0)"

text \<open>How a call ends: it returns, its thread has to wait, or it ends in \<open>panicf\<close>.\<close>

datatype outcome = Ret int | Blocks | Panics

section \<open>Stores\<close>

definition upd_thread :: "tid \<Rightarrow> (scheduler_thread \<Rightarrow> scheduler_thread) \<Rightarrow> kstate \<Rightarrow> kstate" where
  "upd_thread t f s = s\<lparr>threads := (threads s)(t := f (threads s t))\<rparr>"

definition upd_mutex :: "mid \<Rightarrow> (mutex \<Rightarrow> mutex) \<Rightarrow> kstate \<Rightarrow> kstate" where
  "upd_mutex m f s = s\<lparr>mutexes := (mutexes s)(m := f (mutexes s m))\<rparr>"

definition upd_wakeup :: "wid \<Rightarrow> (wakeup \<Rightarrow> wakeup) \<Rightarrow> kstate \<Rightarrow> kstate" where
  "upd_wakeup w f s = s\<lparr>wakeups := (wakeups s)(w := f (wakeups s w))\<rparr>"

lemma upd_thread_sel [simp]:
  "threads (upd_thread t f s) = (threads s)(t := f (threads s t))"
  "mutexes (upd_thread t f s) = mutexes s"
  "wakeups (upd_thread t f s) = wakeups s"
  "head_thread (upd_thread t f s) = head_thread s"
  "current_thread (upd_thread t f s) = current_thread s"
  "idle_thread (upd_thread t f s) = idle_thread s"
  "dbgwakeup (upd_thread t f s) = dbgwakeup s"
  "last_tick (upd_thread t f s) = last_tick s"
  "scheduler_frozen (upd_thread t f s) = scheduler_frozen s"
  "usec_timer (upd_thread t f s) = usec_timer s"
  "timer_wakeup (upd_thread t f s) = timer_wakeup s"
  "stackmem (upd_thread t f s) = stackmem s"
  by (simp_all add: upd_thread_def)

lemma upd_mutex_sel [simp]:
  "threads (upd_mutex m f s) = threads s"
  "mutexes (upd_mutex m f s) = (mutexes s)(m := f (mutexes s m))"
  "wakeups (upd_mutex m f s) = wakeups s"
  "head_thread (upd_mutex m f s) = head_thread s"
  "current_thread (upd_mutex m f s) = current_thread s"
  "idle_thread (upd_mutex m f s) = idle_thread s"
  "dbgwakeup (upd_mutex m f s) = dbgwakeup s"
  "last_tick (upd_mutex m f s) = last_tick s"
  "scheduler_frozen (upd_mutex m f s) = scheduler_frozen s"
  "usec_timer (upd_mutex m f s) = usec_timer s"
  "timer_wakeup (upd_mutex m f s) = timer_wakeup s"
  "stackmem (upd_mutex m f s) = stackmem s"
  by (simp_all add: upd_mutex_def)

lemma upd_wakeup_sel [simp]:
  "threads (upd_wakeup w f s) = threads s"
  "mutexes (upd_wakeup w f s) = mutexes s"
  "wakeups (upd_wakeup w f s) = (wakeups s)(w := f (wakeups s w))"
  "head_thread (upd_wakeup w f s) = head_thread s"
  "current_thread (upd_wakeup w f s) = current_thread s"
  "idle_thread (upd_wakeup w f s) = idle_thread s"
  "dbgwakeup (upd_wakeup w f s) = dbgwakeup s"
  "last_tick (upd_wakeup w f s) = last_tick s"
  "scheduler_frozen (upd_wakeup w f s) = scheduler_frozen s"
  "usec_timer (upd_wakeup w f s) = usec_timer s"
  "timer_wakeup (upd_wakeup w f s) = timer_wakeup s"
  "stackmem (upd_wakeup w f s) = stackmem s"
  by (simp_all add: upd_wakeup_def)

text \<open>The three link fields of the kernel's structures.\<close>

definition queue_next :: "kstate \<Rightarrow> tid \<Rightarrow> tid option" where
  "queue_next s t = t_queue_next (threads s t)"

definition set_queue_next :: "tid \<Rightarrow> tid option \<Rightarrow> kstate \<Rightarrow> kstate" where
  "set_queue_next t p = upd_thread t (\<lambda>r. r\<lparr>t_queue_next := p\<rparr>)"

definition thread_next :: "kstate \<Rightarrow> tid \<Rightarrow> tid option" where
  "thread_next s t = t_thread_next (threads s t)"

definition set_thread_next :: "tid \<Rightarrow> tid option \<Rightarrow> kstate \<Rightarrow> kstate" where
  "set_thread_next t p = upd_thread t (\<lambda>r. r\<lparr>t_thread_next := p\<rparr>)"

definition owned_next :: "kstate \<Rightarrow> mid \<Rightarrow> mid option" where
  "owned_next s m = m_owned_next (mutexes s m)"

definition set_owned_next :: "mid \<Rightarrow> mid option \<Rightarrow> kstate \<Rightarrow> kstate" where
  "set_owned_next m p = upd_mutex m (\<lambda>r. r\<lparr>m_owned_next := p\<rparr>)"

interpretation queue: chain queue_next set_queue_next
  by unfold_locales (auto simp: queue_next_def set_queue_next_def)

interpretation owned: chain owned_next set_owned_next
  by unfold_locales (auto simp: owned_next_def set_owned_next_def)

interpretation tlist: chain thread_next set_thread_next
  by unfold_locales (auto simp: thread_next_def set_thread_next_def)

section \<open>Mutexes (thread.c)\<close>

definition mutex_init :: "mid \<Rightarrow> kstate \<Rightarrow> kstate" where
  "mutex_init obj = upd_mutex obj
     (\<lambda>_. \<lparr>m_owner = None, m_waiters = None, m_owned_next = None, m_count = 0\<rparr>)"

text \<open>The scan of the waiters: \<open>while (t->queue_next && t->queue_next->priority > thread->priority)\<close>.\<close>

partial_function (option) queue_scan :: "u8 \<Rightarrow> tid \<Rightarrow> kstate \<Rightarrow> tid option" where
  "queue_scan prio t s = (case queue_next s t of
      None \<Rightarrow> Some t
    | Some n \<Rightarrow> if t_priority (threads s n) > prio then queue_scan prio n s else Some t)"

declare queue_scan.simps [code]

definition mutex_add_to_queue :: "mid \<Rightarrow> tid \<Rightarrow> kstate \<Rightarrow> kstate option" where
  "mutex_add_to_queue obj thread s =
     (let prio = t_priority (threads s thread) in
      case m_waiters (mutexes s obj) of
        None \<Rightarrow> Some (upd_mutex obj (\<lambda>r. r\<lparr>m_waiters := Some thread\<rparr>)
                       (set_queue_next thread None s))
      | Some w \<Rightarrow>
          if t_priority (threads s w) \<le> prio
          then Some (upd_mutex obj (\<lambda>r. r\<lparr>m_waiters := Some thread\<rparr>)
                      (set_queue_next thread (Some w) s))
          else do {
            t \<leftarrow> queue_scan prio w s;
            Some (set_queue_next t (Some thread) (set_queue_next thread (queue_next s t) s)) })"

definition mutex_remove_from_queue :: "mid \<Rightarrow> tid \<Rightarrow> kstate \<Rightarrow> kstate option" where
  "mutex_remove_from_queue obj thread s =
     (case m_waiters (mutexes s obj) of
        None \<Rightarrow> Some s
      | Some w \<Rightarrow>
          if w = thread
          then Some (upd_mutex obj (\<lambda>r. r\<lparr>m_waiters := queue_next s thread\<rparr>) s)
          else unlink_loop queue_next set_queue_next thread (Some w) s)"

text \<open>
  \<open>mutex_lock\<close> up to its \<open>yield()\<close>, and the test it makes when it runs again.
\<close>

definition mutex_lock :: "mid \<Rightarrow> u32 \<Rightarrow> kstate \<Rightarrow> (outcome \<times> kstate) option" where
  "mutex_lock obj timeout s =
     (let cur = current_thread s; mx = mutexes s obj in
      if m_count mx = 0 then
        Some (Ret THREAD_OK,
          upd_thread cur (\<lambda>r. r\<lparr>t_owned_mutexes := Some obj\<rparr>)
           (upd_mutex obj (\<lambda>r. r\<lparr>m_count := 1, m_owner := Some cur,
                m_owned_next := t_owned_mutexes (threads s cur)\<rparr>) s))
      else if m_owner mx = Some cur then
        do { check (m_count mx < INT_MAX);
             Some (Ret THREAD_OK, upd_mutex obj (\<lambda>r. r\<lparr>m_count := m_count r + 1\<rparr>) s) }
      else if timeout \<noteq> 0 then do {
        s' \<leftarrow> mutex_add_to_queue obj cur
          (upd_thread cur (\<lambda>r. r\<lparr>t_state := THREAD_BLOCKED, t_block_type := THREAD_BLOCK_MUTEX,
              t_blocked_by := Some obj, t_timeout := timeout, t_blocked_since := usec_timer s\<rparr>) s);
        Some (Blocks, s') }
      else Some (Ret THREAD_TIMEOUT, s))"

definition mutex_lock_resumed :: "mid \<Rightarrow> kstate \<Rightarrow> int" where
  "mutex_lock_resumed obj s =
     (if m_owner (mutexes s obj) \<noteq> Some (current_thread s) then THREAD_TIMEOUT else THREAD_OK)"

text \<open>The fields that are set when a blocked thread becomes ready.\<close>

definition make_ready :: "tid \<Rightarrow> kstate \<Rightarrow> kstate" where
  "make_ready t = upd_thread t (\<lambda>r. r\<lparr>t_state := THREAD_READY, t_block_type := THREAD_NOT_BLOCKED,
     t_blocked_by := None, t_timeout := 0\<rparr>)"

text \<open>The second half of \<open>mutex_unlock_internal\<close>: the mutex goes to its first waiter or is freed.\<close>

definition mutex_hand_over :: "mid \<Rightarrow> kstate \<Rightarrow> kstate" where
  "mutex_hand_over obj s = (case m_waiters (mutexes s obj) of
      Some w \<Rightarrow>
        let s1 = make_ready w (upd_mutex obj (\<lambda>r. r\<lparr>m_count := 1, m_owner := Some w\<rparr>) s);
            s2 = upd_mutex obj (\<lambda>r. r\<lparr>m_waiters := queue_next s1 w,
                   m_owned_next := t_owned_mutexes (threads s1 w)\<rparr>) s1
        in upd_thread w (\<lambda>r. r\<lparr>t_owned_mutexes := Some obj\<rparr>) s2
    | None \<Rightarrow> upd_mutex obj (\<lambda>r. r\<lparr>m_count := 0\<rparr>) s)"

definition mutex_unlock_internal :: "mid \<Rightarrow> kstate \<Rightarrow> kstate option" where
  "mutex_unlock_internal obj s = do {
     ow \<leftarrow> m_owner (mutexes s obj);
     (case t_owned_mutexes (threads s ow) of
        None \<Rightarrow> Some s
      | Some o1 \<Rightarrow> do {
          s' \<leftarrow> (if o1 = obj
                then Some (upd_thread ow (\<lambda>r. r\<lparr>t_owned_mutexes := owned_next s obj\<rparr>) s)
                else unlink_loop owned_next set_owned_next obj (Some o1) s);
          Some (mutex_hand_over obj s') }) }"

section \<open>Panics (panic.c)\<close>

text \<open>All threads, in the order of the kernel's thread list.\<close>

definition thread_list :: "kstate \<Rightarrow> tid list option" where
  "thread_list s = walk (thread_next s) (head_thread s)"

definition suspend_if_user :: "tid \<Rightarrow> kstate \<Rightarrow> kstate" where
  "suspend_if_user t s = (if t_type (threads s t) = USER_THREAD
     then upd_thread t (\<lambda>r. r\<lparr>t_state := THREAD_SUSPENDED\<rparr>) s else s)"

text \<open>
  \<open>handle_panic\<close>, called in thread mode: \<open>panic_fatal\<close> hangs; otherwise \<open>panic_recover\<close> yields and
  the thread is never scheduled again.
\<close>

definition handle_panic :: "panic_severity \<Rightarrow> kstate \<Rightarrow> kstate option" where
  "handle_panic severity s =
     (if severity = PANIC_FATAL then None
      else do {
        s1 \<leftarrow> (if severity = PANIC_KILLUSERTHREADS
               then do { ts \<leftarrow> thread_list s; Some (fold suspend_if_user ts s) }
               else Some s);
        Some (upd_thread (current_thread s1)
          (\<lambda>r. r\<lparr>t_state := THREAD_DEFUNCT_ACK, t_block_type := THREAD_DEFUNCT_PANIC\<rparr>) s1) })"

definition panics :: "kstate \<Rightarrow> (outcome \<times> kstate) option" where
  "panics s = do { s' \<leftarrow> handle_panic PANIC_KILLTHREAD s; Some (Panics, s') }"

definition mutex_unlock :: "mid \<Rightarrow> kstate \<Rightarrow> (outcome \<times> kstate) option" where
  "mutex_unlock obj s =
     (if m_count (mutexes s obj) = 0 then panics s
      else if m_owner (mutexes s obj) \<noteq> Some (current_thread s) then panics s
      else
        let s1 = upd_mutex obj (\<lambda>r. r\<lparr>m_count := m_count r - 1\<rparr>) s in
        if m_count (mutexes s1 obj) \<noteq> 0 then Some (Ret (m_count (mutexes s1 obj)), s1)
        else do { s2 \<leftarrow> mutex_unlock_internal obj s1; Some (Ret THREAD_OK, s2) })"

section \<open>The scheduler (thread.c)\<close>

definition scheduler_init :: "kstate \<Rightarrow> kstate" where
  "scheduler_init s = s\<lparr>last_tick := usec_timer s, scheduler_frozen := False,
     head_thread := Some (idle_thread s), current_thread := idle_thread s,
     threads := (threads s)(idle_thread s :=
       \<lparr>t_regs = replicate 16 0, t_cpsr = 0, t_state = THREAD_RUNNING, t_name = Some ''idle thread'',
        t_cputime_current = 0, t_cputime_total = 0, t_startusec = usec_timer s,
        t_thread_next = None, t_queue_next = None, t_owned_mutexes = None, t_timeout = 0,
        t_blocked_since = 0, t_blocked_by = None, t_stack = - 1, t_err_no = 0,
        t_block_type = THREAD_NOT_BLOCKED, t_type = CORE_THREAD, t_priority = 0, t_cpuload = 0\<rparr>)\<rparr>"

definition scheduler_freeze :: "bool \<Rightarrow> kstate \<Rightarrow> bool \<times> kstate" where
  "scheduler_freeze v s = (scheduler_frozen s, s\<lparr>scheduler_frozen := v\<rparr>)"

definition scheduler_pause_accounting :: "kstate \<Rightarrow> kstate" where
  "scheduler_pause_accounting s =
     (let usec = usec_timer s in
      upd_thread (current_thread s)
        (\<lambda>r. r\<lparr>t_cputime_total := t_cputime_total r + ucast (usec - t_startusec r),
                t_cputime_current := t_cputime_current r + (usec - t_startusec r)\<rparr>) s)"

definition scheduler_resume_accounting :: "kstate \<Rightarrow> kstate" where
  "scheduler_resume_accounting s =
     upd_thread (current_thread s) (\<lambda>r. r\<lparr>t_startusec := usec_timer s\<rparr>) s"

text \<open>
  The first part of \<open>scheduler_switch\<close>: a running thread becomes ready, and a thread whose stack
  canary is gone takes all user threads with it. \<open>wakeup_signal(&dbgwakeup)\<close> readies the debugger's
  waiter; were the current thread the idle thread, it would enter \<open>scheduler_switch\<close> again
  with the same canary, and so on without end.
\<close>

definition stack_smashed :: "kstate \<Rightarrow> bool" where
  "stack_smashed s = (let cur = threads s (current_thread s) in
     t_stack cur \<noteq> - 1 \<and> stackmem s (t_stack cur) \<noteq> STACK_CANARY)"

definition preempt_current :: "kstate \<Rightarrow> kstate" where
  "preempt_current s = upd_thread (current_thread s)
     (\<lambda>r. if t_state r = THREAD_RUNNING then r\<lparr>t_state := THREAD_READY\<rparr> else r) s"

definition stack_overflow :: "kstate \<Rightarrow> kstate option" where
  "stack_overflow s = do {
     ts \<leftarrow> thread_list s;
     let s1 = upd_thread (current_thread s)
        (\<lambda>r. r\<lparr>t_state := THREAD_DEFUNCT, t_block_type := THREAD_DEFUNCT_STKOV\<rparr>)
        (fold suspend_if_user ts s);
     let s2 = upd_wakeup (dbgwakeup s1) (\<lambda>r. r\<lparr>w_signalled := True\<rparr>) s1;
     (case w_waiter (wakeups s2 (dbgwakeup s2)) of
        None \<Rightarrow> Some s2
      | Some w \<Rightarrow> do { check (current_thread s2 \<noteq> idle_thread s2); Some (make_ready w s2) }) }"

text \<open>The CPU load figures, renewed every \<open>SCHEDULER_TICK\<close> microseconds.\<close>

definition update_load :: "u32 \<Rightarrow> tid \<Rightarrow> kstate \<Rightarrow> kstate" where
  "update_load diff t = upd_thread t
     (\<lambda>r. r\<lparr>t_cpuload := ucast (255 * t_cputime_current r div diff), t_cputime_current := 0\<rparr>)"

definition account_tick :: "kstate \<Rightarrow> kstate option" where
  "account_tick s =
     (let usec = usec_timer s in
      if usec - last_tick s > SCHEDULER_TICK
      then do { ts \<leftarrow> thread_list s;
                Some (fold (update_load (usec - last_tick s)) ts (s\<lparr>last_tick := usec\<rparr>)) }
      else Some s)"

text \<open>
  One round of the loop that wakes threads whose timeout has passed, with \<open>next_unblock\<close>, the
  shortest time that a thread still has to wait.
\<close>

definition has_timeout :: "scheduler_thread \<Rightarrow> bool" where
  "has_timeout r \<longleftrightarrow> t_state r = THREAD_BLOCKED \<and> t_timeout r \<noteq> TIMEOUT_BLOCK"

definition expire_thread :: "u32 \<Rightarrow> tid \<Rightarrow> kstate \<times> u32 \<Rightarrow> (kstate \<times> u32) option" where
  "expire_thread usec t = (\<lambda>(s, next_unblock).
     let r = threads s t in
     if has_timeout r \<and> TIME_AFTER usec (t_blocked_since r + t_timeout r) then do {
       s1 \<leftarrow> (if t_block_type r = THREAD_BLOCK_MUTEX
              then do { m \<leftarrow> t_blocked_by r; mutex_remove_from_queue m t s }
              else Some s);
       Some (make_ready t s1, next_unblock) }
     else if has_timeout r then
       (let left = t_blocked_since r + t_timeout r - usec in
        Some (s, if left < next_unblock then left else next_unblock))
     else Some (s, next_unblock))"

text \<open>The ready thread with the least CPU time per priority; \<open>block\<close> only if nothing else is ready.\<close>

definition score :: "tid option \<Rightarrow> tid \<Rightarrow> scheduler_thread \<Rightarrow> u32" where
  "score block t r = (if block = Some t then 0xfffffffe
     else t_cputime_current r div ucast (t_priority r))"

definition pick_step :: "kstate \<Rightarrow> tid option \<Rightarrow> tid \<Rightarrow> u32 \<times> tid \<Rightarrow> u32 \<times> tid" where
  "pick_step s block t = (\<lambda>(best, thread).
     let r = threads s t in
     if t_state r = THREAD_READY \<and> t_priority r \<noteq> 0 \<and> score block t r < best
     then (score block t r, t) else (best, thread))"

definition pick_thread :: "kstate \<Rightarrow> tid option \<Rightarrow> tid list \<Rightarrow> tid" where
  "pick_thread s block ts = snd (fold (pick_step s block) ts (0xffffffff, idle_thread s))"

definition timer_schedule_wakeup :: "u32 \<Rightarrow> kstate \<Rightarrow> kstate" where
  "timer_schedule_wakeup usecs s = s\<lparr>timer_wakeup := Some usecs\<rparr>"

definition timer_kill_wakeup :: "kstate \<Rightarrow> kstate" where
  "timer_kill_wakeup s = s\<lparr>timer_wakeup := None\<rparr>"

definition choose_thread :: "tid option \<Rightarrow> tid option \<Rightarrow> kstate \<Rightarrow> (tid \<times> kstate) option" where
  "choose_thread thread block s =
     (if scheduler_frozen s then Some (idle_thread s, s)
      else do {
        ts \<leftarrow> thread_list s;
        (s1, next_unblock) \<leftarrow> foldM (expire_thread (usec_timer s)) ts (s, 0xffffffff);
        let t = (case thread of
            None \<Rightarrow> pick_thread s1 block ts
          | Some t \<Rightarrow> if t_state (threads s1 t) \<noteq> THREAD_READY
                       then pick_thread s1 block ts else t);
        Some (t, timer_schedule_wakeup (if t = idle_thread s1 then next_unblock else SYSTEM_TICK) s1) })"

definition scheduler_switch :: "tid option \<Rightarrow> tid option \<Rightarrow> kstate \<Rightarrow> kstate option" where
  "scheduler_switch thread block s = do {
     let s1 = preempt_current s;
     s2 \<leftarrow> (if stack_smashed s1 then stack_overflow s1 else Some s1);
     s3 \<leftarrow> account_tick (timer_kill_wakeup s2);
     (t, s4) \<leftarrow> choose_thread thread block s3;
     Some (upd_thread t (\<lambda>r. r\<lparr>t_state := THREAD_RUNNING\<rparr>) (s4\<lparr>current_thread := t\<rparr>)) }"

text \<open>\<open>yield\<close> and \<open>leave_thread\<close> (arm/contextswitch.S), up to the return into the new thread.\<close>

definition yield :: "kstate \<Rightarrow> kstate option" where
  "yield s = do {
     s' \<leftarrow> scheduler_switch None (Some (current_thread s)) (scheduler_pause_accounting s);
     Some (scheduler_resume_accounting s') }"

definition leave_thread :: "kstate \<Rightarrow> kstate option" where
  "leave_thread s = do {
     s' \<leftarrow> scheduler_switch None None s;
     Some (scheduler_resume_accounting s') }"

section \<open>Wakeups and sleeping (thread.c)\<close>

definition wakeup_init :: "wid \<Rightarrow> kstate \<Rightarrow> kstate" where
  "wakeup_init obj = upd_wakeup obj (\<lambda>_. \<lparr>w_waiter = None, w_signalled = False\<rparr>)"

definition wakeup_wait :: "wid \<Rightarrow> u32 \<Rightarrow> kstate \<Rightarrow> (outcome \<times> kstate) option" where
  "wakeup_wait obj timeout s =
     (let cur = current_thread s in
      if w_waiter (wakeups s obj) \<noteq> None then panics s
      else if w_signalled (wakeups s obj) then
        Some (Ret THREAD_OK, upd_wakeup obj (\<lambda>r. r\<lparr>w_signalled := False\<rparr>) s)
      else if timeout \<noteq> 0 then
        Some (Blocks, upd_wakeup obj (\<lambda>r. r\<lparr>w_waiter := Some cur\<rparr>)
          (upd_thread cur (\<lambda>r. r\<lparr>t_state := THREAD_BLOCKED, t_block_type := THREAD_BLOCK_WAKEUP,
              t_blocked_by := Some obj, t_timeout := timeout, t_blocked_since := usec_timer s\<rparr>) s))
      else Some (Ret THREAD_TIMEOUT, s))"

definition wakeup_wait_resumed :: "wid \<Rightarrow> kstate \<Rightarrow> int \<times> kstate" where
  "wakeup_wait_resumed obj s =
     (let s1 = upd_wakeup obj (\<lambda>r. r\<lparr>w_waiter := None\<rparr>) s in
      if \<not> w_signalled (wakeups s1 obj) then (THREAD_TIMEOUT, s1)
      else (THREAD_OK, upd_wakeup obj (\<lambda>r. r\<lparr>w_signalled := False\<rparr>) s1))"

definition wakeup_signal :: "wid \<Rightarrow> kstate \<Rightarrow> (int \<times> kstate) option" where
  "wakeup_signal obj s =
     (let s1 = upd_wakeup obj (\<lambda>r. r\<lparr>w_signalled := True\<rparr>) s in
      case w_waiter (wakeups s1 obj) of
        None \<Rightarrow> Some (THREAD_OK, s1)
      | Some w \<Rightarrow>
          let s2 = make_ready w s1 in
          if current_thread s2 = idle_thread s2
          then do { s3 \<leftarrow> scheduler_switch (Some w) None s2; Some (THREAD_FOUND, s3) }
          else Some (THREAD_FOUND, s2))"

text \<open>\<open>sleep\<close> up to its \<open>yield()\<close>.\<close>

definition sleep :: "u32 \<Rightarrow> kstate \<Rightarrow> kstate" where
  "sleep usecs s =
     (if usecs \<noteq> 0
      then upd_thread (current_thread s) (\<lambda>r. r\<lparr>t_state := THREAD_BLOCKED,
             t_block_type := THREAD_BLOCK_SLEEP, t_timeout := usecs, t_blocked_since := usec_timer s\<rparr>) s
      else s)"

section \<open>Thread control (thread.c)\<close>

text \<open>
  The part of \<open>thread_create\<close> after its allocations: the stack gets its canaries, the structure its
  initial registers, and the thread its place in the list, right behind the head.
\<close>

definition paint_stack :: "u32 \<Rightarrow> int \<Rightarrow> kstate \<Rightarrow> kstate" where
  "paint_stack stack stacksize s = s\<lparr>stackmem :=
     fold (\<lambda>i mem. mem(stack + of_nat (4 * i) := STACK_CANARY)) [0..<nat (stacksize div 4)] (stackmem s)\<rparr>"

definition new_thread :: "string option \<Rightarrow> u32 \<Rightarrow> u32 \<Rightarrow> u32 \<Rightarrow> int \<Rightarrow> thread_type \<Rightarrow> int \<Rightarrow> bool
    \<Rightarrow> u32 \<Rightarrow> u32 \<Rightarrow> u32 \<Rightarrow> u32 \<Rightarrow> scheduler_thread" where
  "new_thread name code exit_code stack stacksize type priority run arg0 arg1 arg2 arg3 =
     \<lparr>t_regs = [arg0, arg1, arg2, arg3] @ replicate 9 0 @ [stack + word_of_int stacksize, exit_code, code],
      t_cpsr = 0x1f, t_state = (if run then THREAD_READY else THREAD_SUSPENDED), t_name = name,
      t_cputime_current = 0, t_cputime_total = 0, t_startusec = 0,
      t_thread_next = None, t_queue_next = None, t_owned_mutexes = None, t_timeout = 0,
      t_blocked_since = 0, t_blocked_by = None, t_stack = stack, t_err_no = 0,
      t_block_type = THREAD_NOT_BLOCKED, t_type = type, t_priority = word_of_int priority,
      t_cpuload = 0\<rparr>"

definition link_thread :: "tid \<Rightarrow> kstate \<Rightarrow> kstate option" where
  "link_thread thread s = do {
     h \<leftarrow> head_thread s;
     Some (set_thread_next h (Some thread) (set_thread_next thread (thread_next s h) s)) }"

definition thread_create_with :: "tid \<Rightarrow> string option \<Rightarrow> u32 \<Rightarrow> u32 \<Rightarrow> u32 \<Rightarrow> int \<Rightarrow> thread_type \<Rightarrow> int
    \<Rightarrow> bool \<Rightarrow> u32 \<Rightarrow> u32 \<Rightarrow> u32 \<Rightarrow> u32 \<Rightarrow> kstate \<Rightarrow> kstate option" where
  "thread_create_with thread name code exit_code stack stacksize type priority run arg0 arg1 arg2 arg3 s =
     link_thread thread
       (upd_thread thread
         (\<lambda>_. new_thread name code exit_code stack stacksize type priority run arg0 arg1 arg2 arg3)
         (paint_stack stack stacksize s))"

definition the_thread :: "tid option \<Rightarrow> kstate \<Rightarrow> tid" where
  "the_thread thread s = (case thread of None \<Rightarrow> current_thread s | Some t \<Rightarrow> t)"

text \<open>What is left of a blocked thread's timeout is kept while it is suspended.\<close>

definition stop_timeout :: "kstate \<Rightarrow> scheduler_thread \<Rightarrow> scheduler_thread" where
  "stop_timeout s r = (if t_timeout r \<noteq> TIMEOUT_BLOCK
     then r\<lparr>t_timeout := t_timeout r - (usec_timer s - t_blocked_since r)\<rparr> else r)"

definition thread_suspend :: "tid option \<Rightarrow> kstate \<Rightarrow> (outcome \<times> kstate) option" where
  "thread_suspend thread s =
     (let t = the_thread thread s; r = threads s t in
      if t_state r = THREAD_SUSPENDED then Some (Ret ALREADY_SUSPENDED, s)
      else do {
        s1 \<leftarrow> (if t_state r = THREAD_BLOCKED then
                (case t_block_type r of
                   THREAD_BLOCK_SLEEP \<Rightarrow> Some (upd_thread t (stop_timeout s) s)
                 | THREAD_BLOCK_MUTEX \<Rightarrow> do {
                     m \<leftarrow> t_blocked_by r;
                     s' \<leftarrow> mutex_remove_from_queue m t s;
                     Some (upd_thread t (stop_timeout s) s') }
                 | THREAD_BLOCK_WAKEUP \<Rightarrow> Some (upd_thread t (stop_timeout s) s)
                 | _ \<Rightarrow> Some s)
               else Some s);
        Some (if t_state r = THREAD_RUNNING then Blocks else Ret THREAD_OK,
              upd_thread t (\<lambda>r. r\<lparr>t_state := THREAD_SUSPENDED\<rparr>) s1) })"

definition thread_resume :: "tid option \<Rightarrow> kstate \<Rightarrow> (outcome \<times> kstate) option" where
  "thread_resume thread s =
     (let t = the_thread thread s; r = threads s t in
      if t_state r \<noteq> THREAD_SUSPENDED then Some (Ret ALREADY_RESUMED, s)
      else do {
        s1 \<leftarrow> (case t_block_type r of
            THREAD_BLOCK_SLEEP \<Rightarrow> Some (upd_thread t (\<lambda>r. r\<lparr>t_blocked_since := usec_timer s\<rparr>) s)
          | THREAD_BLOCK_MUTEX \<Rightarrow> do {
              m \<leftarrow> t_blocked_by r;
              s' \<leftarrow> mutex_add_to_queue m t s;
              Some (upd_thread t (\<lambda>r. r\<lparr>t_blocked_since := usec_timer s, t_state := THREAD_BLOCKED\<rparr>) s') }
          | THREAD_BLOCK_WAKEUP \<Rightarrow>
              Some (upd_thread t (\<lambda>r. r\<lparr>t_blocked_since := usec_timer s, t_state := THREAD_BLOCKED\<rparr>) s)
          | _ \<Rightarrow> Some (upd_thread t (\<lambda>r. r\<lparr>t_state := THREAD_READY\<rparr>) s));
        Some (Ret THREAD_OK, s1) })"

definition thread_set_name :: "tid option \<Rightarrow> string option \<Rightarrow> kstate \<Rightarrow> kstate" where
  "thread_set_name thread name s = upd_thread (the_thread thread s) (\<lambda>r. r\<lparr>t_name := name\<rparr>) s"

definition thread_set_priority :: "tid option \<Rightarrow> int \<Rightarrow> kstate \<Rightarrow> kstate" where
  "thread_set_priority thread priority s =
     upd_thread (the_thread thread s) (\<lambda>r. r\<lparr>t_priority := word_of_int priority\<rparr>) s"

definition thread_get_state :: "tid \<Rightarrow> kstate \<Rightarrow> thread_state" where
  "thread_get_state thread s = t_state (threads s thread)"

text \<open>
  \<open>thread_terminate_internal\<close> down to the calls into the other components. For a thread that is
  blocked on a mutex it reads \<open>t->blocked_by\<close> while \<open>t\<close> has not been initialised: the parameter
  \<open>junk\<close> is the address that the variable happens to hold. The loop over the thread's
  mutexes takes the link of a mutex after that mutex has been unlocked.
\<close>

partial_function (option) unlock_all :: "mid option \<Rightarrow> kstate \<Rightarrow> kstate option" where
  "unlock_all m s = (case m of
      None \<Rightarrow> Some s
    | Some m \<Rightarrow> do { s' \<leftarrow> mutex_unlock_internal m s; unlock_all (owned_next s' m) s' })"

declare unlock_all.simps [code]

definition terminate_detach :: "tid \<Rightarrow> tid option \<Rightarrow> kstate \<Rightarrow> (bool \<times> kstate) option" where
  "terminate_detach junk thread s =
     (let t = the_thread thread s; r = threads s t in
      do {
        s1 \<leftarrow> (if t_state r = THREAD_RUNNING then Some s
               else do {
                 s' \<leftarrow> (if t_state r = THREAD_BLOCKED then
                         (case t_block_type r of
                            THREAD_BLOCK_MUTEX \<Rightarrow> do {
                              m \<leftarrow> t_blocked_by (threads s junk);
                              mutex_remove_from_queue m t s }
                          | THREAD_BLOCK_WAKEUP \<Rightarrow> do {
                              w \<leftarrow> t_blocked_by r;
                              Some (upd_wakeup w (\<lambda>x. x\<lparr>w_waiter := None\<rparr>) s) }
                          | _ \<Rightarrow> Some s)
                       else Some s);
                 Some (upd_thread t (\<lambda>r. r\<lparr>t_state := THREAD_SUSPENDED\<rparr>) s') });
        s2 \<leftarrow> unlock_all (t_owned_mutexes (threads s1 t)) s1;
        Some (t_state r = THREAD_RUNNING, s2) })"

text \<open>The end of \<open>thread_terminate_internal\<close>: the thread leaves the thread list.\<close>

partial_function (option) find_predecessor :: "tid \<Rightarrow> tid option \<Rightarrow> kstate \<Rightarrow> tid option option" where
  "find_predecessor thread t s = (case t of
      None \<Rightarrow> Some None
    | Some t \<Rightarrow> if thread_next s t = Some thread then Some (Some t)
                else find_predecessor thread (thread_next s t) s)"

declare find_predecessor.simps [code]

definition terminate_unlink :: "tid \<Rightarrow> kstate \<Rightarrow> kstate option" where
  "terminate_unlink thread s = do {
     p \<leftarrow> find_predecessor thread (head_thread s) s;
     Some (case p of None \<Rightarrow> s | Some t \<Rightarrow> set_thread_next t (thread_next s thread) s) }"

section \<open>Waiters as lists\<close>

definition waiters :: "kstate \<Rightarrow> mid \<Rightarrow> tid list \<Rightarrow> bool" where
  "waiters s obj ws = linked (queue_next s) (m_waiters (mutexes s obj)) ws"

definition priority_of :: "kstate \<Rightarrow> tid \<Rightarrow> u8" where
  "priority_of s t = t_priority (threads s t)"

text \<open>Where a new waiter belongs: before the first one whose priority is not higher.\<close>

fun insert_prio :: "('t \<Rightarrow> 'p::linorder) \<Rightarrow> 't \<Rightarrow> 't list \<Rightarrow> 't list" where
  "insert_prio pr t [] = [t]"
| "insert_prio pr t (w # ws) = (if pr w \<le> pr t then t # w # ws else w # insert_prio pr t ws)"

lemma set_insert_prio [simp]: "set (insert_prio pr t ws) = insert t (set ws)"
  by (induction ws) auto

lemma insert_prio_sorted:
  "sorted_wrt (\<lambda>a b. pr b \<le> pr a) ws \<Longrightarrow> sorted_wrt (\<lambda>a b. pr b \<le> pr a) (insert_prio pr t ws)"
  by (induction ws) auto

text \<open>
  Two states that differ at most in the waiter queue of one mutex: in the head of that queue
  and in the queue links of the threads \<open>A\<close>. The \<open>core\<close> of a state leaves both out.
\<close>

definition core :: "kstate \<Rightarrow> kstate" where
  "core s = s\<lparr>threads := (\<lambda>t. (threads s t)\<lparr>t_queue_next := None\<rparr>),
              mutexes := (\<lambda>m. (mutexes s m)\<lparr>m_waiters := None\<rparr>)\<rparr>"

definition queue_change :: "mid \<Rightarrow> tid set \<Rightarrow> kstate \<Rightarrow> kstate \<Rightarrow> bool" where
  "queue_change obj A s s' \<longleftrightarrow> core s' = core s
   \<and> (\<forall>t. t \<notin> A \<longrightarrow> queue_next s' t = queue_next s t)
   \<and> (\<forall>m. m \<noteq> obj \<longrightarrow> m_waiters (mutexes s' m) = m_waiters (mutexes s m))"

lemma core_thread:
  assumes "core s' = core s"
  shows "(threads s' t)\<lparr>t_queue_next := None\<rparr> = (threads s t)\<lparr>t_queue_next := None\<rparr>"
  using arg_cong [OF assms, of "\<lambda>s. threads s t"] by (simp add: core_def)

lemma core_mutex:
  assumes "core s' = core s"
  shows "(mutexes s' m)\<lparr>m_waiters := None\<rparr> = (mutexes s m)\<lparr>m_waiters := None\<rparr>"
  using arg_cong [OF assms, of "\<lambda>s. mutexes s m"] by (simp add: core_def)

lemma core_thread_fields:
  assumes "core s' = core s"
  shows "t_state (threads s' t) = t_state (threads s t)"
    and "t_block_type (threads s' t) = t_block_type (threads s t)"
    and "t_blocked_by (threads s' t) = t_blocked_by (threads s t)"
    and "t_timeout (threads s' t) = t_timeout (threads s t)"
    and "t_blocked_since (threads s' t) = t_blocked_since (threads s t)"
    and "t_priority (threads s' t) = t_priority (threads s t)"
    and "t_owned_mutexes (threads s' t) = t_owned_mutexes (threads s t)"
    and "t_cputime_current (threads s' t) = t_cputime_current (threads s t)"
    and "t_thread_next (threads s' t) = t_thread_next (threads s t)"
    and "t_type (threads s' t) = t_type (threads s t)"
  using arg_cong [OF core_thread [OF assms, of t], of t_state]
    arg_cong [OF core_thread [OF assms, of t], of t_block_type]
    arg_cong [OF core_thread [OF assms, of t], of t_blocked_by]
    arg_cong [OF core_thread [OF assms, of t], of t_timeout]
    arg_cong [OF core_thread [OF assms, of t], of t_blocked_since]
    arg_cong [OF core_thread [OF assms, of t], of t_priority]
    arg_cong [OF core_thread [OF assms, of t], of t_owned_mutexes]
    arg_cong [OF core_thread [OF assms, of t], of t_cputime_current]
    arg_cong [OF core_thread [OF assms, of t], of t_thread_next]
    arg_cong [OF core_thread [OF assms, of t], of t_type]
  by simp_all

lemma core_mutex_fields:
  assumes "core s' = core s"
  shows "m_owner (mutexes s' m) = m_owner (mutexes s m)"
    and "m_count (mutexes s' m) = m_count (mutexes s m)"
    and "m_owned_next (mutexes s' m) = m_owned_next (mutexes s m)"
  using arg_cong [OF core_mutex [OF assms, of m], of m_owner]
    arg_cong [OF core_mutex [OF assms, of m], of m_count]
    arg_cong [OF core_mutex [OF assms, of m], of m_owned_next]
  by simp_all

lemma core_globals:
  assumes "core s' = core s"
  shows "wakeups s' = wakeups s" "head_thread s' = head_thread s"
    "current_thread s' = current_thread s" "idle_thread s' = idle_thread s"
    "dbgwakeup s' = dbgwakeup s" "last_tick s' = last_tick s"
    "scheduler_frozen s' = scheduler_frozen s" "usec_timer s' = usec_timer s"
    "timer_wakeup s' = timer_wakeup s" "stackmem s' = stackmem s"
  using arg_cong [OF assms, of wakeups] arg_cong [OF assms, of head_thread]
    arg_cong [OF assms, of current_thread] arg_cong [OF assms, of idle_thread]
    arg_cong [OF assms, of dbgwakeup] arg_cong [OF assms, of last_tick]
    arg_cong [OF assms, of scheduler_frozen] arg_cong [OF assms, of usec_timer]
    arg_cong [OF assms, of timer_wakeup] arg_cong [OF assms, of stackmem]
  by (simp_all add: core_def)

lemmas core_fields = core_thread_fields core_mutex_fields core_globals

lemma core_owned_next: "core s' = core s \<Longrightarrow> owned_next s' = owned_next s"
  by (rule ext) (simp add: owned_next_def core_mutex_fields(3) [of s' s])

lemma core_thread_next: "core s' = core s \<Longrightarrow> thread_next s' = thread_next s"
  by (rule ext) (simp add: thread_next_def core_thread_fields(9) [of s' s])

lemma core_updates [simp]:
  "core (set_queue_next t p s) = core s"
  "core (upd_mutex m (\<lambda>r. r\<lparr>m_waiters := p\<rparr>) s) = core s"
  by (auto intro!: kstate.equality ext simp: core_def set_queue_next_def)

lemma queue_next_updates [simp]:
  "queue_next (set_queue_next t p s) = (queue_next s)(t := p)"
  "queue_next (upd_mutex m f s) = queue_next s"
  "mutexes (set_queue_next t p s) = mutexes s"
  by (rule queue.get_put, rule ext, simp add: queue_next_def, simp add: set_queue_next_def)

lemma queue_change_refl [simp]: "queue_change obj A s s"
  by (simp add: queue_change_def)

section \<open>Adding a waiter\<close>

lemma queue_scan_spec:
  assumes "linked (queue_next s) (Some w) (w # ws)" and "prio < priority_of s w"
  shows "\<exists>xs ys t. queue_scan prio w s = Some t \<and> w # ws = xs @ t # ys
    \<and> (\<forall>x \<in> set (xs @ [t]). prio < priority_of s x)
    \<and> (case ys of [] \<Rightarrow> True | y # _ \<Rightarrow> priority_of s y \<le> prio)"
  using assms
proof (induction ws arbitrary: w)
  case Nil
  then have "queue_scan prio w s = Some w" by (simp add: queue_scan.simps)
  with Nil show ?case by (intro exI [of _ "[]"] exI [of _ w]) simp
next
  case (Cons v vs)
  then have n: "queue_next s w = Some v" by simp
  show ?case
  proof (cases "prio < priority_of s v")
    case True
    with Cons obtain xs ys t where IH: "queue_scan prio v s = Some t" "v # vs = xs @ t # ys"
      "\<forall>x \<in> set (xs @ [t]). prio < priority_of s x"
      "case ys of [] \<Rightarrow> True | y # _ \<Rightarrow> priority_of s y \<le> prio" by fastforce
    moreover from n True have "queue_scan prio w s = queue_scan prio v s"
      by (subst queue_scan.simps) (simp add: priority_of_def)
    ultimately show ?thesis using Cons.prems
      by (intro exI [of _ "w # xs"] exI [of _ ys] exI [of _ t]) auto
  next
    case False
    with n have "queue_scan prio w s = Some w"
      by (subst queue_scan.simps) (simp add: priority_of_def)
    with False Cons.prems show ?thesis
      by (intro exI [of _ "[]"] exI [of _ "v # vs"] exI [of _ w]) auto
  qed
qed

lemma insert_prio_split:
  assumes "\<forall>x \<in> set xs. pr t < pr x" and "case ys of [] \<Rightarrow> True | y # _ \<Rightarrow> pr y \<le> pr t"
  shows "insert_prio pr t (xs @ ys) = xs @ t # ys"
  using assms by (induction xs) (auto split: list.splits)

lemma add_to_queue_spec:
  assumes "waiters s obj ws" and "t \<notin> set ws"
  obtains s' where "mutex_add_to_queue obj t s = Some s'"
    and "waiters s' obj (insert_prio (priority_of s) t ws)"
    and "queue_change obj (insert t (set ws)) s s'"
proof (cases ws)
  case Nil
  with assms have "m_waiters (mutexes s obj) = None" by (simp add: waiters_def)
  then show ?thesis using Nil
    by (intro that) (auto simp: mutex_add_to_queue_def waiters_def queue_change_def)
next
  case (Cons w vs)
  with assms have w: "m_waiters (mutexes s obj) = Some w"
    and l: "linked (queue_next s) (Some w) (w # vs)" by (auto simp: waiters_def)
  show ?thesis
  proof (cases "priority_of s w \<le> priority_of s t")
    case True
    let ?s = "upd_mutex obj (\<lambda>r. r\<lparr>m_waiters := Some t\<rparr>) (set_queue_next t (Some w) s)"
    from w True have "mutex_add_to_queue obj t s = Some ?s"
      by (simp add: mutex_add_to_queue_def Let_def priority_of_def)
    then show ?thesis
      using l assms(2) Cons True by (intro that) (auto simp: waiters_def queue_change_def)
  next
    case False
    then obtain xs ys u where u: "queue_scan (priority_of s t) w s = Some u" "w # vs = xs @ u # ys"
      and c: "\<forall>x \<in> set (xs @ [u]). priority_of s t < priority_of s x"
        "case ys of [] \<Rightarrow> True | y # _ \<Rightarrow> priority_of s y \<le> priority_of s t"
      using queue_scan_spec [OF l, of "priority_of s t"] by (auto simp: not_le)
    let ?s = "set_queue_next u (Some t) (set_queue_next t (queue_next s u) s)"
    from w False u have "mutex_add_to_queue obj t s = Some ?s"
      by (simp add: mutex_add_to_queue_def Let_def priority_of_def)
    moreover have "waiters ?s obj (insert_prio (priority_of s) t ws)"
    proof -
      from l u w have "linked (queue_next s) (m_waiters (mutexes s obj)) (xs @ u # ys)" by simp
      moreover from assms(2) Cons u have "t \<notin> set (xs @ u # ys)" by auto
      ultimately have "linked (queue_next ?s) (m_waiters (mutexes s obj)) (xs @ u # t # ys)"
        by (rule queue.insert_after)
      moreover have "insert_prio (priority_of s) t ws = xs @ u # t # ys"
        using insert_prio_split [of "xs @ [u]" "priority_of s" t ys] c Cons u by simp
      ultimately show ?thesis by (simp add: waiters_def)
    qed
    moreover have "queue_change obj (insert t (set ws)) s ?s"
      using u Cons by (auto simp: queue_change_def)
    ultimately show ?thesis by (rule that)
  qed
qed

section \<open>Removing a waiter\<close>

lemma remove_from_queue_absent:
  assumes "waiters s obj ws" and "t \<notin> set ws"
  shows "mutex_remove_from_queue obj t s = Some s"
proof (cases ws)
  case Nil
  with assms show ?thesis by (simp add: mutex_remove_from_queue_def waiters_def)
next
  case (Cons w vs)
  with assms have "m_waiters (mutexes s obj) = Some w" "w \<noteq> t"
    and l: "linked (queue_next s) (Some w) (w # vs)" by (auto simp: waiters_def)
  moreover have "unlink_loop queue_next set_queue_next t (Some w) s = Some s"
    using l assms(2) Cons by (intro queue.unlink_loop_absent) auto
  ultimately show ?thesis by (simp add: mutex_remove_from_queue_def)
qed

lemma remove_from_queue_present:
  assumes "waiters s obj ws" and "t \<in> set ws" and "hd ws = t \<or> last ws \<noteq> t"
  obtains s' where "mutex_remove_from_queue obj t s = Some s'"
    and "waiters s' obj (remove1 t ws)" and "queue_change obj (set ws) s s'"
proof -
  obtain w vs where ws: "ws = w # vs" using assms(2) by (cases ws) auto
  with assms(1) have w: "m_waiters (mutexes s obj) = Some w"
    and l: "linked (queue_next s) (Some w) (w # vs)" by (auto simp: waiters_def)
  from l have d: "distinct (w # vs)" by (rule linked_distinct)
  show ?thesis
  proof (cases "w = t")
    case True
    let ?s = "upd_mutex obj (\<lambda>r. r\<lparr>m_waiters := queue_next s t\<rparr>) s"
    from w True have "mutex_remove_from_queue obj t s = Some ?s"
      by (simp add: mutex_remove_from_queue_def)
    then show ?thesis
      using l ws True d by (intro that) (auto simp: waiters_def queue_change_def)
  next
    case False
    with assms(2,3) ws obtain xs ys where v: "vs = xs @ t # ys" "ys \<noteq> []"
      by (auto simp: in_set_conv_decomp split: if_splits)
    then obtain y ys' where y: "ys = y # ys'" by (cases ys) auto
    let ?s = "set_queue_next (last (w # xs)) (Some y) s"
    from l v y have "linked (queue_next s) (Some w) (w # xs @ t # y # ys')" by simp
    then have u: "unlink_loop queue_next set_queue_next t (Some w) s = Some ?s"
      by (rule queue.unlink_loop_inner)
    from d v y have nin: "t \<notin> set (w # xs)" by auto
    obtain zs z where z: "w # xs = zs @ [z]" by (meson neq_Nil_conv rev_exhaust list.distinct(1))
    then have z': "w # vs = zs @ z # t # y # ys'" "last (w # xs) = z"
      using v y by (metis append.assoc append_Cons append_Nil, metis last_snoc)
    have "linked (queue_next (set_queue_next z (queue_next s t) s)) (Some w) (zs @ z # y # ys')"
      using l z' by (intro queue.unlink_after) simp
    moreover have "queue_next s t = Some y" using l v y by auto
    moreover have "remove1 t ws = zs @ z # y # ys'"
      using ws z' nin z by (simp add: remove1_append)
    ultimately have "waiters ?s obj (remove1 t ws)" using z' w by (simp add: waiters_def)
    moreover have "mutex_remove_from_queue obj t s = Some ?s"
      using w False u by (simp add: mutex_remove_from_queue_def)
    moreover have "queue_change obj (set ws) s ?s"
      using z' ws by (auto simp: queue_change_def)
    ultimately show ?thesis by (intro that)
  qed
qed

lemma remove_from_queue_last:
  assumes "waiters s obj ws" and "hd ws \<noteq> t" and "last ws = t" and "ws \<noteq> []"
  shows "mutex_remove_from_queue obj t s = None"
proof -
  obtain w vs where ws: "ws = w # vs" using assms(4) by (cases ws) auto
  with assms have w: "m_waiters (mutexes s obj) = Some w" "w \<noteq> t" "vs \<noteq> []" "last vs = t"
    and l: "linked (queue_next s) (Some w) (w # vs)" by (auto simp: waiters_def split: if_splits)
  then have "vs = butlast vs @ [t]" by (metis append_butlast_last_id)
  with l have "linked (queue_next s) (Some w) (w # butlast vs @ [t])" by metis
  then have "unlink_loop queue_next set_queue_next t (Some w) s = None"
    by (rule queue.unlink_loop_last)
  with w show ?thesis by (simp add: mutex_remove_from_queue_def)
qed

text \<open>\<open>mutex_remove_from_queue\<close> on a queue: exactly when it returns, and what it returns.\<close>

lemma remove_from_queue_spec:
  assumes "waiters s obj ws"
  shows "(mutex_remove_from_queue obj t s = None \<longleftrightarrow> ws \<noteq> [] \<and> hd ws \<noteq> t \<and> last ws = t)
    \<and> (\<forall>s'. mutex_remove_from_queue obj t s = Some s' \<longrightarrow>
          waiters s' obj (remove1 t ws) \<and> queue_change obj (set ws) s s')"
proof (cases "t \<in> set ws")
  case False
  with remove_from_queue_absent [OF assms False] assms show ?thesis
    by (auto simp: remove1_idem)
next
  case True
  show ?thesis
  proof (cases "hd ws = t \<or> last ws \<noteq> t")
    case ok: True
    with remove_from_queue_present [OF assms True ok] show ?thesis by (metis option.distinct(1) option.inject)
  next
    case False
    with True have "ws \<noteq> []" by auto
    with False remove_from_queue_last [OF assms] show ?thesis by auto
  qed
qed

end
