(* ===== verification/ThreadSafety.thy ===== *)
theory ThreadSafety
  imports Thread
begin

text \<open>
  Mutual exclusion: the kernel as a step relation over the routines of Thread, and the invariant
  that ties the waiter queues and the lists of owned mutexes to the states of the threads.
\<close>

section \<open>Queues and ownership as relations\<close>

text \<open>\<open>queues s W\<close>: every mutex has a proper waiter list, and it holds the threads that \<open>W\<close> names.\<close>

definition queues :: "kstate \<Rightarrow> (tid \<Rightarrow> mid \<Rightarrow> bool) \<Rightarrow> bool" where
  "queues s W \<longleftrightarrow> (\<forall>m. \<exists>ws. waiters s m ws \<and> (\<forall>t. t \<in> set ws \<longleftrightarrow> W t m))"

definition owned_list :: "kstate \<Rightarrow> tid \<Rightarrow> mid list \<Rightarrow> bool" where
  "owned_list s t os = linked (owned_next s) (t_owned_mutexes (threads s t)) os"

definition ownership :: "kstate \<Rightarrow> (tid \<Rightarrow> mid \<Rightarrow> bool) \<Rightarrow> bool" where
  "ownership s R \<longleftrightarrow> (\<forall>t. \<exists>os. owned_list s t os \<and> (\<forall>m. m \<in> set os \<longleftrightarrow> R t m))"

definition waits_for :: "kstate \<Rightarrow> tid \<Rightarrow> mid \<Rightarrow> bool" where
  "waits_for s t m \<longleftrightarrow> t_state (threads s t) = THREAD_BLOCKED
     \<and> t_block_type (threads s t) = THREAD_BLOCK_MUTEX \<and> t_blocked_by (threads s t) = Some m"

definition owns :: "kstate \<Rightarrow> tid \<Rightarrow> mid \<Rightarrow> bool" where
  "owns s t m \<longleftrightarrow> m_count (mutexes s m) \<noteq> 0 \<and> m_owner (mutexes s m) = Some t"

lemma waits_for_unique: "waits_for s t m \<Longrightarrow> waits_for s t n \<Longrightarrow> m = n"
  by (simp add: waits_for_def)

lemma queues_cong:
  assumes "queues s W" and "\<And>t. queue_next s' t = queue_next s t"
    and "\<And>m. m_waiters (mutexes s' m) = m_waiters (mutexes s m)" and "\<And>t m. W' t m = W t m"
  shows "queues s' W'"
proof -
  have "queue_next s' = queue_next s" using assms(2) by blast
  with assms show ?thesis unfolding queues_def waiters_def by simp
qed

lemma ownership_cong:
  assumes "ownership s R" and "\<And>m. owned_next s' m = owned_next s m"
    and "\<And>t. t_owned_mutexes (threads s' t) = t_owned_mutexes (threads s t)" and "\<And>t m. R' t m = R t m"
  shows "ownership s' R'"
proof -
  have "owned_next s' = owned_next s" using assms(2) by blast
  with assms show ?thesis unfolding ownership_def owned_list_def by simp
qed

lemma queues_add:
  assumes q: "queues s W" and new: "\<And>n. \<not> W t n"
    and fn: "\<And>u m n. W u m \<Longrightarrow> W u n \<Longrightarrow> m = n"
  obtains s' where "mutex_add_to_queue obj t s = Some s'" "core s' = core s"
    "queues s' (\<lambda>u n. W u n \<or> u = t \<and> n = obj)"
proof -
  from q obtain ws where ws: "waiters s obj ws" "\<And>u. u \<in> set ws \<longleftrightarrow> W u obj"
    unfolding queues_def by metis
  with new have "t \<notin> set ws" by blast
  with ws obtain s' where s': "mutex_add_to_queue obj t s = Some s'"
    "waiters s' obj (insert_prio (priority_of s) t ws)" "queue_change obj (insert t (set ws)) s s'"
    using add_to_queue_spec by blast
  have "\<exists>vs. waiters s' n vs \<and> (\<forall>u. u \<in> set vs \<longleftrightarrow> W u n \<or> u = t \<and> n = obj)" for n
  proof (cases "n = obj")
    case True
    with s'(2) ws(2) show ?thesis by auto
  next
    case False
    from q obtain vs where vs: "waiters s n vs" "\<And>u. u \<in> set vs \<longleftrightarrow> W u n"
      unfolding queues_def by metis
    have "queue_next s' u = queue_next s u" if "u \<in> set vs" for u
    proof -
      from that vs(2) have W: "W u n" by simp
      then have "u \<notin> set ws" using ws(2) fn [of u n obj] False by auto
      moreover from W new [of n] have "u \<noteq> t" by auto
      ultimately show ?thesis using s'(3) by (simp add: queue_change_def)
    qed
    moreover have "m_waiters (mutexes s' n) = m_waiters (mutexes s n)"
      using False s'(3) unfolding queue_change_def by blast
    ultimately have "waiters s' n vs" using vs(1) lseg_cong unfolding waiters_def by metis
    with vs(2) False show ?thesis by blast
  qed
  then have "queues s' (\<lambda>u n. W u n \<or> u = t \<and> n = obj)" unfolding queues_def by blast
  moreover from s'(3) have "core s' = core s" by (simp add: queue_change_def)
  ultimately show ?thesis using s'(1) that by blast
qed

lemma queues_remove:
  assumes q: "queues s W" and "mutex_remove_from_queue obj t s = Some s'" and "W t obj"
    and fn: "\<And>u m n. W u m \<Longrightarrow> W u n \<Longrightarrow> m = n"
  shows "core s' = core s" and "queues s' (\<lambda>u n. W u n \<and> u \<noteq> t)"
proof -
  from q obtain ws where ws: "waiters s obj ws" "\<And>u. u \<in> set ws \<longleftrightarrow> W u obj"
    unfolding queues_def by metis
  from remove_from_queue_spec [OF ws(1), of t] assms(2)
  have s': "waiters s' obj (remove1 t ws)" "queue_change obj (set ws) s s'" by auto
  then show "core s' = core s" by (simp add: queue_change_def)
  have d: "distinct ws" using ws(1) linked_distinct unfolding waiters_def by blast
  have "\<exists>vs. waiters s' n vs \<and> (\<forall>u. u \<in> set vs \<longleftrightarrow> W u n \<and> u \<noteq> t)" for n
  proof (cases "n = obj")
    case True
    with s'(1) ws(2) d show ?thesis by auto
  next
    case False
    from q obtain vs where vs: "waiters s n vs" "\<And>u. u \<in> set vs \<longleftrightarrow> W u n"
      unfolding queues_def by metis
    have "queue_next s' u = queue_next s u" if "u \<in> set vs" for u
    proof -
      from that vs(2) have "W u n" by simp
      then have "u \<notin> set ws" using ws(2) fn [of u n obj] False by auto
      then show ?thesis using s'(2) by (simp add: queue_change_def)
    qed
    moreover have "m_waiters (mutexes s' n) = m_waiters (mutexes s n)"
      using False s'(2) unfolding queue_change_def by blast
    ultimately have "waiters s' n vs" using vs(1) lseg_cong unfolding waiters_def by metis
    with vs(2) False assms(3) fn show ?thesis by blast
  qed
  then show "queues s' (\<lambda>u n. W u n \<and> u \<noteq> t)" unfolding queues_def by blast
qed

section \<open>The invariant\<close>

text \<open>
  The blocking call a thread is inside: between its \<open>yield()\<close> and the rest of the routine, which
  runs when the thread is scheduled again.
\<close>

datatype call = NoCall | InLock mid | InWait wid | Gone

text \<open>
  \<open>Gone\<close> is a thread that another thread has terminated. A thread whose record says that it waits
  for a mutex is inside \<open>mutex_lock\<close> of that mutex and does not own it.
\<close>

definition calls_ok :: "kstate \<Rightarrow> (tid \<Rightarrow> call) \<Rightarrow> bool" where
  "calls_ok s c \<longleftrightarrow> c (idle_thread s) = NoCall
     \<and> (\<forall>t. t_block_type (threads s t) = THREAD_BLOCK_MUTEX \<longrightarrow>
          c t = Gone \<and> t_state (threads s t) = THREAD_SUSPENDED
          \<or> t_state (threads s t) \<in> {THREAD_BLOCKED, THREAD_SUSPENDED}
            \<and> (\<exists>m. t_blocked_by (threads s t) = Some m \<and> c t = InLock m \<and> \<not> owns s t m))
     \<and> (\<forall>w t. w_waiter (wakeups s w) = Some t \<longrightarrow>
          t_block_type (threads s t) \<noteq> THREAD_BLOCK_MUTEX \<and> (c t = InWait w \<or> c t = Gone))
     \<and> (\<forall>m. 0 \<le> m_count (mutexes s m))
     \<and> (\<forall>t m. c t = InLock m \<longrightarrow> m_owner (mutexes s m) = Some t \<longrightarrow> m_count (mutexes s m) \<noteq> 0)"

text \<open>
  The queues hold the threads that \<open>W\<close> names: all that wait for a mutex, and, if \<open>B\<close> allows it, threads
  that were stopped inside \<open>mutex_lock\<close> without being taken out of the queue.
\<close>

definition stopped :: "kstate \<Rightarrow> tid \<Rightarrow> bool" where
  "stopped s t \<longleftrightarrow> t_state (threads s t) \<in> {THREAD_SUSPENDED, THREAD_DEFUNCT}"

definition coupled :: "bool \<Rightarrow> (tid \<Rightarrow> mid \<Rightarrow> bool) \<Rightarrow> kstate \<Rightarrow> (tid \<Rightarrow> call) \<Rightarrow> bool" where
  "coupled B W s c \<longleftrightarrow> (\<forall>t m. waits_for s t m \<longrightarrow> W t m)
     \<and> (\<forall>t m. W t m \<longrightarrow> c t = InLock m \<and> \<not> owns s t m \<and> (waits_for s t m \<or> B \<and> stopped s t))"

definition kinv :: "bool \<Rightarrow> (tid \<Rightarrow> mid \<Rightarrow> bool) \<Rightarrow> kstate \<Rightarrow> (tid \<Rightarrow> call) \<Rightarrow> bool" where
  "kinv B W s c \<longleftrightarrow> queues s W \<and> ownership s (owns s) \<and> calls_ok s c \<and> coupled B W s c"

lemma kinvD:
  assumes "kinv B W s c"
  shows "queues s W" "ownership s (owns s)" "calls_ok s c" "coupled B W s c"
  using assms by (simp_all add: kinv_def)

lemma queued_call:
  assumes "kinv B W s c" and "W t m"
  shows "c t = InLock m" "\<not> owns s t m" "waits_for s t m \<or> B \<and> stopped s t"
  using assms by (auto simp: kinv_def coupled_def)

lemma waits_queued: "kinv B W s c \<Longrightarrow> waits_for s t m \<Longrightarrow> W t m"
  by (simp add: kinv_def coupled_def)

lemma queued_unique: "kinv B W s c \<Longrightarrow> W t m \<Longrightarrow> W t n \<Longrightarrow> m = n"
  using queued_call(1) [of B W s c t m] queued_call(1) [of B W s c t n] by auto

lemma queue_next_upd_thread:
  "(\<And>r. t_queue_next (f r) = t_queue_next r) \<Longrightarrow> queue_next (upd_thread t f s) = queue_next s"
  by (rule ext) (simp add: queue_next_def)

lemma owned_next_upd_thread [simp]: "owned_next (upd_thread t f s) = owned_next s"
  by (rule ext) (simp add: owned_next_def)

lemma kinv_not_blocked_on_mutex:
  assumes "kinv B W s c" and "t_state (threads s t) \<notin> {THREAD_BLOCKED, THREAD_SUSPENDED}"
  shows "t_block_type (threads s t) \<noteq> THREAD_BLOCK_MUTEX"
  using assms by (auto simp: kinv_def calls_ok_def)

text \<open>A thread that is in no queue.\<close>

lemma kinv_not_queued:
  assumes "kinv B W s c" and "t_state (threads s t) \<notin> {THREAD_BLOCKED, THREAD_SUSPENDED, THREAD_DEFUNCT}"
  shows "\<not> W t m"
  using assms queued_call(3) [OF assms(1), of t m] by (auto simp: waits_for_def stopped_def)

lemma kinv_other_call: "kinv B W s c \<Longrightarrow> (\<And>m. c t \<noteq> InLock m) \<Longrightarrow> \<not> W t m"
  using queued_call(1) by blast

text \<open>
  Steps that change nothing the invariant speaks of, for threads that do not wait for a mutex.
\<close>

lemma kinv_upd_thread:
  assumes k: "kinv B W s c" and "t_block_type (threads s t) \<noteq> THREAD_BLOCK_MUTEX"
    and "\<And>r. t_queue_next (f r) = t_queue_next r" "\<And>r. t_owned_mutexes (f r) = t_owned_mutexes r"
    and "t_block_type (f (threads s t)) \<noteq> THREAD_BLOCK_MUTEX"
    and st: "\<And>m. W t m \<Longrightarrow> t_state (f (threads s t)) \<in> {THREAD_SUSPENDED, THREAD_DEFUNCT}"
  shows "kinv B W (upd_thread t f s) c"
proof -
  let ?s = "upd_thread t f s"
  have w: "waits_for ?s u m = waits_for s u m" for u m
    using assms(2,5) by (auto simp: waits_for_def)
  have o: "owns ?s = owns s" by (intro ext) (simp add: owns_def)
  have "queues ?s W" "ownership ?s (owns ?s)"
    using kinvD(1,2) [OF k] assms(3,4) o
    by (auto elim!: queues_cong ownership_cong simp: queue_next_upd_thread)
  moreover have "calls_ok ?s c"
    using kinvD(3) [OF k] assms(2,5) o unfolding calls_ok_def by auto
  moreover have "coupled B W ?s c"
  proof -
    have "stopped ?s u" if "W u m" "stopped s u" for u m
      using st that by (cases "u = t") (auto simp: stopped_def)
    with kinvD(4) [OF k] show ?thesis unfolding coupled_def w o by blast
  qed
  ultimately show ?thesis by (simp add: kinv_def)
qed

text \<open>Changes to the fields that the invariant does not mention.\<close>

lemma kinv_frame:
  assumes "kinv B W s c" and "mutexes s' = mutexes s" "wakeups s' = wakeups s"
    "idle_thread s' = idle_thread s" "\<And>t. queue_next s' t = queue_next s t"
    "\<And>t. t_owned_mutexes (threads s' t) = t_owned_mutexes (threads s t)"
    "\<And>t. t_state (threads s' t) = t_state (threads s t)"
    "\<And>t. t_block_type (threads s' t) = t_block_type (threads s t)"
    "\<And>t. t_blocked_by (threads s' t) = t_blocked_by (threads s t)"
  shows "kinv B W s' c"
proof -
  have "waits_for s' = waits_for s" "owns s' = owns s" "stopped s' = stopped s"
    using assms by (auto intro!: ext simp: waits_for_def owns_def stopped_def)
  with assms show ?thesis
    unfolding kinv_def
    by (auto elim!: queues_cong ownership_cong simp: owned_next_def calls_ok_def owns_def coupled_def)
qed

text \<open>A thread that is stopped where it is; if it waits in a queue, it stays there.\<close>

lemma kinv_stop:
  assumes k: "kinv True W s c" and idle: "t_state (f (threads s t)) \<in> {THREAD_SUSPENDED, THREAD_DEFUNCT}"
    and "\<And>r. t_queue_next (f r) = t_queue_next r" "\<And>r. t_owned_mutexes (f r) = t_owned_mutexes r"
    and mx: "t_block_type (f (threads s t)) = THREAD_BLOCK_MUTEX \<Longrightarrow>
      t_block_type (threads s t) = THREAD_BLOCK_MUTEX \<and> t_state (f (threads s t)) = THREAD_SUSPENDED
      \<and> t_blocked_by (f (threads s t)) = t_blocked_by (threads s t)"
  shows "kinv True W (upd_thread t f s) c"
proof -
  let ?s = "upd_thread t f s"
  have w: "waits_for ?s u m = (waits_for s u m \<and> u \<noteq> t)" for u m
    using idle by (auto simp: waits_for_def)
  have o: "owns ?s = owns s" by (intro ext) (simp add: owns_def)
  have "queues ?s W" "ownership ?s (owns ?s)"
    using kinvD(1,2) [OF k] assms(3,4) o
    by (auto elim!: queues_cong ownership_cong simp: queue_next_upd_thread)
  moreover have "calls_ok ?s c"
    using kinvD(3) [OF k] mx unfolding calls_ok_def o by (auto split: if_splits)
  moreover have "coupled True W ?s c"
  proof -
    have "stopped ?s t" using idle by (simp add: stopped_def)
    moreover have "stopped ?s u = stopped s u" if "u \<noteq> t" for u using that by (simp add: stopped_def)
    ultimately show ?thesis using kinvD(4) [OF k] unfolding coupled_def w o by metis
  qed
  ultimately show ?thesis by (simp add: kinv_def)
qed

section \<open>The routines keep the invariant\<close>

lemma ownership_add:
  assumes o: "ownership s R" and new: "\<And>u. \<not> R u obj"
    and s': "\<And>m. m \<noteq> obj \<Longrightarrow> owned_next s' m = owned_next s m"
      "owned_next s' obj = t_owned_mutexes (threads s t)"
      "t_owned_mutexes (threads s' t) = Some obj"
      "\<And>u. u \<noteq> t \<Longrightarrow> t_owned_mutexes (threads s' u) = t_owned_mutexes (threads s u)"
  shows "ownership s' (\<lambda>u m. R u m \<or> u = t \<and> m = obj)"
proof -
  have "\<exists>os. owned_list s' u os \<and> (\<forall>m. m \<in> set os \<longleftrightarrow> R u m \<or> u = t \<and> m = obj)" for u
  proof -
    from o obtain os where os: "owned_list s u os" "\<And>m. m \<in> set os \<longleftrightarrow> R u m"
      unfolding ownership_def by metis
    with new s'(1) have keep: "linked (owned_next s') (t_owned_mutexes (threads s u)) os"
      unfolding owned_list_def by (metis lseg_cong)
    show ?thesis
    proof (cases "u = t")
      case True
      with keep s'(2,3) os(2) show ?thesis
        by (intro exI [of _ "obj # os"]) (auto simp: owned_list_def)
    next
      case False
      with keep s'(4) os(2) show ?thesis
        by (intro exI [of _ os]) (auto simp: owned_list_def)
    qed
  qed
  then show ?thesis unfolding ownership_def by blast
qed

lemma owns_unique: "owns s t m \<Longrightarrow> owns s u m \<Longrightarrow> t = u"
  by (simp add: owns_def)

text \<open>\<open>mutex_lock\<close>, in the three cases that return and the one that blocks.\<close>

lemma kinv_mutex_lock_free:
  assumes k: "kinv B W s c" and free: "m_count (mutexes s obj) = 0"
    and cur: "t_block_type (threads s (current_thread s)) \<noteq> THREAD_BLOCK_MUTEX"
    and nw: "\<not> W (current_thread s) obj"
    and s': "mutex_lock obj timeout s = Some (r, s')"
  shows "kinv B W s' c"
proof -
  let ?t = "current_thread s"
  have eq: "s' = upd_thread ?t (\<lambda>r. r\<lparr>t_owned_mutexes := Some obj\<rparr>)
      (upd_mutex obj (\<lambda>r. r\<lparr>m_count := 1, m_owner := Some ?t,
         m_owned_next := t_owned_mutexes (threads s ?t)\<rparr>) s)"
    using s' free by (simp add: mutex_lock_def Let_def)
  have w: "waits_for s' u m = waits_for s u m" "stopped s' u = stopped s u" for u m
    by (simp_all add: eq waits_for_def stopped_def)
  have o: "owns s' u m = (owns s u m \<or> u = ?t \<and> m = obj)" for u m
    using free by (auto simp: eq owns_def)
  have "queues s' W"
    using kinvD(1) [OF k] by (auto elim!: queues_cong simp: eq queue_next_def)
  moreover have "ownership s' (owns s')"
  proof -
    have "ownership s' (\<lambda>u m. owns s u m \<or> u = ?t \<and> m = obj)"
      using kinvD(2) [OF k] free
      by (intro ownership_add [of s "owns s" obj s' ?t]) (auto simp: owns_def eq owned_next_def)
    then show ?thesis using o by (simp add: ownership_def)
  qed
  moreover have "calls_ok s' c"
    using kinvD(3) [OF k] cur o unfolding calls_ok_def by (auto simp: eq)
  moreover have "coupled B W s' c"
    using kinvD(4) [OF k] nw unfolding coupled_def w o by auto
  ultimately show ?thesis by (simp add: kinv_def)
qed

lemma kinv_mutex_count:
  assumes k: "kinv B W s c" and "m_count (mutexes s obj) \<noteq> 0" "n > 0"
  shows "kinv B W (upd_mutex obj (\<lambda>r. r\<lparr>m_count := n\<rparr>) s) c"
proof -
  let ?s = "upd_mutex obj (\<lambda>r. r\<lparr>m_count := n\<rparr>) s"
  have w: "waits_for ?s = waits_for s" "stopped ?s = stopped s"
    by (auto intro!: ext simp: waits_for_def stopped_def)
  have o: "owns ?s = owns s"
  proof (intro ext)
    fix u m show "owns ?s u m = owns s u m" using assms(2,3) by (cases "m = obj") (auto simp: owns_def)
  qed
  have "queues ?s W" "ownership ?s (owns ?s)" "calls_ok ?s c" "coupled B W ?s c"
    using kinvD [OF k] assms(3) w o
    by (auto elim!: queues_cong ownership_cong simp: owned_next_def calls_ok_def coupled_def)
  then show ?thesis by (simp add: kinv_def)
qed

lemma kinv_mutex_lock_recursive:
  assumes k: "kinv B W s c" and "m_count (mutexes s obj) \<noteq> 0"
    and "m_owner (mutexes s obj) = Some (current_thread s)"
    and s': "mutex_lock obj timeout s = Some (r, s')"
  shows "kinv B W s' c"
proof -
  let ?n = "m_count (mutexes s obj) + 1"
  have eq: "s' = upd_mutex obj (\<lambda>r. r\<lparr>m_count := ?n\<rparr>) s"
    using assms by (auto simp: mutex_lock_def Let_def upd_mutex_def split: if_splits)
  have "0 \<le> m_count (mutexes s obj)" using kinvD(3) [OF k] by (simp add: calls_ok_def)
  then show ?thesis using kinv_mutex_count [OF k assms(2), of ?n] by (simp add: eq)
qed

lemma kinv_mutex_lock_blocks:
  assumes k: "kinv B W s c" and s': "mutex_lock obj timeout s = Some (Blocks, s')"
    and cur: "t_block_type (threads s (current_thread s)) \<noteq> THREAD_BLOCK_MUTEX"
    and nc: "c (current_thread s) = NoCall" and "current_thread s \<noteq> idle_thread s"
  shows "\<exists>W'. kinv B W' s' (c(current_thread s := InLock obj))"
proof -
  let ?t = "current_thread s"
  let ?s = "upd_thread ?t (\<lambda>r. r\<lparr>t_state := THREAD_BLOCKED, t_block_type := THREAD_BLOCK_MUTEX,
              t_blocked_by := Some obj, t_timeout := timeout, t_blocked_since := usec_timer s\<rparr>) s"
  let ?W = "\<lambda>u n. W u n \<or> u = ?t \<and> n = obj"
  from s' have no: "\<not> owns s ?t obj" and nf: "m_count (mutexes s obj) \<noteq> 0" and add: "mutex_add_to_queue obj ?t ?s = Some s'"
    by (auto simp: mutex_lock_def Let_def owns_def split: if_splits bind_splits)
  have nw: "\<not> W ?t n" for n by (rule kinv_other_call [OF k]) (simp add: nc)
  have q: "queues ?s W"
    using kinvD(1) [OF k] by (auto elim!: queues_cong simp: queue_next_upd_thread)
  obtain s1 where s1: "mutex_add_to_queue obj ?t ?s = Some s1" "core s1 = core ?s" "queues s1 ?W"
    using q nw by (rule queues_add [of ?s W ?t obj]) (auto intro: queued_unique [OF k])
  with add have [simp]: "s1 = s'" by simp
  note f = core_fields [OF s1(2), simplified]
  have w: "waits_for s' u n = (waits_for s u n \<or> u = ?t \<and> n = obj)" for u n
    using cur by (auto simp: waits_for_def f)
  have o: "owns s' u n = owns s u n" for u n by (simp add: owns_def f)
  have "ownership s' (owns s')"
    using kinvD(2) [OF k] by (auto elim!: ownership_cong simp: o f owned_next_def)
  moreover have "calls_ok s' (c(?t := InLock obj))"
    using kinvD(3) [OF k] assms(4,5) no nf unfolding calls_ok_def o by (auto simp: f) (metis call.distinct)
  moreover have "coupled B ?W s' (c(?t := InLock obj))"
    using kinvD(4) [OF k] nw no o unfolding coupled_def w stopped_def by (auto simp: f)
  ultimately show ?thesis using s1(3) unfolding kinv_def by auto
qed

text \<open>\<open>mutex_unlock_internal\<close>: unlinking from the owner's list, then the hand-over.\<close>

definition unlink_owned :: "mid \<Rightarrow> tid \<Rightarrow> mid \<Rightarrow> kstate \<Rightarrow> kstate option" where
  "unlink_owned obj t o1 s =
     (if o1 = obj then Some (upd_thread t (\<lambda>r. r\<lparr>t_owned_mutexes := owned_next s obj\<rparr>) s)
      else unlink_loop owned_next set_owned_next obj (Some o1) s)"

lemma mutex_unlock_internal_alt:
  "mutex_unlock_internal obj s = do {
     ow \<leftarrow> m_owner (mutexes s obj);
     (case t_owned_mutexes (threads s ow) of
        None \<Rightarrow> Some s
      | Some o1 \<Rightarrow> do { s' \<leftarrow> unlink_owned obj ow o1 s; Some (mutex_hand_over obj s') }) }"
  by (simp add: mutex_unlock_internal_def unlink_owned_def cong: option.case_cong)

lemma unlink_owned_cases:
  assumes "linked (owned_next s) (Some o1) os" and "obj \<in> set os"
  obtains (head) os' where "os = obj # os'" "o1 = obj"
      "unlink_owned obj t o1 s = Some (upd_thread t (\<lambda>r. r\<lparr>t_owned_mutexes := owned_next s obj\<rparr>) s)"
  | (inner) xs z y ys where "os = xs @ z # obj # y # ys" "o1 \<noteq> obj"
      "unlink_owned obj t o1 s = Some (set_owned_next z (owned_next s obj) s)"
  | (last_one) xs z where "os = xs @ [z, obj]" "o1 \<noteq> obj" "unlink_owned obj t o1 s = None"
proof -
  obtain os1 where os: "os = o1 # os1" using assms by (cases os) auto
  show ?thesis
  proof (cases "o1 = obj")
    case True
    with os head show ?thesis by (simp add: unlink_owned_def)
  next
    case False
    with assms(2) os obtain xs ys where v: "os1 = xs @ obj # ys" by (auto dest: split_list)
    obtain zs z where z: "o1 # xs = zs @ [z]" by (meson neq_Nil_conv rev_exhaust list.distinct(1))
    then have z': "os = zs @ z # obj # ys" "last (o1 # xs) = z"
      using os v by (metis append.assoc append_Cons append_Nil, metis last_snoc)
    show ?thesis
    proof (cases ys)
      case Nil
      with assms(1) os v have "linked (owned_next s) (Some o1) (o1 # xs @ [obj])" by simp
      then have "unlink_loop owned_next set_owned_next obj (Some o1) s = None"
        by (rule owned.unlink_loop_last)
      then have "unlink_owned obj t o1 s = None" using False by (simp add: unlink_owned_def)
      with z'(1) Nil False show ?thesis by (intro last_one) simp_all
    next
      case (Cons y ys')
      with assms(1) os v have l: "linked (owned_next s) (Some o1) (o1 # xs @ obj # y # ys')" by simp
      then have "owned_next s obj = Some y" by auto
      with owned.unlink_loop_inner [OF l] have "unlink_owned obj t o1 s
          = Some (set_owned_next z (owned_next s obj) s)"
        using False z'(2) by (simp add: unlink_owned_def)
      with z'(1) Cons False show ?thesis by (intro inner) simp_all
    qed
  qed
qed

lemma ownership_remove:
  assumes o: "ownership s R" and R: "R t obj" and uniq: "\<And>u v m. R u m \<Longrightarrow> R v m \<Longrightarrow> u = v"
    and o1: "t_owned_mutexes (threads s t) = Some o1" and s': "unlink_owned obj t o1 s = Some s'"
  shows "ownership s' (\<lambda>u m. R u m \<and> m \<noteq> obj)"
    and "(\<exists>p. s' = upd_thread t (\<lambda>r. r\<lparr>t_owned_mutexes := p\<rparr>) s) \<or> (\<exists>z p. s' = set_owned_next z p s)"
proof -
  from o obtain os where os: "owned_list s t os" "\<And>m. m \<in> set os \<longleftrightarrow> R t m"
    unfolding ownership_def by metis
  with R o1 have l: "linked (owned_next s) (Some o1) os" "obj \<in> set os" by (auto simp: owned_list_def)
  have d: "distinct os" using l(1) by (rule linked_distinct)
  have main: "owned_list s' t (remove1 obj os)
      \<and> (\<forall>u. u \<noteq> t \<longrightarrow> t_owned_mutexes (threads s' u) = t_owned_mutexes (threads s u))
      \<and> (\<forall>m. m \<notin> set os \<longrightarrow> owned_next s' m = owned_next s m)
      \<and> ((\<exists>p. s' = upd_thread t (\<lambda>r. r\<lparr>t_owned_mutexes := p\<rparr>) s) \<or> (\<exists>z p. s' = set_owned_next z p s))"
    using l
  proof (cases rule: unlink_owned_cases [where t = t])
    case (head os')
    then have eq: "s' = upd_thread t (\<lambda>r. r\<lparr>t_owned_mutexes := owned_next s obj\<rparr>) s" using s' by simp
    with l(1) head(1,2) show ?thesis by (auto simp: owned_list_def)
  next
    case (inner xs z y ys)
    then have eq: "s' = set_owned_next z (owned_next s obj) s" using s' by simp
    have "linked (owned_next s') (Some o1) (xs @ z # y # ys)"
      using l(1) inner(1) unfolding eq by (intro owned.unlink_after) simp
    moreover have "remove1 obj os = xs @ z # y # ys" using d inner(1) by (simp add: remove1_append)
    moreover have "threads s' = threads s" by (simp add: eq set_owned_next_def)
    ultimately show ?thesis using o1 eq inner(1)
      by (auto simp: owned_list_def owned.get_put)
  next
    case (last_one xs z)
    with s' show ?thesis by simp
  qed
  have "\<exists>vs. owned_list s' u vs \<and> (\<forall>m. m \<in> set vs \<longleftrightarrow> R u m \<and> m \<noteq> obj)" for u
  proof (cases "u = t")
    case True
    with main os(2) d show ?thesis by (intro exI [of _ "remove1 obj os"]) auto
  next
    case False
    from o obtain vs where vs: "owned_list s u vs" "\<And>m. m \<in> set vs \<longleftrightarrow> R u m"
      unfolding ownership_def by metis
    have dis: "m \<notin> set os" if "m \<in> set vs" for m using that vs(2) os(2) uniq False by metis
    then have "linked (owned_next s') (t_owned_mutexes (threads s u)) vs"
      using vs(1) main lseg_cong [of vs "owned_next s'" "owned_next s"] unfolding owned_list_def by blast
    then have "owned_list s' u vs" using False main by (simp add: owned_list_def)
    with vs(2) dis l(2) show ?thesis by metis
  qed
  then show "ownership s' (\<lambda>u m. R u m \<and> m \<noteq> obj)" unfolding ownership_def by blast
  show "(\<exists>p. s' = upd_thread t (\<lambda>r. r\<lparr>t_owned_mutexes := p\<rparr>) s) \<or> (\<exists>z p. s' = set_owned_next z p s)"
    using main by blast
qed

text \<open>
  A waiter that leaves its queue and the state it is put in: not blocked any more, or suspended
  in the middle of its \<open>mutex_lock\<close>.
\<close>

lemma kinv_leave_queue:
  assumes k: "kinv B W s c" and w: "W t obj"
    and s1: "core s1 = core s" "queues s1 (\<lambda>u n. W u n \<and> u \<noteq> t)"
    and f: "\<And>r. t_queue_next (f r) = t_queue_next r" "\<And>r. t_owned_mutexes (f r) = t_owned_mutexes r"
    and out: "t_block_type (f (threads s1 t)) = THREAD_BLOCK_MUTEX \<Longrightarrow>
      t_state (f (threads s1 t)) = THREAD_SUSPENDED \<and> t_blocked_by (f (threads s1 t)) = Some obj"
  shows "kinv B (\<lambda>u n. W u n \<and> u \<noteq> t) (upd_thread t f s1) c"
proof -
  let ?s = "upd_thread t f s1"
  note g = core_fields [OF s1(1)]
  have w': "waits_for ?s u n = (waits_for s u n \<and> u \<noteq> t)" for u n
    using out by (auto simp: waits_for_def g)
  have o: "owns ?s u n = owns s u n" for u n by (simp add: owns_def g)
  have "queues ?s (\<lambda>u n. W u n \<and> u \<noteq> t)"
    using s1(2) f(1) by (auto elim!: queues_cong simp: queue_next_upd_thread)
  moreover have "ownership ?s (owns ?s)"
    using kinvD(2) [OF k]
    by (auto elim!: ownership_cong simp: o g f(2) core_owned_next [OF s1(1)])
  moreover have "calls_ok ?s c"
    using kinvD(3) [OF k] queued_call(1,2) [OF k w] out
    unfolding calls_ok_def o by (auto simp: g) (metis call.distinct)+
  moreover have "coupled B (\<lambda>u n. W u n \<and> u \<noteq> t) ?s c"
  proof -
    have "stopped ?s u = stopped s u" if "u \<noteq> t" for u using that by (simp add: stopped_def g)
    with kinvD(4) [OF k] show ?thesis unfolding coupled_def w' o by blast
  qed
  ultimately show ?thesis by (simp add: kinv_def)
qed

text \<open>The hand-over of a mutex that nobody owns.\<close>

lemma hand_over_threads:
  assumes "m_waiters (mutexes s obj) = Some w"
  shows "threads (mutex_hand_over obj s) u = (if u = w then (threads s w)\<lparr>t_state := THREAD_READY,
      t_block_type := THREAD_NOT_BLOCKED, t_blocked_by := None, t_timeout := 0,
      t_owned_mutexes := Some obj\<rparr> else threads s u)"
    and "mutexes (mutex_hand_over obj s) n = (if n = obj then (mutexes s obj)\<lparr>m_count := 1, m_owner := Some w,
      m_waiters := queue_next s w, m_owned_next := t_owned_mutexes (threads s w)\<rparr> else mutexes s n)"
    and "queue_next (mutex_hand_over obj s) = queue_next s"
    and "wakeups (mutex_hand_over obj s) = wakeups s" "idle_thread (mutex_hand_over obj s) = idle_thread s"
  using assms
  by (auto simp: mutex_hand_over_def Let_def make_ready_def queue_next_def fun_eq_iff)

lemma kinv_hand_over:
  assumes q: "queues s W" and o: "ownership s (\<lambda>u m. owns s u m \<and> m \<noteq> obj)"
    and k: "calls_ok s c" and cp: "coupled B W s c"
    and free: "\<And>t. m_owner (mutexes s obj) = Some t \<Longrightarrow> c t \<noteq> InLock obj"
  shows "\<exists>W'. kinv B W' (mutex_hand_over obj s) c"
proof (cases "m_waiters (mutexes s obj)")
  case None
  let ?s = "upd_mutex obj (\<lambda>r. r\<lparr>m_count := 0\<rparr>) s"
  have eq: "mutex_hand_over obj s = ?s" using None by (simp add: mutex_hand_over_def)
  have w: "waits_for ?s = waits_for s" "stopped ?s = stopped s"
    by (auto intro!: ext simp: waits_for_def stopped_def)
  have o': "owns ?s u n = (owns s u n \<and> n \<noteq> obj)" for u n by (auto simp: owns_def)
  have "queues ?s W" using q by (auto elim!: queues_cong)
  moreover have "ownership ?s (owns ?s)"
    using o o' by (auto elim!: ownership_cong simp: owned_next_def)
  moreover have "calls_ok ?s c" using k free unfolding calls_ok_def by (auto simp: o')
  moreover have "coupled B W ?s c" using cp unfolding coupled_def w o' by blast
  ultimately show ?thesis unfolding eq kinv_def by blast
next
  case (Some w)
  let ?s = "mutex_hand_over obj s"
  let ?W = "\<lambda>u n. W u n \<and> u \<noteq> w"
  have W: "c u = InLock n" "\<not> owns s u n" if "W u n" for u n
    using cp that by (auto simp: coupled_def)
  from q obtain ws where ws: "waiters s obj ws" "\<And>u. u \<in> set ws \<longleftrightarrow> W u obj"
    unfolding queues_def by metis
  with Some obtain vs where vs: "ws = w # vs" by (cases ws) (auto simp: waiters_def)
  have d: "distinct ws" using ws(1) unfolding waiters_def by (rule linked_distinct)
  from vs ws Some have w: "W w obj" and l: "linked (queue_next s) (queue_next s w) vs"
    by (auto simp: waiters_def)
  note th = hand_over_threads(1) [OF Some] and mx = hand_over_threads(2) [OF Some]
    and qn = hand_over_threads(3) [OF Some] and gl = hand_over_threads(4,5) [OF Some]
  have w': "waits_for ?s u n = (waits_for s u n \<and> u \<noteq> w)" for u n by (simp add: waits_for_def th)
  have o': "owns ?s u n = (owns s u n \<and> n \<noteq> obj \<or> u = w \<and> n = obj)" for u n
    by (auto simp: owns_def mx)
  have "\<exists>xs. waiters ?s n xs \<and> (\<forall>u. u \<in> set xs \<longleftrightarrow> ?W u n)" for n
  proof (cases "n = obj")
    case True
    with l vs ws(2) d show ?thesis by (intro exI [of _ vs]) (auto simp: waiters_def mx qn)
  next
    case False
    from q obtain xs where "waiters s n xs" "\<And>u. u \<in> set xs \<longleftrightarrow> W u n"
      unfolding queues_def by metis
    moreover have "\<not> W w n" using W(1) [of w n] W(1) [OF w] False by auto
    ultimately show ?thesis using False
      by (intro exI [of _ xs]) (auto simp: waiters_def mx qn)
  qed
  then have "queues ?s ?W" by (simp add: queues_def)
  moreover have "ownership ?s (owns ?s)"
  proof -
    have "ownership ?s (\<lambda>u n. (owns s u n \<and> n \<noteq> obj) \<or> u = w \<and> n = obj)"
      using o by (rule ownership_add) (auto simp: owned_next_def th mx)
    then show ?thesis using o' by (simp add: ownership_def)
  qed
  moreover have "calls_ok ?s c"
    using k W(1) [OF w] unfolding calls_ok_def by (auto simp: th mx gl o')
  moreover have "coupled B ?W ?s c"
  proof -
    have "stopped ?s u = stopped s u" if "u \<noteq> w" for u using that by (simp add: stopped_def th)
    with cp show ?thesis unfolding coupled_def w' o' by blast
  qed
  ultimately show ?thesis unfolding kinv_def by blast
qed

text \<open>
  \<open>mutex_unlock_internal\<close> is called with the count already decremented to 0, or, for a thread that
  is terminated, with the count as it is.
\<close>

lemma kinv_mutex_unlock_internal:
  assumes k: "kinv B W s c" and own: "owns s t obj" and n: "0 \<le> n" and nc: "c t \<noteq> InLock obj"
    and s0: "s0 = upd_mutex obj (\<lambda>r. r\<lparr>m_count := n\<rparr>) s"
    and s': "mutex_unlock_internal obj s0 = Some s'"
  shows "\<exists>W'. kinv B W' s' c"
proof -
  have [simp]: "threads s0 = threads s" "owned_next s0 = owned_next s"
    by (auto simp: s0 owned_next_def)
  from kinvD(2) [OF k] own obtain os where "owned_list s t os" "obj \<in> set os"
    unfolding ownership_def by metis
  then obtain o1 where o1: "t_owned_mutexes (threads s0 t) = Some o1"
    unfolding owned_list_def by (cases "t_owned_mutexes (threads s t)") auto
  with own s' obtain s1 where s1: "unlink_owned obj t o1 s0 = Some s1" "s' = mutex_hand_over obj s1"
    by (auto simp: mutex_unlock_internal_alt owns_def s0 split: bind_splits)
  have O: "ownership s0 (owns s)" using kinvD(2) [OF k] by (auto elim!: ownership_cong)
  have uq: "owns s u m \<Longrightarrow> owns s v m \<Longrightarrow> u = v" for u v m by (rule owns_unique)
  have r: "ownership s1 (\<lambda>u m. owns s u m \<and> m \<noteq> obj)"
    "(\<exists>p. s1 = upd_thread t (\<lambda>r. r\<lparr>t_owned_mutexes := p\<rparr>) s0) \<or> (\<exists>z p. s1 = set_owned_next z p s0)"
    using ownership_remove [of s0 "owns s" t obj o1 s1] O own uq o1 s1(1) by blast+
  have w: "waits_for s1 u m = waits_for s u m" "stopped s1 u = stopped s u" for u m
    using r(2) by (auto simp: waits_for_def stopped_def set_owned_next_def split: if_splits)
  have o: "(owns s1 u m \<and> m \<noteq> obj) = (owns s u m \<and> m \<noteq> obj)" for u m
    using r(2) by (auto simp: owns_def set_owned_next_def s0 split: if_splits)
  have o': "owns s1 u m \<Longrightarrow> owns s u m" for u m
    using r(2) own by (auto simp: owns_def set_owned_next_def s0 split: if_splits)
  have "queues s1 W"
    using kinvD(1) [OF k] r(2)
    by (auto elim!: queues_cong simp: set_owned_next_def queue_next_upd_thread s0)
  moreover have "calls_ok s1 c"
  proof -
    have "t_block_type (threads s1 u) = t_block_type (threads s u)"
      "t_state (threads s1 u) = t_state (threads s u)"
      "t_blocked_by (threads s1 u) = t_blocked_by (threads s u)"
      "m_count (mutexes s1 m) = (if m = obj then n else m_count (mutexes s m))"
      "m_owner (mutexes s1 m) = m_owner (mutexes s m)"
      "wakeups s1 = wakeups s" "idle_thread s1 = idle_thread s" for u m
      using r(2) by (auto simp: set_owned_next_def s0)
    note f = this
    have nn: "m \<noteq> obj" if "c u = InLock m" "m_owner (mutexes s m) = Some u" for u m
      using that own nc by (auto simp: owns_def)
    have no: "\<not> owns s1 u m" if "\<not> owns s u m" for u m using that o' by blast
    from kinvD(3) [OF k] n nn no show ?thesis unfolding calls_ok_def f by fastforce
  qed
  moreover have "coupled B W s1 c" using kinvD(4) [OF k] o' unfolding coupled_def w by blast
  moreover have "m_owner (mutexes s1 obj) = Some t"
    using r(2) own by (auto simp: set_owned_next_def s0 owns_def)
  ultimately show ?thesis using r(1) o nc unfolding s1(2) by (intro kinv_hand_over) simp_all
qed

lemma kinv_mutex_unlock:
  assumes k: "kinv B W s c" and cur: "t_block_type (threads s (current_thread s)) \<noteq> THREAD_BLOCK_MUTEX"
    and nc: "c (current_thread s) = NoCall" and u: "mutex_unlock obj s = Some (r, s')"
  shows "\<exists>W'. kinv B W' s' c"
proof (cases "owns s (current_thread s) obj")
  case False
  with u have "panics s = Some (r, s')"
    by (auto simp: mutex_unlock_def owns_def split: if_splits)
  then have "s' = upd_thread (current_thread s)
      (\<lambda>r. r\<lparr>t_state := THREAD_DEFUNCT_ACK, t_block_type := THREAD_DEFUNCT_PANIC\<rparr>) s"
    by (simp add: panics_def handle_panic_def)
  moreover have "\<not> W (current_thread s) m" for m by (rule kinv_other_call [OF k]) (simp add: nc)
  ultimately show ?thesis using k cur by (intro exI [of _ W]) (auto intro: kinv_upd_thread)
next
  case True
  then have c: "m_count (mutexes s obj) \<noteq> 0" "m_owner (mutexes s obj) = Some (current_thread s)"
    by (auto simp: owns_def)
  let ?n = "m_count (mutexes s obj) - 1"
  let ?s = "upd_mutex obj (\<lambda>r. r\<lparr>m_count := ?n\<rparr>) s"
  have eq: "upd_mutex obj (\<lambda>r. r\<lparr>m_count := m_count r - 1\<rparr>) s = ?s" by (simp add: upd_mutex_def)
  have pos: "0 < m_count (mutexes s obj)"
    using kinvD(3) [OF k] c(1) unfolding calls_ok_def by (metis order_le_less)
  show ?thesis
  proof (cases "?n = 0")
    case True
    with u c obtain s2 where "mutex_unlock_internal obj ?s = Some s2" "s' = s2"
      by (auto simp: mutex_unlock_def eq split: bind_splits)
    with k \<open>owns s (current_thread s) obj\<close> True nc show ?thesis
      by (intro kinv_mutex_unlock_internal [of B W s c _ obj 0 ?s s']) auto
  next
    case False
    with u c have "s' = ?s" by (auto simp: mutex_unlock_def eq)
    with k c(1) False pos show ?thesis by (auto intro!: exI [of _ W] kinv_mutex_count)
  qed
qed

text \<open>Wakeups and sleeping.\<close>

lemma kinv_upd_wakeup:
  assumes k: "kinv B W s c" and "\<And>t. w_waiter (f (wakeups s w)) = Some t \<Longrightarrow>
    t_block_type (threads s t) \<noteq> THREAD_BLOCK_MUTEX \<and> (c t = InWait w \<or> c t = Gone)"
  shows "kinv B W (upd_wakeup w f s) c"
proof -
  let ?s = "upd_wakeup w f s"
  have w: "waits_for ?s = waits_for s" "owns ?s = owns s" "stopped ?s = stopped s"
    by (auto intro!: ext simp: waits_for_def owns_def stopped_def)
  then have "queues ?s W" "ownership ?s (owns ?s)" "coupled B W ?s c"
    using kinvD(1,2,4) [OF k]
    by (auto elim!: queues_cong ownership_cong simp: queue_next_def owned_next_def coupled_def)
  moreover have "calls_ok ?s c"
    using kinvD(3) [OF k] assms(2) unfolding calls_ok_def w upd_wakeup_sel by simp
  ultimately show ?thesis by (simp add: kinv_def)
qed

lemma kinv_call:
  assumes k: "kinv B W s c" and "t \<noteq> idle_thread s \<or> x = NoCall" and "\<And>m. x \<noteq> InLock m"
    and "t_block_type (threads s t) \<noteq> THREAD_BLOCK_MUTEX" and "\<And>w. w_waiter (wakeups s w) \<noteq> Some t"
    and "\<And>m. \<not> W t m"
  shows "kinv B W s (c(t := x))"
  using assms unfolding kinv_def calls_ok_def coupled_def by auto

lemma kinv_signalled:
  assumes "kinv B W s c"
  shows "kinv B W (upd_wakeup w (\<lambda>r. r\<lparr>w_signalled := b\<rparr>) s) c"
  using assms by (intro kinv_upd_wakeup) (auto simp: kinv_def calls_ok_def)

lemma kinv_wakeup_wait:
  assumes k: "kinv B W s c" and cur: "t_block_type (threads s (current_thread s)) \<noteq> THREAD_BLOCK_MUTEX"
    and nw: "\<And>m. \<not> W (current_thread s) m"
    and w: "wakeup_wait obj timeout s = Some (r, s')" and "r \<noteq> Blocks"
  shows "kinv B W s' c"
  using assms
  by (auto simp: wakeup_wait_def panics_def handle_panic_def Let_def
      intro: kinv_signalled kinv_upd_thread split: if_splits)

lemma kinv_wakeup_wait_blocks:
  assumes k: "kinv B W s c" and cur: "t_block_type (threads s (current_thread s)) \<noteq> THREAD_BLOCK_MUTEX"
    and w: "wakeup_wait obj timeout s = Some (Blocks, s')"
    and nc: "c (current_thread s) = NoCall" and "current_thread s \<noteq> idle_thread s"
  shows "kinv B W s' (c(current_thread s := InWait obj))"
proof -
  let ?t = "current_thread s"
  let ?f = "\<lambda>r. r\<lparr>t_state := THREAD_BLOCKED, t_block_type := THREAD_BLOCK_WAKEUP,
    t_blocked_by := Some obj, t_timeout := timeout, t_blocked_since := usec_timer s\<rparr>"
  have eq: "s' = upd_wakeup obj (\<lambda>r. r\<lparr>w_waiter := Some ?t\<rparr>) (upd_thread ?t ?f s)"
    using w by (auto simp: wakeup_wait_def Let_def panics_def split: if_splits bind_splits)
  have nw: "\<not> W ?t m" for m by (rule kinv_other_call [OF k]) (simp add: nc)
  then have k1: "kinv B W (upd_thread ?t ?f s) c" using k cur by (intro kinv_upd_thread) auto
  have "w_waiter (wakeups (upd_thread ?t ?f s) v) \<noteq> Some ?t" for v
    using kinvD(3) [OF k] nc unfolding calls_ok_def by fastforce
  with k1 nw have "kinv B W (upd_thread ?t ?f s) (c(?t := InWait obj))"
    using assms(5) by (intro kinv_call) auto
  then show ?thesis unfolding eq by (rule kinv_upd_wakeup) simp
qed

lemma kinv_wakeup_wait_resumed:
  assumes k: "kinv B W s c" and cur: "t_block_type (threads s (current_thread s)) \<noteq> THREAD_BLOCK_MUTEX"
    and c: "c (current_thread s) = InWait obj"
  shows "kinv B W (snd (wakeup_wait_resumed obj s)) (c(current_thread s := NoCall))"
proof -
  let ?s = "upd_wakeup obj (\<lambda>r. r\<lparr>w_waiter := None\<rparr>) s"
  have "kinv B W ?s c" using k by (rule kinv_upd_wakeup) simp
  moreover have "w_waiter (wakeups ?s v) \<noteq> Some (current_thread s)" for v
  proof
    assume w: "w_waiter (wakeups ?s v) = Some (current_thread s)"
    then have "w_waiter (wakeups s v) = Some (current_thread s)" "v \<noteq> obj" by (auto split: if_splits)
    with kinvD(3) [OF k] c show False unfolding calls_ok_def by (metis call.distinct call.inject)
  qed
  moreover have "\<not> W (current_thread s) m" for m by (rule kinv_other_call [OF k]) (simp add: c)
  ultimately have "kinv B W ?s (c(current_thread s := NoCall))" using cur by (intro kinv_call) auto
  then show ?thesis by (auto simp: wakeup_wait_resumed_def Let_def intro: kinv_signalled)
qed

lemma kinv_make_ready:
  assumes "kinv B W s c" and "t_block_type (threads s t) \<noteq> THREAD_BLOCK_MUTEX" and "\<And>m. \<not> W t m"
  shows "kinv B W (make_ready t s) c"
  using assms unfolding make_ready_def by (intro kinv_upd_thread) auto

lemma wakeup_waiter_free:
  assumes k: "kinv B W s c" and "w_waiter (wakeups s w) = Some t"
  shows "t_block_type (threads s t) \<noteq> THREAD_BLOCK_MUTEX" "\<not> W t m"
proof -
  from kinvD(3) [OF k] assms(2)
  have *: "t_block_type (threads s t) \<noteq> THREAD_BLOCK_MUTEX \<and> (c t = InWait w \<or> c t = Gone)"
    unfolding calls_ok_def by blast
  then show "t_block_type (threads s t) \<noteq> THREAD_BLOCK_MUTEX" by simp
  from * show "\<not> W t m" by (intro kinv_other_call [OF k]) auto
qed

lemma kinv_sleep:
  assumes "kinv B W s c" and "t_block_type (threads s (current_thread s)) \<noteq> THREAD_BLOCK_MUTEX"
    and "\<And>m. \<not> W (current_thread s) m"
  shows "kinv B W (sleep usecs s) c"
  using assms unfolding sleep_def by (auto intro: kinv_upd_thread)

text \<open>A new mutex, and a new wakeup.\<close>

lemma kinv_mutex_init:
  assumes k: "kinv B W s c" and "m_count (mutexes s m) = 0" and "m_waiters (mutexes s m) = None"
  shows "kinv B W (mutex_init m s) c"
proof -
  let ?s = "mutex_init m s"
  have w: "waits_for ?s = waits_for s" "stopped ?s = stopped s"
    by (auto intro!: ext simp: waits_for_def stopped_def mutex_init_def)
  have o: "owns ?s = owns s"
  proof (intro ext)
    fix u n show "owns ?s u n = owns s u n" using assms(2) by (cases "n = m") (auto simp: owns_def mutex_init_def)
  qed
  have "queues ?s W" using kinvD(1) [OF k] assms(3)
    by (auto elim!: queues_cong simp: mutex_init_def queue_next_def)
  moreover have "ownership ?s (owns s)"
    unfolding ownership_def
  proof
    fix t
    from kinvD(2) [OF k] obtain os where os: "owned_list s t os" "\<forall>m. m \<in> set os \<longleftrightarrow> owns s t m"
      unfolding ownership_def by metis
    with assms(2) have "m \<notin> set os" by (auto simp: owns_def)
    moreover have "owned_next ?s = (owned_next s)(m := None)"
      by (rule ext) (simp add: mutex_init_def owned_next_def)
    moreover have "threads ?s = threads s" by (simp add: mutex_init_def)
    ultimately have "owned_list ?s t os" using os(1) by (simp add: owned_list_def)
    with os(2) show "\<exists>os. owned_list ?s t os \<and> (\<forall>m. m \<in> set os \<longleftrightarrow> owns s t m)" by blast
  qed
  moreover have "calls_ok ?s c" using kinvD(3) [OF k] unfolding calls_ok_def o
    by (auto simp: mutex_init_def)
  moreover have "coupled B W ?s c" using kinvD(4) [OF k] unfolding coupled_def w o .
  ultimately show ?thesis unfolding kinv_def o by blast
qed

lemma kinv_wakeup_init: "kinv B W s c \<Longrightarrow> kinv B W (wakeup_init w s) c"
  unfolding wakeup_init_def by (rule kinv_upd_wakeup) auto

text \<open>Suspending and resuming a thread.\<close>

lemma kinv_remove_waiter:
  assumes k: "kinv B W s c" and "W t m" and "mutex_remove_from_queue m t s = Some s1"
  shows "core s1 = core s" "queues s1 (\<lambda>u n. W u n \<and> u \<noteq> t)"
  using queues_remove [OF kinvD(1) [OF k] assms(3,2)] queued_unique [OF k] by blast+

lemma kinv_blocked_waits:
  assumes k: "kinv B W s c" and "t_block_type (threads s t) = THREAD_BLOCK_MUTEX"
    and "t_state (threads s t) \<noteq> THREAD_SUSPENDED"
  obtains m where "t_blocked_by (threads s t) = Some m" "W t m" "waits_for s t m"
proof -
  from kinvD(3) [OF k] assms(2,3) obtain m where m: "t_blocked_by (threads s t) = Some m"
    "waits_for s t m" unfolding calls_ok_def waits_for_def by fastforce
  with waits_queued [OF k] that show ?thesis by blast
qed

lemma kinv_thread_suspend:
  assumes k: "kinv B W s c" and r: "thread_suspend thread s = Some (r, s')"
  shows "\<exists>W'. kinv B W' s' c"
proof -
  let ?t = "the_thread thread s" and ?f = "\<lambda>r. r\<lparr>t_state := THREAD_SUSPENDED\<rparr>"
  let ?r = "threads s ?t"
  have comp: "upd_thread ?t ?f (upd_thread ?t g s1) = upd_thread ?t (\<lambda>r. ?f (g r)) s1" for g s1
    by (simp add: upd_thread_def)
  have st: "t_queue_next (stop_timeout s x) = t_queue_next x"
    "t_owned_mutexes (stop_timeout s x) = t_owned_mutexes x"
    "t_block_type (stop_timeout s x) = t_block_type x"
    "t_blocked_by (stop_timeout s x) = t_blocked_by x" for x
    by (simp_all add: stop_timeout_def)
  show ?thesis
  proof (cases "t_state ?r = THREAD_SUSPENDED")
    case True
    with r k show ?thesis by (auto simp: thread_suspend_def Let_def)
  next
    case ns: False
    show ?thesis
    proof (cases "t_block_type ?r = THREAD_BLOCK_MUTEX")
      case True
      from kinv_blocked_waits [OF k this ns] obtain m where
        m: "t_blocked_by ?r = Some m" "W ?t m" "waits_for s ?t m" .
      with r ns True obtain s1 where s1: "mutex_remove_from_queue m ?t s = Some s1"
        "s' = upd_thread ?t (\<lambda>r. ?f (stop_timeout s r)) s1"
        by (auto simp: thread_suspend_def Let_def waits_for_def comp split: bind_splits)
      note q = kinv_remove_waiter [OF k m(2) s1(1)]
      have "kinv B (\<lambda>u n. W u n \<and> u \<noteq> ?t) s' c" unfolding s1(2)
        using k m(2) q by (rule kinv_leave_queue)
          (auto simp: st core_thread_fields [OF q(1)] m)
      then show ?thesis by blast
    next
      case False
      have "kinv B W (upd_thread ?t (\<lambda>r. ?f (stop_timeout s r)) s) c" "kinv B W (upd_thread ?t ?f s) c"
        using k False by (intro kinv_upd_thread; simp add: st)+
      with r ns False show ?thesis
        by (auto simp: thread_suspend_def Let_def comp intro!: exI [of _ W] split: if_splits thread_block.splits)
    qed
  qed
qed

lemma kinv_thread_resume:
  assumes k: "kinv B W s c" and r: "thread_resume thread s = Some (r, s')"
    and nw: "\<And>m. \<not> W (the_thread thread s) m" and ng: "c (the_thread thread s) \<noteq> Gone"
  shows "\<exists>W'. kinv B W' s' c"
proof -
  let ?t = "the_thread thread s"
  let ?f = "\<lambda>r. r\<lparr>t_blocked_since := usec_timer s, t_state := THREAD_BLOCKED\<rparr>"
  let ?r = "threads s ?t"
  show ?thesis
  proof (cases "t_state ?r = THREAD_SUSPENDED \<and> t_block_type ?r = THREAD_BLOCK_MUTEX")
    case True
    with kinvD(3) [OF k] ng obtain m where m: "t_blocked_by ?r = Some m" "c ?t = InLock m" "\<not> owns s ?t m"
      unfolding calls_ok_def by auto
    let ?W = "\<lambda>u n. W u n \<or> u = ?t \<and> n = m"
    obtain s1 where s1: "mutex_add_to_queue m ?t s = Some s1" "core s1 = core s" "queues s1 ?W"
      using kinvD(1) [OF k] nw
      by (rule queues_add [of s W ?t m]) (auto intro: queued_unique [OF k])
    with True m r have s': "s' = upd_thread ?t ?f s1"
      by (auto simp: thread_resume_def Let_def)
    note f = core_fields [OF s1(2)]
    have w: "waits_for s' u n = (waits_for s u n \<or> u = ?t \<and> n = m)" for u n
      using True m by (auto simp: waits_for_def f s')
    have o: "owns s' u n = owns s u n" for u n by (simp add: owns_def f s')
    have "queues s' ?W"
      using s1(3) by (auto simp: s' queue_next_upd_thread elim!: queues_cong)
    moreover have "ownership s' (owns s')"
      using kinvD(2) [OF k]
      by (rule ownership_cong) (auto simp: o, auto simp: f s' core_owned_next [OF s1(2)])
    moreover have "calls_ok s' c"
      using kinvD(3) [OF k] m True o unfolding calls_ok_def by (auto simp: f s')
    moreover have "coupled B ?W s' c"
    proof -
      have "stopped s' u = stopped s u" if "u \<noteq> ?t" for u using that by (simp add: stopped_def f s')
      with kinvD(4) [OF k] m nw show ?thesis unfolding coupled_def w o by metis
    qed
    ultimately show ?thesis unfolding kinv_def by blast
  next
    case False
    have "kinv B W (upd_thread ?t f s) c"
      if "t_block_type ?r \<noteq> THREAD_BLOCK_MUTEX" "\<And>r. t_queue_next (f r) = t_queue_next r"
        "\<And>r. t_owned_mutexes (f r) = t_owned_mutexes r" "\<And>r. t_block_type (f r) = t_block_type r" for f
      using k that nw by (intro kinv_upd_thread) auto
    with False r k show ?thesis
      by (auto simp: thread_resume_def Let_def intro!: exI [of _ W] split: if_splits thread_block.splits)
  qed
qed

section \<open>Panics, creation and termination keep the invariant\<close>

lemma suspend_if_user_sel [simp]:
  "current_thread (suspend_if_user t s) = current_thread s" "idle_thread (suspend_if_user t s) = idle_thread s"
  "mutexes (suspend_if_user t s) = mutexes s" "wakeups (suspend_if_user t s) = wakeups s"
  "t_block_type (threads (suspend_if_user t s) u) = t_block_type (threads s u)"
  "dbgwakeup (suspend_if_user t s) = dbgwakeup s"
  by (simp_all add: suspend_if_user_def)

lemma kinv_suspend_if_user: "kinv True W s c \<Longrightarrow> kinv True W (suspend_if_user t s) c"
  by (auto simp: suspend_if_user_def intro: kinv_stop)

text \<open>Stopping all user threads leaves the queues and the calls alone.\<close>

lemma kinv_suspend_users:
  assumes "kinv True W s c"
  shows "kinv True W (fold suspend_if_user ts s) c
    \<and> current_thread (fold suspend_if_user ts s) = current_thread s
    \<and> (\<forall>u. t_block_type (threads (fold suspend_if_user ts s) u) = t_block_type (threads s u))
    \<and> mutexes (fold suspend_if_user ts s) = mutexes s \<and> wakeups (fold suspend_if_user ts s) = wakeups s"
  by (rule fold_invariant_set) (use assms in \<open>auto intro: kinv_suspend_if_user\<close>)

lemma kinv_handle_panic:
  assumes k: "kinv B W s c" and cur: "t_block_type (threads s (current_thread s)) \<noteq> THREAD_BLOCK_MUTEX"
    and nw: "\<And>m. \<not> W (current_thread s) m" and B: "B \<or> sev \<noteq> PANIC_KILLUSERTHREADS"
    and p: "handle_panic sev s = Some s'"
  shows "kinv B W s' c"
proof (cases "sev = PANIC_KILLUSERTHREADS")
  case False
  with p k cur nw show ?thesis
    by (auto simp: handle_panic_def split: if_splits intro: kinv_upd_thread)
next
  case True
  with B have "B" by simp
  with p True obtain ts where
    s': "s' = upd_thread (current_thread (fold suspend_if_user ts s))
      (\<lambda>r. r\<lparr>t_state := THREAD_DEFUNCT_ACK, t_block_type := THREAD_DEFUNCT_PANIC\<rparr>) (fold suspend_if_user ts s)"
    by (auto simp: handle_panic_def split: bind_splits)
  from kinv_suspend_users [of W s c ts] k \<open>B\<close> cur nw show ?thesis
    unfolding s' by (intro kinv_upd_thread) auto
qed

lemma kinv_stack_overflow:
  assumes k: "kinv True W s c" and o: "stack_overflow s = Some s'"
  shows "kinv True W s' c"
proof -
  from o obtain ts where ts: "thread_list s = Some ts" by (auto simp: stack_overflow_def split: bind_splits)
  let ?s0 = "fold suspend_if_user ts s"
  let ?s1 = "upd_thread (current_thread s)
      (\<lambda>r. r\<lparr>t_state := THREAD_DEFUNCT, t_block_type := THREAD_DEFUNCT_STKOV\<rparr>) ?s0"
  let ?s2 = "upd_wakeup (dbgwakeup ?s1) (\<lambda>r. r\<lparr>w_signalled := True\<rparr>) ?s1"
  note f = kinv_suspend_users [OF k, of ts]
  have "kinv True W ?s1 c" using f by (intro kinv_stop) auto
  then have k2: "kinv True W ?s2 c" by (rule kinv_signalled)
  show ?thesis
  proof (cases "w_waiter (wakeups ?s2 (dbgwakeup ?s2))")
    case None
    with o ts k2 f show ?thesis by (simp add: stack_overflow_def Let_def)
  next
    case (Some w)
    note free = wakeup_waiter_free [OF k2 Some]
    from o ts f Some have "s' = make_ready w ?s2"
      by (auto simp: stack_overflow_def Let_def split: if_splits)
    with kinv_make_ready [OF k2 free] show ?thesis by simp
  qed
qed

text \<open>
  One round of the loop that releases the mutexes of a terminated thread. It goes on along the list
  of a thread that holds the next mutex and is not inside \<open>mutex_lock\<close> of it.
\<close>

definition release_chain :: "mid option \<Rightarrow> kstate \<Rightarrow> (tid \<Rightarrow> call) \<Rightarrow> bool" where
  "release_chain p s c \<longleftrightarrow> (\<exists>u xs os. owned_list s u (xs @ os) \<and> linked (owned_next s) p os
     \<and> (\<forall>m \<in> set os. c u \<noteq> InLock m))"

lemma kinv_owned_list:
  assumes "kinv B W s c" and "owned_list s t os"
  shows "m \<in> set os \<longleftrightarrow> owns s t m"
proof -
  from kinvD(2) [OF assms(1)] obtain ys where "owned_list s t ys" "\<And>m. m \<in> set ys \<longleftrightarrow> owns s t m"
    unfolding ownership_def by metis
  with assms(2) show ?thesis using linked_unique unfolding owned_list_def by blast
qed

lemma kinv_waiters:
  assumes "kinv B W s c" and "waiters s m ws"
  shows "t \<in> set ws \<longleftrightarrow> W t m"
proof -
  from kinvD(1) [OF assms(1)] obtain vs where "waiters s m vs" "\<And>t. t \<in> set vs \<longleftrightarrow> W t m"
    unfolding queues_def by metis
  with assms(2) show ?thesis using linked_unique unfolding waiters_def by blast
qed

lemma kinv_first_waiter:
  assumes "kinv B W s c" and "m_waiters (mutexes s m) = Some w"
  shows "W w m"
proof -
  from kinvD(1) [OF assms(1)] obtain ws where ws: "waiters s m ws" unfolding queues_def by metis
  with assms(2) have "w \<in> set ws" by (cases ws) (auto simp: waiters_def)
  with kinv_waiters [OF assms(1) ws] show ?thesis by simp
qed

text \<open>The owner's list without a mutex, and the link that the loops of thread.c follow next.\<close>

lemma unlink_owned_split:
  assumes l: "owned_list s t (xs @ m # os)" and u: "mutex_unlock_internal m s = Some s'"
    and own: "m_owner (mutexes s m) = Some t"
  obtains s1 where "s' = mutex_hand_over m s1" "mutexes s1 m = mutexes s m" "queue_next s1 = queue_next s"
    "\<And>n. n \<notin> set xs \<Longrightarrow> mutexes s1 n = mutexes s n" "owned_list s1 t (xs @ os)"
    "\<And>v. v \<noteq> t \<Longrightarrow> threads s1 v = threads s v"
    "linked (owned_next s1) (owned_next s1 m) os"
proof -
  from l obtain o1 where o1: "t_owned_mutexes (threads s t) = Some o1"
    "linked (owned_next s) (Some o1) (xs @ m # os)" unfolding owned_list_def
    by (cases "t_owned_mutexes (threads s t)") (simp_all only: linked_None, simp)
  from o1(2) have d: "distinct (xs @ m # os)" by (rule linked_distinct)
  from o1(2) have ll: "linked (owned_next s) (owned_next s m) os" by auto
  from u own o1(1) obtain s1 where s1: "unlink_owned m t o1 s = Some s1" "s' = mutex_hand_over m s1"
    by (auto simp: mutex_unlock_internal_alt split: bind_splits)
  have "m \<in> set (xs @ m # os)" by simp
  with o1(2) show ?thesis
  proof (cases rule: unlink_owned_cases [where t = t])
    case (head os')
    with d have "xs = []" by (cases xs) auto
    moreover from head s1(1) have e: "s1 = upd_thread t (\<lambda>r. r\<lparr>t_owned_mutexes := owned_next s m\<rparr>) s" by simp
    ultimately show ?thesis using s1(2) ll
      by (intro that [of s1]) (auto simp: owned_list_def queue_next_upd_thread)
  next
    case (inner as z y ys)
    have "as @ [z] = xs \<and> y # ys = os"
    proof -
      from d have "m \<notin> set xs" "m \<notin> set os" by auto
      moreover from inner(1) d have "m \<notin> set (as @ [z])" "m \<notin> set (y # ys)" by auto
      moreover from inner(1) have "xs @ m # os = (as @ [z]) @ m # (y # ys)" by simp
      ultimately show ?thesis by (metis append_Cons_eq_iff)
    qed
    then have xs: "xs = as @ [z]" "os = y # ys" by simp_all
    have e: "s1 = set_owned_next z (owned_next s m) s" using inner s1(1) by simp
    have "linked (owned_next s1) (Some o1) (as @ z # os)"
      using o1(2) xs unfolding e by (intro owned.unlink_after) simp
    moreover have "linked (owned_next s1) (owned_next s1 m) os"
    proof -
      have "z \<noteq> m" "z \<notin> set os" using d xs by auto
      then show ?thesis using ll by (simp add: e owned.get_put)
    qed
    moreover have "queue_next s1 = queue_next s" by (rule ext) (simp add: e set_owned_next_def queue_next_def)
    ultimately show ?thesis using s1(2) xs o1(1) d
      by (intro that [of s1]) (auto simp: e set_owned_next_def owned_list_def)
  next
    case (last_one as z)
    with s1 show ?thesis by simp
  qed
qed

lemma unlock_all_step:
  assumes k: "kinv B W s c" and l: "owned_list s u (xs @ m # os)"
    and nc: "\<forall>n \<in> set (m # os). c u \<noteq> InLock n" and s': "mutex_unlock_internal m s = Some s'"
  shows "\<exists>W'. kinv B W' s' c" and "release_chain (owned_next s' m) s' c"
proof -
  have own: "owns s u m" using kinv_owned_list [OF k l, of m] by simp
  have "s = upd_mutex m (\<lambda>r. r\<lparr>m_count := m_count (mutexes s m)\<rparr>) s" by (simp add: upd_mutex_def)
  moreover have "0 \<le> m_count (mutexes s m)" using kinvD(3) [OF k] by (simp add: calls_ok_def)
  ultimately show "\<exists>W'. kinv B W' s' c"
    using nc by (intro kinv_mutex_unlock_internal [OF k own _ _ _ s']) auto
  from own have ow: "m_owner (mutexes s m) = Some u" by (simp add: owns_def)
  from l s' ow obtain s1 where s1: "s' = mutex_hand_over m s1" "mutexes s1 m = mutexes s m"
    "queue_next s1 = queue_next s" "\<And>n. n \<notin> set xs \<Longrightarrow> mutexes s1 n = mutexes s n"
    "owned_list s1 u (xs @ os)" "\<And>v. v \<noteq> u \<Longrightarrow> threads s1 v = threads s v"
    "linked (owned_next s1) (owned_next s1 m) os" by (rule unlink_owned_split) blast
  show "release_chain (owned_next s' m) s' c"
  proof (cases "m_waiters (mutexes s m)")
    case None
    then have e: "s' = upd_mutex m (\<lambda>r. r\<lparr>m_count := 0\<rparr>) s1" using s1(1,2) by (simp add: mutex_hand_over_def)
    have "owned_next s' = owned_next s1" by (rule ext) (simp add: e owned_next_def)
    with s1(5,7) nc show ?thesis unfolding release_chain_def e owned_list_def by fastforce
  next
    case (Some w)
    have w: "W w m" using k Some by (rule kinv_first_waiter)
    note q = queued_call(1,2) [OF k w]
    from own q(2) have ne: "w \<noteq> u" by blast
    from kinvD(2) [OF k] obtain ns where ns: "owned_list s w ns" "\<And>n. n \<in> set ns \<longleftrightarrow> owns s w n"
      unfolding ownership_def by metis
    have dis: "n \<notin> set xs" "n \<noteq> m" if "n \<in> set ns" for n
      using that ns(2) kinv_owned_list [OF k l, of n] ne owns_unique [of s u n w] q(2) by auto
    have Some': "m_waiters (mutexes s1 m) = Some w" using Some s1(2) by simp
    note h = hand_over_threads(1,2) [OF Some', folded s1(1)]
    have "owned_next s' n = owned_next s n" if "n \<in> set ns" for n
      using dis [OF that] s1(4) by (simp add: owned_next_def h)
    then have "linked (owned_next s') (t_owned_mutexes (threads s w)) ns"
      using ns(1) lseg_cong [of ns "owned_next s'" "owned_next s"] unfolding owned_list_def by blast
    moreover have "owned_next s' m = t_owned_mutexes (threads s w)" "t_owned_mutexes (threads s' w) = Some m"
      using s1(6) [OF ne] by (simp_all add: owned_next_def h)
    ultimately have "owned_list s' w ([m] @ ns)" "linked (owned_next s') (owned_next s' m) ns"
      by (simp_all add: owned_list_def)
    moreover have "\<forall>n \<in> set ns. c w \<noteq> InLock n" using q(1) dis(2) by auto
    ultimately show ?thesis unfolding release_chain_def by blast
  qed
qed

lemma kinv_unlock_all:
  assumes "unlock_all p s = Some s'" and "kinv B W s c" and "release_chain p s c"
  shows "\<exists>W'. kinv B W' s' c"
proof -
  have "(\<exists>W. kinv B W s c) \<longrightarrow> release_chain p s c \<longrightarrow> (\<exists>W'. kinv B W' s' c)"
  proof (rule unlock_all.raw_induct [where P = "\<lambda>p s s'.
      (\<exists>W. kinv B W s c) \<longrightarrow> release_chain p s c \<longrightarrow> (\<exists>W'. kinv B W' s' c)", OF _ assms(1)])
    fix f p s s'
    assume IH: "\<And>p s y. f p s = Some y \<Longrightarrow>
        (\<exists>W. kinv B W s c) \<longrightarrow> release_chain p s c \<longrightarrow> (\<exists>W'. kinv B W' y c)"
      and e: "(case p of None \<Rightarrow> Some s
        | Some m \<Rightarrow> mutex_unlock_internal m s \<bind> (\<lambda>s'. f (owned_next s' m) s')) = Some s'"
    show "(\<exists>W. kinv B W s c) \<longrightarrow> release_chain p s c \<longrightarrow> (\<exists>W'. kinv B W' s' c)"
    proof (cases p)
      case None
      with e show ?thesis by auto
    next
      case (Some m)
      with e obtain s1 where s1: "mutex_unlock_internal m s = Some s1" "f (owned_next s1 m) s1 = Some s'"
        by (auto split: bind_splits)
      show ?thesis
      proof (intro impI)
        assume "\<exists>W. kinv B W s c" and "release_chain p s c"
        then obtain W u xs os where k: "kinv B W s c" and "owned_list s u (xs @ m # os)"
          "\<forall>n \<in> set (m # os). c u \<noteq> InLock n"
          unfolding release_chain_def Some by (fastforce simp: linked_Some)
        from unlock_all_step [OF this s1(1)] IH [OF s1(2)] show "\<exists>W'. kinv B W' s' c" by blast
      qed
    qed
  qed
  with assms(2,3) show ?thesis by blast
qed

lemma kinv_gone:
  assumes k: "kinv B W s c" and "t \<noteq> idle_thread s" and nw: "\<And>m. \<not> W t m"
  shows "kinv B W s (c(t := Gone))"
proof -
  have "t_state (threads s t) = THREAD_SUSPENDED" if "t_block_type (threads s t) = THREAD_BLOCK_MUTEX"
    using kinv_blocked_waits [OF k that] nw by blast
  then have "calls_ok s (c(t := Gone))"
    using kinvD(3) [OF k] assms(2) unfolding calls_ok_def by auto
  moreover have "coupled B W s (c(t := Gone))"
    using kinvD(4) [OF k] nw unfolding coupled_def by auto
  ultimately show ?thesis using kinvD(1,2) [OF k] by (simp add: kinv_def)
qed

lemma kinv_terminate_detach:
  assumes k: "kinv B W s c" and t: "t = the_thread thread s" "t \<noteq> idle_thread s" and nw: "\<And>m. \<not> W t m"
    and c: "t = current_thread s \<Longrightarrow> c t = NoCall"
    and d: "terminate_detach junk thread s = Some (b, s')"
  shows "\<exists>W'. kinv B W' s' (c(t := if t = current_thread s then NoCall else Gone))"
proof -
  let ?c = "c(t := if t = current_thread s then NoCall else Gone)"
  have kc: "kinv B W s ?c"
  proof (cases "t = current_thread s")
    case True
    with c have "?c = c" by (auto simp: fun_eq_iff)
    with k show ?thesis by simp
  next
    case False
    with kinv_gone [OF k t(2) nw] show ?thesis by simp
  qed
  have nm: "t_block_type (threads s t) \<noteq> THREAD_BLOCK_MUTEX" if "t_state (threads s t) \<noteq> THREAD_SUSPENDED"
    using kinv_blocked_waits [OF k _ that] nw by blast
  from d t(1) obtain s1 where u: "unlock_all (t_owned_mutexes (threads s1 t)) s1 = Some s'"
    and s1: "s1 = s \<or> (\<exists>s0. (s0 = s \<or> (\<exists>w. s0 = upd_wakeup w (\<lambda>x. x\<lparr>w_waiter := None\<rparr>) s))
        \<and> t_state (threads s t) \<noteq> THREAD_RUNNING
        \<and> s1 = upd_thread t (\<lambda>r. r\<lparr>t_state := THREAD_SUSPENDED\<rparr>) s0)"
  proof (cases "t_state (threads s t) = THREAD_RUNNING")
    case True
    with d t(1) have "unlock_all (t_owned_mutexes (threads s t)) s = Some s'"
      by (auto simp: terminate_detach_def Let_def split: bind_splits)
    then show ?thesis by (rule that) simp
  next
    case False
    from False nm d t(1) obtain s0 where
      "s0 = s \<or> (\<exists>w. s0 = upd_wakeup w (\<lambda>x. x\<lparr>w_waiter := None\<rparr>) s)"
      "unlock_all (t_owned_mutexes (threads s0 t)) (upd_thread t (\<lambda>r. r\<lparr>t_state := THREAD_SUSPENDED\<rparr>) s0) = Some s'"
      by (auto simp: terminate_detach_def Let_def split: if_splits bind_splits thread_block.splits)
    with False show ?thesis
      by (intro that [of "upd_thread t (\<lambda>r. r\<lparr>t_state := THREAD_SUSPENDED\<rparr>) s0"]) auto
  qed
  have "kinv B W s1 ?c"
    using s1
  proof
    assume "\<exists>s0. (s0 = s \<or> (\<exists>w. s0 = upd_wakeup w (\<lambda>x. x\<lparr>w_waiter := None\<rparr>) s))
        \<and> t_state (threads s t) \<noteq> THREAD_RUNNING \<and> s1 = upd_thread t (\<lambda>r. r\<lparr>t_state := THREAD_SUSPENDED\<rparr>) s0"
    then obtain s0 where s0: "s0 = s \<or> (\<exists>w. s0 = upd_wakeup w (\<lambda>x. x\<lparr>w_waiter := None\<rparr>) s)"
      "s1 = upd_thread t (\<lambda>r. r\<lparr>t_state := THREAD_SUSPENDED\<rparr>) s0" by blast
    from s0(1) kc have k0: "kinv B W s0 ?c" by (auto intro: kinv_upd_wakeup)
    have th: "threads s0 = threads s" using s0(1) by auto
    show ?thesis
    proof (cases "t_state (threads s t) = THREAD_SUSPENDED")
      case True
      with th have "threads s0 t = (threads s0 t)\<lparr>t_state := THREAD_SUSPENDED\<rparr>" by simp
      then have "s1 = s0" unfolding s0(2) upd_thread_def by (simp add: fun_upd_idem)
      with k0 show ?thesis by simp
    next
      case False
      with nm th nw k0 show ?thesis unfolding s0(2) by (intro kinv_upd_thread) auto
    qed
  qed (use kc in simp)
  moreover have "release_chain (t_owned_mutexes (threads s1 t)) s1 ?c"
  proof -
    from kinvD(2) [OF \<open>kinv B W s1 ?c\<close>] obtain os where os: "owned_list s1 t os" unfolding ownership_def by blast
    then have "owned_list s1 t ([] @ os) \<and> linked (owned_next s1) (t_owned_mutexes (threads s1 t)) os
        \<and> (\<forall>m \<in> set os. ?c t \<noteq> InLock m)" by (auto simp: owned_list_def)
    then show ?thesis unfolding release_chain_def by blast
  qed
  ultimately show ?thesis using u by (intro kinv_unlock_all)
qed

lemma kinv_terminate_unlink:
  assumes "kinv B W s c" and "terminate_unlink t s = Some s'"
  shows "kinv B W s' c"
proof -
  from assms(2) consider "s' = s" | a where "s' = set_thread_next a (thread_next s t) s"
    by (auto simp: terminate_unlink_def split: bind_splits option.splits)
  then show ?thesis
  proof cases
    case 2
    with assms(1) show ?thesis by (auto elim!: kinv_frame simp: set_thread_next_def queue_next_def)
  qed (use assms(1) in simp)
qed

text \<open>A new thread, in memory where nothing is linked any more.\<close>

lemma kinv_thread_create:
  assumes k: "kinv B W s c" and t: "t \<noteq> idle_thread s" "\<And>m. \<not> W t m" "\<And>m. \<not> owns s t m"
      "\<And>w. w_waiter (wakeups s w) \<noteq> Some t"
    and s': "thread_create_with t name code ex stack sz type prio run a0 a1 a2 a3 s = Some s'"
  shows "kinv B W s' (c(t := NoCall))"
proof -
  let ?r = "new_thread name code ex stack sz type prio run a0 a1 a2 a3"
  let ?c = "c(t := NoCall)"
  let ?p = "paint_stack stack sz s" and ?u = "upd_thread t (\<lambda>_. ?r) (paint_stack stack sz s)"
  have p: "threads ?p = threads s" "mutexes ?p = mutexes s" "wakeups ?p = wakeups s" "idle_thread ?p = idle_thread s"
    by (simp_all add: paint_stack_def)
  have r: "t_block_type ?r = THREAD_NOT_BLOCKED" "t_owned_mutexes ?r = None" by (simp_all add: new_thread_def)
  have nwt: "\<not> waits_for s t m" for m using waits_queued [OF k] t(2) by blast
  have w: "waits_for ?u = waits_for s"
  proof (intro ext)
    fix v m show "waits_for ?u v m = waits_for s v m"
      using nwt [of m] r(1) by (cases "v = t") (auto simp: waits_for_def p)
  qed
  have o: "owns ?u = owns s" by (auto intro!: ext simp: owns_def p)
  have "queues ?u W"
  proof -
    have "\<exists>ws. waiters ?u m ws \<and> (\<forall>v. v \<in> set ws \<longleftrightarrow> W v m)" for m
    proof -
      from kinvD(1) [OF k] obtain ws where ws: "waiters s m ws" "\<And>v. v \<in> set ws \<longleftrightarrow> W v m"
        unfolding queues_def by metis
      have "queue_next ?u v = queue_next s v" if "v \<in> set ws" for v
        using that ws(2) t(2) by (auto simp: queue_next_def p)
      with ws(1) lseg_cong [of ws "queue_next ?u" "queue_next s"] have "waiters ?u m ws"
        unfolding waiters_def by (simp add: p)
      with ws(2) show ?thesis by blast
    qed
    then show ?thesis unfolding queues_def by blast
  qed
  moreover have "ownership ?u (owns s)"
    unfolding ownership_def
  proof
    fix v
    from kinvD(2) [OF k] obtain os where os: "owned_list s v os" "\<forall>m. m \<in> set os \<longleftrightarrow> owns s v m"
      unfolding ownership_def by metis
    have on: "owned_next ?u = owned_next s" "owned_next ?p = owned_next s"
      by (rule ext, simp add: owned_next_def p)+
    have "v = t \<Longrightarrow> os = []" using os(2) t(3) by (cases os) auto
    with os r(2) have "owned_list ?u v os" by (auto simp: owned_list_def on p)
    with os(2) show "\<exists>os. owned_list ?u v os \<and> (\<forall>m. m \<in> set os \<longleftrightarrow> owns s v m)" by blast
  qed
  moreover have "calls_ok ?u ?c"
    using kinvD(3) [OF k] t r(1) unfolding calls_ok_def o by (auto simp: p)
  moreover have "coupled B W ?u ?c"
  proof -
    have "stopped ?u v = stopped s v" if "v \<noteq> t" for v using that by (simp add: stopped_def p)
    then show ?thesis using kinvD(4) [OF k] t(2) unfolding coupled_def w o by (metis fun_upd_other)
  qed
  ultimately have "kinv B W ?u ?c" unfolding kinv_def o by blast
  moreover from s' obtain h q where "s' = set_thread_next h (Some t) (set_thread_next t q ?u)"
    by (auto simp: thread_create_with_def link_thread_def split: bind_splits)
  ultimately show ?thesis
    by (auto elim!: kinv_frame simp: set_thread_next_def queue_next_def)
qed

section \<open>The scheduler keeps the invariant\<close>

lemma kinv_expire:
  assumes k: "kinv B W s c" and e: "expire_thread usec t (s, nu) = Some (s', nu')"
  shows "\<exists>W'. kinv B W' s' c" and "idle_thread s' = idle_thread s"
proof -
  let ?r = "threads s t"
  have "(\<exists>W'. kinv B W' s' c) \<and> idle_thread s' = idle_thread s"
  proof (cases "has_timeout ?r \<and> TIME_AFTER usec (t_blocked_since ?r + t_timeout ?r)")
    case False
    with e k show ?thesis by (auto simp: expire_thread_def Let_def split: if_splits)
  next
    case True
    then have bl: "t_state ?r = THREAD_BLOCKED" by (simp add: has_timeout_def)
    show ?thesis
    proof (cases "t_block_type ?r = THREAD_BLOCK_MUTEX")
      case bt: True
      from kinv_blocked_waits [OF k bt] bl obtain m where m: "t_blocked_by ?r = Some m" "W t m" by auto
      with e True bt obtain s1 where s1: "mutex_remove_from_queue m t s = Some s1"
        "s' = make_ready t s1"
        by (auto simp: expire_thread_def Let_def split: bind_splits)
      note q = kinv_remove_waiter [OF k m(2) s1(1)]
      have "kinv B (\<lambda>u n. W u n \<and> u \<noteq> t) s' c" unfolding s1(2) make_ready_def
        using k m(2) q by (rule kinv_leave_queue) auto
      with s1(2) show ?thesis by (auto simp: make_ready_def core_globals [OF q(1)])
    next
      case False
      with True e have s': "s' = make_ready t s"
        by (auto simp: expire_thread_def Let_def)
      have "\<not> W t m" for m
        using queued_call(3) [OF k, of t m] False bl by (auto simp: waits_for_def stopped_def)
      with kinv_make_ready [OF k False] have "kinv B W s' c" by (simp add: s')
      then show ?thesis by (auto simp: s' make_ready_def)
    qed
  qed
  then show "\<exists>W'. kinv B W' s' c" and "idle_thread s' = idle_thread s" by auto
qed

lemma kinv_expire_all:
  assumes "foldM (expire_thread usec) ts (s, nu) = Some (s', nu')" and "kinv B W s c"
  shows "(\<exists>W'. kinv B W' s' c) \<and> idle_thread s' = idle_thread s"
proof -
  have "(\<exists>W'. kinv B W' (fst (s', nu')) c) \<and> idle_thread (fst (s', nu')) = idle_thread s"
    using assms(1)
  proof (rule foldM_invariant)
    show "(\<exists>W'. kinv B W' (fst (s, nu)) c) \<and> idle_thread (fst (s, nu)) = idle_thread s" using assms(2) by auto
  next
    fix x p p' assume p: "(\<exists>W'. kinv B W' (fst p) c) \<and> idle_thread (fst p) = idle_thread s"
      "expire_thread usec x p = Some p'"
    obtain s1 n1 s2 n2 where "p = (s1, n1)" "p' = (s2, n2)" by fastforce
    with p kinv_expire [of B _ s1 c usec x n1 s2 n2]
    show "(\<exists>W'. kinv B W' (fst p') c) \<and> idle_thread (fst p') = idle_thread s" by auto
  qed
  then show ?thesis by simp
qed

lemma pick_thread_cases:
  "pick_thread s block ts = idle_thread s
   \<or> (pick_thread s block ts \<in> set ts \<and> t_state (threads s (pick_thread s block ts)) = THREAD_READY)"
proof -
  have "snd (fold (pick_step s block) us p) = snd p \<or> (snd (fold (pick_step s block) us p) \<in> set us
      \<and> t_state (threads s (snd (fold (pick_step s block) us p))) = THREAD_READY)" for us p
  proof (induction us arbitrary: p)
    case Nil
    then show ?case by simp
  next
    case (Cons u us)
    have "pick_step s block u p = p
        \<or> snd (pick_step s block u p) = u \<and> t_state (threads s u) = THREAD_READY"
      by (auto simp: pick_step_def Let_def split: prod.splits)
    with Cons.IH [of "pick_step s block u p"] show ?case by auto
  qed
  from this [of ts "(0xffffffff, idle_thread s)"] show ?thesis by (simp add: pick_thread_def)
qed

lemma pick_thread_ready:
  "pick_thread s block ts \<noteq> idle_thread s \<Longrightarrow> t_state (threads s (pick_thread s block ts)) = THREAD_READY"
  using pick_thread_cases by blast

lemma choose_thread_cases:
  assumes "choose_thread thread block s = Some (t, s')"
  shows "t = idle_thread s' \<or> t_state (threads s' t) = THREAD_READY"
  using assms pick_thread_ready
  by (auto simp: choose_thread_def Let_def timer_schedule_wakeup_def
      split: if_splits bind_splits option.splits prod.splits)

lemma kinv_choose_thread:
  assumes "kinv B W s c" and "choose_thread thread block s = Some (t, s')"
  shows "\<exists>W'. kinv B W' s' c \<and> t_block_type (threads s' t) \<noteq> THREAD_BLOCK_MUTEX \<and> (\<forall>m. \<not> W' t m)"
proof -
  have "\<exists>W'. kinv B W' s' c"
  proof (cases "scheduler_frozen s")
    case True
    with assms show ?thesis by (auto simp: choose_thread_def)
  next
    case False
    with assms(2) obtain ts s1 nu where
      e: "foldM (expire_thread (usec_timer s)) ts (s, 0xffffffff) = Some (s1, nu)"
      and s': "\<exists>w. s' = timer_schedule_wakeup w s1"
      by (auto simp: choose_thread_def Let_def split: bind_splits prod.splits)
    from kinv_expire_all [OF e assms(1)] obtain W' where "kinv B W' s1 c" by blast
    with s' have "kinv B W' s' c"
      by (auto elim!: kinv_frame simp: timer_schedule_wakeup_def queue_next_def)
    then show ?thesis by blast
  qed
  then obtain W' where k: "kinv B W' s' c" by blast
  from choose_thread_cases [OF assms(2)] consider "t = idle_thread s'" | "t_state (threads s' t) = THREAD_READY" by blast
  then have "t_block_type (threads s' t) \<noteq> THREAD_BLOCK_MUTEX \<and> (\<forall>m. \<not> W' t m)"
  proof cases
    case 1
    with kinvD(3) [OF k] have c: "c t = NoCall" by (simp add: calls_ok_def)
    then have "\<not> W' t m" for m by (intro kinv_other_call [OF k]) simp
    moreover have "t_block_type (threads s' t) \<noteq> THREAD_BLOCK_MUTEX"
      using kinvD(3) [OF k] c unfolding calls_ok_def by fastforce
    ultimately show ?thesis by blast
  next
    case 2
    then show ?thesis using kinv_not_queued [OF k] kinv_not_blocked_on_mutex [OF k] by auto
  qed
  with k show ?thesis by blast
qed

lemma kinv_fold_load:
  "kinv B W s c \<Longrightarrow> kinv B W (fold (update_load d) ts s) c"
proof (induction ts arbitrary: s)
  case Nil
  then show ?case by simp
next
  case (Cons t ts)
  have "kinv B W (update_load d t s) c"
    using Cons.prems
    by (rule kinv_frame) (auto simp: update_load_def queue_next_def)
  then show ?case using Cons.IH by simp
qed

lemma kinv_account_tick:
  assumes "kinv B W s c" and "account_tick s = Some s'"
  shows "kinv B W s' c"
proof -
  have "kinv B W (s\<lparr>last_tick := usec_timer s\<rparr>) c"
    using assms(1) by (rule kinv_frame) (auto simp: queue_next_def)
  with assms kinv_fold_load show ?thesis
    by (auto simp: account_tick_def Let_def split: if_splits bind_splits)
qed

lemma kinv_preempt_current:
  assumes k: "kinv B W s c"
  shows "kinv B W (preempt_current s) c"
proof (cases "t_state (threads s (current_thread s)) = THREAD_RUNNING")
  case True
  then have "t_block_type (threads s (current_thread s)) \<noteq> THREAD_BLOCK_MUTEX" "\<not> W (current_thread s) m" for m
    using kinv_not_blocked_on_mutex [OF k] kinv_not_queued [OF k] by auto
  with k show ?thesis unfolding preempt_current_def by (intro kinv_upd_thread) auto
next
  case False
  then have "preempt_current s = s" by (simp add: preempt_current_def upd_thread_def)
  with k show ?thesis by simp
qed

lemma preempt_current_sel [simp]:
  "current_thread (preempt_current s) = current_thread s"
  "stackmem (preempt_current s) = stackmem s"
  "t_stack (threads (preempt_current s) t) = t_stack (threads s t)"
  by (simp_all add: preempt_current_def)

lemma stack_smashed_preempt [simp]: "stack_smashed (preempt_current s) = stack_smashed s"
  by (simp add: stack_smashed_def Let_def)

lemma kinv_scheduler_switch:
  assumes k: "kinv B W s c" and B: "B \<or> \<not> stack_smashed s" and sw: "scheduler_switch thread block s = Some s'"
  shows "\<exists>W'. kinv B W' s' c"
proof -
  from sw obtain s2 s3 t s4 where s2: "(if stack_smashed s then stack_overflow (preempt_current s)
        else Some (preempt_current s)) = Some s2"
    and s3: "account_tick (timer_kill_wakeup s2) = Some s3"
    and s4: "choose_thread thread block s3 = Some (t, s4)"
    and s': "s' = upd_thread t (\<lambda>r. r\<lparr>t_state := THREAD_RUNNING\<rparr>) (s4\<lparr>current_thread := t\<rparr>)"
    by (auto simp: scheduler_switch_def Let_def split: bind_splits prod.splits)
  have "kinv B W s2 c"
    using s2 kinv_preempt_current [OF k] kinv_stack_overflow B by (auto split: if_splits)
  then have "kinv B W (timer_kill_wakeup s2) c"
    by (rule kinv_frame) (auto simp: timer_kill_wakeup_def queue_next_def)
  then have "kinv B W s3 c" using s3 by (rule kinv_account_tick)
  from kinv_choose_thread [OF this s4] obtain W' where ch: "kinv B W' s4 c"
    "t_block_type (threads s4 t) \<noteq> THREAD_BLOCK_MUTEX" "\<forall>m. \<not> W' t m" by blast
  from ch(1) have "kinv B W' (s4\<lparr>current_thread := t\<rparr>) c"
    by (rule kinv_frame) (auto simp: queue_next_def)
  then have "kinv B W' s' c" using ch(2,3) unfolding s' by (intro kinv_upd_thread) simp_all
  then show ?thesis by blast
qed

lemma kinv_yield:
  assumes k: "kinv B W s c" and B: "B \<or> \<not> stack_smashed s" and y: "yield s = Some s'"
  shows "\<exists>W'. kinv B W' s' c"
proof -
  from y obtain s1 where s1: "scheduler_switch None (Some (current_thread s)) (scheduler_pause_accounting s)
      = Some s1" "s' = scheduler_resume_accounting s1"
    by (auto simp: yield_def split: bind_splits)
  have k1: "kinv B W (scheduler_pause_accounting s) c"
    using k by (rule kinv_frame) (auto simp: scheduler_pause_accounting_def Let_def queue_next_def)
  have "B \<or> \<not> stack_smashed (scheduler_pause_accounting s)"
    using B by (simp add: stack_smashed_def scheduler_pause_accounting_def Let_def)
  from kinv_scheduler_switch [OF k1 this s1(1)] obtain W' where "kinv B W' s1 c" by blast
  then have "kinv B W' s' c" unfolding s1(2)
    by (rule kinv_frame) (auto simp: scheduler_resume_accounting_def queue_next_def)
  then show ?thesis by blast
qed

lemma kinv_leave_thread:
  assumes "kinv B W s c" and "B \<or> \<not> stack_smashed s" and y: "leave_thread s = Some s'"
  shows "\<exists>W'. kinv B W' s' c"
proof -
  from y obtain s1 where s1: "scheduler_switch None None s = Some s1" "s' = scheduler_resume_accounting s1"
    by (auto simp: leave_thread_def split: bind_splits)
  from kinv_scheduler_switch [OF assms(1,2) s1(1)] obtain W' where "kinv B W' s1 c" by blast
  then have "kinv B W' s' c" unfolding s1(2)
    by (rule kinv_frame) (auto simp: scheduler_resume_accounting_def queue_next_def)
  then show ?thesis by blast
qed

lemma kinv_wakeup_signal:
  assumes k: "kinv B W s c" and B: "B \<or> \<not> stack_smashed s" and w: "wakeup_signal obj s = Some (r, s')"
  shows "\<exists>W'. kinv B W' s' c"
proof -
  let ?s = "upd_wakeup obj (\<lambda>r. r\<lparr>w_signalled := True\<rparr>) s"
  have k1: "kinv B W ?s c" using k by (rule kinv_signalled)
  show ?thesis
  proof (cases "w_waiter (wakeups s obj)")
    case None
    with w k1 show ?thesis by (auto simp: wakeup_signal_def Let_def)
  next
    case (Some t)
    then have "w_waiter (wakeups ?s obj) = Some t" by simp
    from kinv_make_ready [OF k1 wakeup_waiter_free [OF k1 this]]
    have "kinv B W (make_ready t ?s) c" .
    moreover have "B \<or> \<not> stack_smashed (make_ready t ?s)"
      using B by (auto simp: stack_smashed_def make_ready_def Let_def)
    ultimately show ?thesis using w Some
      by (auto simp: wakeup_signal_def Let_def split: if_splits bind_splits intro: kinv_scheduler_switch)
  qed
qed

section \<open>Steps of the kernel\<close>

text \<open>
  One step: the current thread calls a routine, or goes on in one after it has been scheduled again;
  an interrupt signals a wakeup; time passes; the scheduler runs; threads are created, panic and are
  terminated, in the two parts that \<open>thread_terminate_internal\<close> has for the kernel's own structures. A
  running thread that is inside no call may call anything. The idle thread has no other
  thread to wait for, so it neither blocks nor is suspended or terminated.

  With \<open>B\<close> the steps include those that stop threads without looking at what they wait for: a panic of
  severity \<open>PANIC_KILLUSERTHREADS\<close>, and the scheduler finding the canary of the current thread gone.

  Two kinds of calls are left out, because the routine itself does not survive them: resuming or
  terminating a thread that is linked in the queue of a mutex, and creating a thread in memory that is
  still linked into the kernel's structures, or calling anything for a thread that is gone.
\<close>

definition running :: "kstate \<Rightarrow> bool" where
  "running s \<longleftrightarrow> t_state (threads s (current_thread s)) = THREAD_RUNNING"

definition unqueued :: "kstate \<Rightarrow> tid \<Rightarrow> bool" where
  "unqueued s t \<longleftrightarrow> (\<forall>m ws. waiters s m ws \<longrightarrow> t \<notin> set ws)"

definition unlinked :: "kstate \<Rightarrow> tid \<Rightarrow> bool" where
  "unlinked s t \<longleftrightarrow> t \<noteq> idle_thread s \<and> unqueued s t \<and> (\<forall>m. \<not> owns s t m)
     \<and> (\<forall>w. w_waiter (wakeups s w) \<noteq> Some t)"

inductive kstep :: "bool \<Rightarrow> kstate \<times> (tid \<Rightarrow> call) \<Rightarrow> kstate \<times> (tid \<Rightarrow> call) \<Rightarrow> bool" for B where
  lock: "running s \<Longrightarrow> c (current_thread s) = NoCall \<Longrightarrow>
    mutex_lock m timeout s = Some (Ret r, s') \<Longrightarrow> kstep B (s, c) (s', c)"
| lock_blocks: "running s \<Longrightarrow> c (current_thread s) = NoCall \<Longrightarrow> current_thread s \<noteq> idle_thread s \<Longrightarrow>
    mutex_lock m timeout s = Some (Blocks, s') \<Longrightarrow> kstep B (s, c) (s', c(current_thread s := InLock m))"
| lock_resumed: "running s \<Longrightarrow> c (current_thread s) = InLock m \<Longrightarrow>
    kstep B (s, c) (s, c(current_thread s := NoCall))"
| unlock: "running s \<Longrightarrow> c (current_thread s) = NoCall \<Longrightarrow>
    mutex_unlock m s = Some (r, s') \<Longrightarrow> kstep B (s, c) (s', c)"
| wait: "running s \<Longrightarrow> c (current_thread s) = NoCall \<Longrightarrow>
    wakeup_wait w timeout s = Some (r, s') \<Longrightarrow> r \<noteq> Blocks \<Longrightarrow> kstep B (s, c) (s', c)"
| wait_blocks: "running s \<Longrightarrow> c (current_thread s) = NoCall \<Longrightarrow> current_thread s \<noteq> idle_thread s \<Longrightarrow>
    wakeup_wait w timeout s = Some (Blocks, s') \<Longrightarrow> kstep B (s, c) (s', c(current_thread s := InWait w))"
| wait_resumed: "running s \<Longrightarrow> c (current_thread s) = InWait w \<Longrightarrow>
    kstep B (s, c) (snd (wakeup_wait_resumed w s), c(current_thread s := NoCall))"
| signal: "B \<or> \<not> stack_smashed s \<Longrightarrow> wakeup_signal w s = Some (r, s') \<Longrightarrow> kstep B (s, c) (s', c)"
| sleeps: "running s \<Longrightarrow> c (current_thread s) = NoCall \<Longrightarrow> current_thread s \<noteq> idle_thread s \<Longrightarrow>
    kstep B (s, c) (sleep usecs s, c)"
| suspend: "running s \<Longrightarrow> c (current_thread s) = NoCall \<Longrightarrow> the_thread t s \<noteq> idle_thread s \<Longrightarrow>
    thread_suspend t s = Some (r, s') \<Longrightarrow> kstep B (s, c) (s', c)"
| resume: "running s \<Longrightarrow> c (current_thread s) = NoCall \<Longrightarrow> unqueued s (the_thread t s) \<Longrightarrow>
    c (the_thread t s) \<noteq> Gone \<Longrightarrow> thread_resume t s = Some (r, s') \<Longrightarrow> kstep B (s, c) (s', c)"
| panic: "running s \<Longrightarrow> c (current_thread s) = NoCall \<Longrightarrow> B \<or> severity \<noteq> PANIC_KILLUSERTHREADS \<Longrightarrow>
    handle_panic severity s = Some s' \<Longrightarrow> kstep B (s, c) (s', c)"
| creates: "running s \<Longrightarrow> c (current_thread s) = NoCall \<Longrightarrow> unlinked s t \<Longrightarrow>
    thread_create_with t name code ex stack sz type prio run a0 a1 a2 a3 s = Some s' \<Longrightarrow>
    kstep B (s, c) (s', c(t := NoCall))"
| terminates: "running s \<Longrightarrow> c (current_thread s) = NoCall \<Longrightarrow> t = the_thread thread s \<Longrightarrow>
    t \<noteq> idle_thread s \<Longrightarrow> unqueued s t \<Longrightarrow> terminate_detach junk thread s = Some (b, s') \<Longrightarrow>
    kstep B (s, c) (s', c(t := if t = current_thread s then NoCall else Gone))"
| unlinks: "terminate_unlink t s = Some s' \<Longrightarrow> kstep B (s, c) (s', c)"
| new_mutex: "m_count (mutexes s m) = 0 \<Longrightarrow> m_waiters (mutexes s m) = None \<Longrightarrow>
    kstep B (s, c) (mutex_init m s, c)"
| new_wakeup: "kstep B (s, c) (wakeup_init w s, c)"
| set_priority: "kstep B (s, c) (thread_set_priority t p s, c)"
| set_name: "kstep B (s, c) (thread_set_name t n s, c)"
| freeze: "kstep B (s, c) (snd (scheduler_freeze b s), c)"
| time: "kstep B (s, c) (s\<lparr>usec_timer := u\<rparr>, c)"
| yields: "B \<or> \<not> stack_smashed s \<Longrightarrow> yield s = Some s' \<Longrightarrow> kstep B (s, c) (s', c)"
| leaves: "B \<or> \<not> stack_smashed s \<Longrightarrow> leave_thread s = Some s' \<Longrightarrow> kstep B (s, c) (s', c)"
| switches: "B \<or> \<not> stack_smashed s \<Longrightarrow> scheduler_switch None None s = Some s' \<Longrightarrow> kstep B (s, c) (s', c)"

text \<open>A boot state: nobody waits, nobody owns anything, no call is open.\<close>

definition boot_state :: "kstate \<Rightarrow> bool" where
  "boot_state s \<longleftrightarrow> (\<forall>m. m_waiters (mutexes s m) = None \<and> m_count (mutexes s m) = 0)
     \<and> (\<forall>t. t_owned_mutexes (threads s t) = None \<and> t_block_type (threads s t) \<noteq> THREAD_BLOCK_MUTEX)
     \<and> (\<forall>w. w_waiter (wakeups s w) = None)"

text \<open>
  \<open>kreach\<close>: what the kernel can reach. \<open>kcalm\<close>: what it can reach while nothing stops
  threads that wait.
\<close>

inductive kruns :: "bool \<Rightarrow> kstate \<times> (tid \<Rightarrow> call) \<Rightarrow> bool" for B where
  boot: "boot_state s \<Longrightarrow> kruns B (s, \<lambda>_. NoCall)"
| step: "kruns B p \<Longrightarrow> kstep B p q \<Longrightarrow> kruns B q"

abbreviation kreach :: "kstate \<times> (tid \<Rightarrow> call) \<Rightarrow> bool" where "kreach \<equiv> kruns True"

abbreviation kcalm :: "kstate \<times> (tid \<Rightarrow> call) \<Rightarrow> bool" where "kcalm \<equiv> kruns False"

lemma kstep_mono: "kstep False p q \<Longrightarrow> kstep True p q"
  by (induction rule: kstep.induct) (rule kstep.intros; (assumption | simp))+

lemma kcalm_kreach: "kcalm p \<Longrightarrow> kreach p"
  by (induction rule: kruns.induct) (auto intro: kruns.intros kstep_mono)

lemma kinv_boot:
  assumes "boot_state s"
  shows "kinv B (\<lambda>_ _. False) s (\<lambda>_. NoCall)"
proof -
  have "\<not> waits_for s t m" "\<not> owns s t m" for t m
    using assms by (auto simp: boot_state_def waits_for_def owns_def)
  moreover have "queues s (\<lambda>_ _. False)" "ownership s (\<lambda>_ _. False)"
    using assms by (auto simp: boot_state_def queues_def ownership_def waiters_def owned_list_def)
  moreover from this calculation have "owns s = (\<lambda>_ _. False)" by (auto intro!: ext)
  ultimately show ?thesis using assms by (auto simp: kinv_def calls_ok_def coupled_def boot_state_def)
qed

lemma kinv_mutex_lock:
  assumes k: "kinv B W s c" and "t_block_type (threads s (current_thread s)) \<noteq> THREAD_BLOCK_MUTEX"
    and "\<And>m. \<not> W (current_thread s) m" and l: "mutex_lock m timeout s = Some (Ret r, s')"
  shows "kinv B W s' c"
proof -
  from l consider "m_count (mutexes s m) = 0"
    | "m_count (mutexes s m) \<noteq> 0" "m_owner (mutexes s m) = Some (current_thread s)" | "s' = s"
    by (auto simp: mutex_lock_def Let_def split: if_splits bind_splits)
  then show ?thesis
    using kinv_mutex_lock_free [OF k _ assms(2,3) l] kinv_mutex_lock_recursive [OF k _ _ l] k by cases auto
qed

lemma kinv_unqueued:
  assumes "kinv B W s c" and "unqueued s t"
  shows "\<not> W t m"
  using kinvD(1) [OF assms(1)] assms(2) unfolding queues_def unqueued_def by metis

lemma kinv_kstep:
  assumes "kstep B (s, c) (s', c')" and k: "kinv B W s c"
  shows "\<exists>W'. kinv B W' s' c'"
proof -
  have cur: "t_block_type (threads s (current_thread s)) \<noteq> THREAD_BLOCK_MUTEX" "\<not> W (current_thread s) m"
    if "running s" for m
    using kinv_not_blocked_on_mutex [OF k] kinv_not_queued [OF k] that by (simp_all add: running_def)
  from assms(1) show ?thesis
  proof cases
    case (lock_resumed m)
    have "w_waiter (wakeups s w) \<noteq> Some (current_thread s)" for w
      using kinvD(3) [OF k] lock_resumed unfolding calls_ok_def by fastforce
    with k cur lock_resumed have "kinv B W s' c'" by (auto intro: kinv_call)
    then show ?thesis by blast
  next
    case (set_priority t p)
    then have "kinv B W s' c'" using k
      by (auto elim!: kinv_frame simp: thread_set_priority_def queue_next_def)
    then show ?thesis by blast
  next
    case (set_name t n)
    then have "kinv B W s' c'" using k
      by (auto elim!: kinv_frame simp: thread_set_name_def queue_next_def)
    then show ?thesis by blast
  next
    case (freeze b)
    then have "kinv B W s' c'" using k
      by (auto elim!: kinv_frame simp: scheduler_freeze_def queue_next_def)
    then show ?thesis by blast
  next
    case (time u)
    then have "kinv B W s' c'" using k by (auto elim!: kinv_frame simp: queue_next_def)
    then show ?thesis by blast
  next
    case (lock m timeout r)
    with kinv_mutex_lock [OF k cur] show ?thesis by blast
  next
    case (lock_blocks m timeout)
    with kinv_mutex_lock_blocks [OF k _ cur(1)] show ?thesis by blast
  next
    case (unlock m r)
    with kinv_mutex_unlock [OF k cur(1)] show ?thesis by blast
  next
    case (wait w timeout r)
    with kinv_wakeup_wait [OF k cur] show ?thesis by blast
  next
    case (wait_blocks w timeout)
    with kinv_wakeup_wait_blocks [OF k cur(1)] show ?thesis by blast
  next
    case (wait_resumed w)
    with kinv_wakeup_wait_resumed [OF k cur(1)] show ?thesis by blast
  next
    case (signal w r)
    with kinv_wakeup_signal [OF k] show ?thesis by blast
  next
    case (sleeps usecs)
    with kinv_sleep [OF k cur] show ?thesis by blast
  next
    case (suspend t r)
    with kinv_thread_suspend [OF k] show ?thesis by blast
  next
    case (resume t r)
    with kinv_thread_resume [OF k _ kinv_unqueued [OF k]] show ?thesis by blast
  next
    case (panic severity)
    with kinv_handle_panic [OF k cur] show ?thesis by blast
  next
    case (creates t name code ex stack sz type prio run a0 a1 a2 a3)
    then have u: "t \<noteq> idle_thread s" "unqueued s t" "\<And>m. \<not> owns s t m" "\<And>w. w_waiter (wakeups s w) \<noteq> Some t"
      by (auto simp: unlinked_def)
    from kinv_thread_create [OF k u(1) kinv_unqueued [OF k u(2)] u(3,4) creates(5)] creates(1)
    show ?thesis by blast
  next
    case (terminates t thread junk b)
    from kinv_terminate_detach [OF k terminates(4,5) kinv_unqueued [OF k terminates(6)] _ terminates(7)] terminates
    show ?thesis by blast
  next
    case (unlinks t)
    with kinv_terminate_unlink [OF k] show ?thesis by blast
  next
    case (new_mutex m)
    with kinv_mutex_init [OF k] show ?thesis by blast
  next
    case (new_wakeup w)
    with kinv_wakeup_init [OF k] show ?thesis by blast
  next
    case yields
    with kinv_yield [OF k] show ?thesis by blast
  next
    case leaves
    with kinv_leave_thread [OF k] show ?thesis by blast
  next
    case switches
    with kinv_scheduler_switch [OF k] show ?thesis by blast
  qed
qed

lemma kruns_kinv: "kruns B p \<Longrightarrow> \<exists>W. kinv B W (fst p) (snd p)"
proof (induction rule: kruns.induct)
  case (boot s)
  then show ?case using kinv_boot by auto
next
  case (step p q)
  then show ?case using kinv_kstep [of B "fst p" "snd p" "fst q" "snd q"] by auto
qed

section \<open>Properties of locking\<close>

lemma mutex_unlock_internal_fault_iff:
  assumes l: "owned_list s t os" and "m \<in> set os" and own: "m_owner (mutexes s m) = Some t"
  shows "mutex_unlock_internal m s = None \<longleftrightarrow> hd os \<noteq> m \<and> last os = m"
proof -
  have d: "distinct os" using l unfolding owned_list_def by (rule linked_distinct)
  from l assms(2) obtain o1 where o1: "t_owned_mutexes (threads s t) = Some o1"
    "linked (owned_next s) (Some o1) os" unfolding owned_list_def
    by (cases "t_owned_mutexes (threads s t)") auto
  have u: "mutex_unlock_internal m s = None \<longleftrightarrow> unlink_owned m t o1 s = None"
    using own o1(1) by (auto simp: mutex_unlock_internal_alt split: bind_splits)
  from o1(2) show ?thesis using assms(2)
  proof (cases rule: unlink_owned_cases [where t = t])
    case (head os')
    with u show ?thesis by simp
  next
    case (inner xs z y ys)
    with d have "last os \<noteq> m" by auto
    with u inner show ?thesis by simp
  next
    case (last_one xs z)
    with o1(2) have "hd os = o1" by (cases xs) auto
    with u last_one show ?thesis by simp
  qed
qed

lemma kreach_inv:
  assumes "kruns B (s, c)"
  obtains W where "kinv B W s c"
  using kruns_kinv [OF assms] by auto

lemma kreach_owns:
  assumes "kruns B (s, c)" and "owned_list s t os"
  shows "m \<in> set os \<longleftrightarrow> owns s t m"
proof -
  from assms(1) obtain W where "kinv B W s c" by (rule kreach_inv)
  from kinv_owned_list [OF this assms(2)] show ?thesis .
qed

text \<open>
  C1. Mutual exclusion: in every state that the kernel reaches, a mutex is in the owned list of
  at most one thread, and that thread is the one recorded as its owner.
\<close>

theorem mutual_exclusion:
  assumes "kreach (s, c)" and "owned_list s t os" "m \<in> set os"
    and "owned_list s u vs" "m \<in> set vs"
  shows "t = u \<and> owns s t m"
  using kreach_owns [OF assms(1,2), of m] kreach_owns [OF assms(1,4), of m] assms(3,5) owns_unique by blast


text \<open>
  C8. A thread that comes out of \<open>mutex_lock\<close> after having waited gets \<open>THREAD_OK\<close> if and only if
  it holds the mutex.
\<close>

theorem lock_resumed_ok_iff_owns:
  assumes "kreach (s, c)" and "c (current_thread s) = InLock m"
  shows "mutex_lock_resumed m s = THREAD_OK \<longleftrightarrow> owns s (current_thread s) m"
  using kreach_inv [OF assms(1)] assms(2)
  by (auto simp: mutex_lock_resumed_def thread_codes owns_def kinv_def calls_ok_def)

text \<open>
  C9. \<open>mutex_add_to_queue\<close> implements the insertion by priority: it always returns, the queue becomes
  the list with the thread in front of the first waiter whose priority is not higher, it stays
  sorted, and nothing but the queue's links changes.
\<close>

theorem mutex_add_to_queue_refines:
  assumes "waiters s obj ws" and "t \<notin> set ws"
  shows "\<exists>s'. mutex_add_to_queue obj t s = Some s'
    \<and> waiters s' obj (insert_prio (priority_of s) t ws)
    \<and> (sorted_wrt (\<lambda>a b. priority_of s b \<le> priority_of s a) ws \<longrightarrow>
         sorted_wrt (\<lambda>a b. priority_of s' b \<le> priority_of s' a) (insert_prio (priority_of s) t ws))
    \<and> queue_change obj (insert t (set ws)) s s'"
proof -
  obtain s' where s': "mutex_add_to_queue obj t s = Some s'"
    "waiters s' obj (insert_prio (priority_of s) t ws)" "queue_change obj (insert t (set ws)) s s'"
    using add_to_queue_spec [OF assms] .
  from s'(3) have "core s' = core s" by (simp add: queue_change_def)
  then have "priority_of s' = priority_of s"
    by (auto simp: priority_of_def core_thread_fields [of s' s])
  with s' show ?thesis using insert_prio_sorted by metis
qed

text \<open>
  C10. Taking a waiter out of its queue works unless the waiter is the last one of several: then the loop
  of \<open>mutex_remove_from_queue\<close> runs off the end of the queue and dereferences NULL. The
  scheduler does this for every lock that times out, so such a timeout brings the kernel down.
\<close>

theorem mutex_remove_from_queue_faults:
  assumes "kreach (s, c)" and ws: "waiters s m ws" and wt: "waits_for s t m"
  shows "(mutex_remove_from_queue m t s = None \<longleftrightarrow> hd ws \<noteq> t \<and> last ws = t)
    \<and> (\<forall>s'. mutex_remove_from_queue m t s = Some s' \<longrightarrow>
          waiters s' m (remove1 t ws) \<and> queue_change m (set ws) s s')
    \<and> (t_timeout (threads s t) \<noteq> TIMEOUT_BLOCK
        \<longrightarrow> TIME_AFTER usec (t_blocked_since (threads s t) + t_timeout (threads s t))
        \<longrightarrow> (expire_thread usec t (s, nu) = None \<longleftrightarrow> hd ws \<noteq> t \<and> last ws = t))"
proof -
  from assms(1) obtain W where k: "kinv True W s c" by (rule kreach_inv)
  have ne: "ws \<noteq> []" using kinv_waiters [OF k ws, of t] waits_queued [OF k wt] by auto
  have r: "mutex_remove_from_queue m t s = None \<longleftrightarrow> hd ws \<noteq> t \<and> last ws = t"
    using remove_from_queue_spec [OF ws, of t, THEN conjunct1] ne by simp
  have e: "expire_thread usec t (s, nu) = None \<longleftrightarrow> mutex_remove_from_queue m t s = None"
    if "t_timeout (threads s t) \<noteq> TIMEOUT_BLOCK"
      "TIME_AFTER usec (t_blocked_since (threads s t) + t_timeout (threads s t))"
    using that wt by (simp add: expire_thread_def has_timeout_def waits_for_def Let_def bind_eq_None_conv)
  show ?thesis
  proof (intro conjI impI)
    show "\<forall>s'. mutex_remove_from_queue m t s = Some s' \<longrightarrow>
        waiters s' m (remove1 t ws) \<and> queue_change m (set ws) s s'"
      by (rule remove_from_queue_spec [OF ws, THEN conjunct2])
  qed (use r in simp, use r e in simp)
qed

text \<open>
  C11. Unlocking a contended mutex that its owner holds once, and that is the most recent one or not the oldest
  of the mutexes the owner holds (unlocking the oldest of several dereferences NULL), hands it to the first
  waiter: the call returns, the waiter is ready and owns the mutex, the other waiters keep
  their order, and the old owner keeps its other mutexes in their order. This includes a first
  waiter that had been stopped for good by a panic or a stack overflow: it comes back to life.
\<close>

theorem mutex_unlock_hands_over:
  assumes "kreach (s, c)" and own: "owned_list s (current_thread s) os" "m \<in> set os"
    and ok: "hd os = m \<or> last os \<noteq> m"
    and cnt: "m_count (mutexes s m) = 1" and ws: "waiters s m (w # ws)"
  shows "\<exists>s'. mutex_unlock m s = Some (Ret THREAD_OK, s') \<and> owns s' w m
    \<and> t_state (threads s' w) = THREAD_READY \<and> waiters s' m ws
    \<and> owned_list s' (current_thread s) (remove1 m os) \<and> \<not> owns s' (current_thread s) m"
proof -
  let ?t = "current_thread s"
  from assms(1) obtain W where k: "kinv True W s c" by (rule kreach_inv)
  have ow: "owns s ?t m" using kinv_owned_list [OF k own(1)] own(2) by simp
  have "W w m" using kinv_waiters [OF k ws, of w] by simp
  from queued_call(2) [OF k this] ow have wt: "w \<noteq> ?t" by blast
  have d: "distinct os" using own(1) unfolding owned_list_def by (rule linked_distinct)
  from own(2) d obtain xs ys where os: "os = xs @ m # ys" "m \<notin> set xs" "m \<notin> set ys"
    by (metis distinct_append not_distinct_conv_prefix split_list_first disjoint_iff distinct.simps(2) list.set_intros(1))
  let ?s1 = "upd_mutex m (\<lambda>r. r\<lparr>m_count := m_count r - 1\<rparr>) s"
  have on: "owned_next ?s1 = owned_next s" by (rule ext) (simp add: owned_next_def)
  have l1: "owned_list ?s1 ?t (xs @ m # ys)" using own(1) os(1) by (simp add: owned_list_def on)
  have o1: "m_owner (mutexes ?s1 m) = Some ?t" using ow by (simp add: owns_def)
  from ow have "mutex_unlock_internal m ?s1 \<noteq> None"
    using mutex_unlock_internal_fault_iff [OF l1 _ o1] ok os(1) by auto
  then obtain s' where s': "mutex_unlock_internal m ?s1 = Some s'" by blast
  then have u: "mutex_unlock m s = Some (Ret THREAD_OK, s')"
    using cnt ow by (simp add: mutex_unlock_def owns_def Let_def)
  from l1 s' o1 obtain s2 where s2: "s' = mutex_hand_over m s2" "mutexes s2 m = mutexes ?s1 m"
    "queue_next s2 = queue_next ?s1" "owned_list s2 ?t (xs @ ys)" "\<And>v. v \<noteq> ?t \<Longrightarrow> threads s2 v = threads ?s1 v"
    by (rule unlink_owned_split) blast
  from ws have q: "m_waiters (mutexes s m) = Some w" "linked (queue_next s) (queue_next s w) ws"
    by (auto simp: waiters_def)
  then have q2: "m_waiters (mutexes s2 m) = Some w" by (simp add: s2(2))
  note h = hand_over_threads [OF q2, folded s2(1)]
  have qn: "queue_next s' = queue_next s" using s2(3) by (simp add: h)
  then have "waiters s' m ws" using q(2) by (simp add: waiters_def h(2) s2(3))
  moreover have "owned_list s' ?t (remove1 m os)"
  proof -
    have "m \<notin> set (xs @ ys)" using os by simp
    then have "owned_next s' n = owned_next s2 n" if "n \<in> set (xs @ ys)" for n
      using that by (auto simp: owned_next_def h(2))
    with s2(4) lseg_cong [of "xs @ ys" "owned_next s'" "owned_next s2"]
    have "linked (owned_next s') (t_owned_mutexes (threads s2 ?t)) (xs @ ys)"
      unfolding owned_list_def by blast
    moreover have "remove1 m os = xs @ ys" using os by (simp add: remove1_append)
    ultimately show ?thesis using wt by (simp add: owned_list_def h(1))
  qed
  ultimately show ?thesis using u wt
    by (intro exI [of _ s']) (auto simp: owns_def h(1,2))
qed

text \<open>
  C12. Unlocking the last reference to a mutex has a defined result unless the mutex is the oldest of
  several that the thread still holds: then \<open>mutex_unlock_internal\<close> runs off the end of the list.
\<close>

theorem mutex_unlock_fault_iff:
  assumes "kreach (s, c)" and own: "owned_list s (current_thread s) os" and "m \<in> set os"
    and cnt: "m_count (mutexes s m) = 1"
  shows "mutex_unlock m s = None \<longleftrightarrow> hd os \<noteq> m \<and> last os = m"
proof -
  let ?t = "current_thread s"
  have ow: "owns s ?t m" using kreach_owns [OF assms(1) own] assms(3) by simp
  let ?s1 = "upd_mutex m (\<lambda>r. r\<lparr>m_count := m_count r - 1\<rparr>) s"
  have on: "owned_next ?s1 = owned_next s" by (rule ext) (simp add: owned_next_def)
  have l1: "owned_list ?s1 ?t os" using own by (simp add: owned_list_def on)
  have o1: "m_owner (mutexes ?s1 m) = Some ?t" using ow by (simp add: owns_def)
  have "mutex_unlock m s = None \<longleftrightarrow> mutex_unlock_internal m ?s1 = None"
    using cnt ow by (auto simp: mutex_unlock_def owns_def Let_def split: bind_splits)
  with mutex_unlock_internal_fault_iff [OF l1 assms(3) o1] show ?thesis by simp
qed

section \<open>An example kernel\<close>

text \<open>Idle thread 1, threads 2 and 3, thread 2 running; the objects for the witnesses.\<close>

definition example_thread :: scheduler_thread where
  "example_thread = new_thread None 0 0 0 0 USER_THREAD 10 True 0 0 0 0"

definition kernel0 :: kstate where
  "kernel0 = \<lparr>threads = (\<lambda>_. example_thread)
      (1 := example_thread\<lparr>t_thread_next := Some 2, t_priority := 0, t_stack := - 1\<rparr>,
       2 := example_thread\<lparr>t_thread_next := Some 3, t_state := THREAD_RUNNING\<rparr>),
     mutexes = (\<lambda>_. \<lparr>m_owner = None, m_waiters = None, m_owned_next = None, m_count = 0\<rparr>),
     wakeups = (\<lambda>_. \<lparr>w_waiter = None, w_signalled = False\<rparr>),
     head_thread = Some 1, current_thread = 2, idle_thread = 1, dbgwakeup = 0, last_tick = 0,
     scheduler_frozen = False, usec_timer = 0, timer_wakeup = None, stackmem = (\<lambda>_. STACK_CANARY)\<rparr>"

definition kernel1 :: kstate where "kernel1 = snd (the (mutex_lock 100 5 kernel0))"
definition kernel2 :: kstate where "kernel2 = the (yield kernel1)"
definition kernel3 :: kstate where "kernel3 = snd (the (mutex_lock 100 TIMEOUT_BLOCK kernel2))"
definition kernel4 :: kstate where "kernel4 = the (yield kernel3)"

lemma kernel1: "mutex_lock 100 5 kernel0 = Some (Ret THREAD_OK, kernel1)"
  by (simp add: kernel1_def mutex_lock_def kernel0_def Let_def)

lemma kernel2_some: "(case yield kernel1 of None \<Rightarrow> False | Some s \<Rightarrow>
   current_thread s = 3 \<and> t_state (threads s 3) = THREAD_RUNNING)"
  by code_simp


lemma kernel2: "yield kernel1 = Some kernel2"
proof -
  have "(case yield kernel1 of None \<Rightarrow> False | Some _ \<Rightarrow> True)" by code_simp
  then show ?thesis by (auto simp: kernel2_def split: option.splits)
qed

lemma kernel3: "mutex_lock 100 TIMEOUT_BLOCK kernel2 = Some (Blocks, kernel3)"
proof -
  have "(case mutex_lock 100 TIMEOUT_BLOCK kernel2 of Some (Blocks, _) \<Rightarrow> True | _ \<Rightarrow> False)"
    by code_simp
  then show ?thesis by (auto simp: kernel3_def split: option.splits outcome.splits)
qed

lemma kernel4: "yield kernel3 = Some kernel4"
proof -
  have "(case yield kernel3 of None \<Rightarrow> False | Some _ \<Rightarrow> True)" by code_simp
  then show ?thesis by (auto simp: kernel4_def split: option.splits)
qed

lemma kernel_facts:
  "running kernel0" "current_thread kernel0 = 2" "running kernel2" "current_thread kernel2 = 3"
  "idle_thread kernel2 = 1" "\<not> stack_smashed kernel1" "\<not> stack_smashed kernel3"
  "current_thread kernel3 = 3" "current_thread kernel4 = 2" "running kernel4"
  "idle_thread kernel4 = 1"
  by code_simp+

lemma kruns_kernel4: "kruns B (kernel4, (\<lambda>_. NoCall)(3 := InLock 100))"
proof -
  have "boot_state kernel0"
    by (auto simp: boot_state_def kernel0_def example_thread_def new_thread_def)
  then have "kruns B (kernel0, \<lambda>_. NoCall)" by (rule kruns.boot)
  then have "kruns B (kernel1, \<lambda>_. NoCall)"
    by (rule kruns.step) (auto intro: kstep.lock kernel1 kernel_facts)
  then have "kruns B (kernel2, \<lambda>_. NoCall)"
    by (rule kruns.step) (rule kstep.yields [OF disjI2 [OF kernel_facts(6)] kernel2])
  moreover have "kstep B (kernel2, \<lambda>_. NoCall)
      (kernel3, (\<lambda>_. NoCall)(current_thread kernel2 := InLock 100))"
    by (rule kstep.lock_blocks [OF kernel_facts(3) _ _ kernel3]) (simp_all only: kernel_facts, simp)
  ultimately have "kruns B (kernel3, (\<lambda>_. NoCall)(3 := InLock 100))"
    unfolding kernel_facts(4) by (rule kruns.step)
  then show ?thesis
    by (rule kruns.step) (rule kstep.yields [OF disjI2 [OF kernel_facts(7)] kernel4])
qed


lemmas kreach_kernel4 = kruns_kernel4 [of True]

definition kernel5 :: kstate where "kernel5 = snd (the (mutex_unlock 100 kernel4))"
definition kernel6 :: kstate where "kernel6 = the (yield kernel5)"

lemma kernel4_lists: "owned_list kernel4 2 [100]" "waiters kernel4 100 [3]"
  "m_count (mutexes kernel4 100) = 1"
  by code_simp+

lemma kernel6_facts: "current_thread kernel6 = 3" "mutex_lock_resumed 100 kernel6 = THREAD_OK"
  "\<not> stack_smashed kernel5"
  by code_simp+

lemma kreach_kernel6: "kreach (kernel6, (\<lambda>_. NoCall)(3 := InLock 100))"
proof -
  have "(case mutex_unlock 100 kernel4 of Some (Ret _, _) \<Rightarrow> True | _ \<Rightarrow> False)" by code_simp
  then obtain r where r: "mutex_unlock 100 kernel4 = Some (Ret r, kernel5)"
    by (auto simp: kernel5_def split: option.splits outcome.splits)
  have "(case yield kernel5 of None \<Rightarrow> False | Some _ \<Rightarrow> True)" by code_simp
  then have y: "yield kernel5 = Some kernel6" by (auto simp: kernel6_def split: option.splits)
  have "kreach (kernel5, (\<lambda>_. NoCall)(3 := InLock 100))"
    using kreach_kernel4
    by (rule kruns.step) (rule kstep.unlock [OF kernel_facts(10) _ r], simp add: kernel_facts)
  then show ?thesis
    by (rule kruns.step) (rule kstep.yields [OF disjI2 [OF kernel6_facts(3)] y])
qed

theorem mutual_exclusion_witness: "(2::tid) = 2 \<and> owns kernel4 2 100"
  by (rule mutual_exclusion [OF kreach_kernel4 kernel4_lists(1) _ kernel4_lists(1)]) simp_all


theorem lock_resumed_ok_iff_owns_witness: "owns kernel6 3 100"
  using lock_resumed_ok_iff_owns [OF kreach_kernel6, of 100] kernel6_facts by simp

theorem mutex_unlock_hands_over_witness:
  "\<exists>s'. mutex_unlock 100 kernel4 = Some (Ret THREAD_OK, s') \<and> owns s' 3 100
    \<and> t_state (threads s' 3) = THREAD_READY \<and> waiters s' 100 []
    \<and> owned_list s' 2 [] \<and> \<not> owns s' 2 100"
  using mutex_unlock_hands_over [OF kreach_kernel4, of "[100]" 100 3 "[]"] kernel4_lists kernel_facts(9)
  by simp

theorem mutex_unlock_fault_iff_witness: "mutex_unlock 100 kernel4 \<noteq> None"
  using mutex_unlock_fault_iff [OF kreach_kernel4, of "[100]" 100] kernel4_lists kernel_facts(9) by simp

theorem mutex_remove_from_queue_faults_witness: "mutex_remove_from_queue 100 3 kernel4 \<noteq> None"
proof -
  have "waits_for kernel4 3 100" by code_simp
  from mutex_remove_from_queue_faults [OF kreach_kernel4 kernel4_lists(2) this] show ?thesis by simp
qed

theorem mutex_add_to_queue_refines_witness:
  "\<exists>s'. mutex_add_to_queue 100 2 kernel4 = Some s'
    \<and> waiters s' 100 (insert_prio (priority_of kernel4) 2 [3])
    \<and> (sorted_wrt (\<lambda>a b. priority_of kernel4 b \<le> priority_of kernel4 a) [3] \<longrightarrow>
         sorted_wrt (\<lambda>a b. priority_of s' b \<le> priority_of s' a) (insert_prio (priority_of kernel4) 2 [3]))
    \<and> queue_change 100 (insert 2 (set [3])) kernel4 s'"
  by (rule mutex_add_to_queue_refines [OF kernel4_lists(2)]) simp

end
