(* ===== verification/Scheduling.thy ===== *)
theory Scheduling
  imports ThreadSafety
begin

text \<open>
  What the scheduler of thread.c decides: which thread runs, when the timer has to fire, which
  threads a timeout wakes; and what wakeups, sleeping, suspending and terminating do to a thread.
  None of these lemmas needs the invariant of ThreadSafety.
\<close>

section \<open>Frame of the queue operations\<close>

lemma unlink_loop_core:
  "unlink_loop queue_next set_queue_next x p s = Some s' \<Longrightarrow> core s' = core s"
  by (erule unlink_loop_invariant) simp_all

lemma remove_from_queue_core: "mutex_remove_from_queue m t s = Some s' \<Longrightarrow> core s' = core s"
  by (auto simp: mutex_remove_from_queue_def unlink_loop_core split: option.splits if_splits)

section \<open>Timeouts\<close>

text \<open>The time a blocked thread still has to wait, and whether its timeout has passed.\<close>

definition time_left :: "kstate \<Rightarrow> tid \<Rightarrow> u32" where
  "time_left s t = t_blocked_since (threads s t) + t_timeout (threads s t) - usec_timer s"

definition timed_out :: "kstate \<Rightarrow> tid \<Rightarrow> bool" where
  "timed_out s t \<longleftrightarrow> has_timeout (threads s t)
     \<and> TIME_AFTER (usec_timer s) (t_blocked_since (threads s t) + t_timeout (threads s t))"

text \<open>One round of the loop wakes its thread if and only if its time is over, and touches no other.\<close>

lemma expire_thread_spec:
  assumes "expire_thread (usec_timer s) t (s, nu) = Some (s', nu')"
  shows "u \<noteq> t \<or> \<not> timed_out s t \<Longrightarrow>
      (threads s' u)\<lparr>t_queue_next := None\<rparr> = (threads s u)\<lparr>t_queue_next := None\<rparr>"
    and "timed_out s t \<Longrightarrow> t_state (threads s' t) = THREAD_READY"
    and "has_timeout (threads s t) \<Longrightarrow> \<not> timed_out s t \<Longrightarrow> nu' \<le> time_left s t"
    and "nu' \<le> nu" and "usec_timer s' = usec_timer s" and "idle_thread s' = idle_thread s"
    and "thread_next s' = thread_next s" and "head_thread s' = head_thread s"
    and "nu' = nu \<or> has_timeout (threads s' t) \<and> nu' = time_left s t"
proof -
  have "((u \<noteq> t \<or> \<not> timed_out s t) \<longrightarrow>
      (threads s' u)\<lparr>t_queue_next := None\<rparr> = (threads s u)\<lparr>t_queue_next := None\<rparr>)
    \<and> (timed_out s t \<longrightarrow> t_state (threads s' t) = THREAD_READY)
    \<and> (has_timeout (threads s t) \<longrightarrow> \<not> timed_out s t \<longrightarrow> nu' \<le> time_left s t)
    \<and> nu' \<le> nu \<and> usec_timer s' = usec_timer s \<and> idle_thread s' = idle_thread s
    \<and> thread_next s' = thread_next s \<and> head_thread s' = head_thread s
    \<and> (nu' = nu \<or> has_timeout (threads s' t) \<and> nu' = time_left s t)" (is ?thesis)
  proof (cases "timed_out s t")
    case True
    then obtain s1 where s1: "s' = make_ready t s1" "core s1 = core s" "nu' = nu"
      using assms by (auto simp: expire_thread_def timed_out_def Let_def remove_from_queue_core
          split: if_splits bind_splits)
    have "thread_next s' = thread_next s"
      using core_thread_next [OF s1(2)] by (simp add: s1(1) make_ready_def fun_eq_iff thread_next_def)
    with True s1 core_thread [OF s1(2), of u] core_globals [OF s1(2)] show ?thesis
      by (simp add: make_ready_def)
  next
    case False
    with assms have "s' = s \<and> nu' \<le> nu \<and> (has_timeout (threads s t) \<longrightarrow> nu' \<le> time_left s t)
        \<and> (nu' = nu \<or> has_timeout (threads s t) \<and> nu' = time_left s t)"
      by (auto simp: expire_thread_def timed_out_def Let_def time_left_def split: if_splits)
    with False show ?thesis by simp
  qed
  then show "u \<noteq> t \<or> \<not> timed_out s t \<Longrightarrow>
      (threads s' u)\<lparr>t_queue_next := None\<rparr> = (threads s u)\<lparr>t_queue_next := None\<rparr>"
    and "timed_out s t \<Longrightarrow> t_state (threads s' t) = THREAD_READY"
    and "has_timeout (threads s t) \<Longrightarrow> \<not> timed_out s t \<Longrightarrow> nu' \<le> time_left s t"
    and "nu' \<le> nu" and "usec_timer s' = usec_timer s" and "idle_thread s' = idle_thread s"
    and "thread_next s' = thread_next s" and "head_thread s' = head_thread s"
    and "nu' = nu \<or> has_timeout (threads s' t) \<and> nu' = time_left s t"
    by blast+
qed

lemma has_timeout_noq:
  assumes "r\<lparr>t_queue_next := None\<rparr> = r'\<lparr>t_queue_next := None\<rparr>"
  shows "has_timeout r = has_timeout r'" "t_blocked_since r = t_blocked_since r'"
    "t_timeout r = t_timeout r'" "t_state r = t_state r'" "t_priority r = t_priority r'"
    "t_cputime_current r = t_cputime_current r'"
  using arg_cong [OF assms, of has_timeout] arg_cong [OF assms, of t_blocked_since]
    arg_cong [OF assms, of t_timeout] arg_cong [OF assms, of t_state]
    arg_cong [OF assms, of t_priority] arg_cong [OF assms, of t_cputime_current]
  by (simp_all add: has_timeout_def)

text \<open>
  The whole loop over the threads \<open>ts\<close>, with \<open>n0\<close> for the initial value of \<open>next_unblock\<close>: what it leaves
  there is the least time that a thread still has to wait.
\<close>

definition expired :: "kstate \<Rightarrow> u32 \<Rightarrow> tid set \<Rightarrow> kstate \<Rightarrow> u32 \<Rightarrow> bool" where
  "expired s n0 A s' nu \<longleftrightarrow>
     (\<forall>u. (threads s' u)\<lparr>t_queue_next := None\<rparr> = (threads s u)\<lparr>t_queue_next := None\<rparr>
        \<or> u \<in> A \<and> timed_out s u \<and> t_state (threads s' u) = THREAD_READY)
   \<and> (\<forall>u \<in> A. timed_out s u \<longrightarrow> t_state (threads s' u) = THREAD_READY)
   \<and> (\<forall>u \<in> A. has_timeout (threads s' u) \<longrightarrow> nu \<le> time_left s u)
   \<and> (nu = n0 \<or> (\<exists>u \<in> A. has_timeout (threads s' u) \<and> nu = time_left s u))
   \<and> usec_timer s' = usec_timer s \<and> idle_thread s' = idle_thread s
   \<and> thread_next s' = thread_next s \<and> head_thread s' = head_thread s"

lemma ready_no_timeout: "t_state r = THREAD_READY \<Longrightarrow> \<not> has_timeout r"
  by (simp add: has_timeout_def)

lemma expired_step:
  assumes "expired s n0 A s1 n1" and "expire_thread (usec_timer s) t (s1, n1) = Some (s2, n2)"
  shows "expired s n0 (insert t A) s2 n2"
proof -
  let ?noq = "\<lambda>s u. (threads s u)\<lparr>t_queue_next := None\<rparr>"
  have us: "usec_timer s1 = usec_timer s" using assms(1) by (simp add: expired_def)
  have e: "expire_thread (usec_timer s1) t (s1, n1) = Some (s2, n2)" using assms(2) us by simp
  note x = expire_thread_spec [OF e]
  have q1: "?noq s1 u = ?noq s u \<or> u \<in> A \<and> timed_out s u \<and> t_state (threads s1 u) = THREAD_READY" for u
    using assms(1) by (simp add: expired_def)
  have same: "timed_out s1 u = timed_out s u" "time_left s1 u = time_left s u"
    if "?noq s1 u = ?noq s u" for u
    using has_timeout_noq [OF that] us by (simp_all add: timed_out_def time_left_def)
  have old: "?noq s1 u = ?noq s u" if "has_timeout (threads s1 u)" for u
    using q1 [of u] ready_no_timeout that by blast
  have st: "t_state (threads s2 u) = t_state (threads s1 u)"
    "has_timeout (threads s2 u) = has_timeout (threads s1 u)" if "?noq s2 u = ?noq s1 u" for u
    using has_timeout_noq [OF that] by simp_all
  have "?noq s2 u = ?noq s u \<or> u \<in> insert t A \<and> timed_out s u \<and> t_state (threads s2 u) = THREAD_READY" for u
  proof (cases "u = t \<and> timed_out s1 t")
    case True
    then have "has_timeout (threads s1 t)" by (simp add: timed_out_def)
    with True same(1) [OF old] x(2) show ?thesis by simp
  next
    case False
    with x(1) [of u] have "?noq s2 u = ?noq s1 u" by blast
    with q1 [of u] st(1) [of u] show ?thesis by auto
  qed
  moreover have "t_state (threads s2 u) = THREAD_READY" if "u \<in> insert t A" "timed_out s u" for u
  proof (cases "u = t \<and> timed_out s1 t")
    case True
    with x(2) show ?thesis by simp
  next
    case False
    with x(1) [of u] have eq: "?noq s2 u = ?noq s1 u" by blast
    have "t_state (threads s1 u) = THREAD_READY"
    proof (cases "u \<in> A")
      case True
      with assms(1) that(2) show ?thesis by (simp add: expired_def)
    next
      case out: False
      with that q1 [of u] same(1) [of u] False show ?thesis by simp
    qed
    with st(1) [OF eq] show ?thesis by simp
  qed
  moreover have "n2 \<le> time_left s u" if "u \<in> insert t A" "has_timeout (threads s2 u)" for u
  proof -
    have nt: "\<not> (u = t \<and> timed_out s1 t)" using x(2) that(2) ready_no_timeout by blast
    with x(1) [of u] have "?noq s2 u = ?noq s1 u" by blast
    with st(2) that(2) have h1: "has_timeout (threads s1 u)" by simp
    show ?thesis
    proof (cases "u \<in> A")
      case True
      with assms(1) h1 have "n1 \<le> time_left s u" by (simp add: expired_def)
      with x(4) show ?thesis by order
    next
      case False
      with that(1) nt x(3) h1 same(2) [OF old [OF h1]] show ?thesis by simp
    qed
  qed
  moreover have "n2 = n0 \<or> (\<exists>u \<in> insert t A. has_timeout (threads s2 u) \<and> n2 = time_left s u)"
  proof (cases "n2 = n1")
    case False
    with x(9) have h: "has_timeout (threads s2 t)" "n2 = time_left s1 t" by auto
    then have nt: "\<not> timed_out s1 t" using x(2) ready_no_timeout by blast
    with x(1) [of t] st(2) h(1) have "has_timeout (threads s1 t)" by blast
    from same(2) [OF old [OF this]] h show ?thesis by auto
  next
    case True
    show ?thesis
    proof (cases "n1 = n0")
      case False
      with assms(1) obtain u where u: "u \<in> A" "has_timeout (threads s1 u)" "n1 = time_left s u"
        unfolding expired_def by blast
      have "\<not> timed_out s u"
      proof
        assume "timed_out s u"
        with assms(1) u(1) have "t_state (threads s1 u) = THREAD_READY" by (simp add: expired_def)
        with u(2) ready_no_timeout show False by blast
      qed
      with same(1) [OF old [OF u(2)]] have "\<not> timed_out s1 u" by simp
      with x(1) [of u] st(2) [of u] u(2) have "has_timeout (threads s2 u)" by blast
      with u True show ?thesis by auto
    qed (use True in simp)
  qed
  moreover have "usec_timer s2 = usec_timer s" "idle_thread s2 = idle_thread s"
    "thread_next s2 = thread_next s" "head_thread s2 = head_thread s"
    using x(5-8) assms(1) by (simp_all add: expired_def)
  ultimately show ?thesis unfolding expired_def by blast
qed

lemma expire_all_spec:
  assumes "foldM (expire_thread (usec_timer s)) ts (s, nu) = Some (s', nu')"
  shows "expired s nu (set ts) s' nu'"
  using assms
proof (induction ts arbitrary: s' nu' rule: rev_induct)
  case Nil
  then show ?case by (simp add: expired_def)
next
  case (snoc t ts)
  from snoc.prems obtain s1 n1 where "foldM (expire_thread (usec_timer s)) ts (s, nu) = Some (s1, n1)"
    "expire_thread (usec_timer s) t (s1, n1) = Some (s', nu')"
    by (auto split: bind_splits)
  with snoc.IH expired_step show ?case by fastforce
qed

lemma expire_thread_priority:
  assumes "expire_thread usec t p = Some p'"
  shows "t_priority (threads (fst p') u) = t_priority (threads (fst p) u)"
proof -
  obtain s nu s' nu' where p: "p = (s, nu)" "p' = (s', nu')" by fastforce
  have "s' = s \<or> (\<exists>s1. core s1 = core s \<and> s' = make_ready t s1)"
    using assms unfolding p
    by (auto simp: expire_thread_def Let_def dest: remove_from_queue_core split: if_splits bind_splits)
  then show ?thesis
  proof
    assume "\<exists>s1. core s1 = core s \<and> s' = make_ready t s1"
    then obtain s1 where "core s1 = core s" "s' = make_ready t s1" by blast
    then show ?thesis using core_thread_fields(6) [of s1 s u] by (auto simp: p make_ready_def)
  qed (simp add: p)
qed

lemma expire_all_priority:
  assumes "foldM (expire_thread usec) ts (s, nu) = Some (s', nu')"
  shows "t_priority (threads s' u) = t_priority (threads s u)"
  using foldM_invariant [OF assms, of "\<lambda>p. t_priority (threads (fst p) u) = t_priority (threads s u)"]
    expire_thread_priority by fastforce

section \<open>One switch\<close>

text \<open>What the accounting leaves alone.\<close>

definition same_waiting :: "kstate \<Rightarrow> kstate \<Rightarrow> bool" where
  "same_waiting s s' \<longleftrightarrow> usec_timer s' = usec_timer s \<and> idle_thread s' = idle_thread s
     \<and> head_thread s' = head_thread s \<and> thread_next s' = thread_next s
     \<and> scheduler_frozen s' = scheduler_frozen s
     \<and> (\<forall>t. t_state (threads s' t) = t_state (threads s t)
          \<and> t_timeout (threads s' t) = t_timeout (threads s t)
          \<and> t_blocked_since (threads s' t) = t_blocked_since (threads s t)
          \<and> t_priority (threads s' t) = t_priority (threads s t))"

lemma same_waiting_refl [simp]: "same_waiting s s"
  by (simp add: same_waiting_def)

lemma same_waiting_trans: "same_waiting s s' \<Longrightarrow> same_waiting s' s'' \<Longrightarrow> same_waiting s s''"
  by (simp add: same_waiting_def)

lemma same_waiting_load: "same_waiting s (fold (update_load d) ts s)"
proof (induction ts arbitrary: s)
  case Nil
  then show ?case by simp
next
  case (Cons t ts)
  have "same_waiting s (update_load d t s)"
    by (auto simp: same_waiting_def update_load_def thread_next_def)
  with Cons.IH same_waiting_trans show ?case by fastforce
qed

lemma same_waiting_account:
  assumes "account_tick s = Some s'"
  shows "same_waiting s s'"
proof -
  have "same_waiting s (s\<lparr>last_tick := usec_timer s\<rparr>)" by (simp add: same_waiting_def thread_next_def fun_eq_iff)
  with assms same_waiting_load same_waiting_trans show ?thesis
    by (auto simp: account_tick_def Let_def split: if_splits bind_splits)
qed

lemma same_waiting_timeouts:
  assumes "same_waiting s s'"
  shows "has_timeout (threads s' t) = has_timeout (threads s t)"
    "timed_out s' t = timed_out s t" "time_left s' t = time_left s t"
  using assms by (simp_all add: same_waiting_def has_timeout_def timed_out_def time_left_def)

lemma preempt_timeouts:
  "has_timeout (threads (preempt_current s) t) = has_timeout (threads s t)"
  "timed_out (preempt_current s) t = timed_out s t"
  "time_left (preempt_current s) t = time_left s t"
  by (auto simp: preempt_current_def has_timeout_def timed_out_def time_left_def)

text \<open>What is READY after the timeout loop.\<close>

lemma ready_after:
  assumes w: "same_waiting (timer_kill_wakeup (preempt_current s)) s3" and x: "expired s3 n0 A s1 nu"
    and r: "t_state (threads s1 t) = THREAD_READY"
  shows "t_state (threads s t) = THREAD_READY \<or> t_state (threads s t) = THREAD_RUNNING \<and> t = current_thread s
    \<or> timed_out s t"
proof -
  let ?k = "timer_kill_wakeup (preempt_current s)"
  from x have "(threads s1 t)\<lparr>t_queue_next := None\<rparr> = (threads s3 t)\<lparr>t_queue_next := None\<rparr> \<or> timed_out s3 t"
    unfolding expired_def by blast
  then show ?thesis
  proof
    assume "timed_out s3 t"
    with same_waiting_timeouts [OF w] have "timed_out ?k t" by simp
    then have "timed_out s t"
      using preempt_timeouts [of s t] by (simp add: timer_kill_wakeup_def timed_out_def)
    then show ?thesis by simp
  next
    assume "(threads s1 t)\<lparr>t_queue_next := None\<rparr> = (threads s3 t)\<lparr>t_queue_next := None\<rparr>"
    from has_timeout_noq(4) [OF this] r have "t_state (threads s3 t) = THREAD_READY" by simp
    with w have "t_state (threads ?k t) = THREAD_READY" by (simp add: same_waiting_def)
    then show ?thesis by (auto simp: timer_kill_wakeup_def preempt_current_def split: if_splits)
  qed
qed

lemma scheduler_switch_split:
  assumes sw: "scheduler_switch thread block s = Some s'" and "\<not> stack_smashed s"
    and "\<not> scheduler_frozen s" and "linked (thread_next s) (head_thread s) ts"
  obtains s3 s1 nu t where "same_waiting (timer_kill_wakeup (preempt_current s)) s3"
    "expired s3 0xffffffff (set ts) s1 nu" "idle_thread s1 = idle_thread s"
    "\<forall>u. t_priority (threads s1 u) = t_priority (threads s u)"
    "t = (case thread of None \<Rightarrow> pick_thread s1 block ts
          | Some t \<Rightarrow> if t_state (threads s1 t) \<noteq> THREAD_READY then pick_thread s1 block ts else t)"
    "s' = upd_thread t (\<lambda>r. r\<lparr>t_state := THREAD_RUNNING\<rparr>)
       (timer_schedule_wakeup (if t = idle_thread s then nu else SYSTEM_TICK) s1\<lparr>current_thread := t\<rparr>)"
proof -
  let ?k = "timer_kill_wakeup (preempt_current s)"
  from sw assms(2) obtain s3 t s4 where s3: "account_tick ?k = Some s3"
    and s4: "choose_thread thread block s3 = Some (t, s4)"
    and s': "s' = upd_thread t (\<lambda>r. r\<lparr>t_state := THREAD_RUNNING\<rparr>) (s4\<lparr>current_thread := t\<rparr>)"
    by (auto simp: scheduler_switch_def split: bind_splits prod.splits)
  note w = same_waiting_account [OF s3]
  have keep: "thread_next ?k = thread_next s" "head_thread ?k = head_thread s"
    "scheduler_frozen ?k = scheduler_frozen s" "idle_thread ?k = idle_thread s"
    by (auto simp: timer_kill_wakeup_def preempt_current_def thread_next_def)
  with w assms(3,4) have "\<not> scheduler_frozen s3" "thread_list s3 = Some ts" and idle: "idle_thread s3 = idle_thread s"
    by (simp_all add: same_waiting_def thread_list_def walk_iff)
  with s4 obtain s1 nu where e: "foldM (expire_thread (usec_timer s3)) ts (s3, 0xffffffff) = Some (s1, nu)"
    and t: "t = (case thread of None \<Rightarrow> pick_thread s1 block ts
          | Some t \<Rightarrow> if t_state (threads s1 t) \<noteq> THREAD_READY then pick_thread s1 block ts else t)"
    and s4': "s4 = timer_schedule_wakeup (if t = idle_thread s1 then nu else SYSTEM_TICK) s1"
    by (auto simp: choose_thread_def Let_def split: bind_splits prod.splits)
  from expire_all_spec [OF e] have x: "expired s3 0xffffffff (set ts) s1 nu" .
  then have "idle_thread s1 = idle_thread s" using idle by (simp add: expired_def)
  moreover have "\<forall>u. t_priority (threads s1 u) = t_priority (threads s u)"
    using expire_all_priority [OF e] w
    by (simp add: same_waiting_def timer_kill_wakeup_def preempt_current_def)
  ultimately show ?thesis using w x t s4' s' by (intro that) auto
qed

section \<open>The choice\<close>

lemma pick_fold_best:
  assumes "fold (pick_step s block) us (best, t) = (best', t')"
  shows "best' \<le> best \<and> (t' = t \<and> best' = best
      \<or> t' \<in> set us \<and> t_state (threads s t') = THREAD_READY \<and> t_priority (threads s t') \<noteq> 0
        \<and> best' = score block t' (threads s t') \<and> best' < best)
    \<and> (\<forall>u \<in> set us. t_state (threads s u) = THREAD_READY \<longrightarrow> t_priority (threads s u) \<noteq> 0
        \<longrightarrow> best' \<le> score block u (threads s u))"
  using assms
proof (induction us arbitrary: best t)
  case Nil
  then show ?case by simp
next
  case (Cons u us)
  obtain b1 t1 where u: "pick_step s block u (best, t) = (b1, t1)" by fastforce
  with Cons.prems have "fold (pick_step s block) us (b1, t1) = (best', t')" by simp
  note IH = Cons.IH [OF this]
  from u have "b1 = best \<and> t1 = t \<and> (t_state (threads s u) = THREAD_READY \<longrightarrow>
        t_priority (threads s u) \<noteq> 0 \<longrightarrow> best \<le> score block u (threads s u))
    \<or> b1 < best \<and> t1 = u \<and> b1 = score block u (threads s u)
        \<and> t_state (threads s u) = THREAD_READY \<and> t_priority (threads s u) \<noteq> 0"
    by (auto simp: pick_step_def Let_def not_less split: if_splits)
  with IH show ?case by auto
qed

lemma pick_thread_best:
  assumes "pick_thread s block ts = t"
  shows "(t = idle_thread s \<or> t \<in> set ts \<and> t_state (threads s t) = THREAD_READY
        \<and> t_priority (threads s t) \<noteq> 0
        \<and> (\<forall>u \<in> set ts. t_state (threads s u) = THREAD_READY \<longrightarrow> t_priority (threads s u) \<noteq> 0
             \<longrightarrow> score block t (threads s t) \<le> score block u (threads s u)))
    \<and> (t = idle_thread s \<longrightarrow> t_priority (threads s t) = 0 \<longrightarrow>
         (\<forall>u \<in> set ts. t_state (threads s u) = THREAD_READY \<longrightarrow> t_priority (threads s u) \<noteq> 0
           \<longrightarrow> score block u (threads s u) = 0xffffffff))"
proof -
  obtain b where f: "fold (pick_step s block) ts (0xffffffff, idle_thread s) = (b, t)"
    using assms unfolding pick_thread_def by (metis prod.collapse)
  from pick_fold_best [OF f] top_word32 show ?thesis by blast
qed

text \<open>
  C13. The choice of the scheduler. A switch that is not told which thread to run, outside a freeze, and with the
  stack canary of the current thread intact, runs the idle thread or a thread that could run: one that was
  READY, or was the running thread itself, or was blocked and its timeout has passed. The chosen thread has a
  priority and the least score among the READY threads, where the score is the CPU time per priority and
  the thread that yields comes last; the idle thread runs only if no other thread is left that beats the
  initial score. The chosen thread is the current one and RUNNING, and inside a freeze it is the idle thread.
\<close>

theorem scheduler_switch_choice:
  assumes sw: "scheduler_switch None block s = Some s'" and "\<not> stack_smashed s"
    and ts: "linked (thread_next s) (head_thread s) ts" and "t_priority (threads s (idle_thread s)) = 0"
  shows "t_state (threads s' (current_thread s')) = THREAD_RUNNING
    \<and> (scheduler_frozen s \<longrightarrow> current_thread s' = idle_thread s)
    \<and> (\<not> scheduler_frozen s \<longrightarrow>
        (current_thread s' = idle_thread s \<longrightarrow> (\<forall>u \<in> set ts. t_state (threads s' u) = THREAD_READY \<longrightarrow>
            t_priority (threads s' u) \<noteq> 0 \<longrightarrow> score block u (threads s' u) = 0xffffffff))
      \<and> (current_thread s' \<noteq> idle_thread s \<longrightarrow> current_thread s' \<in> set ts
          \<and> (t_state (threads s (current_thread s')) = THREAD_READY
             \<or> t_state (threads s (current_thread s')) = THREAD_RUNNING \<and> current_thread s' = current_thread s
             \<or> timed_out s (current_thread s'))
          \<and> t_priority (threads s' (current_thread s')) \<noteq> 0
          \<and> (\<forall>u \<in> set ts. t_state (threads s' u) = THREAD_READY \<longrightarrow> t_priority (threads s' u) \<noteq> 0 \<longrightarrow>
               score block (current_thread s') (threads s' (current_thread s'))
               \<le> score block u (threads s' u))))"
proof (cases "scheduler_frozen s")
  case True
  from sw assms(2) obtain s3 t s4 where s3: "account_tick (timer_kill_wakeup (preempt_current s)) = Some s3"
    and s4: "choose_thread None block s3 = Some (t, s4)"
    and s': "s' = upd_thread t (\<lambda>r. r\<lparr>t_state := THREAD_RUNNING\<rparr>) (s4\<lparr>current_thread := t\<rparr>)"
    by (auto simp: scheduler_switch_def split: bind_splits prod.splits)
  from same_waiting_account [OF s3] True have "scheduler_frozen s3" "idle_thread s3 = idle_thread s"
    by (simp_all add: same_waiting_def timer_kill_wakeup_def preempt_current_def)
  with s4 s' True show ?thesis by (simp add: choose_thread_def)
next
  case False
  let ?k = "timer_kill_wakeup (preempt_current s)"
  obtain s3 s1 nu t where w: "same_waiting ?k s3"
    and x: "expired s3 0xffffffff (set ts) s1 nu" and idle': "idle_thread s1 = idle_thread s"
    and prio: "\<forall>u. t_priority (threads s1 u) = t_priority (threads s u)"
    and t': "t = (case None of None \<Rightarrow> pick_thread s1 block ts
      | Some t \<Rightarrow> if t_state (threads s1 t) \<noteq> THREAD_READY then pick_thread s1 block ts else t)"
    and s': "s' = upd_thread t (\<lambda>r. r\<lparr>t_state := THREAD_RUNNING\<rparr>)
       (timer_schedule_wakeup (if t = idle_thread s then nu else SYSTEM_TICK) s1\<lparr>current_thread := t\<rparr>)"
    by (rule scheduler_switch_split [OF sw assms(2) False ts]) blast
  from idle' assms(4) prio have idle: "idle_thread s1 = idle_thread s" "t_priority (threads s1 (idle_thread s)) = 0"
    by simp_all
  from t' have t: "t = pick_thread s1 block ts" by simp
  have th: "threads s' u = (if u = t then (threads s1 t)\<lparr>t_state := THREAD_RUNNING\<rparr> else threads s1 u)"
    "current_thread s' = t" for u
    by (simp_all add: s' timer_schedule_wakeup_def)
  have sc: "score block u ((threads s1 u)\<lparr>t_state := THREAD_RUNNING\<rparr>) = score block u (threads s1 u)" for u
    by (simp add: score_def)
  note p = pick_thread_best [OF t [symmetric]]
  have ready: "t_state (threads s t) = THREAD_READY \<or> t_state (threads s t) = THREAD_RUNNING \<and> t = current_thread s
      \<or> timed_out s t" if "t_state (threads s1 t) = THREAD_READY"
    using ready_after [OF w x that] .
  show ?thesis
  proof (cases "t = idle_thread s")
    case True
    with p idle have "\<forall>u\<in>set ts. t_state (threads s1 u) = THREAD_READY \<longrightarrow>
        t_priority (threads s1 u) \<noteq> 0 \<longrightarrow> score block u (threads s1 u) = 0xffffffff" by simp
    with True sc th False show ?thesis by simp
  next
    case nidle: False
    with p idle have "t_state (threads s1 t) = THREAD_READY" by simp
    with nidle p idle th sc False ready show ?thesis by simp
  qed
qed



section \<open>Switches that return\<close>

text \<open>
  The only routine that may fault inside a switch is the unlinking of a lock that has timed out; without
  such a timeout a switch returns, and it does not touch the wakeups.
\<close>

lemma expire_all_defined:
  assumes "\<forall>u \<in> set ts. timed_out s u \<longrightarrow> t_block_type (threads s u) \<noteq> THREAD_BLOCK_MUTEX"
  shows "\<exists>p. foldM (expire_thread (usec_timer s)) ts (s, nu) = Some p"
  using assms
proof (induction ts arbitrary: s nu)
  case Nil
  then show ?case by simp
next
  case (Cons t ts)
  show ?case
  proof (cases "timed_out s t")
    case True
    let ?s = "make_ready t s"
    from True Cons.prems have "expire_thread (usec_timer s) t (s, nu) = Some (?s, nu)"
      by (simp add: expire_thread_def timed_out_def Let_def)
    moreover have "usec_timer ?s = usec_timer s" by (simp add: make_ready_def)
    moreover have "\<forall>u \<in> set ts. timed_out ?s u \<longrightarrow> t_block_type (threads ?s u) \<noteq> THREAD_BLOCK_MUTEX"
      using Cons.prems by (auto simp: make_ready_def timed_out_def has_timeout_def)
    from Cons.IH [OF this, of nu] have "\<exists>p. foldM (expire_thread (usec_timer ?s)) ts (?s, nu) = Some p" .
    ultimately show ?thesis by simp
  next
    case False
    then have "\<exists>nu'. expire_thread (usec_timer s) t (s, nu) = Some (s, nu')"
      by (auto simp: expire_thread_def timed_out_def Let_def)
    then obtain nu' where "expire_thread (usec_timer s) t (s, nu) = Some (s, nu')" ..
    with Cons show ?thesis by simp
  qed
qed

lemma scheduler_switch_defined:
  assumes "\<not> stack_smashed s" and ts: "linked (thread_next s) (head_thread s) ts"
    and no: "\<forall>u \<in> set ts. timed_out s u \<longrightarrow> t_block_type (threads s u) \<noteq> THREAD_BLOCK_MUTEX"
  shows "\<exists>s'. scheduler_switch thread block s = Some s'"
proof -
  let ?k = "timer_kill_wakeup (preempt_current s)"
  have keep: "thread_next ?k = thread_next s" "head_thread ?k = head_thread s"
    by (auto simp: timer_kill_wakeup_def preempt_current_def thread_next_def)
  then have l: "thread_list ?k = Some ts" using ts by (simp add: thread_list_def walk_iff)
  then have "\<exists>s3. account_tick ?k = Some s3" by (auto simp: account_tick_def Let_def)
  then obtain s3 where s3: "account_tick ?k = Some s3" ..
  note w = same_waiting_account [OF s3]
  have l3: "thread_list s3 = Some ts" using w l by (simp add: same_waiting_def thread_list_def)
  have bt: "t_block_type (threads s3 u) = t_block_type (threads s u)" for u
  proof -
    have "t_block_type (threads (fold (update_load d) us x) u) = t_block_type (threads x u)" for d us x
      by (induction us arbitrary: x) (auto simp: update_load_def)
    with s3 show ?thesis
      by (auto simp: account_tick_def Let_def timer_kill_wakeup_def preempt_current_def
          split: if_splits bind_splits)
  qed
  have "timed_out s3 u = timed_out s u" for u
  proof -
    have "timed_out ?k u = timed_out s u"
      using preempt_timeouts(2) [of s u] by (simp add: timer_kill_wakeup_def timed_out_def)
    with same_waiting_timeouts(2) [OF w] show ?thesis by simp
  qed
  with no bt have "\<forall>u \<in> set ts. timed_out s3 u \<longrightarrow> t_block_type (threads s3 u) \<noteq> THREAD_BLOCK_MUTEX" by simp
  from expire_all_defined [OF this] obtain p where
    "foldM (expire_thread (usec_timer s3)) ts (s3, 0xffffffff) = Some p" by blast
  then have "\<exists>q. choose_thread thread block s3 = Some q"
    using l3 by (cases p) (simp add: choose_thread_def Let_def)
  with s3 assms(1) show ?thesis by (auto simp: scheduler_switch_def Let_def)
qed

lemma expire_wakeups:
  assumes "expire_thread usec t p = Some p'"
  shows "wakeups (fst p') = wakeups (fst p)"
proof -
  obtain s nu s' nu' where p: "p = (s, nu)" "p' = (s', nu')" by fastforce
  have "s' = s \<or> (\<exists>s1. core s1 = core s \<and> s' = make_ready t s1)"
    using assms unfolding p
    by (auto simp: expire_thread_def Let_def dest: remove_from_queue_core split: if_splits bind_splits)
  then show ?thesis
  proof
    assume "\<exists>s1. core s1 = core s \<and> s' = make_ready t s1"
    then obtain s1 where "core s1 = core s" "s' = make_ready t s1" by blast
    then show ?thesis using core_globals(1) [of s1 s] by (simp add: p make_ready_def)
  qed (simp add: p)
qed

lemma scheduler_switch_wakeups:
  assumes "scheduler_switch thread block s = Some s'" and "\<not> stack_smashed s"
  shows "wakeups s' = wakeups s"
proof -
  from assms obtain s3 t s4 where s3: "account_tick (timer_kill_wakeup (preempt_current s)) = Some s3"
    and s4: "choose_thread thread block s3 = Some (t, s4)"
    and s': "s' = upd_thread t (\<lambda>r. r\<lparr>t_state := THREAD_RUNNING\<rparr>) (s4\<lparr>current_thread := t\<rparr>)"
    by (auto simp: scheduler_switch_def split: bind_splits prod.splits)
  have "wakeups (fold (update_load d) us x) = wakeups x" for d us x
    by (induction us arbitrary: x) (auto simp: update_load_def)
  with s3 have 3: "wakeups s3 = wakeups s"
    by (auto simp: account_tick_def Let_def timer_kill_wakeup_def preempt_current_def
        split: if_splits bind_splits)
  have "wakeups (fst p) = wakeups s3" if "foldM (expire_thread usec) ts (s3, nu) = Some p" for usec ts nu p
    by (rule foldM_invariant [OF that]) (simp_all add: expire_wakeups)
  then have f: "wakeups x = wakeups s3" if "foldM (expire_thread usec) ts (s3, nu) = Some (x, n)" for usec ts nu x n
    using that by fastforce
  have "wakeups s4 = wakeups s3"
  proof (cases "scheduler_frozen s3")
    case True
    with s4 show ?thesis by (simp add: choose_thread_def)
  next
    case False
    with s4 obtain ts x n w where "foldM (expire_thread (usec_timer s3)) ts (s3, 0xffffffff) = Some (x, n)"
      "s4 = timer_schedule_wakeup w x"
      by (auto simp: choose_thread_def Let_def split: bind_splits prod.splits)
    with f show ?thesis by (simp add: timer_schedule_wakeup_def)
  qed
  with 3 show ?thesis by (simp add: s')
qed

text \<open>A switch to a thread that is READY runs this thread, unless the scheduler is frozen.\<close>

lemma scheduler_switch_to:
  assumes sw: "scheduler_switch (Some w) block s = Some s'" and "\<not> stack_smashed s"
    and ts: "linked (thread_next s) (head_thread s) ts" and r: "t_state (threads s w) = THREAD_READY"
  shows "t_state (threads s' w) \<in> {THREAD_READY, THREAD_RUNNING}"
    and "\<not> scheduler_frozen s \<Longrightarrow> current_thread s' = w \<and> t_state (threads s' w) = THREAD_RUNNING"
proof -
  have "t_state (threads s' w) \<in> {THREAD_READY, THREAD_RUNNING}
    \<and> (\<not> scheduler_frozen s \<longrightarrow> current_thread s' = w \<and> t_state (threads s' w) = THREAD_RUNNING)"
  proof (cases "scheduler_frozen s")
    case True
    from sw assms(2) obtain s3 t s4 where s3: "account_tick (timer_kill_wakeup (preempt_current s)) = Some s3"
      and s4: "choose_thread (Some w) block s3 = Some (t, s4)"
      and s': "s' = upd_thread t (\<lambda>r. r\<lparr>t_state := THREAD_RUNNING\<rparr>) (s4\<lparr>current_thread := t\<rparr>)"
      by (auto simp: scheduler_switch_def split: bind_splits prod.splits)
    from same_waiting_account [OF s3] True r have "scheduler_frozen s3" "t_state (threads s3 w) = THREAD_READY"
      by (auto simp: same_waiting_def timer_kill_wakeup_def preempt_current_def)
    with s4 s' True show ?thesis by (auto simp: choose_thread_def)
  next
    case False
    obtain s3 s1 nu t where wt: "same_waiting (timer_kill_wakeup (preempt_current s)) s3"
      and x: "expired s3 0xffffffff (set ts) s1 nu" and "idle_thread s1 = idle_thread s"
      and "\<forall>u. t_priority (threads s1 u) = t_priority (threads s u)"
      and t: "t = (case Some w of None \<Rightarrow> pick_thread s1 block ts
          | Some t \<Rightarrow> if t_state (threads s1 t) \<noteq> THREAD_READY then pick_thread s1 block ts else t)"
      and s': "s' = upd_thread t (\<lambda>r. r\<lparr>t_state := THREAD_RUNNING\<rparr>)
       (timer_schedule_wakeup (if t = idle_thread s then nu else SYSTEM_TICK) s1\<lparr>current_thread := t\<rparr>)"
      by (rule scheduler_switch_split [OF sw assms(2) False ts])
    have r3: "t_state (threads s3 w) = THREAD_READY"
      using wt r by (auto simp: same_waiting_def timer_kill_wakeup_def preempt_current_def)
    then have "\<not> timed_out s3 w" by (simp add: timed_out_def has_timeout_def)
    with x have "(threads s1 w)\<lparr>t_queue_next := None\<rparr> = (threads s3 w)\<lparr>t_queue_next := None\<rparr>"
      unfolding expired_def by blast
    from has_timeout_noq(4) [OF this] r3 t have "t = w" by simp
    then show ?thesis using s' False by simp
  qed
  then show "t_state (threads s' w) \<in> {THREAD_READY, THREAD_RUNNING}"
    and "\<not> scheduler_frozen s \<Longrightarrow> current_thread s' = w \<and> t_state (threads s' w) = THREAD_RUNNING" by auto
qed

section \<open>Witnesses\<close>

text \<open>Thread 3 sleeps for 5 microseconds and thread 2 runs; 10 microseconds later the scheduler runs.\<close>

definition sleepy :: kstate where
  "sleepy = upd_thread 3 (\<lambda>r. r\<lparr>t_state := THREAD_BLOCKED, t_block_type := THREAD_BLOCK_SLEEP,
     t_timeout := 5\<rparr>) (kernel0\<lparr>usec_timer := 10\<rparr>)"

definition woken :: kstate where "woken = the (scheduler_switch None (Some 2) sleepy)"

lemma sleepy_facts: "\<not> stack_smashed sleepy" "\<not> scheduler_frozen sleepy"
  "linked (thread_next sleepy) (head_thread sleepy) [1, 2, 3]"
  "t_priority (threads sleepy (idle_thread sleepy)) = 0"
  "t_state (threads sleepy (idle_thread sleepy)) \<noteq> THREAD_BLOCKED" "timed_out sleepy 3"
  by code_simp+

lemma sleepy_switch: "scheduler_switch None (Some 2) sleepy = Some woken"
proof -
  have "(case scheduler_switch None (Some 2) sleepy of None \<Rightarrow> False | Some _ \<Rightarrow> True)" by code_simp
  then show ?thesis by (auto simp: woken_def split: option.splits)
qed

theorem scheduler_switch_choice_witness: "t_state (threads woken (current_thread woken)) = THREAD_RUNNING"
  using scheduler_switch_choice [OF sleepy_switch sleepy_facts(1,3,4)] by blast


end
