(* ===== verification/ThreadOps.thy ===== *)
theory ThreadOps
  imports Scheduling
begin

text \<open>
  What the calls of thread.c do for a thread, seen from the outside: wakeups, suspending and
  resuming, a lock and its unlock, the release of the mutexes of a terminated thread, and the
  thread list between creation and termination.
\<close>

section \<open>Wakeups\<close>

lemma wait_blocks_effect:
  assumes "wakeup_wait obj timeout s = Some (Blocks, s1)"
  shows "wakeups s1 obj = \<lparr>w_waiter = Some (current_thread s), w_signalled = False\<rparr>"
    and "t_state (threads s1 (current_thread s)) = THREAD_BLOCKED"
  using assms by (auto simp: wakeup_wait_def Let_def panics_def split: if_splits bind_splits)

lemma wait_resumed_effect:
  "wakeups s obj = \<lparr>w_waiter = p, w_signalled = b\<rparr> \<Longrightarrow> wakeup_wait_resumed obj s
    = (if b then THREAD_OK else THREAD_TIMEOUT, upd_wakeup obj (\<lambda>_. \<lparr>w_waiter = None, w_signalled = False\<rparr>) s)"
  by (simp add: wakeup_wait_resumed_def upd_wakeup_def)

text \<open>
  A signal for a thread that waits. While the idle thread is current, as in most interrupts, the
  signal switches to the waiter; with the canary intact and no lock timing out at this very moment
  (whose unlinking may dereference NULL) the switch returns.
\<close>

lemma signal_waiter:
  assumes w: "wakeups s obj = \<lparr>w_waiter = Some t, w_signalled = b\<rparr>"
    and idle: "current_thread s = idle_thread s \<longrightarrow> \<not> stack_smashed s
      \<and> (\<exists>ts. linked (thread_next s) (head_thread s) ts
          \<and> (\<forall>u \<in> set ts. timed_out s u \<longrightarrow> t_block_type (threads s u) \<noteq> THREAD_BLOCK_MUTEX))"
  shows "\<exists>s'. wakeup_signal obj s = Some (THREAD_FOUND, s')
    \<and> t_state (threads s' t) \<in> {THREAD_READY, THREAD_RUNNING}
    \<and> (current_thread s = idle_thread s \<longrightarrow> \<not> scheduler_frozen s \<longrightarrow>
         current_thread s' = t \<and> t_state (threads s' t) = THREAD_RUNNING)
    \<and> wakeups s' obj = \<lparr>w_waiter = Some t, w_signalled = True\<rparr>"
proof -
  let ?s = "make_ready t (upd_wakeup obj (\<lambda>r. r\<lparr>w_signalled := True\<rparr>) s)"
  have th: "threads ?s u = (if u = t then (threads s t)\<lparr>t_state := THREAD_READY,
      t_block_type := THREAD_NOT_BLOCKED, t_blocked_by := None, t_timeout := 0\<rparr> else threads s u)"
    and gl: "current_thread ?s = current_thread s" "idle_thread ?s = idle_thread s"
      "head_thread ?s = head_thread s" "scheduler_frozen ?s = scheduler_frozen s"
      "wakeups ?s obj = \<lparr>w_waiter = Some t, w_signalled = True\<rparr>" "usec_timer ?s = usec_timer s"
      "stackmem ?s = stackmem s" for u
    using w by (simp_all add: make_ready_def)
  show ?thesis
  proof (cases "current_thread s = idle_thread s")
    case False
    with w have "wakeup_signal obj s = Some (THREAD_FOUND, ?s)"
      by (simp add: wakeup_signal_def Let_def gl)
    with False show ?thesis by (simp add: th gl)
  next
    case True
    with idle obtain ts where sm: "\<not> stack_smashed s" and ts: "linked (thread_next s) (head_thread s) ts"
      and no: "\<forall>u \<in> set ts. timed_out s u \<longrightarrow> t_block_type (threads s u) \<noteq> THREAD_BLOCK_MUTEX" by blast
    have sm': "\<not> stack_smashed ?s" using sm by (auto simp: stack_smashed_def Let_def th gl)
    have "thread_next ?s = thread_next s" by (rule ext) (simp add: thread_next_def th)
    with ts have ts': "linked (thread_next ?s) (head_thread ?s) ts" by (simp add: gl)
    have no': "\<forall>u \<in> set ts. timed_out ?s u \<longrightarrow> t_block_type (threads ?s u) \<noteq> THREAD_BLOCK_MUTEX"
      using no by (auto simp: timed_out_def has_timeout_def th gl)
    from scheduler_switch_defined [OF sm' ts' no'] obtain s' where
      s': "scheduler_switch (Some t) None ?s = Some s'" by blast
    with w True have "wakeup_signal obj s = Some (THREAD_FOUND, s')"
      by (simp add: wakeup_signal_def Let_def gl)
    moreover have "t_state (threads ?s t) = THREAD_READY" by (simp add: th)
    note scheduler_switch_to [OF s' sm' ts' this]
    moreover have "wakeups s' obj = wakeups ?s obj" using scheduler_switch_wakeups [OF s' sm'] by simp
    ultimately show ?thesis using gl by (intro exI [of _ s']) simp
  qed
qed

text \<open>
  C15. A wakeup is not lost, whichever comes first. A signal that finds no waiter makes the next wait
  return THREAD_OK at once. A wait that blocks is ended by the next signal, and returns THREAD_OK
  when its thread runs again; without a signal it returns THREAD_TIMEOUT. The signal makes the waiter READY;
  if it comes from an interrupt while the idle thread is current it even runs the waiter at once, unless the
  scheduler is frozen (here the switch has to return: the idle thread's canary is intact, the thread
  list is a proper list and no lock times out at this moment). In every case the wakeup ends up
  without a waiter and not signalled, ready for its next use.
\<close>

theorem wakeup_not_lost:
  "(w_waiter (wakeups s obj) = None \<longrightarrow> (\<exists>s1 s2. wakeup_signal obj s = Some (THREAD_OK, s1)
      \<and> wakeup_wait obj timeout s1 = Some (Ret THREAD_OK, s2)
      \<and> wakeups s2 obj = \<lparr>w_waiter = None, w_signalled = False\<rparr>))
   \<and> (wakeup_wait obj timeout s = Some (Blocks, s1) \<longrightarrow>
      t_state (threads s1 (current_thread s)) = THREAD_BLOCKED
      \<and> (wakeups s2 obj = wakeups s1 obj \<longrightarrow>
          wakeup_wait_resumed obj s2 = (THREAD_TIMEOUT, upd_wakeup obj (\<lambda>_. \<lparr>w_waiter = None, w_signalled = False\<rparr>) s2)
          \<and> ((current_thread s2 = idle_thread s2 \<longrightarrow> \<not> stack_smashed s2
                \<and> linked (thread_next s2) (head_thread s2) ts
                \<and> (\<forall>u \<in> set ts. timed_out s2 u \<longrightarrow> t_block_type (threads s2 u) \<noteq> THREAD_BLOCK_MUTEX)) \<longrightarrow>
            (\<exists>s3. wakeup_signal obj s2 = Some (THREAD_FOUND, s3)
              \<and> t_state (threads s3 (current_thread s)) \<in> {THREAD_READY, THREAD_RUNNING}
              \<and> (current_thread s2 = idle_thread s2 \<longrightarrow> \<not> scheduler_frozen s2 \<longrightarrow>
                   current_thread s3 = current_thread s \<and> t_state (threads s3 (current_thread s)) = THREAD_RUNNING)
              \<and> (wakeups s4 obj = wakeups s3 obj \<longrightarrow> wakeup_wait_resumed obj s4
                  = (THREAD_OK, upd_wakeup obj (\<lambda>_. \<lparr>w_waiter = None, w_signalled = False\<rparr>) s4))))))"
proof (intro conjI impI)
  assume "w_waiter (wakeups s obj) = None"
  then show "\<exists>s1 s2. wakeup_signal obj s = Some (THREAD_OK, s1)
      \<and> wakeup_wait obj timeout s1 = Some (Ret THREAD_OK, s2)
      \<and> wakeups s2 obj = \<lparr>w_waiter = None, w_signalled = False\<rparr>"
    by (simp add: wakeup_signal_def wakeup_wait_def Let_def)
next
  assume b: "wakeup_wait obj timeout s = Some (Blocks, s1)"
  note w1 = wait_blocks_effect [OF b]
  show "t_state (threads s1 (current_thread s)) = THREAD_BLOCKED" by (rule w1(2))
  assume e: "wakeups s2 obj = wakeups s1 obj"
  with w1(1) have w2: "wakeups s2 obj = \<lparr>w_waiter = Some (current_thread s), w_signalled = False\<rparr>" by simp
  show "wakeup_wait_resumed obj s2
      = (THREAD_TIMEOUT, upd_wakeup obj (\<lambda>_. \<lparr>w_waiter = None, w_signalled = False\<rparr>) s2)"
    using wait_resumed_effect [OF w2] by simp
  assume "current_thread s2 = idle_thread s2 \<longrightarrow> \<not> stack_smashed s2
      \<and> linked (thread_next s2) (head_thread s2) ts
      \<and> (\<forall>u \<in> set ts. timed_out s2 u \<longrightarrow> t_block_type (threads s2 u) \<noteq> THREAD_BLOCK_MUTEX)"
  then have "current_thread s2 = idle_thread s2 \<longrightarrow> \<not> stack_smashed s2
      \<and> (\<exists>ts. linked (thread_next s2) (head_thread s2) ts
        \<and> (\<forall>u \<in> set ts. timed_out s2 u \<longrightarrow> t_block_type (threads s2 u) \<noteq> THREAD_BLOCK_MUTEX))" by blast
  from signal_waiter [OF w2 this] obtain s3 where s3: "wakeup_signal obj s2 = Some (THREAD_FOUND, s3)"
    "t_state (threads s3 (current_thread s)) \<in> {THREAD_READY, THREAD_RUNNING}"
    "current_thread s2 = idle_thread s2 \<longrightarrow> \<not> scheduler_frozen s2 \<longrightarrow>
         current_thread s3 = current_thread s \<and> t_state (threads s3 (current_thread s)) = THREAD_RUNNING"
    "wakeups s3 obj = \<lparr>w_waiter = Some (current_thread s), w_signalled = True\<rparr>" by blast
  have "wakeups s4 obj = wakeups s3 obj \<longrightarrow> wakeup_wait_resumed obj s4
      = (THREAD_OK, upd_wakeup obj (\<lambda>_. \<lparr>w_waiter = None, w_signalled = False\<rparr>) s4)"
    using s3(4) wait_resumed_effect [of s4 obj "Some (current_thread s)" True] by simp
  with s3(1-3) show "\<exists>s3. wakeup_signal obj s2 = Some (THREAD_FOUND, s3)
      \<and> t_state (threads s3 (current_thread s)) \<in> {THREAD_READY, THREAD_RUNNING}
      \<and> (current_thread s2 = idle_thread s2 \<longrightarrow> \<not> scheduler_frozen s2 \<longrightarrow>
           current_thread s3 = current_thread s \<and> t_state (threads s3 (current_thread s)) = THREAD_RUNNING)
      \<and> (wakeups s4 obj = wakeups s3 obj \<longrightarrow> wakeup_wait_resumed obj s4
          = (THREAD_OK, upd_wakeup obj (\<lambda>_. \<lparr>w_waiter = None, w_signalled = False\<rparr>) s4))" by blast
qed

section \<open>Panics\<close>




section \<open>Suspending and resuming\<close>

lemma stop_timeout_sel [simp]:
  "t_block_type (stop_timeout s r) = t_block_type r" "t_blocked_by (stop_timeout s r) = t_blocked_by r"
  "t_state (stop_timeout s r) = t_state r"
  by (simp_all add: stop_timeout_def)

lemma state_upd_id: "t_state r = x \<Longrightarrow> r\<lparr>t_state := x\<rparr> = r"
  by simp

text \<open>
  C16. Suspending a blocked thread and resuming it. A thread that waits for a wakeup goes on waiting
  with what was left of its timeout; a thread that was READY becomes READY again. But a thread that
  sleeps does not come back: \<open>thread_resume\<close> reports THREAD_OK and leaves it SUSPENDED, and the timeout
  loop of the scheduler, which only looks at BLOCKED threads, never wakes it.
\<close>

theorem suspend_resume:
  assumes sus: "thread_suspend (Some t) s = Some (r1, s1)"
    and e: "threads s2 t = threads s1 t" and res: "thread_resume (Some t) s2 = Some (r2, s3)"
  shows "(t_state (threads s t) = THREAD_READY \<and> t_block_type (threads s t) = THREAD_NOT_BLOCKED \<longrightarrow>
      r1 = Ret THREAD_OK \<and> r2 = Ret THREAD_OK \<and> threads s3 t = threads s t)
    \<and> (t_state (threads s t) = THREAD_BLOCKED \<and> t_block_type (threads s t) = THREAD_BLOCK_WAKEUP \<longrightarrow>
      r1 = Ret THREAD_OK \<and> r2 = Ret THREAD_OK
      \<and> threads s3 t = (stop_timeout s (threads s t))\<lparr>t_blocked_since := usec_timer s2\<rparr>)
    \<and> (t_state (threads s t) = THREAD_BLOCKED \<and> t_block_type (threads s t) = THREAD_BLOCK_SLEEP \<longrightarrow>
      r2 = Ret THREAD_OK \<and> t_state (threads s3 t) = THREAD_SUSPENDED
      \<and> expire_thread usec t (s3, nu) = Some (s3, nu))"
proof (intro conjI impI; elim conjE)
  assume "t_state (threads s t) = THREAD_READY" "t_block_type (threads s t) = THREAD_NOT_BLOCKED"
  with assms show "r1 = Ret THREAD_OK" "r2 = Ret THREAD_OK" "threads s3 t = threads s t"
    by (auto simp: thread_suspend_def thread_resume_def the_thread_def state_upd_id)
next
  assume b: "t_state (threads s t) = THREAD_BLOCKED" "t_block_type (threads s t) = THREAD_BLOCK_WAKEUP"
  with sus e have s2: "threads s2 t = (stop_timeout s (threads s t))\<lparr>t_state := THREAD_SUSPENDED\<rparr>"
    "r1 = Ret THREAD_OK"
    by (auto simp: thread_suspend_def the_thread_def)
  then show "r1 = Ret THREAD_OK" by simp
  from s2 b res show "r2 = Ret THREAD_OK"
    "threads s3 t = (stop_timeout s (threads s t))\<lparr>t_blocked_since := usec_timer s2\<rparr>"
    by (auto simp: thread_resume_def the_thread_def state_upd_id)
next
  assume b: "t_state (threads s t) = THREAD_BLOCKED" "t_block_type (threads s t) = THREAD_BLOCK_SLEEP"
  with sus e have s2: "threads s2 t = (stop_timeout s (threads s t))\<lparr>t_state := THREAD_SUSPENDED\<rparr>"
    by (auto simp: thread_suspend_def the_thread_def)
  with b res show "r2 = Ret THREAD_OK" and st: "t_state (threads s3 t) = THREAD_SUSPENDED"
    by (auto simp: thread_resume_def the_thread_def)
  then show "expire_thread usec t (s3, nu) = Some (s3, nu)"
    by (simp add: expire_thread_def has_timeout_def)
qed

section \<open>Suspended waiters and freed mutexes\<close>

text \<open>
  C17. A hand-over can be lost. A thread that waits for a mutex leaves the queue when it is suspended;
  if the owner unlocks the mutex meanwhile, nobody is there to get it and the mutex becomes free.
  \<open>thread_resume\<close> puts the thread back into the queue without looking: it then waits, with no timeout
  for ever, for a mutex that no thread owns, and nothing but another thread's lock and unlock
  of this mutex ever wakes it.
\<close>

theorem resume_waits_for_free_mutex:
  assumes "t_state (threads s t) = THREAD_SUSPENDED" "t_block_type (threads s t) = THREAD_BLOCK_MUTEX"
    and "t_blocked_by (threads s t) = Some m" and "m_count (mutexes s m) = 0" and "waiters s m []"
  shows "\<exists>s'. thread_resume (Some t) s = Some (Ret THREAD_OK, s') \<and> waits_for s' t m
    \<and> waiters s' m [t] \<and> (\<forall>u. \<not> owns s' u m)
    \<and> (t_timeout (threads s t) = TIMEOUT_BLOCK \<longrightarrow> expire_thread usec t (s', nu) = Some (s', nu))"
proof -
  from add_to_queue_spec [OF assms(5), of t] obtain s1 where
    s1: "mutex_add_to_queue m t s = Some s1" "waiters s1 m [t]" "queue_change m {t} s s1" by auto
  let ?s = "upd_thread t (\<lambda>r. r\<lparr>t_blocked_since := usec_timer s, t_state := THREAD_BLOCKED\<rparr>) s1"
  from s1(3) have c: "core s1 = core s" by (simp add: queue_change_def)
  have "thread_resume (Some t) s = Some (Ret THREAD_OK, ?s)"
    using assms(1-3) s1(1) by (simp add: thread_resume_def the_thread_def)
  moreover have "waits_for ?s t m" "\<not> owns ?s u m" for u
    using assms(2-4) core_fields [OF c] by (simp_all add: waits_for_def owns_def)
  moreover have "waiters ?s m [t]"
    using s1(2) by (simp add: waiters_def queue_next_upd_thread)
  moreover have "expire_thread usec t (?s, nu) = Some (?s, nu)" if "t_timeout (threads s t) = TIMEOUT_BLOCK"
    using that core_fields [OF c] by (simp add: expire_thread_def has_timeout_def)
  ultimately show ?thesis by blast
qed

section \<open>A lock and its unlock\<close>

lemma threads_upd_same: "f (threads s t) = threads s t \<Longrightarrow> threads (upd_thread t f s) = threads s"
  by auto

text \<open>
  C18. Locks nest. Whatever lock of a mutex succeeds at once, the unlock that follows undoes, unless the
  mutex was free and yet had a waiter (which a resumed thread can bring about: the unlock would then hand the
  mutex to that waiter): it returns the recursion count from before the lock, and gives back every thread
  and mutex as it was, but for the owner and the link of a mutex that is free again.
\<close>

theorem mutex_lock_unlock:
  assumes lock: "mutex_lock obj timeout s = Some (Ret THREAD_OK, s1)" and pos: "0 \<le> m_count (mutexes s obj)"
    and free: "m_count (mutexes s obj) = 0 \<longrightarrow> m_waiters (mutexes s obj) = None"
  shows "m_owner (mutexes s1 obj) = Some (current_thread s)
    \<and> m_count (mutexes s1 obj) = m_count (mutexes s obj) + 1
    \<and> (\<exists>s2. mutex_unlock obj s1 = Some (Ret (m_count (mutexes s obj)), s2)
      \<and> threads s2 = threads s \<and> m_count (mutexes s2 obj) = m_count (mutexes s obj)
      \<and> (\<forall>m. m \<noteq> obj \<or> m_count (mutexes s obj) \<noteq> 0 \<longrightarrow> mutexes s2 m = mutexes s m))"
proof (cases "m_count (mutexes s obj) = 0")
  case True
  let ?t = "current_thread s"
  have s1: "s1 = upd_thread ?t (\<lambda>r. r\<lparr>t_owned_mutexes := Some obj\<rparr>)
      (upd_mutex obj (\<lambda>r. r\<lparr>m_count := 1, m_owner := Some ?t,
         m_owned_next := t_owned_mutexes (threads s ?t)\<rparr>) s)"
    using lock True by (simp add: mutex_lock_def Let_def)
  show ?thesis using True free
    by (auto simp: s1 mutex_unlock_def Let_def mutex_unlock_internal_def mutex_hand_over_def
        owned_next_def THREAD_OK_def)
next
  case False
  with lock have own: "m_owner (mutexes s obj) = Some (current_thread s)"
    and s1: "s1 = upd_mutex obj (\<lambda>r. r\<lparr>m_count := m_count r + 1\<rparr>) s"
    by (auto simp: mutex_lock_def Let_def thread_codes split: if_splits bind_splits)
  from pos False have "m_count (mutexes s obj) + 1 \<noteq> 0" by simp
  with False own show ?thesis by (simp add: s1 mutex_unlock_def)
qed

section \<open>The mutexes of a terminated thread\<close>

lemma unlock_internal_head:
  assumes "m_owner (mutexes s m) = Some t" and "t_owned_mutexes (threads s t) = Some m"
  shows "mutex_unlock_internal m s = Some (mutex_hand_over m
    (upd_thread t (\<lambda>r. r\<lparr>t_owned_mutexes := owned_next s m\<rparr>) s))"
  using assms by (simp add: mutex_unlock_internal_def)

lemma hand_over_free:
  "m_waiters (mutexes s m) = None \<Longrightarrow> mutex_hand_over m s = upd_mutex m (\<lambda>r. r\<lparr>m_count := 0\<rparr>) s"
  by (simp add: mutex_hand_over_def)

lemma owned_next_upd_mutex:
  "(\<And>r. m_owned_next (f r) = m_owned_next r) \<Longrightarrow> owned_next (upd_mutex m f s) = owned_next s"
  by (rule ext) (simp add: owned_next_def)

text \<open>
  C20. Termination releases what the thread holds, as long as nobody waits for it: when no mutex
  of the thread has a waiter, every one of them is free afterwards, the thread's list is empty,
  and no other thread or mutex has changed.
\<close>

theorem terminate_releases_all:
  assumes "owned_list s t os" and "\<forall>m \<in> set os. m_owner (mutexes s m) = Some t \<and> m_waiters (mutexes s m) = None"
  shows "\<exists>s'. unlock_all (t_owned_mutexes (threads s t)) s = Some s'
    \<and> (\<forall>m \<in> set os. m_count (mutexes s' m) = 0) \<and> (\<forall>m. m \<notin> set os \<longrightarrow> mutexes s' m = mutexes s m)
    \<and> t_owned_mutexes (threads s' t) = None \<and> (\<forall>u. u \<noteq> t \<longrightarrow> threads s' u = threads s u)"
  using assms
proof (induction os arbitrary: s)
  case Nil
  then show ?case by (auto simp: owned_list_def unlock_all.simps)
next
  case (Cons m os)
  let ?s = "upd_mutex m (\<lambda>r. r\<lparr>m_count := 0\<rparr>) (upd_thread t (\<lambda>r. r\<lparr>t_owned_mutexes := owned_next s m\<rparr>) s)"
  from Cons.prems have m: "t_owned_mutexes (threads s t) = Some m" and l: "linked (owned_next s) (owned_next s m) os"
    and o: "m_owner (mutexes s m) = Some t" "m_waiters (mutexes s m) = None"
    by (auto simp: owned_list_def)
  have d: "m \<notin> set os" using Cons.prems(1) linked_distinct unfolding owned_list_def by fastforce
  have step: "mutex_unlock_internal m s = Some ?s"
    using unlock_internal_head [OF o(1) m] o(2) by (simp add: hand_over_free)
  have next': "owned_next ?s = owned_next s" by (simp add: owned_next_upd_mutex)
  have "owned_list ?s t os" using l by (simp add: owned_list_def next')
  moreover have "\<forall>n \<in> set os. m_owner (mutexes ?s n) = Some t \<and> m_waiters (mutexes ?s n) = None"
    using Cons.prems(2) by auto
  ultimately obtain s' where s': "unlock_all (t_owned_mutexes (threads ?s t)) ?s = Some s'"
    "\<forall>m \<in> set os. m_count (mutexes s' m) = 0" "\<forall>m. m \<notin> set os \<longrightarrow> mutexes s' m = mutexes ?s m"
    "t_owned_mutexes (threads s' t) = None" "\<forall>u. u \<noteq> t \<longrightarrow> threads s' u = threads ?s u"
    using Cons.IH by blast
  have "unlock_all (Some m) s = unlock_all (owned_next s m) ?s"
    using step by (subst unlock_all.simps) (simp add: next')
  with s' m d show ?case by (intro exI [of _ s']) auto
qed

lemma unlock_all_walks_into_null:
  assumes "owned_list s w (m # ns)" and "ns \<noteq> []"
    and "\<forall>n \<in> set ns. m_owner (mutexes s n) = Some w \<and> m_waiters (mutexes s n) = None"
  shows "unlock_all (Some (hd ns)) s = None"
  using assms
proof (induction ns arbitrary: s rule: induct_list012)
  case 1
  then show ?case by simp
next
  case (2 n)
  have "linked (owned_next s) (Some m) (m # [] @ [n])" and m: "t_owned_mutexes (threads s w) = Some m"
    using 2 by (auto simp: owned_list_def)
  then have "unlink_loop owned_next set_owned_next n (Some m) s = None" "m \<noteq> n"
    using owned.unlink_loop_last linked_distinct by fastforce+
  with m 2 have "mutex_unlock_internal n s = None" by (simp add: mutex_unlock_internal_def)
  then show ?case by (simp add: unlock_all.simps)
next
  case (3 n k ns)
  have l: "linked (owned_next s) (Some m) (m # [] @ n # k # ns)" and m: "t_owned_mutexes (threads s w) = Some m"
    using 3 by (auto simp: owned_list_def)
  from l have d: "distinct (m # n # k # ns)" using linked_distinct by fastforce
  let ?s1 = "set_owned_next m (Some k) s"
  let ?s = "upd_mutex n (\<lambda>r. r\<lparr>m_count := 0\<rparr>) ?s1"
  from owned.unlink_loop_inner [OF l] m d 3 have "mutex_unlock_internal n s = Some (mutex_hand_over n ?s1)"
    by (simp add: mutex_unlock_internal_def)
  moreover have "mutex_hand_over n ?s1 = ?s"
    using 3 d by (intro hand_over_free) (auto simp: set_owned_next_def)
  moreover have nx: "owned_next ?s = (owned_next s)(m := Some k)"
    by (simp add: owned_next_upd_mutex owned.get_put)
  then have "owned_next ?s n = Some k" using l d by simp
  ultimately have "unlock_all (Some n) s = unlock_all (Some k) ?s"
    by (subst unlock_all.simps) simp
  moreover have "owned_list ?s w (m # k # ns)"
    using l d m nx by (auto simp: owned_list_def set_owned_next_def)
  with 3 d have "unlock_all (Some (hd (k # ns))) ?s = None"
    by (intro "3.IH"(2)) (auto simp: set_owned_next_def)
  ultimately show ?case by simp
qed

text \<open>
  C21. Termination with a waiter goes wrong. The loop takes the link of a mutex after the mutex was
  handed over, when it leads into the list of the new owner. If the new owner held nothing
  else, the loop ends there and all other mutexes stay locked by the terminated thread; if it held some
  others, the loop releases those under its feet until it dereferences NULL.
\<close>

theorem terminate_follows_new_owner:
  assumes "owned_list s t (m # os)" and "m_owner (mutexes s m) = Some t" and "waiters s m (w # ws)"
    and "t \<noteq> w" and "owned_list s w ns" and "m \<notin> set ns" and "\<forall>k \<in> set os. owns s t k"
    and "\<forall>n \<in> set ns. m_owner (mutexes s n) = Some w \<and> m_waiters (mutexes s n) = None"
  shows "(ns \<noteq> [] \<longrightarrow> unlock_all (t_owned_mutexes (threads s t)) s = None)
    \<and> (ns = [] \<longrightarrow> (\<exists>s'. unlock_all (t_owned_mutexes (threads s t)) s = Some s'
          \<and> owns s' w m \<and> (\<forall>k \<in> set os. owns s' t k)))"
proof -
  let ?s1 = "upd_thread t (\<lambda>r. r\<lparr>t_owned_mutexes := owned_next s m\<rparr>) s"
  let ?s = "mutex_hand_over m ?s1"
  have "distinct (m # os)" using assms(1) linked_distinct unfolding owned_list_def by metis
  with assms(1,3) have m: "t_owned_mutexes (threads s t) = Some m" "m \<notin> set os"
    "m_waiters (mutexes s m) = Some w"
    by (simp_all add: owned_list_def waiters_def)
  then have step: "mutex_unlock_internal m s = Some ?s"
    using unlock_internal_head [OF assms(2)] by simp
  have th: "t_owned_mutexes (threads ?s w) = Some m"
    and nx: "owned_next ?s = (owned_next s)(m := t_owned_mutexes (threads s w))"
    and mu: "\<And>k. k \<noteq> m \<Longrightarrow> mutexes ?s k = mutexes s k" and ow: "owns ?s w m"
    using m(3) assms(4)
    by (auto simp: mutex_hand_over_def Let_def make_ready_def owned_next_def fun_eq_iff owns_def)
  have all: "unlock_all (Some m) s = unlock_all (t_owned_mutexes (threads s w)) ?s"
    using step by (subst unlock_all.simps) (simp add: nx)
  show ?thesis
  proof (cases ns)
    case Nil
    with assms(5) all have "unlock_all (Some m) s = Some ?s"
      by (simp add: owned_list_def unlock_all.simps)
    moreover have "\<forall>k \<in> set os. owns ?s t k" using assms(7) mu m(2) unfolding owns_def by metis
    ultimately show ?thesis using Nil ow m(1) by simp
  next
    case (Cons n ns')
    with assms(5) have n: "t_owned_mutexes (threads s w) = Some n" by (simp add: owned_list_def)
    have "owned_list ?s w (m # ns)" using assms(5,6) th nx by (simp add: owned_list_def)
    moreover have "\<forall>n \<in> set ns. m_owner (mutexes ?s n) = Some w \<and> m_waiters (mutexes ?s n) = None"
      using assms(6,8) mu by metis
    ultimately have "unlock_all (Some (hd ns)) ?s = None"
      using Cons by (intro unlock_all_walks_into_null) auto
    with all n m(1) Cons show ?thesis by simp
  qed
qed

section \<open>The thread list\<close>

lemma paint_stack_covers:
  assumes "0 \<le> i" and "i < stacksize div 4"
  shows "stackmem (paint_stack stack stacksize s) (stack + word_of_int (4 * i)) = STACK_CANARY"
proof -
  have "fold (\<lambda>i mem. mem(stack + of_nat (4 * i) := STACK_CANARY)) ks mem a = STACK_CANARY"
    if "mem a = STACK_CANARY" for ks mem a
    using that by (induction ks arbitrary: mem) auto
  then have keep: "k \<in> set ks \<Longrightarrow>
      fold (\<lambda>i mem. mem(stack + of_nat (4 * i) := STACK_CANARY)) ks mem (stack + of_nat (4 * k)) = STACK_CANARY"
    for k ks mem by (induction ks arbitrary: mem) auto
  from assms have "nat i \<in> set [0..<nat (stacksize div 4)]" by simp
  from keep [OF this] have "stackmem (paint_stack stack stacksize s) (stack + of_nat (4 * nat i)) = STACK_CANARY"
    by (simp add: paint_stack_def)
  with assms(1) show ?thesis by (simp add: of_nat_nat)
qed

text \<open>
  C22. Creating a thread puts it into the thread list right behind the idle thread, READY or
  SUSPENDED as asked, at the entry point with its stack pointer at the upper end of its stack; and
  if the stack has room for one canary word, the stack check of the scheduler accepts it.
\<close>

theorem thread_create_links:
  assumes "linked (thread_next s) (head_thread s) (h # ts)" and "t \<notin> set (h # ts)"
  shows "\<exists>s'. thread_create_with t name code ex stack sz type prio run a0 a1 a2 a3 s = Some s'
    \<and> thread_list s' = Some (h # t # ts)
    \<and> t_state (threads s' t) = (if run then THREAD_READY else THREAD_SUSPENDED)
    \<and> t_regs (threads s' t) ! 15 = code \<and> t_regs (threads s' t) ! 13 = stack + word_of_int sz
    \<and> (4 \<le> sz \<longrightarrow> \<not> stack_smashed (s'\<lparr>current_thread := t\<rparr>))
    \<and> (\<forall>u. u \<notin> {t, h} \<longrightarrow> threads s' u = threads s u) \<and> mutexes s' = mutexes s"
proof -
  let ?r = "new_thread name code ex stack sz type prio run a0 a1 a2 a3"
  let ?p = "upd_thread t (\<lambda>_. ?r) (paint_stack stack sz s)"
  let ?s = "set_thread_next h (Some t) (set_thread_next t (thread_next s h) ?p)"
  have ne: "h \<noteq> t" using assms(2) by auto
  have n0: "thread_next ?p u = thread_next s u" if "u \<noteq> t" for u
    using that by (simp add: thread_next_def paint_stack_def)
  have h: "head_thread ?p = Some h" "head_thread ?s = Some h"
    using assms(1) by (simp_all add: paint_stack_def set_thread_next_def)
  have "linked (thread_next ?p) (Some h) ([] @ h # ts)"
    using assms lseg_cong [of "h # ts" "thread_next ?p" "thread_next s"] n0
    by (metis append_Nil lseg.simps(2))
  from tlist.insert_after [OF this, of t] assms(2) n0 [OF ne]
  have l: "thread_list ?s = Some (h # t # ts)" using h by (simp add: thread_list_def walk_iff)
  have c: "thread_create_with t name code ex stack sz type prio run a0 a1 a2 a3 s = Some ?s"
    using h n0 [OF ne] by (simp add: thread_create_with_def link_thread_def)
  have "\<not> stack_smashed (?s\<lparr>current_thread := t\<rparr>)" if "4 \<le> sz"
  proof -
    from that have "0 < sz div 4" by simp
    from paint_stack_covers [OF order_refl this, of stack s] show ?thesis using ne
      by (simp add: stack_smashed_def set_thread_next_def new_thread_def Let_def)
  qed
  moreover have "threads ?s t = ?r\<lparr>t_thread_next := thread_next s h\<rparr>"
    using ne by (simp add: set_thread_next_def)
  moreover have "t_state ?r = (if run then THREAD_READY else THREAD_SUSPENDED)"
    "t_regs ?r ! 15 = code" "t_regs ?r ! 13 = stack + word_of_int sz"
    by (simp_all add: new_thread_def nth_append)
  moreover have "\<forall>u. u \<notin> {t, h} \<longrightarrow> threads ?s u = threads s u" "mutexes ?s = mutexes s"
    by (simp_all add: set_thread_next_def paint_stack_def)
  ultimately show ?thesis using l c by (intro exI [of _ ?s]) simp
qed

lemma find_predecessor_spec:
  "linked (thread_next s) p (xs @ a # t # ys) \<Longrightarrow> t \<notin> set xs \<Longrightarrow> find_predecessor t p s = Some (Some a)"
proof (induction xs arbitrary: p)
  case Nil
  then show ?case by (simp add: find_predecessor.simps)
next
  case (Cons x xs)
  then have p: "p = Some x" and l: "linked (thread_next s) (thread_next s x) (xs @ a # t # ys)" by auto
  have "thread_next s x \<noteq> Some t"
  proof
    assume "thread_next s x = Some t"
    with l have "xs = [] \<and> a = t \<or> t \<in> set xs" by (cases xs) auto
    moreover have "a \<noteq> t" using linked_distinct [OF l] by auto
    ultimately show False using Cons.prems(2) by auto
  qed
  with Cons p l show ?case by (subst find_predecessor.simps) simp
qed

lemma find_predecessor_absent:
  "linked (thread_next s) p xs \<Longrightarrow> t \<notin> set (tl xs) \<Longrightarrow> find_predecessor t p s = Some None"
proof (induction xs arbitrary: p)
  case Nil
  then show ?case by (simp add: find_predecessor.simps)
next
  case (Cons x xs)
  then have p: "p = Some x" and l: "linked (thread_next s) (thread_next s x) xs" and n: "t \<notin> set xs" by auto
  have "thread_next s x \<noteq> Some t" using l n by (cases xs) auto
  moreover from n have "t \<notin> set (tl xs)" by (cases xs) auto
  ultimately show ?case using Cons.IH [OF l] p by (subst find_predecessor.simps) simp
qed

text \<open>
  C23. Termination takes a thread out of the thread list, wherever it stands behind the idle thread,
  and changes nothing else in the list; a thread that is not in the list leaves it unchanged.
\<close>

theorem terminate_unlink_removes:
  assumes "linked (thread_next s) (head_thread s) (h # ts)" and "t \<noteq> h"
  shows "\<exists>s'. terminate_unlink t s = Some s' \<and> thread_list s' = Some (h # remove1 t ts)
    \<and> (\<forall>u. (threads s' u)\<lparr>t_thread_next := None\<rparr> = (threads s u)\<lparr>t_thread_next := None\<rparr>)"
proof (cases "t \<in> set ts")
  case False
  with find_predecessor_absent [OF assms(1)] have "terminate_unlink t s = Some s"
    by (simp add: terminate_unlink_def)
  moreover have "thread_list s = Some (h # ts)" using assms(1) by (simp add: thread_list_def walk_iff)
  ultimately show ?thesis using False by (simp add: remove1_idem)
next
  case True
  then obtain us vs where ts: "ts = us @ t # vs" "t \<notin> set us" by (meson split_list_first)
  obtain xs a where xs: "h # us = xs @ [a]" by (cases "h # us" rule: rev_cases) auto
  then have l: "linked (thread_next s) (head_thread s) (xs @ a # t # vs)"
    using assms(1) ts by (metis append.assoc append_Cons append_Nil)
  have "t \<notin> set (h # us)" using assms(2) ts(2) by simp
  then have tx: "t \<notin> set xs" using xs by simp
  let ?s = "set_thread_next a (thread_next s t) s"
  have "terminate_unlink t s = Some ?s"
    using find_predecessor_spec [OF l tx] by (simp add: terminate_unlink_def)
  moreover have "linked (thread_next ?s) (head_thread s) (xs @ a # vs)"
    by (rule tlist.unlink_after [OF l])
  moreover have "xs @ a # vs = h # remove1 t ts"
    using xs ts by (metis append.assoc append_Cons append_Nil remove1_append remove1.simps(2))
  ultimately show ?thesis
    by (simp add: thread_list_def walk_iff set_thread_next_def)
qed

section \<open>Witnesses\<close>


text \<open>
  Thread 2 waits for wakeup 7 while thread 3 is suspended, so that the idle thread runs; an interrupt
  signals the wakeup, and thread 2 runs again.
\<close>

definition lone :: kstate where
  "lone = snd (the (wakeup_wait 7 TIMEOUT_BLOCK (upd_thread 3 (\<lambda>r. r\<lparr>t_state := THREAD_SUSPENDED\<rparr>) kernel0)))"

definition idling :: kstate where "idling = the (yield lone)"

definition rung :: kstate where "rung = snd (the (wakeup_signal 7 idling))"

lemma lone_facts:
  "wakeup_wait 7 TIMEOUT_BLOCK (upd_thread 3 (\<lambda>r. r\<lparr>t_state := THREAD_SUSPENDED\<rparr>) kernel0) = Some (Blocks, lone)"
proof -
  have "(case wakeup_wait 7 TIMEOUT_BLOCK (upd_thread 3 (\<lambda>r. r\<lparr>t_state := THREAD_SUSPENDED\<rparr>) kernel0) of
    Some (Blocks, _) \<Rightarrow> True | _ \<Rightarrow> False)" by code_simp
  then show ?thesis by (auto simp: lone_def split: option.splits outcome.splits)
qed

lemma idling_facts: "current_thread idling = idle_thread idling" "\<not> stack_smashed idling"
  "linked (thread_next idling) (head_thread idling) [1, 2, 3]" "\<not> scheduler_frozen idling"
  "\<not> timed_out idling 1" "\<not> timed_out idling 2" "\<not> timed_out idling 3" "wakeups idling 7 = wakeups lone 7"
  by code_simp+

theorem wakeup_not_lost_witness:
  "(\<exists>s1 s2. wakeup_signal 7 kernel0 = Some (THREAD_OK, s1) \<and> wakeup_wait 7 5 s1 = Some (Ret THREAD_OK, s2)
    \<and> wakeups s2 7 = \<lparr>w_waiter = None, w_signalled = False\<rparr>)
   \<and> wakeup_signal 7 idling = Some (THREAD_FOUND, rung) \<and> current_thread rung = 2
   \<and> t_state (threads rung 2) = THREAD_RUNNING \<and> fst (wakeup_wait_resumed 7 rung) = THREAD_OK"
proof -
  let ?s = "upd_thread 3 (\<lambda>r. r\<lparr>t_state := THREAD_SUSPENDED\<rparr>) kernel0"
  have c: "current_thread ?s = 2" by (simp add: kernel0_def)
  from wakeup_not_lost [of ?s 7 TIMEOUT_BLOCK lone idling "[1, 2, 3]"]
  have w: "\<exists>s3. wakeup_signal 7 idling = Some (THREAD_FOUND, s3) \<and> current_thread s3 = 2
      \<and> t_state (threads s3 2) = THREAD_RUNNING
      \<and> (wakeups s4 7 = wakeups s3 7 \<longrightarrow> fst (wakeup_wait_resumed 7 s4) = THREAD_OK)" for s4
    using lone_facts idling_facts unfolding c by fastforce
  from w [of idling] have "wakeup_signal 7 idling = Some (THREAD_FOUND, rung)" by (auto simp: rung_def)
  with w [of rung] wakeup_not_lost [of kernel0 7 5] show ?thesis by (auto simp: kernel0_def)
qed

definition sleeping :: kstate where
  "sleeping = upd_thread 3 (\<lambda>r. r\<lparr>t_state := THREAD_BLOCKED, t_block_type := THREAD_BLOCK_SLEEP,
     t_timeout := 5\<rparr>) kernel0"

definition sleeper_suspended :: kstate where "sleeper_suspended = snd (the (thread_suspend (Some 3) sleeping))"
definition sleeper_resumed :: kstate where
  "sleeper_resumed = snd (the (thread_resume (Some 3) sleeper_suspended))"

theorem suspend_resume_witness: "t_state (threads sleeper_resumed 3) = THREAD_SUSPENDED"
proof -
  have b: "t_state (threads sleeping 3) = THREAD_BLOCKED" "t_block_type (threads sleeping 3) = THREAD_BLOCK_SLEEP"
    by (simp_all add: sleeping_def)
  have "thread_suspend (Some 3) sleeping = Some (Ret THREAD_OK, sleeper_suspended)"
    using b by (simp add: sleeper_suspended_def thread_suspend_def the_thread_def)
  moreover have "t_state (threads sleeper_suspended 3) = THREAD_SUSPENDED"
    "t_block_type (threads sleeper_suspended 3) = THREAD_BLOCK_SLEEP"
    using b by (simp_all add: sleeper_suspended_def thread_suspend_def the_thread_def)
  then have "thread_resume (Some 3) sleeper_suspended = Some (Ret THREAD_OK, sleeper_resumed)"
    by (simp add: sleeper_resumed_def thread_resume_def the_thread_def)
  ultimately show ?thesis using suspend_resume [OF _ refl] b by blast
qed

definition waiter_suspended :: kstate where
  "waiter_suspended = upd_thread 3 (\<lambda>r. r\<lparr>t_state := THREAD_SUSPENDED, t_block_type := THREAD_BLOCK_MUTEX,
     t_blocked_by := Some 100, t_timeout := TIMEOUT_BLOCK\<rparr>) kernel0"

theorem resume_waits_for_free_mutex_witness:
  "\<exists>s'. thread_resume (Some 3) waiter_suspended = Some (Ret THREAD_OK, s') \<and> waits_for s' 3 100
    \<and> waiters s' 100 [3] \<and> (\<forall>u. \<not> owns s' u 100) \<and> expire_thread 9 3 (s', 9) = Some (s', 9)"
proof -
  have "t_state (threads waiter_suspended 3) = THREAD_SUSPENDED"
    "t_block_type (threads waiter_suspended 3) = THREAD_BLOCK_MUTEX"
    "t_blocked_by (threads waiter_suspended 3) = Some 100" "m_count (mutexes waiter_suspended 100) = 0"
    "waiters waiter_suspended 100 []" and t: "t_timeout (threads waiter_suspended 3) = TIMEOUT_BLOCK"
    by code_simp+
  from resume_waits_for_free_mutex [OF this(1-5), of 9 9] t show ?thesis by simp
qed

theorem mutex_lock_unlock_witness:
  "\<exists>s2. mutex_unlock 100 kernel1 = Some (Ret 0, s2) \<and> threads s2 = threads kernel0"
proof -
  have "m_count (mutexes kernel0 100) = 0" "m_waiters (mutexes kernel0 100) = None"
    by (simp_all add: kernel0_def)
  with mutex_lock_unlock [OF kernel1] show ?thesis by auto
qed

text \<open>Thread 2 holds the mutexes 100 and 101, and thread 3 waits for 100.\<close>

definition two_mutexes :: kstate where
  "two_mutexes = kernel0\<lparr>mutexes :=
      (mutexes kernel0)(100 := \<lparr>m_owner = Some 2, m_waiters = Some 3, m_owned_next = Some 101, m_count = 1\<rparr>,
                        101 := \<lparr>m_owner = Some 2, m_waiters = None, m_owned_next = None, m_count = 1\<rparr>),
     threads := (threads kernel0)(2 := (threads kernel0 2)\<lparr>t_owned_mutexes := Some 100\<rparr>)\<rparr>"

lemma two_mutexes_facts: "owned_list two_mutexes 2 [100, 101]" "waiters two_mutexes 100 [3]"
  "owned_list two_mutexes 3 []" "owns two_mutexes 2 101" "m_owner (mutexes two_mutexes 100) = Some 2"
  by code_simp+

theorem terminate_follows_new_owner_witness:
  "\<exists>s'. unlock_all (t_owned_mutexes (threads two_mutexes 2)) two_mutexes = Some s'
    \<and> owns s' 3 100 \<and> owns s' 2 101"
  using terminate_follows_new_owner [OF two_mutexes_facts(1,5,2) _ two_mutexes_facts(3)]
    two_mutexes_facts(4) by simp

theorem terminate_releases_all_witness:
  "\<exists>s'. unlock_all (t_owned_mutexes (threads kernel1 2)) kernel1 = Some s' \<and> m_count (mutexes s' 100) = 0"
proof -
  have "owned_list kernel1 2 [100]" "m_owner (mutexes kernel1 100) = Some 2" "m_waiters (mutexes kernel1 100) = None"
    by code_simp+
  with terminate_releases_all [of kernel1 2 "[100]"] show ?thesis by auto
qed

lemma kernel0_threads: "linked (thread_next kernel0) (head_thread kernel0) [1, 2, 3]"
  by code_simp

theorem thread_create_links_witness:
  "\<exists>s'. thread_create_with 4 None 0 0 0x1000 256 USER_THREAD 100 True 0 0 0 0 kernel0 = Some s'
    \<and> thread_list s' = Some [1, 4, 2, 3]"
proof -
  have "(4::tid) \<notin> set [1, 2, 3]" by simp
  from thread_create_links [OF kernel0_threads this, where name = None and code = 0 and ex = 0
      and stack = 4096 and sz = 256 and type = USER_THREAD and prio = 100 and run = True]
  show ?thesis by blast
qed

theorem terminate_unlink_removes_witness:
  "\<exists>s'. terminate_unlink 2 kernel0 = Some s' \<and> thread_list s' = Some [1, 3]"
  using terminate_unlink_removes [OF kernel0_threads, of 2] by auto

end
