(* ===== verification/Tlsf.thy ===== *)
theory Tlsf
  imports Prelude
begin

text \<open>
  The memory allocator underneath malloc: emcore/libc/tlsf/tlsf.c and tlsfbits.h.

  Memory is a function from the byte address of an aligned word to the word. Addresses and sizes
  are 32-bit words, and 0 is the NULL pointer. The pool structure is a record of its own, beside the
  memory that holds the blocks and the block \<open>block_null\<close>. The first- and second-level indices are
  non-negative and are natural numbers. Assertions are checked, as in a build with
  ENABLE_ASSERT, and a failed one is \<open>None\<close>; so is an access beyond the tables of the pool.
\<close>

section \<open>Bit scanning (tlsfbits.h)\<close>

definition fls_step :: "u32 \<Rightarrow> nat \<Rightarrow> u32 \<times> int \<Rightarrow> u32 \<times> int" where
  "fls_step m k = (\<lambda>(word, bit).
     if word AND m = 0 then (push_bit k word, bit - int k) else (word, bit))"

definition tlsf_fls_generic :: "u32 \<Rightarrow> int" where
  "tlsf_fls_generic word =
     (let bit = (if word = 0 then 31 else 32)
      in snd (fls_step 0x80000000 1 (fls_step 0xc0000000 2 (fls_step 0xf0000000 4
           (fls_step 0xff000000 8 (fls_step 0xffff0000 16 (word, bit)))))))"

definition tlsf_ffs :: "u32 \<Rightarrow> int" where
  "tlsf_ffs word = tlsf_fls_generic (word AND (NOT word + 1)) - 1"

definition tlsf_fls :: "u32 \<Rightarrow> int" where
  "tlsf_fls word = tlsf_fls_generic word - 1"

section \<open>Constants and data (tlsf.c)\<close>

definition SL_INDEX_COUNT_LOG2 :: nat where "SL_INDEX_COUNT_LOG2 = 5"
definition ALIGN_SIZE_LOG2 :: nat where "ALIGN_SIZE_LOG2 = 2"
definition ALIGN_SIZE :: u32 where "ALIGN_SIZE = push_bit ALIGN_SIZE_LOG2 1"
definition FL_INDEX_MAX :: nat where "FL_INDEX_MAX = 30"
definition SL_INDEX_COUNT :: nat where "SL_INDEX_COUNT = 2 ^ SL_INDEX_COUNT_LOG2"
definition FL_INDEX_SHIFT :: nat where "FL_INDEX_SHIFT = SL_INDEX_COUNT_LOG2 + ALIGN_SIZE_LOG2"
definition FL_INDEX_COUNT :: nat where "FL_INDEX_COUNT = FL_INDEX_MAX - FL_INDEX_SHIFT + 1"
definition SMALL_BLOCK_SIZE :: u32 where "SMALL_BLOCK_SIZE = push_bit FL_INDEX_SHIFT 1"
definition block_header_free_bit :: u32 where "block_header_free_bit = 1"
definition block_header_prev_free_bit :: u32 where "block_header_prev_free_bit = 2"
definition block_header_overhead :: u32 where "block_header_overhead = 4"
definition block_start_offset :: u32 where "block_start_offset = 8"
definition sizeof_block_header :: u32 where "sizeof_block_header = 16"
definition block_size_min :: u32 where "block_size_min = sizeof_block_header - 4"
definition block_size_max :: u32 where "block_size_max = push_bit FL_INDEX_MAX 1"
definition sizeof_pool :: u32 where "sizeof_pool = 3172"

lemmas tlsf_consts = SL_INDEX_COUNT_LOG2_def ALIGN_SIZE_LOG2_def ALIGN_SIZE_def FL_INDEX_MAX_def
  SL_INDEX_COUNT_def FL_INDEX_SHIFT_def FL_INDEX_COUNT_def SMALL_BLOCK_SIZE_def
  block_header_free_bit_def block_header_prev_free_bit_def block_header_overhead_def
  block_start_offset_def sizeof_block_header_def block_size_min_def block_size_max_def sizeof_pool_def

record tlsf =
  fl_bitmap :: u32
  sl_bitmap :: "u32 list"
  blocks :: "u32 list list"
  block_null :: u32
  mem :: "u32 \<Rightarrow> u32"

definition store :: "u32 \<Rightarrow> u32 \<Rightarrow> tlsf \<Rightarrow> tlsf" where
  "store a v st = st\<lparr>mem := (mem st)(a := v)\<rparr>"

text \<open>The fields of \<open>block_header_t\<close>.\<close>

definition prev_phys_block :: "tlsf \<Rightarrow> u32 \<Rightarrow> u32" where "prev_phys_block st b = mem st b"
definition size_word :: "tlsf \<Rightarrow> u32 \<Rightarrow> u32" where "size_word st b = mem st (b + 4)"
definition next_free :: "tlsf \<Rightarrow> u32 \<Rightarrow> u32" where "next_free st b = mem st (b + 8)"
definition prev_free :: "tlsf \<Rightarrow> u32 \<Rightarrow> u32" where "prev_free st b = mem st (b + 12)"

section \<open>Block headers (tlsf.c)\<close>

definition block_size :: "u32 \<Rightarrow> tlsf \<Rightarrow> u32" where
  "block_size block st =
     size_word st block AND NOT (block_header_free_bit OR block_header_prev_free_bit)"

definition block_set_size :: "u32 \<Rightarrow> u32 \<Rightarrow> tlsf \<Rightarrow> tlsf" where
  "block_set_size block sz st = store (block + 4)
     (sz OR (size_word st block AND (block_header_free_bit OR block_header_prev_free_bit))) st"

definition block_is_last :: "u32 \<Rightarrow> tlsf \<Rightarrow> bool" where
  "block_is_last block st \<longleftrightarrow> block_size block st = 0"

definition block_is_free :: "u32 \<Rightarrow> tlsf \<Rightarrow> bool" where
  "block_is_free block st \<longleftrightarrow> size_word st block AND block_header_free_bit \<noteq> 0"

definition block_set_free :: "u32 \<Rightarrow> tlsf \<Rightarrow> tlsf" where
  "block_set_free block st = store (block + 4) (size_word st block OR block_header_free_bit) st"

definition block_set_used :: "u32 \<Rightarrow> tlsf \<Rightarrow> tlsf" where
  "block_set_used block st = store (block + 4) (size_word st block AND NOT block_header_free_bit) st"

definition block_is_prev_free :: "u32 \<Rightarrow> tlsf \<Rightarrow> bool" where
  "block_is_prev_free block st \<longleftrightarrow> size_word st block AND block_header_prev_free_bit \<noteq> 0"

definition block_set_prev_free :: "u32 \<Rightarrow> tlsf \<Rightarrow> tlsf" where
  "block_set_prev_free block st =
     store (block + 4) (size_word st block OR block_header_prev_free_bit) st"

definition block_set_prev_used :: "u32 \<Rightarrow> tlsf \<Rightarrow> tlsf" where
  "block_set_prev_used block st =
     store (block + 4) (size_word st block AND NOT block_header_prev_free_bit) st"

definition block_from_ptr :: "u32 \<Rightarrow> u32" where "block_from_ptr ptr = ptr - block_start_offset"
definition block_to_ptr :: "u32 \<Rightarrow> u32" where "block_to_ptr block = block + block_start_offset"
definition offset_to_block :: "u32 \<Rightarrow> u32 \<Rightarrow> u32" where "offset_to_block ptr sz = ptr + sz"

definition block_next :: "u32 \<Rightarrow> tlsf \<Rightarrow> u32 option" where
  "block_next block st = do {
     check (\<not> block_is_last block st);
     Some (offset_to_block (block_to_ptr block) (block_size block st - block_header_overhead)) }"

definition block_link_next :: "u32 \<Rightarrow> tlsf \<Rightarrow> (u32 \<times> tlsf) option" where
  "block_link_next block st = do {
     next \<leftarrow> block_next block st;
     Some (next, store next block st) }"

definition block_mark_as_free :: "u32 \<Rightarrow> tlsf \<Rightarrow> tlsf option" where
  "block_mark_as_free block st = do {
     (next, st) \<leftarrow> block_link_next block st;
     Some (block_set_free block (block_set_prev_free next st)) }"

definition block_mark_as_used :: "u32 \<Rightarrow> tlsf \<Rightarrow> tlsf option" where
  "block_mark_as_used block st = do {
     next \<leftarrow> block_next block st;
     Some (block_set_used block (block_set_prev_used next st)) }"

definition align_up :: "u32 \<Rightarrow> u32 \<Rightarrow> u32 option" where
  "align_up x align = do {
     check (align AND (align - 1) = 0);
     Some ((x + (align - 1)) AND NOT (align - 1)) }"

definition align_down :: "u32 \<Rightarrow> u32 \<Rightarrow> u32 option" where
  "align_down x align = do {
     check (align AND (align - 1) = 0);
     Some (x - (x AND (align - 1))) }"

definition align_ptr :: "u32 \<Rightarrow> u32 \<Rightarrow> u32 option" where
  "align_ptr ptr align = do {
     check (align AND (align - 1) = 0);
     Some ((ptr + (align - 1)) AND NOT (align - 1)) }"

definition adjust_request_size :: "u32 \<Rightarrow> u32 \<Rightarrow> u32 option" where
  "adjust_request_size sz align =
     (if sz \<noteq> 0 \<and> sz < block_size_max
      then do { aligned \<leftarrow> align_up sz align; Some (max aligned block_size_min) }
      else Some 0)"

section \<open>Size classes and free lists (tlsf.c)\<close>

definition mapping_insert :: "u32 \<Rightarrow> nat \<times> nat" where
  "mapping_insert sz =
     (if sz < SMALL_BLOCK_SIZE
      then (0, unat (sz div (SMALL_BLOCK_SIZE div of_nat SL_INDEX_COUNT)))
      else let fl = nat (tlsf_fls sz)
           in (fl - (FL_INDEX_SHIFT - 1),
               unat (drop_bit (fl - SL_INDEX_COUNT_LOG2) sz XOR push_bit SL_INDEX_COUNT_LOG2 1)))"

definition mapping_search :: "u32 \<Rightarrow> nat \<times> nat" where
  "mapping_search sz =
     (if sz \<ge> push_bit SL_INDEX_COUNT_LOG2 1
      then mapping_insert (sz + (push_bit (nat (tlsf_fls sz) - SL_INDEX_COUNT_LOG2) 1 - 1))
      else mapping_insert sz)"

text \<open>The tables of the pool; an index beyond them has no defined meaning in C.\<close>

definition get_sl_bitmap :: "nat \<Rightarrow> tlsf \<Rightarrow> u32 option" where
  "get_sl_bitmap fl st = (if fl < length (sl_bitmap st) then Some (sl_bitmap st ! fl) else None)"

definition get_block :: "nat \<Rightarrow> nat \<Rightarrow> tlsf \<Rightarrow> u32 option" where
  "get_block fl sl st = (if fl < length (blocks st) \<and> sl < length (blocks st ! fl)
     then Some (blocks st ! fl ! sl) else None)"

definition set_block :: "nat \<Rightarrow> nat \<Rightarrow> u32 \<Rightarrow> tlsf \<Rightarrow> tlsf" where
  "set_block fl sl b st = st\<lparr>blocks := (blocks st)[fl := (blocks st ! fl)[sl := b]]\<rparr>"

definition search_suitable_block :: "nat \<Rightarrow> nat \<Rightarrow> tlsf \<Rightarrow> (u32 \<times> nat \<times> nat) option" where
  "search_suitable_block fl sl st = do {
     sl_bits \<leftarrow> get_sl_bitmap fl st;
     let sl_map = sl_bits AND push_bit sl (- 1);
     let fl_map = fl_bitmap st AND push_bit (fl + 1) (- 1);
     if sl_map = 0 \<and> fl_map = 0 then Some (0, fl, sl)
     else do {
       (fl, sl_map) \<leftarrow> (if sl_map = 0
          then do { let fl = nat (tlsf_ffs fl_map); m \<leftarrow> get_sl_bitmap fl st; Some (fl, m) }
          else Some (fl, sl_map));
       check (sl_map \<noteq> 0);
       let sl = nat (tlsf_ffs sl_map);
       b \<leftarrow> get_block fl sl st;
       Some (b, fl, sl) } }"

definition remove_free_block :: "u32 \<Rightarrow> nat \<Rightarrow> nat \<Rightarrow> tlsf \<Rightarrow> tlsf option" where
  "remove_free_block block fl sl st =
     (let prev = prev_free st block; next = next_free st block in do {
        check (prev \<noteq> 0);
        check (next \<noteq> 0);
        let st = store (next + 12) prev st;
        let st = store (prev + 8) next st;
        b \<leftarrow> get_block fl sl st;
        if b = block then do {
          let st = set_block fl sl next st;
          if next = block_null st then do {
            sl_bits \<leftarrow> get_sl_bitmap fl st;
            let sl_bits = sl_bits AND NOT (push_bit sl 1);
            let st = st\<lparr>sl_bitmap := (sl_bitmap st)[fl := sl_bits]\<rparr>;
            Some (if sl_bits = 0
              then st\<lparr>fl_bitmap := fl_bitmap st AND NOT (push_bit fl 1)\<rparr> else st) }
          else Some st }
        else Some st })"

definition insert_free_block :: "u32 \<Rightarrow> nat \<Rightarrow> nat \<Rightarrow> tlsf \<Rightarrow> tlsf option" where
  "insert_free_block block fl sl st = do {
     current \<leftarrow> get_block fl sl st;
     check (current \<noteq> 0);
     check (block \<noteq> 0);
     let st = store (block + 8) current st;
     let st = store (block + 12) (block_null st) st;
     let st = store (current + 12) block st;
     let st = set_block fl sl block st;
     sl_bits \<leftarrow> get_sl_bitmap fl st;
     Some (st\<lparr>fl_bitmap := fl_bitmap st OR push_bit fl 1,
              sl_bitmap := (sl_bitmap st)[fl := sl_bits OR push_bit sl 1]\<rparr>) }"

definition block_remove :: "u32 \<Rightarrow> tlsf \<Rightarrow> tlsf option" where
  "block_remove block st =
     (let (fl, sl) = mapping_insert (block_size block st) in remove_free_block block fl sl st)"

definition block_insert :: "u32 \<Rightarrow> tlsf \<Rightarrow> tlsf option" where
  "block_insert block st =
     (let (fl, sl) = mapping_insert (block_size block st) in insert_free_block block fl sl st)"

section \<open>Splitting and merging (tlsf.c)\<close>

definition block_can_split :: "u32 \<Rightarrow> u32 \<Rightarrow> tlsf \<Rightarrow> bool" where
  "block_can_split block sz st \<longleftrightarrow> block_size block st \<ge> sizeof_block_header + sz"

definition block_split :: "u32 \<Rightarrow> u32 \<Rightarrow> tlsf \<Rightarrow> (u32 \<times> tlsf) option" where
  "block_split block sz st =
     (let remaining = offset_to_block (block_to_ptr block) (sz - block_header_overhead);
          remain_size = block_size block st - (sz + block_header_overhead) in do {
        check (block_size block st = remain_size + sz + block_header_overhead);
        let st = block_set_size remaining remain_size st;
        check (block_size remaining st \<ge> block_size_min);
        let st = block_set_size block sz st;
        st \<leftarrow> block_mark_as_free remaining st;
        Some (remaining, st) })"

definition block_absorb :: "u32 \<Rightarrow> u32 \<Rightarrow> tlsf \<Rightarrow> (u32 \<times> tlsf) option" where
  "block_absorb prev block st = do {
     check (\<not> block_is_last prev st);
     let st = store (prev + 4) (size_word st prev + (block_size block st + block_header_overhead)) st;
     (next, st) \<leftarrow> block_link_next prev st;
     Some (prev, st) }"

definition block_merge_prev :: "u32 \<Rightarrow> tlsf \<Rightarrow> (u32 \<times> tlsf) option" where
  "block_merge_prev block st =
     (if block_is_prev_free block st then
        (let prev = prev_phys_block st block in do {
           check (prev \<noteq> 0);
           check (block_is_free prev st);
           st \<leftarrow> block_remove prev st;
           block_absorb prev block st })
      else Some (block, st))"

definition block_merge_next :: "u32 \<Rightarrow> tlsf \<Rightarrow> (u32 \<times> tlsf) option" where
  "block_merge_next block st = do {
     next \<leftarrow> block_next block st;
     check (next \<noteq> 0);
     if block_is_free next st then do {
       check (\<not> block_is_last block st);
       st \<leftarrow> block_remove next st;
       block_absorb block next st }
     else Some (block, st) }"

definition block_trim_free :: "u32 \<Rightarrow> u32 \<Rightarrow> tlsf \<Rightarrow> tlsf option" where
  "block_trim_free block sz st = do {
     check (block_is_free block st);
     if block_can_split block sz st then do {
       (remaining, st) \<leftarrow> block_split block sz st;
       (next, st) \<leftarrow> block_link_next block st;
       block_insert remaining (block_set_prev_free remaining st) }
     else Some st }"

definition block_trim_used :: "u32 \<Rightarrow> u32 \<Rightarrow> tlsf \<Rightarrow> tlsf option" where
  "block_trim_used block sz st = do {
     check (\<not> block_is_free block st);
     if block_can_split block sz st then do {
       (remaining, st) \<leftarrow> block_split block sz st;
       (remaining, st) \<leftarrow> block_merge_next remaining (block_set_prev_used remaining st);
       block_insert remaining st }
     else Some st }"

definition block_trim_free_leading :: "u32 \<Rightarrow> u32 \<Rightarrow> tlsf \<Rightarrow> (u32 \<times> tlsf) option" where
  "block_trim_free_leading block sz st =
     (if block_can_split block sz st then do {
        (remaining, st) \<leftarrow> block_split block (sz - block_header_overhead) st;
        (next, st) \<leftarrow> block_link_next block (block_set_prev_free remaining st);
        st \<leftarrow> block_insert block st;
        Some (remaining, st) }
      else Some (block, st))"

definition block_locate_free :: "u32 \<Rightarrow> tlsf \<Rightarrow> (u32 \<times> tlsf) option" where
  "block_locate_free sz st =
     (if sz = 0 then Some (0, st)
      else let (fl, sl) = mapping_search sz in do {
        (block, fl, sl) \<leftarrow> search_suitable_block fl sl st;
        if block = 0 then Some (0, st)
        else do {
          check (block_size block st \<ge> sz);
          st \<leftarrow> remove_free_block block fl sl st;
          Some (block, st) } })"

definition block_prepare_used :: "u32 \<Rightarrow> u32 \<Rightarrow> tlsf \<Rightarrow> (u32 \<times> tlsf) option" where
  "block_prepare_used block sz st =
     (if block = 0 then Some (0, st)
      else do {
        st \<leftarrow> block_trim_free block sz st;
        st \<leftarrow> block_mark_as_used block st;
        Some (block_to_ptr block, st) })"

section \<open>The pool (tlsf.c)\<close>

definition pool_construct :: "tlsf \<Rightarrow> tlsf" where
  "pool_construct st =
     (store (block_null st + 8) (block_null st) (store (block_null st + 12) (block_null st) st))
       \<lparr>fl_bitmap := 0, sl_bitmap := replicate FL_INDEX_COUNT 0,
        blocks := replicate FL_INDEX_COUNT (replicate SL_INDEX_COUNT (block_null st))\<rparr>"

definition tlsf_overhead :: u32 where
  "tlsf_overhead = sizeof_pool + 2 * block_header_overhead"

definition tlsf_create :: "u32 \<Rightarrow> u32 \<Rightarrow> tlsf \<Rightarrow> (u32 \<times> tlsf) option" where
  "tlsf_create pool bytes st = do {
     pool_bytes \<leftarrow> align_down (bytes - tlsf_overhead) ALIGN_SIZE;
     if pool_bytes < block_size_min \<or> pool_bytes > block_size_max then Some (0, st)
     else do {
       let st = pool_construct st;
       let block = offset_to_block pool (sizeof_pool - block_header_overhead);
       sz \<leftarrow> align_down pool_bytes ALIGN_SIZE;
       let st = block_set_prev_used block (block_set_free block (block_set_size block sz st));
       st \<leftarrow> block_insert block st;
       (next, st) \<leftarrow> block_link_next block st;
       Some (pool, block_set_prev_free next (block_set_used next (block_set_size next 0 st))) } }"

text \<open>The walk over all blocks, with a walker that may change its own data and the pool.\<close>

partial_function (option) walk_blocks ::
  "(u32 \<Rightarrow> u32 \<Rightarrow> bool \<Rightarrow> 'u \<times> tlsf \<Rightarrow> ('u \<times> tlsf) option) \<Rightarrow> u32 \<Rightarrow> 'u \<times> tlsf \<Rightarrow> ('u \<times> tlsf) option" where
  "walk_blocks walker block ust =
     (if block \<noteq> 0 \<and> \<not> block_is_last block (snd ust) then do {
        ust' \<leftarrow> walker (block_to_ptr block) (block_size block (snd ust)) (\<not> block_is_free block (snd ust)) ust;
        next \<leftarrow> block_next block (snd ust');
        walk_blocks walker next ust' }
      else Some ust)"

declare walk_blocks.simps [code]

definition tlsf_walk_heap ::
  "u32 \<Rightarrow> (u32 \<Rightarrow> u32 \<Rightarrow> bool \<Rightarrow> 'u \<times> tlsf \<Rightarrow> ('u \<times> tlsf) option) \<Rightarrow> 'u \<times> tlsf \<Rightarrow> ('u \<times> tlsf) option" where
  "tlsf_walk_heap pool walker ust =
     walk_blocks walker (offset_to_block pool (sizeof_pool - block_header_overhead)) ust"

definition tlsf_block_size :: "u32 \<Rightarrow> tlsf \<Rightarrow> u32" where
  "tlsf_block_size ptr st = (if ptr \<noteq> 0 then block_size (block_from_ptr ptr) st else 0)"

section \<open>Allocation (tlsf.c)\<close>

definition tlsf_malloc :: "u32 \<Rightarrow> tlsf \<Rightarrow> (u32 \<times> tlsf) option" where
  "tlsf_malloc sz st = do {
     adjust \<leftarrow> adjust_request_size sz ALIGN_SIZE;
     (block, st) \<leftarrow> block_locate_free adjust st;
     block_prepare_used block adjust st }"

definition tlsf_memalign :: "u32 \<Rightarrow> u32 \<Rightarrow> tlsf \<Rightarrow> (u32 \<times> tlsf) option" where
  "tlsf_memalign align sz st = do {
     adjust \<leftarrow> adjust_request_size sz ALIGN_SIZE;
     let gap_minimum = sizeof_block_header;
     size_with_gap \<leftarrow> adjust_request_size (adjust + align + gap_minimum) align;
     let aligned_size = (if align \<le> ALIGN_SIZE then adjust else size_with_gap);
     (block, st) \<leftarrow> block_locate_free aligned_size st;
     (block, st) \<leftarrow> (if block = 0 then Some (block, st)
       else do {
         let ptr = block_to_ptr block;
         aligned \<leftarrow> align_ptr ptr align;
         let gap = aligned - ptr;
         gap \<leftarrow> (if gap \<noteq> 0 \<and> gap <s gap_minimum
           then do {
             let gap_remain = gap_minimum - gap;
             let offset = (if align <s gap_remain then gap_remain else align);
             aligned \<leftarrow> align_ptr (aligned + offset) align;
             Some (aligned - ptr) }
           else Some gap);
         if gap \<noteq> 0 then do {
           check (gap_minimum \<le>s gap);
           block_trim_free_leading block gap st }
         else Some (block, st) });
     block_prepare_used block adjust st }"

definition tlsf_free :: "u32 \<Rightarrow> tlsf \<Rightarrow> tlsf option" where
  "tlsf_free ptr st =
     (if ptr = 0 then Some st
      else let block = block_from_ptr ptr in do {
        st \<leftarrow> block_mark_as_free block st;
        (block, st) \<leftarrow> block_merge_prev block st;
        (block, st) \<leftarrow> block_merge_next block st;
        block_insert block st })"

text \<open>
  \<open>memcpy\<close> from one aligned word address to another one, \<open>n\<close> bytes: whole words, and of the
  last one the bytes that are left (the lower ones, the processor is little-endian).
\<close>

definition memcpy_words :: "u32 \<Rightarrow> u32 \<Rightarrow> u32 \<Rightarrow> tlsf \<Rightarrow> tlsf" where
  "memcpy_words dst src n st =
     (let k = unat n div 4; r = 8 * (unat n mod 4);
          st = fold (\<lambda>i st. store (dst + 4 * of_nat i) (mem st (src + 4 * of_nat i)) st) [0..<k] st;
          d = dst + 4 * of_nat k; s = src + 4 * of_nat k
      in if r = 0 then st
         else store d ((mem st d AND NOT (mask r)) OR (mem st s AND mask r)) st)"

definition tlsf_realign :: "u32 \<Rightarrow> u32 \<Rightarrow> u32 \<Rightarrow> tlsf \<Rightarrow> (u32 \<times> tlsf) option" where
  "tlsf_realign ptr align sz st =
     (if ptr \<noteq> 0 \<and> sz = 0 then do { st \<leftarrow> tlsf_free ptr st; Some (0, st) }
      else if ptr = 0 then tlsf_malloc sz st
      else let block = block_from_ptr ptr in do {
        next \<leftarrow> block_next block st;
        let cursize = block_size block st;
        let combined = cursize + block_size next st + block_header_overhead;
        adjust \<leftarrow> adjust_request_size sz ALIGN_SIZE;
        if adjust > cursize \<and> (\<not> block_is_free next st \<or> adjust > combined) then do {
          (p, st) \<leftarrow> (if align > 4 then tlsf_memalign align sz st else tlsf_malloc sz st);
          if p \<noteq> 0 then do {
            st \<leftarrow> tlsf_free ptr (memcpy_words p ptr (min cursize sz) st);
            Some (p, st) }
          else Some (0, st) }
        else do {
          st \<leftarrow> (if adjust > cursize
             then do { (b, st) \<leftarrow> block_merge_next block st; block_mark_as_used block st }
             else Some st);
          st \<leftarrow> block_trim_used block adjust st;
          Some (ptr, st) } })"

definition tlsf_realloc :: "u32 \<Rightarrow> u32 \<Rightarrow> tlsf \<Rightarrow> (u32 \<times> tlsf) option" where
  "tlsf_realloc ptr sz st = tlsf_realign ptr 4 sz st"

end
