(* ===== verification/TlsfMap.thy ===== *)
theory TlsfMap
  imports Tlsf
begin

text \<open>
  Size classes: what the bit scans compute, that \<open>mapping_insert\<close> gives every block size its class,
  in bounds and monotonically, and that every block of a class at or above the one of
  \<open>mapping_search\<close> is large enough.
\<close>

section \<open>The highest bit\<close>

lemma and_top_mask: "w AND push_bit n (mask (LENGTH('a) - n)) = 0 \<longleftrightarrow> unat w < 2 ^ n"
  if "n < LENGTH('a)" for w :: "'a::len word"
proof -
  have "w AND push_bit n (mask (LENGTH('a) - n)) = 0 \<longleftrightarrow> take_bit n w = w"
    using that by (auto simp: bit_eq_iff bit_simps not_less)
  also have "\<dots> \<longleftrightarrow> unat w < 2 ^ n"
    by (metis unsigned_take_bit_eq take_bit_nat_eq_self_iff word_unat_eq_iff)
  finally show ?thesis .
qed

lemma top_masks: "w AND 0xffff0000 = 0 \<longleftrightarrow> unat w < 2 ^ 16" "w AND 0xff000000 = 0 \<longleftrightarrow> unat w < 2 ^ 24"
  "w AND 0xf0000000 = 0 \<longleftrightarrow> unat w < 2 ^ 28" "w AND 0xc0000000 = 0 \<longleftrightarrow> unat w < 2 ^ 30"
  "w AND 0x80000000 = 0 \<longleftrightarrow> unat w < 2 ^ 31" for w :: u32
  using and_top_mask [of 16 w] and_top_mask [of 24 w] and_top_mask [of 28 w]
    and_top_mask [of 30 w] and_top_mask [of 31 w]
  by (simp_all add: mask_eq_decr_exp)

text \<open>The state of the scan: the word is the original one, shifted up as far as the bit went down.\<close>

definition scan :: "u32 \<Rightarrow> nat \<Rightarrow> u32 \<times> int \<Rightarrow> bool" where
  "scan w k p \<longleftrightarrow> (\<exists>j. snd p = 32 - int j \<and> j < 32 \<and> unat (fst p) = unat w * 2 ^ j
     \<and> 2 ^ (32 - k) \<le> unat (fst p))"

lemma unat_push_bit:
  fixes x :: u32
  assumes "unat x * 2 ^ k < 2 ^ 32"
  shows "unat (push_bit k x) = unat x * 2 ^ k"
proof -
  have "unat (push_bit k x) = take_bit 32 (push_bit k (unat x))" by (simp add: unsigned_push_bit_eq)
  also have "\<dots> = unat x * 2 ^ k" using assms by (simp add: push_bit_eq_mult take_bit_nat_eq_self)
  finally show ?thesis .
qed

lemma scan_step:
  assumes "scan w (2 * k) p" and "0 < k" "k \<le> 16" and m: "\<And>x. x AND m = 0 \<longleftrightarrow> unat x < 2 ^ (32 - k)"
  shows "scan w k (fls_step m k p)"
proof -
  obtain x b where p: "p = (x, b)" by fastforce
  from assms(1) p obtain j where j: "b = 32 - int j" "j < 32" "unat x = unat w * 2 ^ j" "2 ^ (32 - 2 * k) \<le> unat x"
    by (auto simp: scan_def)
  show ?thesis
  proof (cases "unat x < 2 ^ (32 - k)")
    case False
    with p j m show ?thesis by (auto simp: scan_def fls_step_def)
  next
    case True
    have e: "(2::nat) ^ (32 - k) * 2 ^ k = 2 ^ 32" "(2::nat) ^ (32 - 2 * k) * 2 ^ k = 2 ^ (32 - k)"
      using assms(3) by (simp_all flip: power_add)
    from True have lt: "unat x * 2 ^ k < 2 ^ 32" using e(1) mult_strict_right_mono [OF True, of "2 ^ k"] by simp
    then have u: "unat (push_bit k x) = unat x * 2 ^ k" by (rule unat_push_bit)
    have "2 ^ (32 - k) \<le> unat x * 2 ^ k" using j(4) e(2) by (metis mult_le_mono1)
    moreover have "j + k < 32"
    proof (rule ccontr)
      assume "\<not> j + k < 32"
      then have "(2::nat) ^ 32 \<le> 2 ^ (j + k)" by (intro power_increasing) auto
      moreover have "1 \<le> unat w" using j(3,4) by (cases "unat w = 0") auto
      then have "2 ^ (j + k) \<le> unat w * 2 ^ (j + k)" by simp
      moreover have "unat w * 2 ^ (j + k) = unat x * 2 ^ k" using j(3) by (simp add: power_add)
      ultimately show False using lt by linarith
    qed
    ultimately have "scan w k (push_bit k x, b - int k)"
      using u j by (auto simp: scan_def power_add intro!: exI [of _ "j + k"])
    with True m p show ?thesis by (simp add: fls_step_def)
  qed
qed

lemma tlsf_fls_bounds:
  assumes "w \<noteq> 0"
  obtains n where "tlsf_fls w = int n" "n < 32" "2 ^ n \<le> unat w" "unat w < 2 ^ (n + 1)"
proof -
  from assms have "1 \<le> unat w" by (simp add: unat_gt_0 Suc_le_eq)
  then have "scan w 32 (w, 32)" by (auto simp: scan_def intro!: exI [of _ 0])
  then have "scan w 16 (fls_step 0xffff0000 16 (w, 32))"
    by (intro scan_step) (simp_all only: top_masks, simp_all)
  then have "scan w 8 (fls_step 0xff000000 8 (fls_step 0xffff0000 16 (w, 32)))"
    by (intro scan_step) (simp_all only: top_masks, simp_all)
  then have "scan w 4 (fls_step 0xf0000000 4 (fls_step 0xff000000 8 (fls_step 0xffff0000 16 (w, 32))))"
    by (intro scan_step) (simp_all only: top_masks, simp_all)
  then have "scan w 2 (fls_step 0xc0000000 2 (fls_step 0xf0000000 4
      (fls_step 0xff000000 8 (fls_step 0xffff0000 16 (w, 32)))))"
    by (intro scan_step) (simp_all only: top_masks, simp_all)
  then have "scan w 1 (fls_step 0x80000000 1 (fls_step 0xc0000000 2 (fls_step 0xf0000000 4
      (fls_step 0xff000000 8 (fls_step 0xffff0000 16 (w, 32))))))" (is "scan w 1 ?p")
    by (intro scan_step) (simp_all only: top_masks, simp_all)
  then obtain j where j: "snd ?p = 32 - int j" "j < 32" "unat (fst ?p) = unat w * 2 ^ j" "2 ^ 31 \<le> unat (fst ?p)"
    by (auto simp: scan_def)
  have "unat (fst ?p) < 2 ^ LENGTH(32)" by (rule unsigned_less)
  with j(3) have hi: "unat w * 2 ^ j < 2 ^ (32 - j) * 2 ^ j" using j(2) by (simp flip: power_add)
  have "(2::nat) ^ (31 - j) * 2 ^ j \<le> unat w * 2 ^ j" using j by (simp flip: power_add)
  then have "2 ^ (31 - j) \<le> unat w" by simp
  moreover have "32 - j = Suc (31 - j)" using j(2) by arith
  with hi have "unat w < 2 ^ (31 - j + 1)" by simp
  moreover have "tlsf_fls w = int (31 - j)"
    using assms j by (simp add: tlsf_fls_def tlsf_fls_generic_def)
  ultimately show ?thesis by (intro that) auto
qed

lemma tlsf_fls_unique:
  assumes "2 ^ n \<le> unat w" "unat w < 2 ^ (n + 1)"
  shows "tlsf_fls w = int n"
proof -
  have "w \<noteq> 0" using assms(1) by (intro notI) simp
  then obtain m where m: "tlsf_fls w = int m" "2 ^ m \<le> unat w" "unat w < 2 ^ (m + 1)"
    by (rule tlsf_fls_bounds)
  then have "(2::nat) ^ m < 2 ^ (n + 1)" "(2::nat) ^ n < 2 ^ (m + 1)" using assms by linarith+
  then have "m < n + 1" "n < m + 1" by (simp_all only: power_strict_increasing_iff one_less_numeral_iff semiring_norm)
  with m(1) show ?thesis by simp
qed

section \<open>The lowest bit\<close>

lemma odd_and_minus:
  fixes u :: u32
  assumes o: "odd u"
  shows "u AND - u = 1"
proof (rule bit_word_eqI)
  fix n assume n: "n < LENGTH(32)"
  have "- u = NOT (u - 1)" by (simp add: minus_eq_not_minus_1)
  moreover have "bit (u - 1) n = (bit u n \<and> n \<noteq> 0)"
    using o odd_bit_iff_bit_pred [OF o, of n] by (cases "n = 0") (simp_all add: bit_0)
  ultimately show "bit (u AND - u) n = bit 1 n"
    using o n by (auto simp: bit_simps bit_1_iff bit_0)
qed

lemma lowest_bit:
  fixes w :: u32
  assumes "w \<noteq> 0"
  shows "\<exists>j < 32. bit w j \<and> (\<forall>i < j. \<not> bit w i) \<and> tlsf_ffs w = int j"
proof -
  from assms obtain k where "bit w k" by (auto simp: bit_eq_iff)
  define j where "j = (LEAST k. bit w k)"
  have b: "bit w j" "\<And>i. i < j \<Longrightarrow> \<not> bit w i"
    unfolding j_def using \<open>bit w k\<close> by (auto intro: LeastI dest: not_less_Least)
  then have j: "j < 32" using bit_imp_le_length by fastforce
  have w: "w = push_bit j (drop_bit j w)"
  proof (rule bit_word_eqI)
    fix n assume "n < LENGTH(32)"
    then show "bit w n = bit (push_bit j (drop_bit j w)) n"
      using b(2) [of n] by (cases "n < j") (auto simp: bit_simps)
  qed
  have o: "odd (drop_bit j w)" using b(1) by (simp add: bit_iff_odd drop_bit_eq_div)
  have "w AND (NOT w + 1) = w AND - w" by (simp add: minus_eq_not_plus_1)
  also have "\<dots> = push_bit j (drop_bit j w) AND push_bit j (- drop_bit j w)"
    by (subst (1 2) w) (simp add: push_bit_eq_mult)
  also have "\<dots> = push_bit j 1" using odd_and_minus [OF o] by (simp flip: push_bit_and)
  finally have e: "w AND (NOT w + 1) = push_bit j 1" .
  have "(2::nat) ^ j < 2 ^ 32" using j by (intro power_strict_increasing) auto
  then have "unat (push_bit j (1::u32)) = 2 ^ j" using unat_push_bit [of 1 j] by simp
  then have "tlsf_fls (push_bit j 1) = int j" by (intro tlsf_fls_unique) simp_all
  with e have "tlsf_ffs w = int j" by (simp add: tlsf_ffs_def tlsf_fls_def)
  with b j show ?thesis by blast
qed

section \<open>Size classes\<close>

text \<open>The sizes of a class: the least one, and how many there are.\<close>

definition class_min :: "nat \<times> nat \<Rightarrow> nat" where
  "class_min c = (case c of (f, l) \<Rightarrow> if f = 0 then 4 * l else (32 + l) * 2 ^ (f + 1))"

definition class_width :: "nat \<times> nat \<Rightarrow> nat" where
  "class_width c = (case c of (f, l) \<Rightarrow> if f = 0 then 4 else 2 ^ (f + 1))"

lemma mapping_insert_small:
  assumes "unat s < 128"
  shows "mapping_insert s = (0, unat s div 4)"
  using assms by (simp add: mapping_insert_def tlsf_consts word_less_nat_alt unat_div)

lemma mapping_insert_large:
  assumes "2 ^ n \<le> unat s" "unat s < 2 ^ (n + 1)" "7 \<le> n"
  shows "mapping_insert s = (n - 6, unat s div 2 ^ (n - 5) - 32)"
proof -
  have f: "tlsf_fls s = int n" using assms by (intro tlsf_fls_unique)
  have "(2::nat) ^ 7 \<le> 2 ^ n" using assms(3) by (intro power_increasing) auto
  with assms(1) have "128 \<le> unat s" by simp
  then have nl: "\<not> s < SMALL_BLOCK_SIZE" by (simp add: tlsf_consts word_less_nat_alt)
  have "unat s < 2 ^ LENGTH(32)" by (rule unsigned_less)
  then have "unat (drop_bit (n - 5) s) = drop_bit (n - 5) (unat s)"
    by (simp add: unsigned_drop_bit_eq take_bit_nat_eq_self)
  also have "\<dots> = unat s div 2 ^ (n - 5)" by (simp add: drop_bit_eq_div)
  finally have d: "unat (drop_bit (n - 5) s) = unat s div 2 ^ (n - 5)" .
  have p: "(2::nat) ^ n = 32 * 2 ^ (n - 5)" "(2::nat) ^ (n + 1) = 64 * 2 ^ (n - 5)"
  proof -
    obtain k where "n = k + 7" using assms(3) by (metis add.commute le_Suc_ex)
    then show "(2::nat) ^ n = 32 * 2 ^ (n - 5)" "(2::nat) ^ (n + 1) = 64 * 2 ^ (n - 5)"
      by (simp_all add: power_add)
  qed
  have r: "32 \<le> unat s div 2 ^ (n - 5)" "unat s div 2 ^ (n - 5) < 64"
    using assms(1,2) p by (simp_all add: less_eq_div_iff_mult_less_eq div_less_iff_less_mult)
  let ?x = "drop_bit (n - 5) s"
  have "unat (?x XOR 32) = unat ?x - 32"
  proof -
    have x: "32 \<le> ?x" "?x < 64" using r d by (simp_all add: word_le_nat_alt word_less_nat_alt)
    have "\<forall>y \<in> set [32..<64]. (of_nat y :: u32) XOR 32 = of_nat y - 32" by code_simp
    moreover have "unat ?x \<in> set [32..<64]"
      unfolding set_upt using r d by (simp only: atLeastLessThan_iff)
    ultimately have "of_nat (unat ?x) XOR 32 = (of_nat (unat ?x) :: u32) - 32" by (rule bspec)
    then have "?x XOR 32 = ?x - 32" by simp
    then show ?thesis using x by (simp add: unat_sub)
  qed
  with nl f d show ?thesis by (simp add: mapping_insert_def Let_def tlsf_consts)
qed

lemma nat_log2:
  assumes "128 \<le> (x::nat)"
  obtains n where "7 \<le> n" "2 ^ n \<le> x" "x < 2 ^ (n + 1)"
proof -
  from assms obtain n where n: "2 ^ n \<le> x" "x < 2 ^ (n + 1)" using ex_power_ivl1 [of 2 x] by auto
  have "7 \<le> n"
  proof (rule ccontr)
    assume "\<not> 7 \<le> n"
    then have "(2::nat) ^ (n + 1) \<le> 2 ^ 7" by (intro power_increasing) auto
    with n(2) assms show False by simp
  qed
  with n show ?thesis by (intro that)
qed

text \<open>Each size lies in its class; below \<open>2 ^ 30\<close> the class is one of the tables'.\<close>

lemma mapping_insert_class:
  shows "class_min (mapping_insert s) \<le> unat s"
    and "unat s < class_min (mapping_insert s) + class_width (mapping_insert s)"
    and "snd (mapping_insert s) < 32"
    and "fst (mapping_insert s) < 24 \<longleftrightarrow> unat s < 2 ^ 30"
proof -
  have "class_min (mapping_insert s) \<le> unat s
    \<and> unat s < class_min (mapping_insert s) + class_width (mapping_insert s)
    \<and> snd (mapping_insert s) < 32 \<and> (fst (mapping_insert s) < 24 \<longleftrightarrow> unat s < 2 ^ 30)"
  proof (cases "unat s < 128")
    case True
    then have "unat s div 4 < 32" "4 * (unat s div 4) \<le> unat s" "unat s < 4 * (unat s div 4) + 4"
      by presburger+
    with True show ?thesis by (simp add: mapping_insert_small class_min_def class_width_def)
  next
    case False
    then obtain n where n: "7 \<le> n" "2 ^ n \<le> unat s" "unat s < 2 ^ (n + 1)"
      by (meson nat_log2 not_less)
    obtain k where k: "n = k + 7" using n(1) by (metis add.commute le_Suc_ex)
    have p: "(2::nat) ^ n = 32 * 2 ^ (n - 5)" "(2::nat) ^ (n + 1) = 64 * 2 ^ (n - 5)"
      by (simp_all add: k power_add)
    let ?q = "unat s div 2 ^ (n - 5)"
    have r: "32 \<le> ?q" "?q < 64"
      using n p by (simp_all add: less_eq_div_iff_mult_less_eq div_less_iff_less_mult)
    have e: "n - 6 + 1 = n - 5" "n - 6 \<noteq> 0" using n(1) by arith+
    have m: "mapping_insert s = (n - 6, ?q - 32)" using n by (intro mapping_insert_large)
    have "?q * 2 ^ (n - 5) \<le> unat s" by simp
    moreover have "unat s < ?q * 2 ^ (n - 5) + 2 ^ (n - 5)"
      using dividend_less_div_times [of "2 ^ (n - 5)" "unat s"] by simp
    moreover have "n - 6 < 24 \<longleftrightarrow> unat s < 2 ^ 30"
    proof
      assume "n - 6 < 24"
      then have "(2::nat) ^ (n + 1) \<le> 2 ^ 30" by (intro power_increasing) auto
      with n(3) show "unat s < 2 ^ 30" by linarith
    next
      assume "unat s < 2 ^ 30"
      with n(2) have "(2::nat) ^ n < 2 ^ 30" by linarith
      then have "n < 30" by (simp only: power_strict_increasing_iff one_less_numeral_iff semiring_norm)
      then show "n - 6 < 24" by arith
    qed
    ultimately show ?thesis using m r e by (simp add: class_min_def class_width_def)
  qed
  then show "class_min (mapping_insert s) \<le> unat s"
    and "unat s < class_min (mapping_insert s) + class_width (mapping_insert s)"
    and "snd (mapping_insert s) < 32" and "fst (mapping_insert s) < 24 \<longleftrightarrow> unat s < 2 ^ 30"
    by blast+
qed

text \<open>The classes in their order: by first-level index, then by second-level index.\<close>

definition class_le :: "nat \<times> nat \<Rightarrow> nat \<times> nat \<Rightarrow> bool" where
  "class_le c d \<longleftrightarrow> fst c < fst d \<or> fst c = fst d \<and> snd c \<le> snd d"

lemma class_min_mono:
  assumes "class_le c d" and "snd c < 32"
  shows "class_min c \<le> class_min d"
proof -
  obtain f l f' l' where cd: "c = (f, l)" "d = (f', l')" by fastforce
  show ?thesis
  proof (cases "f = f'")
    case True
    with assms cd show ?thesis by (auto simp: class_min_def class_le_def)
  next
    case False
    with assms cd have lt: "f < f'" "l < 32" by (auto simp: class_le_def)
    then have "(64::nat) * 2 ^ (f + 1) \<le> 64 * 2 ^ f'"
      by (intro mult_le_mono order_refl power_increasing) auto
    also have "\<dots> = 32 * 2 ^ (f' + 1)" by simp
    also have "\<dots> \<le> class_min d" using lt cd by (simp add: class_min_def)
    finally have "64 * 2 ^ (f + 1) \<le> class_min d" .
    moreover have "class_min c \<le> 64 * 2 ^ (f + 1)" using lt cd by (auto simp: class_min_def)
    ultimately show ?thesis by linarith
  qed
qed

text \<open>
  The class \<open>mapping_search\<close> starts at holds no block that is too small. Its index is beyond
  the tables for requests of more than \<open>2 ^ 30 - 2 ^ 24\<close> bytes.
\<close>

lemma mapping_search_round:
  assumes "2 ^ n \<le> unat s" "unat s < 2 ^ (n + 1)" "5 \<le> n" "unat s \<le> 2 ^ 30"
  shows "mapping_search s = mapping_insert (s + (push_bit (n - 5) 1 - 1))"
    and "unat (s + (push_bit (n - 5) 1 - 1)) = unat s + (2 ^ (n - 5) - 1)"
proof -
  have "(2::nat) ^ 5 \<le> 2 ^ n" using assms(3) by (intro power_increasing) auto
  with assms(1) have "32 \<le> unat s" by simp
  then have "32 \<le> s" by (simp add: word_le_nat_alt)
  with tlsf_fls_unique [OF assms(1,2)]
  show "mapping_search s = mapping_insert (s + (push_bit (n - 5) 1 - 1))"
    by (simp add: mapping_search_def tlsf_consts)
  have "(2::nat) ^ n \<le> 2 ^ 30" using assms(1,4) by linarith
  then have "n \<le> 30" by (simp only: power_increasing_iff one_less_numeral_iff semiring_norm)
  then have le: "(2::nat) ^ (n - 5) \<le> 2 ^ 25" by (intro power_increasing) auto
  then have p: "unat (push_bit (n - 5) (1::u32)) = 2 ^ (n - 5)" using unat_push_bit [of 1 "n - 5"] by simp
  then have "1 \<le> push_bit (n - 5) (1::u32)" by (simp add: word_le_nat_alt)
  then have "unat (push_bit (n - 5) 1 - 1 :: u32) = 2 ^ (n - 5) - 1" using p by (simp add: unat_sub)
  moreover have "unat s + (2 ^ (n - 5) - 1) < 2 ^ 32" using assms(4) le by simp
  ultimately show "unat (s + (push_bit (n - 5) 1 - 1)) = unat s + (2 ^ (n - 5) - 1)"
    by (simp add: unat_word_ariths)
qed

lemma mapping_search_class:
  assumes "4 dvd unat s" and "unat s \<le> 2 ^ 30"
  shows "unat s \<le> class_min (mapping_search s) \<and> snd (mapping_search s) < 32
    \<and> (fst (mapping_search s) < 24 \<longleftrightarrow> unat s \<le> 2 ^ 30 - 2 ^ 24)"
proof (cases "unat s < 32")
  case True
  then have "mapping_search s = (0, unat s div 4)"
    by (simp add: mapping_search_def tlsf_consts word_le_nat_alt mapping_insert_small)
  with True assms(1) show ?thesis by (simp add: class_min_def div_less_iff_less_mult)
next
  case False
  then obtain n where n: "2 ^ n \<le> unat s" "unat s < 2 ^ (n + 1)"
    using ex_power_ivl1 [of 2 "unat s"] by auto
  have n5: "5 \<le> n"
  proof (rule ccontr)
    assume "\<not> 5 \<le> n"
    then have "(2::nat) ^ (n + 1) \<le> 2 ^ 5" by (intro power_increasing) auto
    with n(2) False show False by simp
  qed
  note r = mapping_search_round [OF n n5 assms(2)]
  let ?s = "s + (push_bit (n - 5) 1 - 1)"
  note c = mapping_insert_class [of ?s]
  have "unat s \<le> class_min (mapping_insert ?s)"
  proof (cases "unat ?s < 128")
    case True
    then have "unat s + (2 ^ (n - 5) - 1) < 128" using r(2) by simp
    with n(1) have "(2::nat) ^ n < 128" by linarith
    then have "(2::nat) ^ n < 2 ^ 7" by simp
    then have "n < 7" by (simp only: power_strict_increasing_iff one_less_numeral_iff semiring_norm)
    with n5 have "n = 5 \<or> n = 6" by arith
    with True r(2) assms(1) show ?thesis
      by (auto simp: mapping_insert_small class_min_def elim!: dvdE)
  next
    case big: False
    show ?thesis
    proof (cases "unat ?s < 2 ^ (n + 1)")
      case True
      then have "(2::nat) ^ 7 < 2 ^ (n + 1)" using big by simp
      then have "7 < n + 1" by (simp only: power_strict_increasing_iff one_less_numeral_iff semiring_norm)
      then have n7: "7 \<le> n" by simp
      have "2 ^ n \<le> unat ?s" using r(2) n(1) by linarith
      then have "fst (mapping_insert ?s) = n - 6"
        by (subst mapping_insert_large [OF _ True n7]) simp_all
      then have "class_width (mapping_insert ?s) = 2 ^ (n - 5)"
        using n7 by (auto simp: class_width_def Suc_diff_Suc simp flip: power_Suc split: prod.splits)
      with c(2) r(2) show ?thesis by linarith
    next
      case over: False
      have n6: "6 \<le> n"
      proof (rule ccontr)
        assume "\<not> 6 \<le> n"
        with n5 have "n = 5" by simp
        with r(2) n(2) big show False by simp
      qed
      then obtain k where k: "n = k + 6" by (metis add.commute le_Suc_ex)
      have "unat ?s < 2 ^ (n + 1 + 1)" using r(2) n(2) by (simp add: k power_add)
      then have m: "mapping_insert ?s = (n + 1 - 6, unat ?s div 2 ^ (n + 1 - 5) - 32)"
        using over n6 by (intro mapping_insert_large) auto
      have "32 \<le> unat ?s div 2 ^ (n + 1 - 5)"
        using over by (simp add: less_eq_div_iff_mult_less_eq k power_add)
      then have "class_min (mapping_insert ?s) = unat ?s div 2 ^ (n + 1 - 5) * 2 ^ (n + 1 - 5)"
        unfolding m by (simp add: class_min_def k)
      moreover have "32 * 2 ^ (n + 1 - 5) \<le> unat ?s div 2 ^ (n + 1 - 5) * 2 ^ (n + 1 - 5)"
        using \<open>32 \<le> _\<close> by (rule mult_le_mono1)
      moreover have "unat s < 32 * 2 ^ (n + 1 - 5)" using n(2) by (simp add: k power_add)
      ultimately show ?thesis by linarith
    qed
  qed
  moreover have "fst (mapping_insert ?s) < 24 \<longleftrightarrow> unat s \<le> 2 ^ 30 - 2 ^ 24"
  proof -
    have "(2::nat) ^ n \<le> 2 ^ 30" using n(1) assms(2) by linarith
    then have "n \<le> 30" by (simp only: power_increasing_iff one_less_numeral_iff semiring_norm)
    then consider "n \<le> 28" | "n = 29" | "n = 30" by linarith
    then show ?thesis
    proof cases
      case 1
      then have "(2::nat) ^ (n + 1) \<le> 2 ^ 29" "(2::nat) ^ (n - 5) \<le> 2 ^ 23"
        by (intro power_increasing; simp)+
      with n(2) r(2) c(4) show ?thesis by simp
    next
      case 2
      with n r(2) c(4) have "fst (mapping_insert ?s) < 24 \<longleftrightarrow> unat s < 1056964609" by simp
      moreover have "unat s < 1056964609 \<longleftrightarrow> unat s \<le> 2 ^ 30 - 2 ^ 24" by simp linarith
      ultimately show ?thesis by blast
    next
      case 3
      with n r(2) c(4) show ?thesis by simp
    qed
  qed
  ultimately show ?thesis using r(1) c(3) by simp
qed

end
