(* ===== verification/TlsfHeap.thy ===== *)
theory TlsfHeap
  imports TlsfMap
begin

text \<open>
  The heap as a list of blocks: the layout of the pool's memory, the free lists, and what
  each step of the allocator does to them.

  A block is its address, its size and whether it is free, as natural numbers. Blocks tile the memory
  of the pool; the last one is the sentinel of size 0.
\<close>

type_synonym blk = "nat \<times> nat \<times> bool"

section \<open>Header words\<close>

definition hdr :: "nat \<Rightarrow> bool \<Rightarrow> bool \<Rightarrow> u32" where
  "hdr s f pf = of_nat (s + (if f then 1 else 0) + (if pf then 2 else 0))"

lemma and_not_eq: "x AND y = 0 \<Longrightarrow> x AND NOT y = x" for x y :: "'a::len word"
  by (auto simp: bit_eq_iff bit_simps)

lemma aligned_and:
  assumes "4 dvd s"
  shows "(of_nat s :: u32) AND 1 = 0" "(of_nat s :: u32) AND 2 = 0" "(of_nat s :: u32) AND 3 = 0"
proof -
  have "4 dvd s mod 2 ^ 32" using assms by (simp add: dvd_mod)
  then have "2 ^ 2 dvd unat (of_nat s :: u32)" by (simp add: unat_of_nat)
  then have m: "(of_nat s :: u32) AND mask 2 = 0" by (simp only: and_mask_dvd_nat)
  then show 3: "(of_nat s :: u32) AND 3 = 0" by (simp add: mask_eq_decr_exp)
  have "(of_nat s :: u32) AND 1 = (of_nat s AND 3) AND 1" by (simp add: and.assoc)
  with 3 show "(of_nat s :: u32) AND 1 = 0" by simp
  have "(of_nat s :: u32) AND 2 = (of_nat s AND 3) AND 2" by (simp add: and.assoc)
  with 3 show "(of_nat s :: u32) AND 2 = 0" by simp
qed

lemma hdr_or:
  assumes "4 dvd s"
  shows "hdr s f pf = of_nat s OR ((if f then 1 else 0) OR (if pf then 2 else 0))"
proof -
  have "(of_nat s :: u32) AND ((if f then 1 else 0) OR (if pf then 2 else 0)) = 0"
    using aligned_and [OF assms] by (auto simp: bit.conj_disj_distrib)
  then have "of_nat s OR ((if f then 1 else 0) OR (if pf then 2 else 0))
      = of_nat s + ((if f then 1 else 0) OR (if pf then 2 else (0::u32)))"
    by (simp add: disjunctive_add_eq_or)
  also have "\<dots> = hdr s f pf" by (simp add: hdr_def)
  finally show ?thesis by simp
qed

lemma or_and: "(x OR y) AND z = (x AND z) OR (y AND z)" for x y z :: "'a::len word"
  by (auto simp: bit_eq_iff bit_simps)

lemma hdr_simps:
  assumes "4 dvd s"
  shows "hdr s f pf AND NOT (1 OR 2) = of_nat s"
    and "hdr s f pf AND 1 \<noteq> 0 \<longleftrightarrow> f" and "hdr s f pf AND 2 \<noteq> 0 \<longleftrightarrow> pf"
    and "hdr s f pf OR 1 = hdr s True pf" and "hdr s f pf AND NOT 1 = hdr s False pf"
    and "hdr s f pf OR 2 = hdr s f True" and "hdr s f pf AND NOT 2 = hdr s f False"
    and "hdr s f pf + of_nat k = hdr (s + k) f pf"
proof -
  let ?P = "of_nat s :: u32"
  note a = aligned_and [OF assms]
  have n: "?P AND - 2 = ?P" "?P AND - 3 = ?P" "?P AND - 4 = ?P"
    using and_not_eq [OF a(1)] and_not_eq [OF a(2)] and_not_eq [OF a(3)] by simp_all
  note h = hdr_or [OF assms] or_and a n or.assoc
  show "hdr s f pf AND NOT (1 OR 2) = ?P" by (cases f; cases pf) (simp_all add: h)
  show "hdr s f pf AND 1 \<noteq> 0 \<longleftrightarrow> f" by (cases f; cases pf) (simp_all add: h)
  show "hdr s f pf AND 2 \<noteq> 0 \<longleftrightarrow> pf" by (cases f; cases pf) (simp_all add: h)
  show "hdr s f pf OR 1 = hdr s True pf" by (cases f; cases pf) (simp_all add: h)
  show "hdr s f pf AND NOT 1 = hdr s False pf" by (cases f; cases pf) (simp_all add: h)
  show "hdr s f pf OR 2 = hdr s f True" by (cases f; cases pf) (simp_all add: h)
  show "hdr s f pf AND NOT 2 = hdr s f False" by (cases f; cases pf) (simp_all add: h)
  show "hdr s f pf + of_nat k = hdr (s + k) f pf" by (simp add: hdr_def)
qed

lemma hdr_set_size: "4 dvd s \<Longrightarrow> 4 dvd k \<Longrightarrow> of_nat k OR (hdr s f pf AND (1 OR 2)) = hdr k f pf"
  using aligned_and(3) [of s] by (cases f; cases pf) (simp_all add: hdr_or or_and)

section \<open>Memory at natural addresses\<close>

definition M :: "tlsf \<Rightarrow> nat \<Rightarrow> u32" where "M st n = mem st (of_nat n)"

definition put :: "nat \<Rightarrow> u32 \<Rightarrow> tlsf \<Rightarrow> tlsf" where "put n v st = store (of_nat n) v st"

lemma unat_of_nat_u32: "n < 2 ^ 32 \<Longrightarrow> unat (of_nat n :: u32) = n"
  by (simp add: unat_of_nat)

lemma of_nat_eq_u32: "m < 2 ^ 32 \<Longrightarrow> n < 2 ^ 32 \<Longrightarrow> (of_nat m :: u32) = of_nat n \<longleftrightarrow> m = n"
  by (metis unat_of_nat_u32)

lemma M_put: "m < 2 ^ 32 \<Longrightarrow> n < 2 ^ 32 \<Longrightarrow> M (put m v st) n = (if n = m then v else M st n)"
  by (auto simp: M_def put_def store_def of_nat_eq_u32)

lemma put_sel [simp]:
  "fl_bitmap (put n v st) = fl_bitmap st" "sl_bitmap (put n v st) = sl_bitmap st"
  "blocks (put n v st) = blocks st" "block_null (put n v st) = block_null st"
  by (simp_all add: put_def store_def)

lemma field_M:
  "size_word st (of_nat a) = M st (a + 4)" "prev_phys_block st (of_nat a) = M st a"
  "next_free st (of_nat a) = M st (a + 8)" "prev_free st (of_nat a) = M st (a + 12)"
  by (simp_all add: size_word_def prev_phys_block_def next_free_def prev_free_def M_def)

lemma store_put: "store (of_nat a + numeral k) v st = put (a + numeral k) v st" "store (of_nat a) v st = put a v st"
  by (simp_all add: put_def)

text \<open>Reading a header.\<close>

lemma header_reads:
  assumes h: "M st (a + 4) = hdr s f pf" and d: "4 dvd s" and "s < 2 ^ 32"
  shows "block_size (of_nat a) st = of_nat s" and "block_is_free (of_nat a) st \<longleftrightarrow> f"
    and "block_is_prev_free (of_nat a) st \<longleftrightarrow> pf" and "block_is_last (of_nat a) st \<longleftrightarrow> s = 0"
    and "s \<noteq> 0 \<Longrightarrow> block_next (of_nat a) st = Some (of_nat (a + 4 + s))"
proof -
  note flags = block_header_free_bit_def block_header_prev_free_bit_def
  show sz: "block_size (of_nat a) st = of_nat s"
    using hdr_simps(1) [OF d, of f pf] by (simp add: block_size_def field_M h flags)
  show "block_is_free (of_nat a) st \<longleftrightarrow> f"
    using hdr_simps(2) [OF d, of f pf] by (simp add: block_is_free_def field_M h flags)
  show "block_is_prev_free (of_nat a) st \<longleftrightarrow> pf"
    using hdr_simps(3) [OF d, of f pf] by (simp add: block_is_prev_free_def field_M h flags)
  show last: "block_is_last (of_nat a) st \<longleftrightarrow> s = 0"
    using of_nat_eq_u32 [of s 0] assms(3) by (simp add: block_is_last_def sz)
  show "block_next (of_nat a) st = Some (of_nat (a + 4 + s))" if "s \<noteq> 0"
    using that last sz
    by (simp add: block_next_def offset_to_block_def block_to_ptr_def block_start_offset_def
        block_header_overhead_def)
qed

text \<open>Writing a header.\<close>

lemma header_writes:
  assumes h: "M st (a + 4) = hdr s f pf" and d: "4 dvd s"
  shows "block_set_free (of_nat a) st = put (a + 4) (hdr s True pf) st"
    and "block_set_used (of_nat a) st = put (a + 4) (hdr s False pf) st"
    and "block_set_prev_free (of_nat a) st = put (a + 4) (hdr s f True) st"
    and "block_set_prev_used (of_nat a) st = put (a + 4) (hdr s f False) st"
    and "4 dvd k \<Longrightarrow> block_set_size (of_nat a) (of_nat k) st = put (a + 4) (hdr k f pf) st"
  using hdr_simps [OF d] hdr_set_size [OF d]
  by (simp_all add: block_set_free_def block_set_used_def block_set_prev_free_def
      block_set_prev_used_def block_set_size_def field_M h put_def
      block_header_free_bit_def block_header_prev_free_bit_def)

section \<open>Blocks in a row\<close>

fun tiles :: "nat \<Rightarrow> blk list \<Rightarrow> nat \<Rightarrow> bool" where
  "tiles a [] e \<longleftrightarrow> a = e"
| "tiles a ((b, s, f) # bs) e \<longleftrightarrow> b = a \<and> 4 dvd s \<and> 12 \<le> s \<and> tiles (a + 4 + s) bs e"

fun hseg :: "(nat \<Rightarrow> u32) \<Rightarrow> bool \<Rightarrow> blk list \<Rightarrow> bool \<Rightarrow> bool" where
  "hseg m pf [] q \<longleftrightarrow> pf = q"
| "hseg m pf ((a, s, f) # bs) q \<longleftrightarrow> m (a + 4) = hdr s f pf \<and> (f \<longrightarrow> m (a + 4 + s) = of_nat a) \<and> hseg m f bs q"

text \<open>All headers of the pool, with the sentinel at its end.\<close>

definition headers :: "tlsf \<Rightarrow> blk list \<Rightarrow> nat \<Rightarrow> bool" where
  "headers st bs e \<longleftrightarrow> hseg (M st) False (bs @ [(e, 0, False)]) False"

lemma tiles_le: "tiles a bs e \<Longrightarrow> a \<le> e"
  by (induction a bs e rule: tiles.induct) auto

lemma tiles_append [simp]: "tiles a (xs @ ys) e \<longleftrightarrow> (\<exists>b. tiles a xs b \<and> tiles b ys e)"
  by (induction xs arbitrary: a) auto

lemma hseg_append [simp]: "hseg m pf (xs @ ys) q \<longleftrightarrow> (\<exists>g. hseg m pf xs g \<and> hseg m g ys q)"
  by (induction xs arbitrary: pf) auto

lemma hseg_frame:
  assumes "tiles a xs e" and "\<forall>n. a + 4 \<le> n \<longrightarrow> n \<le> e \<longrightarrow> m' n = m n" and "hseg m pf xs q"
  shows "hseg m' pf xs q"
  using assms
proof (induction xs arbitrary: a pf)
  case Nil
  then show ?case by simp
next
  case (Cons x xs)
  obtain b s f where x: "x = (b, s, f)" by (cases x)
  with Cons.prems have t: "b = a" "tiles (a + 4 + s) xs e" by auto
  have "a + 4 + s \<le> e" using t(2) by (rule tiles_le)
  with Cons.prems(2) have "m' (a + 4) = m (a + 4)" "m' (a + 4 + s) = m (a + 4 + s)" by auto
  moreover have "hseg m' f xs q" using Cons.prems x by (intro Cons.IH [OF t(2)]) auto
  ultimately show ?case using Cons.prems x t by simp
qed

text \<open>
  The blocks from some block on: the header they start with, and how they may be carried over to a
  memory that changes this header's flag for the block before.
\<close>

lemma tail_cases:
  assumes "tiles a ys e" and "hseg m pf (ys @ [(e, 0, False)]) q"
  obtains s f where "m (a + 4) = hdr s f pf" "4 dvd s" "s = 0 \<or> 12 \<le> s" "a + s \<le> e"
    "f \<longleftrightarrow> (case ys of [] \<Rightarrow> False | (b, s, f) # _ \<Rightarrow> f)" "f \<Longrightarrow> s \<noteq> 0"
    "\<forall>m' pf'. (\<forall>n. a + 4 < n \<longrightarrow> n \<le> e + 4 \<longrightarrow> m' n = m n) \<longrightarrow> m' (a + 4) = hdr s f pf'
      \<longrightarrow> hseg m' pf' (ys @ [(e, 0, False)]) q"
proof (cases ys)
  case Nil
  with assms have "a = e" "m (e + 4) = hdr 0 False pf" "q = False" by auto
  with Nil show ?thesis by (intro that [of 0 False]) auto
next
  case (Cons x xs)
  obtain b s f where x: "x = (b, s, f)" by (cases x)
  with assms Cons have t: "b = a" "4 dvd s" "12 \<le> s" "tiles (a + 4 + s) xs e"
    and h: "m (a + 4) = hdr s f pf" "f \<longrightarrow> m (a + 4 + s) = of_nat a" "hseg m f (xs @ [(e, 0, False)]) q"
    by auto
  have le: "a + 4 + s \<le> e" using t(4) by (rule tiles_le)
  have "hseg m' pf' (ys @ [(e, 0, False)]) q"
    if m': "\<forall>n. a + 4 < n \<longrightarrow> n \<le> e + 4 \<longrightarrow> m' n = m n" "m' (a + 4) = hdr s f pf'" for m' pf'
  proof -
    from h(3) obtain g where g: "hseg m f xs g" "m (e + 4) = hdr 0 False g" "q = False" by auto
    have "hseg m' f xs g" using m'(1) t(3) by (intro hseg_frame [OF t(4) _ g(1)]) auto
    moreover have "m' (a + 4 + s) = m (a + 4 + s)" "m' (e + 4) = m (e + 4)" using m'(1) t(3) le by auto
    ultimately show ?thesis using Cons x t m'(2) h(2) g by auto
  qed
  with Cons x t h le show ?thesis by (intro that [of s f]) auto
qed

text \<open>Two states that differ only at some addresses.\<close>

definition only :: "nat set \<Rightarrow> tlsf \<Rightarrow> tlsf \<Rightarrow> bool" where
  "only A st st' \<longleftrightarrow> (\<forall>n < 2 ^ 32. n \<notin> A \<longrightarrow> M st' n = M st n)"

definition same_tables :: "tlsf \<Rightarrow> tlsf \<Rightarrow> bool" where
  "same_tables st st' \<longleftrightarrow> fl_bitmap st' = fl_bitmap st \<and> sl_bitmap st' = sl_bitmap st
     \<and> blocks st' = blocks st \<and> block_null st' = block_null st"

lemma only_refl [simp]: "only A st st"
  by (simp add: only_def)

lemma only_trans: "only A st st' \<Longrightarrow> only B st' st'' \<Longrightarrow> only (A \<union> B) st st''"
  by (simp add: only_def)

lemma only_mono: "only A st st' \<Longrightarrow> A \<subseteq> B \<Longrightarrow> only B st st'"
  by (auto simp: only_def)

lemma same_tables_simps [simp]: "same_tables st st" "same_tables st (put n v st') \<longleftrightarrow> same_tables st st'"
  by (simp_all add: same_tables_def)

lemma same_tables_trans: "same_tables st st' \<Longrightarrow> same_tables st' st'' \<Longrightarrow> same_tables st st''"
  by (simp add: same_tables_def)

section \<open>The surroundings of a block\<close>

text \<open>
  Everything of the pool but the memory from \<open>a\<close> up to \<open>b\<close>: the blocks \<open>xs\<close> before it, of which
  the last one is free if \<open>g\<close>, and the blocks \<open>ys\<close> behind it, whose first header says \<open>pf\<close>
  of the block in the gap.
\<close>

definition gap :: "nat \<Rightarrow> nat \<Rightarrow> blk list \<Rightarrow> bool \<Rightarrow> nat \<Rightarrow> nat \<Rightarrow> bool \<Rightarrow> blk list \<Rightarrow> tlsf \<Rightarrow> bool" where
  "gap a0 e xs g a b pf ys st \<longleftrightarrow> tiles a0 xs a \<and> hseg (M st) False xs g \<and> a \<le> b
     \<and> tiles b ys e \<and> hseg (M st) pf (ys @ [(e, 0, False)]) False \<and> e + 8 \<le> 2 ^ 32"

lemma headers_gap:
  "headers st (xs @ (a, s, f) # ys) e \<and> tiles a0 (xs @ (a, s, f) # ys) e \<and> e + 8 \<le> 2 ^ 32
    \<longleftrightarrow> 4 dvd s \<and> 12 \<le> s \<and> (\<exists>g. gap a0 e xs g a (a + 4 + s) f ys st \<and> M st (a + 4) = hdr s f g)
        \<and> (f \<longrightarrow> M st (a + 4 + s) = of_nat a)"
  by (auto simp: headers_def gap_def)

lemma gap_bounds:
  assumes "gap a0 e xs g a b pf ys st"
  shows "a0 \<le> a" "a \<le> b" "b \<le> e" "e + 8 \<le> 2 ^ 32"
  using assms tiles_le by (auto simp: gap_def)

lemma gap_frame:
  assumes "gap a0 e xs g a b pf ys st" and "only A st st'" and "\<forall>n \<in> A. a < n \<and> n \<le> b"
  shows "gap a0 e xs g a b pf ys st'"
proof -
  note bd = gap_bounds [OF assms(1)]
  have eq: "M st' n = M st n" if "n \<le> a \<or> b < n" "n \<le> e + 4" for n
  proof -
    have "n \<notin> A" using assms(3) that(1) by force
    moreover have "n < 2 ^ 32" using that(2) bd by simp
    ultimately show ?thesis using assms(2) unfolding only_def by blast
  qed
  have t: "tiles a0 xs a" "hseg (M st) False xs g" using assms(1) by (auto simp: gap_def)
  have "\<forall>n. a0 + 4 \<le> n \<longrightarrow> n \<le> a \<longrightarrow> M st' n = M st n"
    using bd by (intro allI impI eq) simp_all
  from hseg_frame [OF t(1) this t(2)] have "hseg (M st') False xs g" .
  moreover have "hseg (M st') pf (ys @ [(e, 0, False)]) False"
  proof (rule tail_cases [of b ys e "M st" pf False])
    show "tiles b ys e" "hseg (M st) pf (ys @ [(e, 0, False)]) False" using assms(1) by (auto simp: gap_def)
  next
    fix s f assume h: "M st (b + 4) = hdr s f pf"
      and tl: "\<forall>m' pf'. (\<forall>n. b + 4 < n \<longrightarrow> n \<le> e + 4 \<longrightarrow> m' n = M st n) \<longrightarrow> m' (b + 4) = hdr s f pf'
      \<longrightarrow> hseg m' pf' (ys @ [(e, 0, False)]) False"
    have "\<forall>n. b + 4 < n \<longrightarrow> n \<le> e + 4 \<longrightarrow> M st' n = M st n"
      by (intro allI impI eq) simp_all
    moreover have "M st' (b + 4) = M st (b + 4)" using bd by (intro eq) simp_all
    ultimately show ?thesis using tl h by simp
  qed
  ultimately show ?thesis using assms(1) by (simp add: gap_def)
qed

text \<open>The flag in the header behind the gap.\<close>

lemma gap_set_prev:
  assumes "gap a0 e xs g a b pf ys st"
  shows "gap a0 e xs g a b True ys (block_set_prev_free (of_nat b) st)"
    and "gap a0 e xs g a b False ys (block_set_prev_used (of_nat b) st)"
    and "only {b + 4} st (block_set_prev_free (of_nat b) st)"
    and "only {b + 4} st (block_set_prev_used (of_nat b) st)"
    and "same_tables st (block_set_prev_free (of_nat b) st)"
    and "same_tables st (block_set_prev_used (of_nat b) st)"
proof -
  note bd = gap_bounds [OF assms]
  have t: "tiles b ys e" "hseg (M st) pf (ys @ [(e, 0, False)]) False" and x: "tiles a0 xs a" "hseg (M st) False xs g"
    using assms by (auto simp: gap_def)
  from tail_cases [OF t] obtain s f where h: "M st (b + 4) = hdr s f pf" "4 dvd s"
    and tl: "\<forall>m' pf'. (\<forall>n. b + 4 < n \<longrightarrow> n \<le> e + 4 \<longrightarrow> m' n = M st n) \<longrightarrow> m' (b + 4) = hdr s f pf'
      \<longrightarrow> hseg m' pf' (ys @ [(e, 0, False)]) False" by metis
  note w = header_writes(3,4) [OF h]
  have p: "M (put (b + 4) v st) n = (if n = b + 4 then v else M st n)" if "n < 2 ^ 32" for n v
    using that bd by (simp add: M_put)
  have "gap a0 e xs g a b pf' ys (put (b + 4) (hdr s f pf') st)" for pf'
  proof -
    have "hseg (M (put (b + 4) (hdr s f pf') st)) False xs g"
      using p bd by (intro hseg_frame [OF x(1) _ x(2)]) auto
    moreover have "hseg (M (put (b + 4) (hdr s f pf') st)) pf' (ys @ [(e, 0, False)]) False"
      using p bd by (intro tl [rule_format]) auto
    ultimately show ?thesis using assms by (simp add: gap_def)
  qed
  then show "gap a0 e xs g a b True ys (block_set_prev_free (of_nat b) st)"
    "gap a0 e xs g a b False ys (block_set_prev_used (of_nat b) st)" by (simp_all add: w)
  show "only {b + 4} st (block_set_prev_free (of_nat b) st)"
    "only {b + 4} st (block_set_prev_used (of_nat b) st)"
    using p by (simp_all add: w only_def)
  show "same_tables st (block_set_prev_free (of_nat b) st)"
    "same_tables st (block_set_prev_used (of_nat b) st)" by (simp_all add: w)
qed

lemma only_put: "n < 2 ^ 32 \<Longrightarrow> only {n} st (put n v st)"
  by (simp add: only_def M_put)

section \<open>Marking a block free or used\<close>

lemma gap_mark_free:
  assumes g: "gap a0 e xs g a b pf ys st" and c: "a \<le> c" "b = c + 4 + s" and h: "M st (c + 4) = hdr s f q"
    and s: "4 dvd s" "12 \<le> s"
  obtains st' where "block_mark_as_free (of_nat c) st = Some st'"
    "gap a0 e xs g a b True ys st'" "M st' (c + 4) = hdr s True q"
    "M st' b = of_nat c" "only {c + 4, b, b + 4} st st'" "same_tables st st'"
proof -
  note bd = gap_bounds [OF g]
  let ?st1 = "put b (of_nat c) st"
  let ?st2 = "block_set_prev_free (of_nat b) ?st1"
  let ?st3 = "put (c + 4) (hdr s True q) ?st2"
  have o1: "only {b} st ?st1" using bd by (intro only_put) simp
  then have g1: "gap a0 e xs g a b pf ys ?st1" using g c s by (elim gap_frame) auto
  note g2 = gap_set_prev(1,3,5) [OF g1]
  have h2: "M ?st2 (c + 4) = hdr s f q"
    using h g2(2) o1 bd s c by (auto simp: only_def)
  have "?st3 = block_set_free (of_nat c) ?st2" using header_writes(1) [OF h2 s(1)] by simp
  moreover have "s \<noteq> 0" "s < 2 ^ 32" using s bd c by auto
  ultimately have "block_mark_as_free (of_nat c) st = Some ?st3"
    using header_reads(5) [OF h s(1)] c by (simp add: block_mark_as_free_def block_link_next_def put_def)
  moreover have o3: "only {c + 4} ?st2 ?st3" using bd s c by (intro only_put) simp
  then have "gap a0 e xs g a b True ys ?st3" using g2(1) s c by (elim gap_frame) auto
  moreover have "M ?st3 (c + 4) = hdr s True q" using bd s c by (simp add: M_put)
  moreover have "M ?st3 b = of_nat c"
    using g2(2) bd s c by (simp add: M_put only_def)
  moreover have "only {c + 4, b, b + 4} st ?st3"
    using only_trans [OF only_trans [OF o1 g2(2)] o3] by (rule only_mono) auto
  moreover have "same_tables st ?st3" using g2(3) same_tables_trans [of st ?st1 ?st2] by simp
  ultimately show ?thesis by (rule that)
qed

lemma gap_mark_used:
  assumes g: "gap a0 e xs g a (a + 4 + s) pf ys st" and h: "M st (a + 4) = hdr s f q"
    and s: "4 dvd s" "12 \<le> s"
  obtains st' where "block_mark_as_used (of_nat a) st = Some st'"
    "gap a0 e xs g a (a + 4 + s) False ys st'" "M st' (a + 4) = hdr s False q"
    "only {a + 4, a + 8 + s} st st'" "same_tables st st'"
proof -
  let ?b = "a + 4 + s"
  note bd = gap_bounds [OF g]
  let ?st2 = "block_set_prev_used (of_nat ?b) st"
  let ?st3 = "put (a + 4) (hdr s False q) ?st2"
  note g2 = gap_set_prev(2,4,6) [OF g]
  have h2: "M ?st2 (a + 4) = hdr s f q"
    using h g2(2) bd s by (auto simp: only_def)
  have "?st3 = block_set_used (of_nat a) ?st2" using header_writes(2) [OF h2 s(1)] by simp
  moreover have "s \<noteq> 0" "s < 2 ^ 32" using s bd by auto
  ultimately have "block_mark_as_used (of_nat a) st = Some ?st3"
    using header_reads(5) [OF h s(1)] by (simp add: block_mark_as_used_def)
  moreover have o3: "only {a + 4} ?st2 ?st3" using bd s by (intro only_put) simp
  then have "gap a0 e xs g a ?b False ys ?st3" using g2(1) s by (elim gap_frame) auto
  moreover have "M ?st3 (a + 4) = hdr s False q" using bd s by (simp add: M_put)
  moreover have "only {a + 4, a + 8 + s} st ?st3"
    using only_trans [OF g2(2) o3] by (rule only_mono) auto
  moreover have "same_tables st ?st3" using g2(3) by simp
  ultimately show ?thesis by (rule that)
qed

section \<open>Splitting and absorbing\<close>

lemma of_nat_le_u32: "m < 2 ^ 32 \<Longrightarrow> n < 2 ^ 32 \<Longrightarrow> (of_nat m :: u32) \<le> of_nat n \<longleftrightarrow> m \<le> n"
  by (simp add: word_le_nat_alt unat_of_nat_u32)

lemma of_nat_less_u32: "m < 2 ^ 32 \<Longrightarrow> n < 2 ^ 32 \<Longrightarrow> (of_nat m :: u32) < of_nat n \<longleftrightarrow> m < n"
  by (simp add: word_less_nat_alt unat_of_nat_u32)

lemma any_flags:
  fixes w :: u32
  assumes "4 dvd k"
  obtains f pf where "of_nat k OR (w AND (1 OR 2)) = hdr k f pf"
proof -
  have "w AND (1 OR 2) = (w AND 1) OR (w AND 2)" by (rule bit.conj_disj_distrib)
  moreover have "w AND 1 = (if bit w 0 then 1 else 0)" "w AND 2 = (if bit w 1 then 2 else 0)"
  proof -
    have p: "w AND push_bit n 1 = (if bit w n then push_bit n 1 else 0)" for n
      by (rule bit_word_eqI) (auto simp: bit_simps)
    show "w AND 1 = (if bit w 0 then 1 else 0)" "w AND 2 = (if bit w 1 then 2 else 0)"
      using p [of 0] p [of 1] by simp_all
  qed
  ultimately have "of_nat k OR (w AND (1 OR 2)) = hdr k (bit w 0) (bit w 1)"
    using hdr_or [OF assms] by simp
  then show ?thesis by (rule that)
qed

lemma block_can_split_hdr:
  assumes "M st (a + 4) = hdr s f q" "4 dvd s" "s < 2 ^ 31" "k < 2 ^ 31"
  shows "block_can_split (of_nat a) (of_nat k) st \<longleftrightarrow> k + 16 \<le> s"
proof -
  have "block_size (of_nat a) st = of_nat s" using assms by (intro header_reads(1)) auto
  moreover have "(sizeof_block_header :: u32) + of_nat k = of_nat (k + 16)"
    by (simp add: sizeof_block_header_def)
  ultimately have "block_can_split (of_nat a) (of_nat k) st \<longleftrightarrow> (of_nat (k + 16) :: u32) \<le> of_nat s"
    by (simp only: block_can_split_def)
  then show ?thesis using of_nat_le_u32 [of "k + 16" s] assms(3,4) by simp
qed

lemma gap_split:
  assumes g: "gap a0 e xs g a b pf ys st" and b: "b = a + 4 + s" and h: "M st (a + 4) = hdr s f q"
    and s: "4 dvd s" and k: "4 dvd k" "8 \<le> k" "k + 16 \<le> s"
  obtains st' x where "block_split (of_nat a) (of_nat k) st = Some (of_nat (a + 4 + k), st')"
    "gap a0 e xs g a b True ys st'" "M st' (a + 4) = hdr k f q"
    "M st' (a + 4 + k + 4) = hdr (s - k - 4) True x" "M st' b = of_nat (a + 4 + k)"
    "only {a + 4, a + 8 + k, b, b + 4} st st'" "same_tables st st'"
proof -
  note bd = gap_bounds [OF g]
  let ?r = "a + 4 + k" and ?rs = "s - k - 4"
  have sz: "s < 2 ^ 32" using bd b by simp
  have rs: "4 dvd ?rs" "12 \<le> ?rs" "b = ?r + 4 + ?rs" using s k b by auto
  have rem: "offset_to_block (block_to_ptr (of_nat a)) (of_nat k - block_header_overhead) = of_nat ?r"
    by (simp add: offset_to_block_def block_to_ptr_def block_start_offset_def block_header_overhead_def)
  have bs: "block_size (of_nat a) st = of_nat s" using h s sz by (rule header_reads(1))
  have remsz: "of_nat s - (of_nat k + block_header_overhead) = (of_nat ?rs :: u32)"
    using k by (simp add: block_header_overhead_def of_nat_diff)
  from any_flags [OF rs(1), of "M st (?r + 4)"] obtain f0 x where
    fx: "of_nat ?rs OR (M st (?r + 4) AND (1 OR 2)) = hdr ?rs f0 x" .
  let ?st1 = "put (?r + 4) (hdr ?rs f0 x) st"
  have set1: "block_set_size (of_nat ?r) (of_nat ?rs) st = ?st1"
    unfolding block_set_size_def field_M put_def block_header_free_bit_def
      block_header_prev_free_bit_def fx by simp
  have o1: "only {?r + 4} st ?st1" using bd b k by (intro only_put) simp
  have h1: "M ?st1 (?r + 4) = hdr ?rs f0 x" "M ?st1 (a + 4) = hdr s f q"
    using bd b k h by (simp_all add: M_put)
  have bs1: "block_size (of_nat ?r) ?st1 = of_nat ?rs" using h1(1) rs(1) sz by (intro header_reads(1)) auto
  let ?st2 = "put (a + 4) (hdr k f q) ?st1"
  have set2: "block_set_size (of_nat a) (of_nat k) ?st1 = ?st2" using header_writes(5) [OF h1(2) s k(1)] .
  have o2: "only {a + 4} ?st1 ?st2" using bd b by (intro only_put) simp
  have h2: "M ?st2 (?r + 4) = hdr ?rs f0 x" using bd b k h1 by (simp add: M_put)
  have g2: "gap a0 e xs g a b pf ys ?st2"
    using only_trans [OF o1 o2] b k by (intro gap_frame [OF g]) auto
  have "a \<le> ?r" by simp
  from gap_mark_free [OF g2 this rs(3) h2 rs(1,2)] obtain st3 where st3: "block_mark_as_free (of_nat ?r) ?st2 = Some st3"
    "gap a0 e xs g a b True ys st3" "M st3 (?r + 4) = hdr ?rs True x"
    "M st3 b = of_nat ?r" "only {?r + 4, b, b + 4} ?st2 st3" "same_tables ?st2 st3" .
  have ok: "of_nat s = (of_nat ?rs :: u32) + of_nat k + block_header_overhead"
    using k by (simp add: block_header_overhead_def of_nat_diff)
  have ok2: "block_size_min \<le> (of_nat ?rs :: u32)"
    using of_nat_le_u32 [of 12 ?rs] rs(2) sz by (simp add: block_size_min_def sizeof_block_header_def)
  have "block_split (of_nat a) (of_nat k) st = Some (of_nat ?r, st3)"
    unfolding block_split_def Let_def rem bs remsz set1 bs1 set2
    using ok ok2 st3(1) by simp
  moreover have "M st3 (a + 4) = hdr k f q"
    using st3(5) bd b k by (simp add: only_def M_put)
  moreover have "only {a + 4, a + 8 + k, b, b + 4} st st3"
    using only_trans [OF only_trans [OF o1 o2] st3(5)] by (rule only_mono) auto
  moreover have "same_tables st st3" using st3(6) same_tables_trans [of st ?st2 st3] by simp
  ultimately show ?thesis using st3(2,3,4) by (intro that)
qed

lemma gap_absorb:
  assumes g: "gap a0 e xs g a b pf ys st" and b: "b = a + 4 + s + 4 + s'" and h: "M st (a + 4) = hdr s f q"
    and h': "M st (a + 4 + s + 4) = hdr s' f' q'" and s: "4 dvd s" "4 dvd s'" "12 \<le> s"
  obtains st' where "block_absorb (of_nat a) (of_nat (a + 4 + s)) st = Some (of_nat a, st')"
    "gap a0 e xs g a b pf ys st'" "M st' (a + 4) = hdr (s + 4 + s') f q" "M st' b = of_nat a"
    "only {a + 4, b} st st'" "same_tables st st'"
proof -
  note bd = gap_bounds [OF g]
  have lt: "s < 2 ^ 32" "s' < 2 ^ 32" "s + 4 + s' < 2 ^ 32" using bd b by simp_all
  have r: "block_is_last (of_nat a) st \<longleftrightarrow> s = 0" "block_size (of_nat (a + 4 + s)) st = of_nat s'"
    using header_reads(4) [OF h s(1) lt(1)] header_reads(1) [OF h' s(2) lt(2)] by simp_all
  let ?st1 = "put (a + 4) (hdr (s + 4 + s') f q) st"
  have w: "size_word st (of_nat a) + (of_nat s' + block_header_overhead) = hdr (s + 4 + s') f q"
    using hdr_simps(8) [OF s(1), of f q "4 + s'"]
    by (simp add: field_M h block_header_overhead_def ac_simps)
  have o1: "only {a + 4} st ?st1" using bd b by (intro only_put) simp
  have h1: "M ?st1 (a + 4) = hdr (s + 4 + s') f q" using bd b by (simp add: M_put)
  have n: "block_next (of_nat a) ?st1 = Some (of_nat b)"
    using header_reads(5) [OF h1 _ lt(3)] s b by (simp add: add.assoc)
  let ?st2 = "put b (of_nat a) ?st1"
  have o2: "only {b} ?st1 ?st2" using bd by (intro only_put) simp
  have o: "only {a + 4, b} st ?st2" using only_trans [OF o1 o2] by (rule only_mono) auto
  have "block_absorb (of_nat a) (of_nat (a + 4 + s)) st = Some (of_nat a, ?st2)"
    using r s w n by (simp add: block_absorb_def block_link_next_def put_def)
  moreover have "gap a0 e xs g a b pf ys ?st2" using o b s by (intro gap_frame [OF g]) auto
  moreover have "M ?st2 (a + 4) = hdr (s + 4 + s') f q" "M ?st2 b = of_nat a"
    using bd b s by (simp_all add: M_put)
  ultimately show ?thesis using o by (intro that) auto
qed

lemma gap_link_next:
  assumes g: "gap a0 e xs g a b pf ys st" and h: "M st (a + 4) = hdr s f q" and s: "4 dvd s" "8 \<le> s" "a + 4 + s \<le> b"
  shows "block_link_next (of_nat a) st = Some (of_nat (a + 4 + s), put (a + 4 + s) (of_nat a) st)"
    and "gap a0 e xs g a b pf ys (put (a + 4 + s) (of_nat a) st)"
    and "only {a + 4 + s} st (put (a + 4 + s) (of_nat a) st)"
proof -
  note bd = gap_bounds [OF g]
  have "s < 2 ^ 32" using bd s by simp
  with header_reads(5) [OF h s(1)] s
  show "block_link_next (of_nat a) st = Some (of_nat (a + 4 + s), put (a + 4 + s) (of_nat a) st)"
    by (simp add: block_link_next_def put_def)
  show o: "only {a + 4 + s} st (put (a + 4 + s) (of_nat a) st)" using bd s by (intro only_put) simp
  show "gap a0 e xs g a b pf ys (put (a + 4 + s) (of_nat a) st)"
    using s by (intro gap_frame [OF g o]) auto
qed

end
