(* ===== verification/TlsfLists.thy ===== *)
theory TlsfLists
  imports TlsfHeap
begin

text \<open>
  The free lists: for every size class a doubly linked list of the free blocks of this class,
  and the two levels of bitmaps that say which lists are not empty.
\<close>

section \<open>Doubly linked segments\<close>

fun dls :: "(nat \<Rightarrow> u32) \<Rightarrow> u32 \<Rightarrow> u32 \<Rightarrow> nat list \<Rightarrow> u32 \<Rightarrow> u32 \<Rightarrow> bool" where
  "dls m p h [] q k \<longleftrightarrow> p = q \<and> h = k"
| "dls m p h (b # L) q k \<longleftrightarrow> h = of_nat b \<and> m (b + 12) = p \<and> dls m (of_nat b) (m (b + 8)) L q k"

lemma dls_append [simp]:
  "dls m p h (xs @ ys) q k \<longleftrightarrow> (\<exists>q' k'. dls m p h xs q' k' \<and> dls m q' k' ys q k)"
  by (induction xs arbitrary: p h) auto

lemma dls_frame:
  "dls m p h L q k \<Longrightarrow> (\<forall>b \<in> set L. m' (b + 8) = m (b + 8) \<and> m' (b + 12) = m (b + 12)) \<Longrightarrow> dls m' p h L q k"
  by (induction L arbitrary: p h) auto

lemma dls_last: "dls m p h L q k \<Longrightarrow> q = (if L = [] then p else of_nat (last L))"
  by (induction L arbitrary: p h) auto

lemma dls_head: "dls m p h L q k \<Longrightarrow> h = (if L = [] then k else of_nat (hd L))"
  by (cases L) auto

definition dlist :: "nat \<Rightarrow> (nat \<Rightarrow> u32) \<Rightarrow> u32 \<Rightarrow> nat list \<Rightarrow> bool" where
  "dlist z m h L \<longleftrightarrow> (\<exists>q. dls m (of_nat z) h L q (of_nat z))"

text \<open>Taking a block out of its list, and putting one in front.\<close>

definition prev_of :: "nat \<Rightarrow> nat list \<Rightarrow> nat" where "prev_of z xs = (if xs = [] then z else last xs)"
definition next_of :: "nat \<Rightarrow> nat list \<Rightarrow> nat" where "next_of z ys = (if ys = [] then z else hd ys)"

lemma dlist_links:
  assumes "dlist z m h (xs @ a # ys)"
  shows "m (a + 12) = of_nat (prev_of z xs)" "m (a + 8) = of_nat (next_of z ys)"
    and "h = (if xs = [] then of_nat a else of_nat (hd xs))"
proof -
  from assms obtain p q where x: "dls m (of_nat z) h xs p (of_nat a)" "m (a + 12) = p"
    "dls m (of_nat a) (m (a + 8)) ys q (of_nat z)" by (auto simp: dlist_def)
  then show "m (a + 12) = of_nat (prev_of z xs)" "m (a + 8) = of_nat (next_of z ys)"
    "h = (if xs = [] then of_nat a else of_nat (hd xs))"
    using dls_last [OF x(1)] dls_head [OF x(3)] dls_head [OF x(1)] by (auto simp: prev_of_def next_of_def)
qed

lemma dlist_unlink:
  assumes dl: "dlist z m h (xs @ a # ys)" and d: "distinct (xs @ a # ys)"
    and z: "z \<notin> set (xs @ a # ys)"
    and m': "\<forall>b \<in> set xs \<union> set ys. m' (b + 12) = (if b = next_of z ys then m (a + 12) else m (b + 12))"
      "\<forall>b \<in> set xs \<union> set ys. m' (b + 8) = (if b = prev_of z xs then m (a + 8) else m (b + 8))"
  shows "dlist z m' (if xs = [] then m (a + 8) else h) (xs @ ys)"
proof -
  from dl obtain p q where x: "dls m (of_nat z) h xs p (of_nat a)" "m (a + 12) = p"
    and y: "dls m (of_nat a) (m (a + 8)) ys q (of_nat z)" by (auto simp: dlist_def)
  have "\<exists>q'. dls m' p (m (a + 8)) ys q' (of_nat z)"
  proof (cases ys)
    case Nil
    with y show ?thesis by auto
  next
    case (Cons b bs)
    with y have b: "m (a + 8) = of_nat b" "dls m (of_nat b) (m (b + 8)) bs q (of_nat z)" by auto
    have nx: "next_of z ys = b" using Cons by (simp add: next_of_def)
    have pv: "prev_of z xs \<notin> set ys" using d z by (auto simp: prev_of_def disjoint_iff)
    have "m' (b + 12) = p" "m' (b + 8) = m (b + 8)" using m' nx pv Cons x(2) by auto
    moreover have "dls m' (of_nat b) (m (b + 8)) bs q (of_nat z)"
      using b(2) m' nx pv Cons d by (elim dls_frame) auto
    ultimately show ?thesis using b(1) Cons by auto
  qed
  moreover have "dls m' (of_nat z) (if xs = [] then m (a + 8) else h) xs p (m (a + 8))"
  proof (cases xs rule: rev_cases)
    case Nil
    with x show ?thesis by auto
  next
    case (snoc us u)
    have "dls m (of_nat z) h (us @ [u]) p (of_nat a)" using x(1) unfolding snoc .
    then have "dls m (of_nat z) h us (m (u + 12)) (of_nat u) \<and> of_nat u = p \<and> m (u + 8) = of_nat a"
      unfolding dls_append dls.simps by blast
    then obtain p1 where u: "dls m (of_nat z) h us p1 (of_nat u)" "m (u + 12) = p1" "p = of_nat u"
      by blast
    have pv: "prev_of z xs = u" using snoc by (simp add: prev_of_def)
    have nx: "next_of z ys \<notin> set xs" using d z by (cases ys) (simp_all add: next_of_def)
    have "dls m' (of_nat z) h us p1 (of_nat u)"
      using u(1) m' pv nx snoc d by (elim dls_frame) auto
    moreover have "m' (u + 12) = p1" "m' (u + 8) = m (a + 8)" using m' pv nx snoc u(2) by auto
    ultimately show ?thesis using snoc u(3) by auto
  qed
  ultimately show ?thesis unfolding dlist_def dls_append by blast
qed

lemma dlist_push:
  assumes dl: "dlist z m h L" and a: "a \<notin> set L"
    and m': "m' (a + 8) = h" "m' (a + 12) = of_nat z"
      "\<forall>b \<in> set L. m' (b + 8) = m (b + 8) \<and> m' (b + 12) = (if b = hd L then of_nat a else m (b + 12))"
    and d: "distinct L"
  shows "dlist z m' (of_nat a) (a # L)"
proof (cases L)
  case Nil
  with dl m' show ?thesis by (auto simp: dlist_def)
next
  case (Cons b bs)
  with dl obtain q where "h = of_nat b" "dls m (of_nat b) (m (b + 8)) bs q (of_nat z)"
    by (auto simp: dlist_def)
  moreover have "dls m' (of_nat b) (m (b + 8)) bs q (of_nat z)"
    using calculation(2) m' Cons d by (elim dls_frame) auto
  ultimately show ?thesis using m' Cons by (auto simp: dlist_def)
qed

section \<open>The lists of all classes\<close>

definition members :: "(nat \<times> nat) set \<Rightarrow> nat \<times> nat \<Rightarrow> nat set" where
  "members F c = {a. \<exists>s. (a, s) \<in> F \<and> mapping_insert (of_nat s) = c}"

definition shape :: "tlsf \<Rightarrow> bool" where
  "shape st \<longleftrightarrow> length (sl_bitmap st) = 24 \<and> length (blocks st) = 24
     \<and> (\<forall>fl < 24. length (blocks st ! fl) = 32)"

definition class_ok :: "nat \<Rightarrow> tlsf \<Rightarrow> nat \<Rightarrow> nat \<Rightarrow> nat set \<Rightarrow> bool" where
  "class_ok z st fl sl A \<longleftrightarrow> (\<exists>L. dlist z (M st) (blocks st ! fl ! sl) L \<and> distinct L \<and> set L = A)
     \<and> (bit (sl_bitmap st ! fl) sl \<longleftrightarrow> A \<noteq> {})"

definition flists :: "nat \<Rightarrow> tlsf \<Rightarrow> (nat \<times> nat) set \<Rightarrow> bool" where
  "flists z st F \<longleftrightarrow> shape st \<and> block_null st = of_nat z
     \<and> (\<forall>fl < 24. \<forall>sl < 32. class_ok z st fl sl (members F (fl, sl)))
     \<and> (\<forall>fl < 32. bit (fl_bitmap st) fl \<longleftrightarrow> fl < 24 \<and> sl_bitmap st ! fl \<noteq> 0)"

text \<open>The blocks of \<open>F\<close> and the null block do not overlap.\<close>

definition apart :: "nat \<Rightarrow> (nat \<times> nat) set \<Rightarrow> bool" where
  "apart z F \<longleftrightarrow> 0 < z \<and> z + 16 \<le> 2 ^ 32
     \<and> (\<forall>a s. (a, s) \<in> F \<longrightarrow> 0 < a \<and> a + 16 \<le> 2 ^ 32 \<and> s < 2 ^ 30 \<and> (z + 8 \<le> a \<or> a + 8 \<le> z))
     \<and> (\<forall>a s b t. (a, s) \<in> F \<longrightarrow> (b, t) \<in> F \<longrightarrow> a = b \<and> s = t \<or> a + 16 \<le> b \<or> b + 16 \<le> a)"

definition link_words :: "nat \<Rightarrow> (nat \<times> nat) set \<Rightarrow> nat set" where
  "link_words z F = {z + 8, z + 12} \<union> {b + 8 | b s. (b, s) \<in> F} \<union> {b + 12 | b s. (b, s) \<in> F}"

lemma apartD:
  assumes "apart z F"
  shows "0 < z" "z + 16 \<le> 2 ^ 32"
    "\<And>a s. (a, s) \<in> F \<Longrightarrow> 0 < a \<and> a + 16 \<le> 2 ^ 32 \<and> s < 2 ^ 30 \<and> (z + 8 \<le> a \<or> a + 8 \<le> z)"
    "\<And>a s b t. (a, s) \<in> F \<Longrightarrow> (b, t) \<in> F \<Longrightarrow> a = b \<and> s = t \<or> a + 16 \<le> b \<or> b + 16 \<le> a"
  using assms unfolding apart_def by blast+

lemma apart_words:
  assumes "apart z F" and "(a, s) \<in> F" and "b = z \<or> (\<exists>t. (b, t) \<in> F)" and "a \<noteq> b"
  shows "a + 8 \<noteq> b + 12" "a + 12 \<noteq> b + 8" "a + 8 \<noteq> b + 8" "a + 12 \<noteq> b + 12"
proof -
  have "z + 8 \<le> a \<or> a + 8 \<le> z" using apartD(3) [OF assms(1,2)] by blast
  moreover have "a + 16 \<le> b \<or> b + 16 \<le> a" if "(b, t) \<in> F" for t
    using apartD(4) [OF assms(1,2) that] assms(4) by blast
  ultimately have "b + 8 \<le> a \<or> a + 8 \<le> b" using assms(3) by force
  then show "a + 8 \<noteq> b + 12" "a + 12 \<noteq> b + 8" "a + 8 \<noteq> b + 8" "a + 12 \<noteq> b + 12" by linarith+
qed

lemma apart_range:
  assumes "apart z F"
  shows "(a, s) \<in> F \<Longrightarrow> a + 16 \<le> 2 ^ 32" "(a, s) \<in> F \<Longrightarrow> 0 < a" "z + 16 \<le> 2 ^ 32" "0 < z"
    "(a, s) \<in> F \<Longrightarrow> s < 2 ^ 30" "(a, s) \<in> F \<Longrightarrow> a \<noteq> z" "(a, s) \<in> F \<Longrightarrow> (a, t) \<in> F \<Longrightarrow> s = t"
  using apartD(1,2) [OF assms] apartD(3) [OF assms, of a s] apartD(4) [OF assms, of a s a t] by auto

lemma apart_mono: "apart z F \<Longrightarrow> G \<subseteq> F \<Longrightarrow> apart z G"
  unfolding apart_def by blast

lemma mapping_range:
  assumes "s < 2 ^ 30"
  shows "fst (mapping_insert (of_nat s)) < 24" "snd (mapping_insert (of_nat s)) < 32"
  using mapping_insert_class(3,4) [of "of_nat s"] assms by (simp_all add: unat_of_nat_u32)

text \<open>
  Changing one list: the other lists keep their words, and the bitmaps follow the list.
\<close>

lemma flists_update:
  assumes fl: "flists z st F" and c: "fl < 24" "sl < 32" and other: "\<And>d. d \<noteq> (fl, sl) \<Longrightarrow> members F' d = members F d"
    and new: "dlist z (M st') (blocks st' ! fl ! sl) L" "distinct L" "set L = members F' (fl, sl)"
    and blocks: "shape st'" "\<And>f l. f < 24 \<Longrightarrow> l < 32 \<Longrightarrow> (f, l) \<noteq> (fl, sl) \<Longrightarrow> blocks st' ! f ! l = blocks st ! f ! l"
    and bits: "\<And>f. f < 24 \<Longrightarrow> f \<noteq> fl \<Longrightarrow> sl_bitmap st' ! f = sl_bitmap st ! f"
      "\<And>l. l < 32 \<Longrightarrow> bit (sl_bitmap st' ! fl) l \<longleftrightarrow> (if l = sl then L \<noteq> [] else bit (sl_bitmap st ! fl) l)"
      "\<And>f. f < 32 \<Longrightarrow> bit (fl_bitmap st') f \<longleftrightarrow> (if f = fl then sl_bitmap st' ! fl \<noteq> 0 else bit (fl_bitmap st) f)"
    and words: "\<And>d b. d \<noteq> (fl, sl) \<Longrightarrow> b \<in> members F d \<Longrightarrow> M st' (b + 8) = M st (b + 8) \<and> M st' (b + 12) = M st (b + 12)"
    and null: "block_null st' = block_null st"
  shows "flists z st' F'"
proof -
  have "class_ok z st' f l (members F' (f, l))" if b: "f < 24" "l < 32" for f l
  proof (cases "(f, l) = (fl, sl)")
    case True
    with new bits(2) [of sl] c show ?thesis by (auto simp: class_ok_def)
  next
    case False
    from fl b have ok: "class_ok z st f l (members F (f, l))" by (simp add: flists_def)
    then obtain K where K: "dlist z (M st) (blocks st ! f ! l) K" "distinct K" "set K = members F (f, l)"
      by (auto simp: class_ok_def)
    from K(1) obtain q where "dls (M st) (of_nat z) (blocks st ! f ! l) K q (of_nat z)"
      unfolding dlist_def by blast
    then have "dls (M st') (of_nat z) (blocks st ! f ! l) K q (of_nat z)"
      by (rule dls_frame) (use words [OF False] K(3) in blast)
    then have "dlist z (M st') (blocks st' ! f ! l) K"
      unfolding dlist_def blocks(2) [OF b False] by blast
    moreover have "bit (sl_bitmap st' ! f) l = bit (sl_bitmap st ! f) l"
      using bits(1) [of f] bits(2) [of l] b False by (cases "f = fl") auto
    ultimately show ?thesis using K ok other [OF False] by (auto simp: class_ok_def)
  qed
  moreover have "bit (fl_bitmap st') f \<longleftrightarrow> f < 24 \<and> sl_bitmap st' ! f \<noteq> 0" if "f < 32" for f
    using bits(1) [of f] bits(3) [OF that] fl that c by (auto simp: flists_def)
  ultimately show ?thesis using blocks(1) null fl by (simp add: flists_def)
qed

section \<open>Removing and inserting a free block\<close>

lemma flistsD:
  assumes "flists z st F" and "f < 24" "l < 32"
  obtains L where "dlist z (M st) (blocks st ! f ! l) L" "distinct L" "set L = members F (f, l)"
    "bit (sl_bitmap st ! f) l \<longleftrightarrow> members F (f, l) \<noteq> {}"
proof -
  have "class_ok z st f l (members F (f, l))" using assms unfolding flists_def by blast
  then show ?thesis using that unfolding class_ok_def by blast
qed

lemma memberD: "c \<in> members F k \<Longrightarrow> \<exists>t. (c, t) \<in> F \<and> mapping_insert (of_nat t) = k"
  by (auto simp: members_def)

lemma members_diff:
  assumes "apart z F" and "(a, s) \<in> F"
  shows "members (F - {(a, s)}) k = (if k = mapping_insert (of_nat s) then members F k - {a} else members F k)"
proof -
  have "t = s" if "(a, t) \<in> F" for t using apart_range(7) [OF assms(1) that assms(2)] .
  then have 1: "(b, t) \<in> F - {(a, s)} \<longleftrightarrow> (b, t) \<in> F \<and> b \<noteq> a" for b t by blast
  have 2: "a \<in> members F k \<longleftrightarrow> k = mapping_insert (of_nat s)"
    unfolding members_def mem_Collect_eq using assms(2) \<open>\<And>t. (a, t) \<in> F \<Longrightarrow> t = s\<close> by metis
  have "members (F - {(a, s)}) k = members F k - {a}" unfolding members_def 1 by blast
  with 2 show ?thesis by auto
qed

lemma members_disjoint:
  assumes "apart z F" and "c \<in> members F d" and "c \<in> members F e"
  shows "d = e"
proof -
  from assms(2,3) obtain t u where "(c, t) \<in> F" "mapping_insert (of_nat t) = d"
    "(c, u) \<in> F" "mapping_insert (of_nat u) = e" by (auto simp: members_def)
  with apart_range(7) [OF assms(1), of c t u] show ?thesis by simp
qed

lemma bit_clear: "l < 32 \<Longrightarrow> bit (w AND NOT (push_bit k 1)) l \<longleftrightarrow> bit w l \<and> l \<noteq> k" for w :: u32
  by (auto simp: bit_simps)

lemma bit_set: "l < 32 \<Longrightarrow> bit (w OR push_bit k 1) l \<longleftrightarrow> bit w l \<or> l = k" for w :: u32
  by (auto simp: bit_simps)

lemma word32_eq_0: "w = 0 \<longleftrightarrow> (\<forall>l < 32. \<not> bit w l)" for w :: u32
  by (auto intro: bit_word_eqI simp: bit_simps)

lemma of_nat_0_u32: "0 < n \<Longrightarrow> n < 2 ^ 32 \<Longrightarrow> (of_nat n :: u32) \<noteq> 0"
  using of_nat_eq_u32 [of n 0] by simp

lemma shape_update: "shape st \<Longrightarrow> f < 24 \<Longrightarrow> k < 24 \<Longrightarrow> length ((blocks st)[f := (blocks st ! f)[l := v]] ! k) = 32"
  by (cases "k = f") (simp_all add: shape_def)

lemma link_words_in: "a = z \<or> (\<exists>t. (a, t) \<in> F) \<Longrightarrow> {a + 8, a + 12} \<subseteq> link_words z F"
  by (auto simp: link_words_def)

lemma remove_free_block_spec:
  assumes fl: "flists z st F" and ap: "apart z F" and a: "(a, s) \<in> F" and c: "mapping_insert (of_nat s) = (f, l)"
  obtains st' where "remove_free_block (of_nat a) f l st = Some st'" "flists z st' (F - {(a, s)})"
    "only (link_words z (F - {(a, s)})) st st'"
proof -
  note rng = apart_range [OF ap]
  have fl24: "f < 24" "l < 32" using mapping_range [of s] rng(5) [OF a] c by simp_all
  from flistsD [OF fl this] obtain L where L: "dlist z (M st) (blocks st ! f ! l) L" "distinct L"
      "set L = members F (f, l)" and bl': "bit (sl_bitmap st ! f) l \<longleftrightarrow> members F (f, l) \<noteq> {}" .
  then have bl: "bit (sl_bitmap st ! f) l" using a c by (auto simp: members_def)
  have sh: "shape st" "block_null st = of_nat z" using fl by (simp_all add: flists_def)
  have "a \<in> set L" using L(3) a c by (auto simp: members_def)
  then obtain xs ys where xy: "L = xs @ a # ys" by (meson split_list)
  have inF: "\<exists>t. (b, t) \<in> F" if "b \<in> set L" for b using that L(3) memberD by blast
  let ?p = "prev_of z xs" and ?n = "next_of z ys"
  have pn: "?p = z \<or> ?p \<in> set xs" "?n = z \<or> ?n \<in> set ys" by (simp_all add: prev_of_def next_of_def)
  have zL: "z \<notin> set L" using inF rng(6) by blast
  have b32: "0 < b \<and> b + 16 \<le> 2 ^ 32" if "b = z \<or> b \<in> set L" for b
    using that rng inF by blast
  have pn32: "0 < ?p" "?p + 16 \<le> 2 ^ 32" "0 < ?n" "?n + 16 \<le> 2 ^ 32" "a + 16 \<le> 2 ^ 32"
    using pn b32 [of ?p] b32 [of ?n] b32 [of a] xy by auto
  note lk = dlist_links [OF L(1) [unfolded xy]]
  let ?st2 = "put (?p + 8) (M st (a + 8)) (put (?n + 12) (M st (a + 12)) st)"
  have M2: "M ?st2 (b + 8) = (if b = ?p then M st (a + 8) else M st (b + 8))"
    "M ?st2 (b + 12) = (if b = ?n then M st (a + 12) else M st (b + 12))" if b: "\<exists>t. (b, t) \<in> F" for b
  proof -
    have q: "b + 16 \<le> 2 ^ 32" using b rng(1) by blast
    have "?p = z \<or> (\<exists>t. (?p, t) \<in> F)" "?n = z \<or> (\<exists>t. (?n, t) \<in> F)" using pn inF xy by auto
    with b apart_words [OF ap] have "b + 8 \<noteq> ?n + 12" "b + 12 \<noteq> ?p + 8"
      by (metis add_left_cancel numeral_eq_iff semiring_norm(85,86,87,88,89,90))+
    with q pn32 show "M ?st2 (b + 8) = (if b = ?p then M st (a + 8) else M st (b + 8))"
      "M ?st2 (b + 12) = (if b = ?n then M st (a + 12) else M st (b + 12))" by (simp_all add: M_put)
  qed
  have dl: "dlist z (M ?st2) (if xs = [] then M st (a + 8) else blocks st ! f ! l) (xs @ ys)"
    using L(2) zL xy M2 inF by (intro dlist_unlink [OF L(1) [unfolded xy]]) auto
  have ne0: "(of_nat ?p :: u32) \<noteq> 0" "(of_nat ?n :: u32) \<noteq> 0" using pn32 by (simp_all add: of_nat_0_u32)
  have hd: "blocks st ! f ! l = of_nat a \<longleftrightarrow> xs = []"
  proof -
    have "of_nat (hd xs) \<noteq> (of_nat a :: u32)" if "xs \<noteq> []"
    proof -
      have "hd xs \<in> set L" using that xy by simp
      then have "hd xs < 2 ^ 32" using b32 [of "hd xs"] by auto
      moreover have "hd xs \<noteq> a" using L(2) xy that by (metis UnCI disjoint_iff distinct_append hd_in_set list.set_intros(1))
      ultimately show ?thesis using pn32(5) by (simp add: of_nat_eq_u32)
    qed
    then show ?thesis using lk(3) by auto
  qed
  have nz: "M st (a + 8) = of_nat z \<longleftrightarrow> ys = []"
  proof -
    have "?n = z \<longleftrightarrow> ys = []" using zL xy by (cases ys) (auto simp: next_of_def)
    moreover have "z < 2 ^ 32" using rng(3) by simp
    ultimately show ?thesis using lk(2) pn32 by (simp add: of_nat_eq_u32)
  qed
  let ?F = "F - {(a, s)}"
  have mem: "members ?F k = (if k = (f, l) then set (xs @ ys) else members F k)" for k
    using members_diff [OF ap a, of k] c L(2,3) xy by auto
  have on: "only (link_words z ?F) st ?st2"
  proof -
    have "?p = z \<or> (\<exists>t. (?p, t) \<in> ?F)" "?n = z \<or> (\<exists>t. (?n, t) \<in> ?F)" using pn inF L(2) xy by fastforce+
    then have "{?p + 8, ?n + 12} \<subseteq> link_words z ?F"
      using link_words_in [of ?p z ?F] link_words_in [of ?n z ?F] by blast
    moreover have "only {?p + 8, ?n + 12} st ?st2" using pn32 by (simp add: only_def M_put)
    ultimately show ?thesis by (rule only_mono [rotated])
  qed
  have wd: "M ?st2 (b + 8) = M st (b + 8) \<and> M ?st2 (b + 12) = M st (b + 12)"
    if "d \<noteq> (f, l)" "b \<in> members F d" for b d
  proof -
    have b: "\<exists>t. (b, t) \<in> F" using that memberD by blast
    have "b \<notin> set L" using members_disjoint [OF ap, of b "(f, l)" d] that L(3) by blast
    moreover have "b \<noteq> z" using b rng(6) by blast
    ultimately have "b \<noteq> ?p" "b \<noteq> ?n" using pn xy by auto
    then show ?thesis using M2 [OF b] by simp
  qed
  have len: "length (blocks st) = 24" "length (blocks st ! f) = 32" "length (sl_bitmap st) = 24"
    using sh(1) fl24 by (simp_all add: shape_def)
  have start: "remove_free_block (of_nat a) f l st =
    (if xs = [] then
       (let st = set_block f l (M st (a + 8)) ?st2; sl = sl_bitmap st ! f AND NOT (push_bit l 1) in
        if ys = [] then Some ((if sl = 0 then st\<lparr>fl_bitmap := fl_bitmap st AND NOT (push_bit f 1)\<rparr> else st)
            \<lparr>sl_bitmap := (sl_bitmap st)[f := sl]\<rparr>)
        else Some st)
     else Some ?st2)"
    using ne0 hd nz sh(2) fl24 len lk(1,2)
    by (simp add: remove_free_block_def get_block_def get_sl_bitmap_def field_M store_put Let_def set_block_def)
  have blk: "bit (fl_bitmap st) f" using fl fl24 bl by (auto simp: flists_def)
  have nm: "(if xs = [] then M st (a + 8) else blocks st ! f ! l) = blocks st' ! f ! l"
    if "blocks st' = (if xs = [] then (blocks st)[f := (blocks st ! f)[l := M st (a + 8)]] else blocks st)" for st' :: tlsf
    using that fl24 len by simp
  have fb: "bit (fl_bitmap st) f' \<longleftrightarrow> f' < 24 \<and> sl_bitmap st ! f' \<noteq> 0" if "f' < 32" for f'
    using fl that by (auto simp: flists_def)
  show ?thesis
  proof (rule that)
    let ?sl = "sl_bitmap st ! f AND NOT (push_bit l 1)"
    let ?e = "xs = [] \<and> ys = []"
    let ?st' = "?st2\<lparr>fl_bitmap := (if ?e \<and> ?sl = 0 then fl_bitmap st AND NOT (push_bit f 1) else fl_bitmap st),
      sl_bitmap := (if ?e then (sl_bitmap st)[f := ?sl] else sl_bitmap st),
      blocks := (if xs = [] then (blocks st)[f := (blocks st ! f)[l := M st (a + 8)]] else blocks st)\<rparr>"
    have MM: "M ?st' = M ?st2" by (simp add: M_def fun_eq_iff)
    show "remove_free_block (of_nat a) f l st = Some ?st'"
      unfolding start by (auto simp: set_block_def Let_def)
    show "only (link_words z ?F) st ?st'" using on unfolding only_def MM .
    show "flists z ?st' ?F"
    proof (rule flists_update [OF fl fl24])
      show "members ?F d = members F d" if "d \<noteq> (f, l)" for d using mem that by simp
      show "dlist z (M ?st') (blocks ?st' ! f ! l) (xs @ ys)"
        using dl unfolding MM by (subst (asm) nm [of ?st']) simp_all
      show "distinct (xs @ ys)" "set (xs @ ys) = members ?F (f, l)" using L(2) xy mem by auto
      show "shape ?st'" using shape_update [OF sh(1) fl24(1)] sh(1) by (simp add: shape_def)
      show "blocks ?st' ! f' ! l' = blocks st ! f' ! l'" if "f' < 24" "l' < 32" "(f', l') \<noteq> (f, l)" for f' l'
        using that len by (cases "f' = f"; cases "l' = l") simp_all
      show "sl_bitmap ?st' ! f' = sl_bitmap st ! f'" if "f' < 24" "f' \<noteq> f" for f' using that by simp
      show "bit (sl_bitmap ?st' ! f) l' \<longleftrightarrow> (if l' = l then xs @ ys \<noteq> [] else bit (sl_bitmap st ! f) l')"
        if "l' < 32" for l' using that bl len fl24 bit_clear [OF that] by (cases ?e) auto
      show "bit (fl_bitmap ?st') f' \<longleftrightarrow> (if f' = f then sl_bitmap ?st' ! f \<noteq> 0 else bit (fl_bitmap st) f')"
        if "f' < 32" for f'
        using fb [OF that] blk len fl24 bit_clear [OF that, of "fl_bitmap st" f] bl by (cases ?e) auto
      show "M ?st' (b + 8) = M st (b + 8) \<and> M ?st' (b + 12) = M st (b + 12)"
        if "d \<noteq> (f, l)" "b \<in> members F d" for d b unfolding MM using that by (rule wd)
      show "block_null ?st' = block_null st" by simp
    qed
  qed
qed

lemma members_insert: "members (insert (a, s) F) k = (if k = mapping_insert (of_nat s) then insert a (members F k) else members F k)"
  by (auto simp: members_def)

lemma insert_free_block_spec:
  assumes fl: "flists z st F" and ap: "apart z (insert (a, s) F)" and a: "(a, s) \<notin> F"
    and c: "mapping_insert (of_nat s) = (f, l)"
  obtains st' where "insert_free_block (of_nat a) f l st = Some st'" "flists z st' (insert (a, s) F)"
    "only (link_words z (insert (a, s) F)) st st'"
proof -
  let ?F = "insert (a, s) F"
  note rng = apart_range [OF ap]
  have in1: "(a, s) \<in> ?F" by simp
  have fl24: "f < 24" "l < 32" using mapping_range [of s] rng(5) [OF in1] c by simp_all
  from flistsD [OF fl this] obtain L where L: "dlist z (M st) (blocks st ! f ! l) L" "distinct L"
      "set L = members F (f, l)" .
  have sh: "shape st" "block_null st = of_nat z" using fl by (simp_all add: flists_def)
  have len: "length (blocks st) = 24" "length (blocks st ! f) = 32" "length (sl_bitmap st) = 24"
    using sh(1) fl24 by (simp_all add: shape_def)
  have inF: "\<exists>t. (b, t) \<in> F" if "b \<in> set L" for b using that L(3) memberD by blast
  have na: "b \<noteq> a" if "(b, t) \<in> F" for b t using rng(7) [of b s t] that a by auto
  have aL: "a \<notin> set L" using inF na by blast
  let ?h = "if L = [] then z else hd L"
  have h: "blocks st ! f ! l = of_nat ?h"
    using L(1) dls_head [of "M st" "of_nat z" "blocks st ! f ! l" L _ "of_nat z"] by (auto simp: dlist_def)
  have hF: "?h = z \<or> (\<exists>t. (?h, t) \<in> F)" using inF [of "hd L"] by simp
  have h32: "0 < ?h" "?h + 16 \<le> 2 ^ 32"
  proof -
    show "0 < ?h" using hF rng(2,4) by (metis insertCI)
    show "?h + 16 \<le> 2 ^ 32" using hF rng(1,3) by (metis insertCI)
  qed
  have a32: "0 < a" "a + 16 \<le> 2 ^ 32" using rng(1,2) [OF in1] by simp_all
  let ?st2 = "put (?h + 12) (of_nat a) (put (a + 12) (of_nat z) (put (a + 8) (of_nat ?h) st))"
  have M2: "M ?st2 (b + 8) = M st (b + 8)"
    "M ?st2 (b + 12) = (if b = ?h then of_nat a else M st (b + 12))" if b: "(b, t) \<in> F" for b t
  proof -
    have q: "b + 16 \<le> 2 ^ 32" "(b, t) \<in> ?F" "b \<noteq> a" using b rng(1) na by auto
    have hh: "?h = z \<or> (\<exists>t. (?h, t) \<in> ?F)" using hF by auto
    have "b + 8 \<noteq> ?h + 12" using apart_words(1) [OF ap q(2) hh] by (cases "b = ?h") linarith+
    with q a32 h32 apart_words [OF ap in1, of b] show "M ?st2 (b + 8) = M st (b + 8)"
      "M ?st2 (b + 12) = (if b = ?h then of_nat a else M st (b + 12))" by (auto simp: M_put)
  qed
  have az: "a \<noteq> ?h"
  proof
    assume e: "a = ?h"
    show False
    proof (cases L)
      case Nil
      with e rng(6) [OF in1] show ?thesis by simp
    next
      case (Cons b bs)
      with e aL show ?thesis by simp
    qed
  qed
  have Ma: "M ?st2 (a + 8) = of_nat ?h" "M ?st2 (a + 12) = of_nat z"
    using a32 h32 az apart_words [OF ap in1, of ?h] hF by (auto simp: M_put)
  have dl: "dlist z (M ?st2) (of_nat a) (a # L)"
  proof (rule dlist_push [OF L(1) aL])
    show "M ?st2 (a + 8) = blocks st ! f ! l" "M ?st2 (a + 12) = of_nat z" using Ma h by simp_all
    show "distinct L" by (rule L(2))
    show "\<forall>b \<in> set L. M ?st2 (b + 8) = M st (b + 8)
      \<and> M ?st2 (b + 12) = (if b = hd L then of_nat a else M st (b + 12))"
    proof
      fix b assume b: "b \<in> set L"
      then obtain t where "(b, t) \<in> F" using inF by blast
      with M2 [OF this] b show "M ?st2 (b + 8) = M st (b + 8)
        \<and> M ?st2 (b + 12) = (if b = hd L then of_nat a else M st (b + 12))" by (cases L) simp_all
    qed
  qed
  have mem: "members ?F k = (if k = (f, l) then set (a # L) else members F k)" for k
    using members_insert [of a s F k] c L(3) by auto
  have on: "only (link_words z ?F) st ?st2"
  proof -
    have "{?h + 12} \<subseteq> link_words z ?F" "{a + 8, a + 12} \<subseteq> link_words z ?F"
      using hF link_words_in [of ?h z ?F] link_words_in [of a z ?F] by blast+
    moreover have "only {?h + 12, a + 8, a + 12} st ?st2" using h32 a32 by (simp add: only_def M_put)
    ultimately show ?thesis by (elim only_mono) auto
  qed
  have wd: "M ?st2 (b + 8) = M st (b + 8) \<and> M ?st2 (b + 12) = M st (b + 12)"
    if "d \<noteq> (f, l)" "b \<in> members F d" for b d
  proof -
    have "\<exists>t. (b, t) \<in> F" using memberD [OF that(2)] by blast
    then obtain t where b: "(b, t) \<in> F" ..
    have "apart z F" using ap by (rule apart_mono) blast
    then have "b \<notin> set L" using members_disjoint [of z F b "(f, l)" d] that L(3) by blast
    moreover have "b \<noteq> z" using b rng(6) [of b t] by blast
    ultimately have "b \<noteq> ?h" by (cases L) auto
    then show ?thesis using M2 [OF b] by simp
  qed
  have nz: "(of_nat a :: u32) \<noteq> 0" "(of_nat ?h :: u32) \<noteq> 0" using a32 h32 by (simp_all add: of_nat_0_u32)
  let ?sl = "sl_bitmap st ! f OR push_bit l 1"
  let ?st' = "?st2\<lparr>fl_bitmap := fl_bitmap st OR push_bit f 1, sl_bitmap := (sl_bitmap st)[f := ?sl],
     blocks := (blocks st)[f := (blocks st ! f)[l := of_nat a]]\<rparr>"
  have MM: "M ?st' = M ?st2" by (simp add: M_def fun_eq_iff)
  have fb: "bit (fl_bitmap st) f' \<longleftrightarrow> f' < 24 \<and> sl_bitmap st ! f' \<noteq> 0" if "f' < 32" for f'
    using fl that by (auto simp: flists_def)
  have "?sl \<noteq> 0" using word32_eq_0 [of ?sl] bit_set [OF fl24(2), of "sl_bitmap st ! f" l] fl24(2) by blast
  show ?thesis
  proof (rule that)
    show "insert_free_block (of_nat a) f l st = Some ?st'"
    proof -
      have "get_block f l st = Some (of_nat ?h)" using fl24 len h by (simp add: get_block_def)
      then show ?thesis using nz fl24 len sh(2)
        by (simp add: insert_free_block_def get_sl_bitmap_def set_block_def store_put)
    qed
    show "only (link_words z ?F) st ?st'" using on unfolding only_def MM .
    show "flists z ?st' ?F"
    proof (rule flists_update [OF fl fl24])
      show "members ?F d = members F d" if "d \<noteq> (f, l)" for d using mem that by simp
      show "dlist z (M ?st') (blocks ?st' ! f ! l) (a # L)" using dl len fl24 unfolding MM by simp
      show "distinct (a # L)" "set (a # L) = members ?F (f, l)" using L(2) aL mem by auto
      show "shape ?st'" using shape_update [OF sh(1) fl24(1)] sh(1) by (simp add: shape_def)
      show "blocks ?st' ! f' ! l' = blocks st ! f' ! l'" if "f' < 24" "l' < 32" "(f', l') \<noteq> (f, l)" for f' l'
        using that len by (cases "f' = f"; cases "l' = l") simp_all
      show "sl_bitmap ?st' ! f' = sl_bitmap st ! f'" if "f' < 24" "f' \<noteq> f" for f' using that by simp
      show "bit (sl_bitmap ?st' ! f) l' \<longleftrightarrow> (if l' = l then a # L \<noteq> [] else bit (sl_bitmap st ! f) l')"
        if "l' < 32" for l' using that len fl24 bit_set [OF that] by auto
      show "bit (fl_bitmap ?st') f' \<longleftrightarrow> (if f' = f then sl_bitmap ?st' ! f \<noteq> 0 else bit (fl_bitmap st) f')"
        if "f' < 32" for f' using len fl24 bit_set [OF that, of "fl_bitmap st" f] \<open>?sl \<noteq> 0\<close> by auto
      show "M ?st' (b + 8) = M st (b + 8) \<and> M ?st' (b + 12) = M st (b + 12)"
        if "d \<noteq> (f, l)" "b \<in> members F d" for d b unfolding MM using that by (rule wd)
      show "block_null ?st' = block_null st" by simp
    qed
  qed
qed

end
