(* ===== verification/TlsfAlloc.thy ===== *)
theory TlsfAlloc
  imports TlsfLists
begin

text \<open>
  The search over the bitmaps, the invariant of the whole heap, and what tlsf_malloc, tlsf_free and
  tlsf_create do to a heap in this invariant.
\<close>

section \<open>Searching a free block\<close>

lemma bit_above: "l < 32 \<Longrightarrow> bit (w AND push_bit k (- 1)) l \<longleftrightarrow> bit w l \<and> k \<le> l" for w :: u32
  by (auto simp: bit_simps)

lemma lowest_of:
  fixes w :: u32
  assumes "w \<noteq> 0"
  obtains j where "nat (tlsf_ffs w) = j" "j < 32" "bit w j"
  using lowest_bit [OF assms] by auto

lemma search_suitable_spec:
  assumes fl: "flists z st F" and ap: "apart z F" and b: "f < 24" "l < 32"
  obtains (none) "search_suitable_block f l st = Some (0, f, l)"
      "\<forall>a s. (a, s) \<in> F \<longrightarrow> \<not> class_le (f, l) (mapping_insert (of_nat s))"
  | (found) a s f' l' where "search_suitable_block f l st = Some (of_nat a, f', l')" "(a, s) \<in> F"
      "mapping_insert (of_nat s) = (f', l')" "class_le (f, l) (f', l')"
proof -
  have sh: "length (sl_bitmap st) = 24" "length (blocks st) = 24" "\<And>k. k < 24 \<Longrightarrow> length (blocks st ! k) = 32"
    using fl by (auto simp: flists_def shape_def)
  have fb: "bit (fl_bitmap st) k \<longleftrightarrow> k < 24 \<and> sl_bitmap st ! k \<noteq> 0" if "k < 32" for k
    using fl that by (auto simp: flists_def)
  let ?sl = "sl_bitmap st ! f AND push_bit l (- 1)" and ?fl = "fl_bitmap st AND push_bit (f + 1) (- 1)"
  have head: "\<exists>a s. get_block k j st = Some (of_nat a) \<and> (a, s) \<in> F \<and> mapping_insert (of_nat s) = (k, j)"
    if kj: "k < 24" "j < 32" and bit: "bit (sl_bitmap st ! k) j" for k j
  proof -
    from flistsD [OF fl kj] obtain L where L0: "dlist z (M st) (blocks st ! k ! j) L" "distinct L"
      and L1: "set L = members F (k, j)" "bit (sl_bitmap st ! k) j \<longleftrightarrow> members F (k, j) \<noteq> {}" .
    note L = L0(1) L1
    have ne: "L \<noteq> []" using L(2,3) bit by auto
    from L(1) obtain q where "dls (M st) (of_nat z) (blocks st ! k ! j) L q (of_nat z)" by (auto simp: dlist_def)
    from dls_head [OF this] ne have "blocks st ! k ! j = of_nat (hd L)" by simp
    moreover have "hd L \<in> members F (k, j)" using ne L(2) hd_in_set by metis
    then have "\<exists>s. (hd L, s) \<in> F \<and> mapping_insert (of_nat s) = (k, j)" by (rule memberD)
    then obtain s where "(hd L, s) \<in> F" "mapping_insert (of_nat s) = (k, j)" by blast
    ultimately show ?thesis using kj sh(2) sh(3) [OF kj(1)] by (auto simp: get_block_def)
  qed
  consider "?sl = 0" "?fl = 0" | "?sl \<noteq> 0" | "?sl = 0" "?fl \<noteq> 0" by blast
  then show ?thesis
  proof cases
    case 1
    have "\<not> class_le (f, l) (mapping_insert (of_nat s))" if as: "(a, s) \<in> F" for a s
    proof
      obtain f' l' where c: "mapping_insert (of_nat s) = (f', l')" by fastforce
      assume le: "class_le (f, l) (mapping_insert (of_nat s))"
      have r: "f' < 24" "l' < 32" using mapping_range [of s] apart_range(5) [OF ap as] c by simp_all
      have "bit (sl_bitmap st ! f') l'"
        using flistsD [OF fl r] as c by (auto simp: members_def)
      then have bl: "sl_bitmap st ! f' \<noteq> 0" using word32_eq_0 r by blast
      show False
      proof (cases "f' = f")
        case True
        with le c have "bit ?sl l'" using bit_above [OF r(2)] \<open>bit (sl_bitmap st ! f') l'\<close>
          by (auto simp: class_le_def)
        with 1 r show False by simp
      next
        case False
        with le c have "f + 1 \<le> f'" by (auto simp: class_le_def)
        then have "bit ?fl f'" using bit_above [of f' "fl_bitmap st" "f + 1"] fb [of f'] bl r by simp
        with 1 show False by simp
      qed
    qed
    moreover have "search_suitable_block f l st = Some (0, f, l)"
      unfolding search_suitable_block_def using 1 b sh by (simp add: get_sl_bitmap_def Let_def)
    ultimately show ?thesis by (intro none) blast+
  next
    case 2
    from lowest_of [OF 2] obtain j where j: "nat (tlsf_ffs ?sl) = j" "j < 32" "bit ?sl j" .
    then have "bit (sl_bitmap st ! f) j" "l \<le> j" using bit_above by blast+
    from head [OF b(1) j(2) this(1)] obtain a s where as: "get_block f j st = Some (of_nat a)"
      "(a, s) \<in> F" "mapping_insert (of_nat s) = (f, j)" by blast
    have "search_suitable_block f l st = Some (of_nat a, f, j)"
      unfolding search_suitable_block_def using 2 b sh as j(1) by (simp add: get_sl_bitmap_def Let_def)
    then show ?thesis using as \<open>l \<le> j\<close> by (intro found) (auto simp: class_le_def)
  next
    case 3
    from lowest_of [OF 3(2)] obtain k where k: "nat (tlsf_ffs ?fl) = k" "k < 32" "bit ?fl k" .
    then have k': "bit (fl_bitmap st) k" "f < k" using bit_above [OF k(2), of "fl_bitmap st" "f + 1"] by auto
    then have kk: "k < 24" "sl_bitmap st ! k \<noteq> 0" using fb [OF k(2)] by blast+
    from lowest_of [OF kk(2)] obtain j where j: "nat (tlsf_ffs (sl_bitmap st ! k)) = j" "j < 32"
      "bit (sl_bitmap st ! k) j" .
    from head [OF kk(1) j(2,3)] obtain a s where as: "get_block k j st = Some (of_nat a)"
      "(a, s) \<in> F" "mapping_insert (of_nat s) = (k, j)" by blast
    have "search_suitable_block f l st = Some (of_nat a, k, j)"
      unfolding search_suitable_block_def using 3 b sh as j(1) kk k(1) by (simp add: get_sl_bitmap_def Let_def)
    then show ?thesis using as k'(2) by (intro found) (auto simp: class_le_def)
  qed
qed

section \<open>The heap\<close>

definition frees :: "blk list \<Rightarrow> (nat \<times> nat) set" where
  "frees bs = {(a, s). (a, s, True) \<in> set bs}"

definition live :: "blk list \<Rightarrow> (nat \<times> nat) set" where
  "live bs = {(a, s). (a, s, False) \<in> set bs}"

fun separated :: "bool \<Rightarrow> blk list \<Rightarrow> bool" where
  "separated pf [] = True"
| "separated pf ((a, s, f) # bs) = (\<not> (pf \<and> f) \<and> separated f bs)"

definition placed :: "nat \<Rightarrow> nat \<Rightarrow> nat \<Rightarrow> bool" where
  "placed z a0 e \<longleftrightarrow> 0 < a0 \<and> 4 dvd a0 \<and> e + 8 \<le> 2 ^ 32 \<and> e \<le> a0 + 2 ^ 30 \<and> 0 < z \<and> z + 16 \<le> 2 ^ 32
     \<and> (z + 16 \<le> a0 \<or> e + 8 \<le> z)"

definition heap_ok :: "nat \<Rightarrow> nat \<Rightarrow> nat \<Rightarrow> blk list \<Rightarrow> tlsf \<Rightarrow> bool" where
  "heap_ok z a0 e bs st \<longleftrightarrow> placed z a0 e \<and> tiles a0 bs e \<and> headers st bs e
     \<and> flists z st (frees bs) \<and> separated False bs"

text \<open>The contents of the live blocks: \<open>tlsf_block_size\<close> bytes from the pointer on.\<close>

definition kept :: "(nat \<times> nat) set \<Rightarrow> tlsf \<Rightarrow> tlsf \<Rightarrow> bool" where
  "kept U st st' \<longleftrightarrow> (\<forall>(a, s) \<in> U. \<forall>n. a + 8 \<le> n \<longrightarrow> n < a + 8 + s \<longrightarrow> 4 dvd n \<longrightarrow> M st' n = M st n)"

lemma frees_simps [simp]: "frees [] = {}" "frees ((a, s, f) # bs) = (if f then insert (a, s) (frees bs) else frees bs)"
  "frees (xs @ ys) = frees xs \<union> frees ys"
  by (auto simp: frees_def)

lemma live_simps [simp]: "live [] = {}" "live ((a, s, f) # bs) = (if f then live bs else insert (a, s) (live bs))"
  "live (xs @ ys) = live xs \<union> live ys"
  by (auto simp: live_def)

lemma separated_append [simp]:
  "separated pf (xs @ ys) \<longleftrightarrow> separated pf xs \<and> separated (if xs = [] then pf else snd (snd (last xs))) ys"
  by (induction pf xs rule: separated.induct) auto

lemma hseg_last: "hseg m pf xs q \<Longrightarrow> q = (if xs = [] then pf else snd (snd (last xs)))"
  by (induction xs arbitrary: pf) auto

lemma tiles_in: "tiles a bs e \<Longrightarrow> (b, s, f) \<in> set bs \<Longrightarrow> a \<le> b \<and> b + 4 + s \<le> e \<and> 12 \<le> s \<and> 4 dvd s"
proof (induction a bs e rule: tiles.induct)
  case (2 a b0 s0 f0 bs e)
  then have "tiles (a + 4 + s0) bs e" by simp
  with tiles_le [OF this] 2 show ?case by auto
qed simp

lemma tiles_dvd: "tiles a bs e \<Longrightarrow> 4 dvd a \<Longrightarrow> (4 dvd e) \<and> (\<forall>(b, s, f) \<in> set bs. 4 dvd b)"
  by (induction a bs e rule: tiles.induct) auto

lemma tiles_apart:
  assumes "tiles a bs e" "(b, s, f) \<in> set bs" "(c, t, g) \<in> set bs"
  shows "b = c \<and> s = t \<and> f = g \<or> b + 4 + s \<le> c \<or> c + 4 + t \<le> b"
  using assms
proof (induction a bs e rule: tiles.induct)
  case (2 a b0 s0 f0 bs e)
  then have t: "tiles (a + 4 + s0) bs e" "b0 = a" by auto
  have "a + 4 + s0 \<le> b" if "(b, s, f) \<in> set bs" using tiles_in [OF t(1) that] by simp
  moreover have "a + 4 + s0 \<le> c" if "(c, t, g) \<in> set bs" using tiles_in [OF t(1) that] by simp
  ultimately show ?case using 2 t by auto
qed simp


section \<open>A heap with a hole\<close>

text \<open>
  While an operation works on the memory from \<open>a\<close> up to \<open>b\<close>, the rest of the heap is in order. At
  most one block inside the hole is on the free lists.
\<close>

definition inside :: "nat \<Rightarrow> nat \<Rightarrow> (nat \<times> nat) set \<Rightarrow> bool" where
  "inside a b F \<longleftrightarrow> (\<exists>x. F \<subseteq> {x}) \<and> (\<forall>(c, t) \<in> F. a \<le> c \<and> c + 4 + t \<le> b \<and> 12 \<le> t)"

definition hole :: "nat \<Rightarrow> nat \<Rightarrow> nat \<Rightarrow> blk list \<Rightarrow> bool \<Rightarrow> nat \<Rightarrow> nat \<Rightarrow> bool \<Rightarrow> blk list \<Rightarrow> (nat \<times> nat) set \<Rightarrow> tlsf \<Rightarrow> bool" where
  "hole z a0 e xs g a b pf ys F st \<longleftrightarrow> placed z a0 e \<and> gap a0 e xs g a b pf ys st
     \<and> inside a b F \<and> flists z st (frees xs \<union> frees ys \<union> F)"

lemma inside_simps [simp]: "inside a b {}" "inside a b {(c, t)} \<longleftrightarrow> a \<le> c \<and> c + 4 + t \<le> b \<and> 12 \<le> t"
  by (auto simp: inside_def)

lemma placedD:
  assumes "placed z a0 e"
  shows "0 < a0" "4 dvd a0" "e + 8 \<le> 2 ^ 32" "e \<le> a0 + 2 ^ 30" "0 < z" "z + 16 \<le> 2 ^ 32"
    "z + 16 \<le> a0 \<or> e + 8 \<le> z"
  using assms by (simp_all add: placed_def)

lemma gapD:
  assumes "gap a0 e xs g a b pf ys st"
  shows "tiles a0 xs a" "tiles b ys e" "a \<le> b" "hseg (M st) False xs g"
    "hseg (M st) pf (ys @ [(e, 0, False)]) False"
  using assms by (simp_all add: gap_def)

lemma gap_block:
  assumes "gap a0 e xs g a b pf ys st" and "(c, t, f) \<in> set xs \<union> set ys"
  shows "a0 \<le> c" "c + 4 + t \<le> e" "12 \<le> t" "4 dvd t" "c + 4 + t \<le> a \<or> b \<le> c"
  using assms(2) tiles_in [OF gapD(1) [OF assms(1)]] tiles_in [OF gapD(2) [OF assms(1)]] gap_bounds [OF assms(1)]
  by (force)+

lemma gap_blocks:
  assumes g: "gap a0 e xs g a b pf ys st" and i: "inside a b F"
    and c: "(c, t, f) \<in> set xs \<union> set ys" and d: "(d, u) \<in> frees xs \<union> frees ys \<union> F"
  shows "c = d \<and> t = u \<and> f \<or> c + 4 + t \<le> d \<or> d + 4 + u \<le> c"
proof (cases "(d, u) \<in> F")
  case True
  then have "a \<le> d \<and> d + 4 + u \<le> b" using i by (auto simp: inside_def)
  with gap_block(5) [OF g c] show ?thesis by linarith
next
  case False
  then have d': "(d, u, True) \<in> set xs \<union> set ys" using d by (auto simp: frees_def)
  from c d' consider "(c, t, f) \<in> set xs" "(d, u, True) \<in> set xs" | "(c, t, f) \<in> set ys" "(d, u, True) \<in> set ys"
    | "(c, t, f) \<in> set xs" "(d, u, True) \<in> set ys" | "(c, t, f) \<in> set ys" "(d, u, True) \<in> set xs" by blast
  then show ?thesis
  proof cases
    case 1
    then show ?thesis using tiles_apart [OF gapD(1) [OF g]] by blast
  next
    case 2
    then show ?thesis using tiles_apart [OF gapD(2) [OF g]] by blast
  next
    case 3
    then show ?thesis using tiles_in [OF gapD(1) [OF g]] tiles_in [OF gapD(2) [OF g]] gapD(3) [OF g] by fastforce
  next
    case 4
    then show ?thesis using tiles_in [OF gapD(1) [OF g]] tiles_in [OF gapD(2) [OF g]] gapD(3) [OF g] by fastforce
  qed
qed

lemma hole_free:
  assumes p: "placed z a0 e" and g: "gap a0 e xs g a b pf ys st" and i: "inside a b F"
    and d: "(d, u) \<in> frees xs \<union> frees ys \<union> F"
  shows "a0 \<le> d" "d + 4 + u \<le> e" "12 \<le> u"
proof -
  have "(d, u, True) \<in> set xs \<union> set ys \<or> (d, u) \<in> F" using d by (auto simp: frees_def)
  then have "a0 \<le> d \<and> d + 4 + u \<le> e \<and> 12 \<le> u"
  proof
    assume "(d, u, True) \<in> set xs \<union> set ys"
    from gap_block [OF g this] show ?thesis by simp
  next
    assume "(d, u) \<in> F"
    with i have "a \<le> d \<and> d + 4 + u \<le> b \<and> 12 \<le> u" by (auto simp: inside_def)
    with gap_bounds [OF g] show ?thesis by simp
  qed
  then show "a0 \<le> d" "d + 4 + u \<le> e" "12 \<le> u" by simp_all
qed

lemma hole_apart:
  assumes p: "placed z a0 e" and g: "gap a0 e xs g a b pf ys st" and i: "inside a b F"
  shows "apart z (frees xs \<union> frees ys \<union> F)"
  unfolding apart_def
proof (intro conjI allI impI)
  show "0 < z" "z + 16 \<le> 2 ^ 32" using placedD [OF p] by simp_all
next
  fix d u assume d: "(d, u) \<in> frees xs \<union> frees ys \<union> F"
  note h = hole_free [OF p g i d] placedD [OF p]
  from h show "0 < d" "d + 16 \<le> 2 ^ 32" "u < 2 ^ 30" "z + 8 \<le> d \<or> d + 8 \<le> z" by linarith+
  fix c t assume c: "(c, t) \<in> frees xs \<union> frees ys \<union> F"
  show "d = c \<and> u = t \<or> d + 16 \<le> c \<or> c + 16 \<le> d"
  proof (cases "(c, t) \<in> F \<and> (d, u) \<in> F")
    case True
    then show ?thesis using i by (auto simp: inside_def)
  next
    case False
    then consider "(c, t, True) \<in> set xs \<union> set ys" | "(d, u, True) \<in> set xs \<union> set ys"
      using c d by (auto simp: frees_def)
    then show ?thesis
    proof cases
      case 1
      from gap_blocks [OF g i this d] h hole_free [OF p g i c] show ?thesis by linarith
    next
      case 2
      from gap_blocks [OF g i this c] h hole_free [OF p g i c] show ?thesis by linarith
    qed
  qed
qed


text \<open>Writes to the links of free blocks leave the headers and the contents of live blocks.\<close>

lemma hseg_same:
  assumes "\<forall>(c, t, f) \<in> set xs. m' (c + 4) = m (c + 4) \<and> (f \<longrightarrow> m' (c + 4 + t) = m (c + 4 + t))"
    and "hseg m pf xs q"
  shows "hseg m' pf xs q"
  using assms by (induction xs arbitrary: pf) auto

lemma link_word_cases:
  assumes "n \<in> link_words z F"
  obtains "n = z + 8 \<or> n = z + 12" | d u where "(d, u) \<in> F" "n = d + 8 \<or> n = d + 12"
  using assms by (auto simp: link_words_def)

lemma links_avoid:
  assumes p: "placed z a0 e" and g: "gap a0 e xs g a b pf ys st" and i: "inside a b F"
    and n: "n \<in> link_words z (frees xs \<union> frees ys \<union> F)"
  shows "n \<noteq> e + 4" "n \<noteq> a + 4" "n \<noteq> b"
    and "(c, t, f) \<in> set xs \<union> set ys \<Longrightarrow> n \<noteq> c + 4" "(c, t, f) \<in> set xs \<union> set ys \<Longrightarrow> n \<noteq> c + 4 + t"
    and "(c, t, False) \<in> set xs \<union> set ys \<Longrightarrow> n < c + 8 \<or> c + 8 + t \<le> n"
    and "(d, u) \<in> F \<Longrightarrow> n \<noteq> d + 4 \<and> n \<noteq> d + 4 + u"
proof -
  note pd = placedD [OF p]
  note bd = gap_bounds [OF g]
  have F: "a \<le> d \<and> d + 4 + u \<le> b \<and> 12 \<le> u" if "(d, u) \<in> F" for d u
    using i that by (auto simp: inside_def)
  have all: "(n \<noteq> e + 4 \<and> n \<noteq> a + 4 \<and> n \<noteq> b) \<and> (\<forall>c t f. (c, t, f) \<in> set xs \<union> set ys \<longrightarrow>
      n \<noteq> c + 4 \<and> n \<noteq> c + 4 + t \<and> (f \<or> n < c + 8 \<or> c + 8 + t \<le> n)) \<and> (\<forall>d u. (d, u) \<in> F \<longrightarrow> n \<noteq> d + 4 \<and> n \<noteq> d + 4 + u)"
    using n
  proof (cases rule: link_word_cases)
    case 1
    have n: "n < a0 \<or> e + 4 < n" using 1 pd(7) by linarith
    then have "n \<noteq> c + 4 \<and> n \<noteq> c + 4 + t \<and> (f \<or> n < c + 8 \<or> c + 8 + t \<le> n)"
      if "(c, t, f) \<in> set xs \<union> set ys" for c t f
      using gap_block [OF g that] by linarith
    moreover have "n \<noteq> d + 4 \<and> n \<noteq> d + 4 + u" if "(d, u) \<in> F" for d u
      using F [OF that] bd n by linarith
    moreover have "n \<noteq> e + 4 \<and> n \<noteq> a + 4 \<and> n \<noteq> b" using n bd by linarith
    ultimately show ?thesis by blast
  next
    case (2 d u)
    note h = hole_free [OF p g i 2(1)]
    have "n \<noteq> c + 4 \<and> n \<noteq> c + 4 + t \<and> (f \<or> n < c + 8 \<or> c + 8 + t \<le> n)" if "(c, t, f) \<in> set xs \<union> set ys" for c t f
      using gap_blocks [OF g i that 2(1)] gap_block [OF g that] h 2(2) by auto
    moreover have pos: "(a \<le> d \<and> d + 4 + u \<le> b) \<or> d + 4 + u \<le> a \<or> b \<le> d"
    proof (cases "(d, u) \<in> F")
      case True
      with F show ?thesis by blast
    next
      case False
      then have "(d, u, True) \<in> set xs \<union> set ys" using 2(1) by (auto simp: frees_def)
      from gap_block(5) [OF g this] show ?thesis by blast
    qed
    then have "n \<noteq> e + 4 \<and> n \<noteq> a + 4 \<and> n \<noteq> b" using h 2(2) bd by linarith
    moreover have "n \<noteq> d' + 4 \<and> n \<noteq> d' + 4 + u'" if d': "(d', u') \<in> F" for d' u'
    proof (cases "(d, u) \<in> F")
      case True
      then have "d = d'" "u = u'" using i d' by (auto simp: inside_def)
      with h 2(2) show ?thesis by linarith
    next
      case False
      then have "(d, u, True) \<in> set xs \<union> set ys" using 2(1) by (auto simp: frees_def)
      from gap_block(5) [OF g this] F [OF d'] h 2(2) show ?thesis by linarith
    qed
    ultimately show ?thesis by blast
  qed
  show "n \<noteq> e + 4" "n \<noteq> a + 4" "n \<noteq> b" using all by simp_all
  show "(c, t, f) \<in> set xs \<union> set ys \<Longrightarrow> n \<noteq> c + 4" "(c, t, f) \<in> set xs \<union> set ys \<Longrightarrow> n \<noteq> c + 4 + t"
    "(c, t, False) \<in> set xs \<union> set ys \<Longrightarrow> n < c + 8 \<or> c + 8 + t \<le> n"
    using all by blast+
  show "(d, u) \<in> F \<Longrightarrow> n \<noteq> d + 4 \<and> n \<noteq> d + 4 + u" using all by blast
qed

lemma gap_links:
  assumes p: "placed z a0 e" and g: "gap a0 e xs g a b pf ys st" and i: "inside a b F"
    and o: "only (link_words z (frees xs \<union> frees ys \<union> F)) st st'"
  shows "gap a0 e xs g a b pf ys st'" "kept (live xs \<union> live ys) st st'"
    "M st' (a + 4) = M st (a + 4)" "M st' b = M st b"
    "(d, u) \<in> F \<Longrightarrow> M st' (d + 4) = M st (d + 4) \<and> M st' (d + 4 + u) = M st (d + 4 + u)"
proof -
  note av = links_avoid [OF p g i]
  note bd = gap_bounds [OF g]
  have eq: "M st' n = M st n" if "n \<le> e + 4" "n \<notin> link_words z (frees xs \<union> frees ys \<union> F)" for n
  proof -
    have "n < 2 ^ 32" using that(1) bd by simp
    with o that(2) show ?thesis by (simp add: only_def)
  qed
  have blk: "M st' (c + 4) = M st (c + 4) \<and> M st' (c + 4 + t) = M st (c + 4 + t)"
    if "(c, t, f) \<in> set xs \<union> set ys" for c t f
    using gap_block [OF g that] av(4,5) [OF _ that] by (intro conjI eq notI) auto
  have "hseg (M st') False xs g" using blk by (intro hseg_same [OF _ gapD(4) [OF g]]) auto
  moreover have "M st' (e + 4) = M st (e + 4)" using av(1) by (intro eq) auto
  then have "hseg (M st') pf (ys @ [(e, 0, False)]) False"
    using blk by (intro hseg_same [OF _ gapD(5) [OF g]]) auto
  ultimately show "gap a0 e xs g a b pf ys st'" using g by (simp add: gap_def)
  show "M st' (a + 4) = M st (a + 4)" using bd av(2) by (intro eq) auto
  show "M st' b = M st b" using bd av(3) by (intro eq) auto
  show "M st' (d + 4) = M st (d + 4) \<and> M st' (d + 4 + u) = M st (d + 4 + u)" if d: "(d, u) \<in> F"
  proof -
    have "d + 4 + u \<le> b" using i d by (auto simp: inside_def)
    then show ?thesis using bd av(7) [OF _ d] by (intro conjI eq) auto
  qed
  show "kept (live xs \<union> live ys) st st'"
    unfolding kept_def
  proof (intro ballI, clarify)
    fix c t n assume n: "c + 8 \<le> n" "n < c + 8 + t" "(c, t) \<in> live xs \<union> live ys"
    then have c: "(c, t, False) \<in> set xs \<union> set ys" by (auto simp: live_def)
    show "M st' n = M st n" using n gap_block [OF g c] av(6) [OF _ c] by (intro eq) (linarith, force)
  qed
qed

lemma links_hole:
  assumes p: "placed z a0 e" and g: "gap a0 e xs g a b pf ys st" and i: "inside a b F"
    and n: "n \<in> link_words z (frees xs \<union> frees ys \<union> F)" and r: "a \<le> n" "n \<le> b + 4"
  shows "\<exists>d u. (d, u) \<in> F \<and> (n = d + 8 \<or> n = d + 12)"
  using n
proof (cases rule: link_word_cases)
  case 1
  then show ?thesis using placedD(7) [OF p] gap_bounds [OF g] r by linarith
next
  case (2 d u)
  have "(d, u) \<in> F"
  proof (rule ccontr)
    assume "(d, u) \<notin> F"
    then have "(d, u, True) \<in> set xs \<union> set ys" using 2(1) by (auto simp: frees_def)
    from gap_block [OF g this] 2(2) r show False by linarith
  qed
  then show ?thesis using 2(2) by blast
qed

lemma flists_frame:
  assumes fl: "flists z st F" and s: "same_tables st st'" and m: "\<forall>n \<in> link_words z F. M st' n = M st n"
  shows "flists z st' F"
proof -
  have "class_ok z st' f l (members F (f, l))" if "f < 24" "l < 32" for f l
  proof -
    from flistsD [OF fl that] obtain L where L: "dlist z (M st) (blocks st ! f ! l) L" "distinct L"
      "set L = members F (f, l)" "bit (sl_bitmap st ! f) l \<longleftrightarrow> members F (f, l) \<noteq> {}" .
    from L(1) obtain q where "dls (M st) (of_nat z) (blocks st ! f ! l) L q (of_nat z)"
      unfolding dlist_def by blast
    then have "dls (M st') (of_nat z) (blocks st ! f ! l) L q (of_nat z)"
    proof (rule dls_frame, intro ballI)
      fix b assume "b \<in> set L"
      then have "\<exists>t. (b, t) \<in> F" using L(3) memberD by blast
      then show "M st' (b + 8) = M st (b + 8) \<and> M st' (b + 12) = M st (b + 12)"
        using m link_words_in [of b z F] by blast
    qed
    then have "dlist z (M st') (blocks st' ! f ! l) L"
      using s unfolding dlist_def same_tables_def by auto
    with L s show ?thesis unfolding class_ok_def same_tables_def by auto
  qed
  then show ?thesis using fl s by (simp add: flists_def shape_def same_tables_def)
qed

lemma hole_writes:
  assumes h: "hole z a0 e xs g a b pf ys {} st" and g': "gap a0 e xs g a b pf' ys st'"
    and s: "same_tables st st'" and o: "only A st st'" and A: "\<forall>n \<in> A. a + 4 \<le> n \<and> n \<le> b + 4"
  shows "hole z a0 e xs g a b pf' ys {} st'" "kept (live xs \<union> live ys) st st'"
proof -
  have p: "placed z a0 e" and g: "gap a0 e xs g a b pf ys st" and fl: "flists z st (frees xs \<union> frees ys)"
    using h by (simp_all add: hole_def)
  note bd = gap_bounds [OF g]
  note pd = placedD [OF p]
  have eq: "M st' n = M st n" if "n < a + 4 \<or> b + 4 < n" "n < 2 ^ 32" for n
    using that o A unfolding only_def by force
  have "M st' n = M st n" if n: "n \<in> link_words z (frees xs \<union> frees ys)" for n
  proof (rule eq)
    show "n < a + 4 \<or> b + 4 < n"
    proof (rule ccontr)
      assume "\<not> (n < a + 4 \<or> b + 4 < n)"
      then have "a \<le> n" "n \<le> b + 4" by simp_all
      with links_hole [OF p g inside_simps(1)] n show False by simp
    qed
    show "n < 2 ^ 32" using n
    proof (cases rule: link_word_cases)
      case 1
      with pd show ?thesis by linarith
    next
      case (2 d u)
      with hole_free [OF p g inside_simps(1), of d u] bd show ?thesis by force
    qed
  qed
  with flists_frame [OF fl s] p g' show "hole z a0 e xs g a b pf' ys {} st'" by (simp add: hole_def)
  show "kept (live xs \<union> live ys) st st'"
    unfolding kept_def
  proof (intro ballI, clarify)
    fix c t n assume n: "c + 8 \<le> n" "n < c + 8 + t" "(c, t) \<in> live xs \<union> live ys" "4 dvd n"
    then have c: "(c, t, False) \<in> set xs \<union> set ys" by (auto simp: live_def)
    note gb = gap_block [OF g c]
    have "n < a + 4 \<or> b + 4 < n" "n < 2 ^ 32" using n gb bd by linarith+
    then show "M st' n = M st n" by (rule eq)
  qed
qed

lemma kept_trans: "kept U st st' \<Longrightarrow> kept U st' st'' \<Longrightarrow> kept U st st''"
  by (fastforce simp: kept_def)

lemma kept_mono: "kept U st st' \<Longrightarrow> V \<subseteq> U \<Longrightarrow> kept V st st'"
  by (auto simp: kept_def)

lemma kept_refl [simp]: "kept U st st"
  by (simp add: kept_def)

text \<open>Memory of the hole that is not a link of the block in it.\<close>

definition stay :: "nat \<Rightarrow> nat \<Rightarrow> nat \<Rightarrow> tlsf \<Rightarrow> tlsf \<Rightarrow> bool" where
  "stay a b c st st' \<longleftrightarrow> (\<forall>n. a \<le> n \<longrightarrow> n \<le> b + 4 \<longrightarrow> n \<noteq> c + 8 \<longrightarrow> n \<noteq> c + 12 \<longrightarrow> M st' n = M st n)"

lemma gap_stay:
  assumes p: "placed z a0 e" and g: "gap a0 e xs g a b pf ys st" and i: "inside a b {(c, t)}"
    and o: "only (link_words z (frees xs \<union> frees ys \<union> F)) st st'" and F: "F \<subseteq> {(c, t)}"
  shows "stay a b c st st'"
  unfolding stay_def
proof (intro allI impI)
  fix n assume n: "a \<le> n" "n \<le> b + 4" "n \<noteq> c + 8" "n \<noteq> c + 12"
  have "n \<notin> link_words z (frees xs \<union> frees ys \<union> F)"
  proof
    assume "n \<in> link_words z (frees xs \<union> frees ys \<union> F)"
    moreover have "inside a b F" using i F by (auto simp: inside_def)
    ultimately show False using links_hole [OF p g _ _ n(1,2), of F] F n by auto
  qed
  moreover have "n < 2 ^ 32" using n gap_bounds [OF g] by simp
  ultimately show "M st' n = M st n" using o by (simp add: only_def)
qed

lemma hole_insert:
  assumes h: "hole z a0 e xs g a b pf ys {} st" and c: "a \<le> c" "c + 4 + t \<le> b" "12 \<le> t" "4 dvd t"
    and m: "M st (c + 4) = hdr t f q"
  obtains st' where "block_insert (of_nat c) st = Some st'" "hole z a0 e xs g a b pf ys {(c, t)} st'"
    "kept (live xs \<union> live ys) st st'" "stay a b c st st'"
proof -
  have p: "placed z a0 e" and g: "gap a0 e xs g a b pf ys st" and fl: "flists z st (frees xs \<union> frees ys)"
    using h by (simp_all add: hole_def)
  have i: "inside a b {(c, t)}" using c by simp
  have lt: "t < 2 ^ 32" using c gap_bounds [OF g] by simp
  obtain k l where kl: "mapping_insert (of_nat t) = (k, l)" by fastforce
  have new: "(c, t) \<notin> frees xs \<union> frees ys"
  proof
    assume "(c, t) \<in> frees xs \<union> frees ys"
    then have "(c, t, True) \<in> set xs \<union> set ys" by (auto simp: frees_def)
    from gap_block [OF g this] c show False by linarith
  qed
  have ins: "insert (c, t) (frees xs \<union> frees ys) = frees xs \<union> frees ys \<union> {(c, t)}" by simp
  have ap: "apart z (insert (c, t) (frees xs \<union> frees ys))" using hole_apart [OF p g i] unfolding ins .
  from insert_free_block_spec [OF fl ap new kl] obtain st' where st': "insert_free_block (of_nat c) k l st = Some st'"
    "flists z st' (frees xs \<union> frees ys \<union> {(c, t)})"
    "only (link_words z (frees xs \<union> frees ys \<union> {(c, t)})) st st'" unfolding ins .
  show ?thesis
  proof (rule that)
    show "block_insert (of_nat c) st = Some st'"
      using st'(1) kl header_reads(1) [OF m c(4) lt] by (simp add: block_insert_def)
    show "hole z a0 e xs g a b pf ys {(c, t)} st'"
      using p gap_links(1) [OF p g i st'(3)] i st'(2) by (simp add: hole_def)
    show "kept (live xs \<union> live ys) st st'" using gap_links(2) [OF p g i st'(3)] .
    show "stay a b c st st'" using gap_stay [OF p g i st'(3)] by simp
  qed
qed

lemma hole_remove:
  assumes h: "hole z a0 e xs g a b pf ys {(c, t)} st" and kl: "mapping_insert (of_nat t) = (k, l)"
  obtains st' where "remove_free_block (of_nat c) k l st = Some st'" "hole z a0 e xs g a b pf ys {} st'"
    "kept (live xs \<union> live ys) st st'" "stay a b c st st'"
proof -
  let ?F = "frees xs \<union> frees ys"
  have p: "placed z a0 e" and g: "gap a0 e xs g a b pf ys st" and fl: "flists z st (?F \<union> {(c, t)})"
    and i: "inside a b {(c, t)}"
    using h by (simp_all add: hole_def)
  have "(c, t) \<notin> ?F"
  proof
    assume "(c, t) \<in> ?F"
    then have "(c, t, True) \<in> set xs \<union> set ys" by (auto simp: frees_def)
    from gap_block [OF g this] i show False by (simp; linarith)
  qed
  then have del: "?F \<union> {(c, t)} - {(c, t)} = ?F" by blast
  have "(c, t) \<in> ?F \<union> {(c, t)}" by simp
  from remove_free_block_spec [OF fl hole_apart [OF p g i] this kl] obtain st'
    where st': "remove_free_block (of_nat c) k l st = Some st'" "flists z st' ?F" "only (link_words z ?F) st st'"
    unfolding del .
  have o: "only (link_words z (?F \<union> {})) st st'" using st'(3) by simp
  show ?thesis
  proof (rule that)
    show "remove_free_block (of_nat c) k l st = Some st'" by (rule st'(1))
    show "hole z a0 e xs g a b pf ys {} st'"
      using p gap_links(1) [OF p g inside_simps(1) o] st'(2) by (simp add: hole_def)
    show "kept (live xs \<union> live ys) st st'" using gap_links(2) [OF p g inside_simps(1) o] .
    show "stay a b c st st'" using gap_stay [OF p g i o] by simp
  qed
qed


section \<open>Opening and closing the hole\<close>

lemma separated_parts:
  "separated False (xs @ (a, s, f) # ys) \<longleftrightarrow> separated False xs
     \<and> \<not> ((xs \<noteq> [] \<and> snd (snd (last xs))) \<and> f) \<and> separated f ys"
  by (cases xs) auto

lemma open_block:
  assumes h: "heap_ok z a0 e (xs @ (a, s, f) # ys) st"
  obtains g where "hole z a0 e xs g a (a + 4 + s) f ys (if f then {(a, s)} else {}) st"
    "M st (a + 4) = hdr s f g" "f \<longrightarrow> M st (a + 4 + s) = of_nat a" "4 dvd s" "12 \<le> s" "s < 2 ^ 30"
    "g \<longleftrightarrow> xs \<noteq> [] \<and> snd (snd (last xs))" "f \<longrightarrow> \<not> g" "0 < a" "a + 8 + s < 2 ^ 32"
proof -
  from h have p: "placed z a0 e" and t: "tiles a0 (xs @ (a, s, f) # ys) e" "headers st (xs @ (a, s, f) # ys) e"
    and fl: "flists z st (frees (xs @ (a, s, f) # ys))" and sp: "separated False (xs @ (a, s, f) # ys)"
    by (simp_all only: heap_ok_def)
  have "e + 8 \<le> 2 ^ 32" using placedD [OF p] by simp
  with t headers_gap [of st xs a s f ys e a0] obtain g where g: "4 dvd s" "12 \<le> s"
    "gap a0 e xs g a (a + 4 + s) f ys st" "M st (a + 4) = hdr s f g" "f \<longrightarrow> M st (a + 4 + s) = of_nat a" by blast
  have gl: "g \<longleftrightarrow> xs \<noteq> [] \<and> snd (snd (last xs))" using hseg_last [OF gapD(4) [OF g(3)]] by simp
  show ?thesis
  proof (rule that)
    show "hole z a0 e xs g a (a + 4 + s) f ys (if f then {(a, s)} else {}) st"
      using p g(2,3) fl by (auto simp: hole_def insert_commute Un_commute split: if_splits)
    show "f \<longrightarrow> \<not> g" using gl sp unfolding separated_parts by blast
    show "s < 2 ^ 30" "0 < a" "a + 8 + s < 2 ^ 32" using gap_bounds [OF g(3)] placedD [OF p] by linarith+
  qed (use g gl in auto)
qed

lemma open_free:
  assumes h: "heap_ok z a0 e (xs @ (a, s, True) # ys) st"
  shows "hole z a0 e xs False a (a + 4 + s) True ys {(a, s)} st" "M st (a + 4) = hdr s True False"
    "M st (a + 4 + s) = of_nat a" "4 dvd s" "12 \<le> s" "s < 2 ^ 30" "0 < a" "a + 8 + s < 2 ^ 32"
proof -
  from open_block [OF h] obtain g where g: "hole z a0 e xs g a (a + 4 + s) True ys (if True then {(a, s)} else {}) st"
    "M st (a + 4) = hdr s True g" "True \<longrightarrow> M st (a + 4 + s) = of_nat a" "4 dvd s" "12 \<le> s" "s < 2 ^ 30"
    "g \<longleftrightarrow> xs \<noteq> [] \<and> snd (snd (last xs))" "True \<longrightarrow> \<not> g" "0 < a" "a + 8 + s < 2 ^ 32" .
  from g(8) have g0: "g = False" by simp
  from g(1-6,9,10) show "hole z a0 e xs False a (a + 4 + s) True ys {(a, s)} st" "M st (a + 4) = hdr s True False"
    "M st (a + 4 + s) = of_nat a" "4 dvd s" "12 \<le> s" "s < 2 ^ 30" "0 < a" "a + 8 + s < 2 ^ 32"
    unfolding g0 by simp_all
qed

lemma close_block:
  assumes h: "hole z a0 e xs g a (a + 4 + s) f ys (if f then {(a, s)} else {}) st" and m: "M st (a + 4) = hdr s f g"
    and b: "f \<Longrightarrow> M st (a + 4 + s) = of_nat a" and s: "4 dvd s" "12 \<le> s"
    and sp: "separated False (xs @ (a, s, f) # ys)"
  shows "heap_ok z a0 e (xs @ (a, s, f) # ys) st"
proof -
  have g: "placed z a0 e" "gap a0 e xs g a (a + 4 + s) f ys st" using h by (simp_all add: hole_def)
  have "headers st (xs @ (a, s, f) # ys) e \<and> tiles a0 (xs @ (a, s, f) # ys) e \<and> e + 8 \<le> 2 ^ 32"
    using headers_gap [of st xs a s f ys e a0] g m b s by blast
  moreover have "flists z st (frees (xs @ (a, s, f) # ys))"
    using h by (auto simp: hole_def insert_commute Un_commute split: if_splits)
  ultimately show ?thesis using g sp by (simp add: heap_ok_def)
qed

lemma right_in:
  assumes h: "hole z a0 e xs g a b True ys {(r, t)} st" and r: "a \<le> r" "r + 4 + t = b" "12 \<le> t" "4 dvd t"
    and m: "M st (r + 4) = hdr t True x" "M st b = of_nat r"
  shows "hole z a0 e xs g a r x ((r, t, True) # ys) {} st"
proof -
  have "gap a0 e xs g a r x ((r, t, True) # ys) st"
    using h r m by (auto simp: hole_def gap_def)
  then show ?thesis using h by (simp add: hole_def)
qed

lemma right_out:
  assumes h: "hole z a0 e xs g a b pf ((b, t, True) # ys) {} st"
  shows "hole z a0 e xs g a (b + 4 + t) True ys {(b, t)} st" "M st (b + 4) = hdr t True pf"
    "M st (b + 4 + t) = of_nat b" "4 dvd t" "12 \<le> t"
  using h by (auto simp: hole_def gap_def)

lemma left_out:
  assumes h: "hole z a0 e (xs @ [(c, t, True)]) g a b pf ys {} st"
  obtains g' where "hole z a0 e xs g' c b pf ys {(c, t)} st" "a = c + 4 + t" "M st (c + 4) = hdr t True g'"
    "M st a = of_nat c" "4 dvd t" "12 \<le> t" "g' \<longleftrightarrow> xs \<noteq> [] \<and> snd (snd (last xs))"
proof -
  from h have g: "gap a0 e (xs @ [(c, t, True)]) g a b pf ys st" and p: "placed z a0 e"
    and fl: "flists z st (frees xs \<union> frees ys \<union> {(c, t)})" by (simp_all add: hole_def)
  from g obtain g' where "tiles a0 xs c" "a = c + 4 + t" "hseg (M st) False xs g'" "M st (c + 4) = hdr t True g'"
    "M st a = of_nat c" "4 dvd t" "12 \<le> t" "tiles b ys e" "a \<le> b" "e + 8 \<le> 2 ^ 32"
    "hseg (M st) pf (ys @ [(e, 0, False)]) False"
    unfolding gap_def tiles_append hseg_append by auto
  moreover from this have "gap a0 e xs g' c b pf ys st" by (simp add: gap_def)
  moreover have "g' \<longleftrightarrow> xs \<noteq> [] \<and> snd (snd (last xs))" using hseg_last [OF gapD(4) [OF calculation(12)]] by simp
  ultimately show ?thesis using p fl by (intro that [of g']) (auto simp: hole_def)
qed

lemma heap_list_apart:
  assumes h: "heap_ok z a0 e bs st" shows "apart z (frees bs)"
proof (cases bs rule: rev_cases)
  case Nil
  have "placed z a0 e" using h by (simp add: heap_ok_def)
  with Nil show ?thesis using placedD by (simp add: apart_def)
next
  case (snoc xs x)
  obtain a s f where x: "x = (a, s, f)" by (cases x)
  with h snoc have "heap_ok z a0 e (xs @ (a, s, f) # []) st" by simp
  from open_block [OF this] obtain g where "hole z a0 e xs g a (a + 4 + s) f [] (if f then {(a, s)} else {}) st" .
  then have "apart z (frees xs \<union> frees [] \<union> (if f then {(a, s)} else {}))" unfolding hole_def by (intro hole_apart) auto
  then show ?thesis using snoc x by (cases f) auto
qed

section \<open>Requests\<close>

definition request :: "nat \<Rightarrow> nat" where
  "request n = max 12 (4 * ((n + 3) div 4))"

lemma request_bounds: "n \<le> request n" "4 dvd request n" "12 \<le> request n" "n \<le> 4 * m \<Longrightarrow> 3 \<le> m \<Longrightarrow> request n \<le> 4 * m"
proof -
  have "4 * ((n + 3) div 4) \<le> 4 * m" if "n \<le> 4 * m"
    using less_mult_imp_div_less [of "n + 3" "m + 1" 4] that by simp
  then show "n \<le> request n" "4 dvd request n" "12 \<le> request n" "n \<le> 4 * m \<Longrightarrow> 3 \<le> m \<Longrightarrow> request n \<le> 4 * m"
    by (auto simp: request_def max_def)
qed

lemma round_up_word:
  assumes "n + 3 < 2 ^ 32"
  shows "((of_nat n :: u32) + 3) AND NOT 3 = of_nat (4 * ((n + 3) div 4))"
proof -
  have two: "Suc (Suc (i - 2)) = i" if "\<not> i < 2" for i :: nat using that by simp
  have "((of_nat n :: u32) + 3) AND NOT 3 = of_nat (n + 3) AND NOT (mask 2)"
    by (simp add: mask_eq_decr_exp)
  also have "\<dots> = push_bit 2 (drop_bit 2 (of_nat (n + 3)))"
    by (rule bit_word_eqI) (auto simp: bit_simps two not_less simp del: of_nat_add)
  also have "drop_bit 2 (of_nat (n + 3) :: u32) = of_nat ((n + 3) div 4)"
  proof -
    have "unat (drop_bit 2 (of_nat (n + 3) :: u32)) = (n + 3) div 2 ^ 2"
      unfolding unat_drop_bit_eq unat_of_nat_u32 [OF assms] by (rule drop_bit_eq_div)
    moreover have "unat (of_nat ((n + 3) div 4) :: u32) = (n + 3) div 4"
      using assms by (intro unat_of_nat_u32) simp
    ultimately show ?thesis unfolding word_unat_eq_iff by simp
  qed
  finally show ?thesis by (simp add: push_bit_eq_mult)
qed

lemma adjust_spec:
  assumes "n < 2 ^ 32"
  shows "adjust_request_size (of_nat n) ALIGN_SIZE = Some (if n = 0 \<or> 2 ^ 30 \<le> n then 0 else of_nat (request n))"
proof (cases "n = 0 \<or> 2 ^ 30 \<le> n")
  case True
  then have "\<not> ((of_nat n :: u32) \<noteq> 0 \<and> (of_nat n :: u32) < 2 ^ 30)"
    using assms of_nat_less_u32 [of n "2 ^ 30"] by auto
  then have "adjust_request_size (of_nat n) ALIGN_SIZE = Some 0"
    unfolding adjust_request_size_def by (auto simp: tlsf_consts push_bit_eq_mult)
  with True show ?thesis by simp
next
  case False
  then have "(of_nat n :: u32) \<noteq> 0" "(of_nat n :: u32) < 2 ^ 30"
    using of_nat_less_u32 [of n "2 ^ 30"] of_nat_0_u32 [of n] by auto
  moreover have "max (of_nat (4 * ((n + 3) div 4))) 12 = (of_nat (request n) :: u32)"
  proof -
    have "4 * ((n + 3) div 4) < 2 ^ 32" 
      by (rule le_less_trans [OF times_div_less_eq_dividend]) (use False in simp)
    then show ?thesis using of_nat_le_u32 [of "4 * ((n + 3) div 4)" 12] by (auto simp: request_def max_def)
  qed
  moreover have "align_up (of_nat n) ALIGN_SIZE = Some (of_nat (4 * ((n + 3) div 4)))"
    using round_up_word [of n] False by (simp add: align_up_def tlsf_consts)
  ultimately show ?thesis using False by (simp add: adjust_request_size_def tlsf_consts push_bit_eq_mult)
qed


section \<open>tlsf_malloc\<close>

lemma locate_free_spec:
  assumes h: "heap_ok z a0 e bs st" and k: "4 dvd k" "12 \<le> k" "k \<le> 2 ^ 30 - 2 ^ 24"
  obtains (none) "block_locate_free (of_nat k) st = Some (0, st)"
      "\<forall>a s. (a, s) \<in> frees bs \<longrightarrow> \<not> class_le (mapping_search (of_nat k)) (mapping_insert (of_nat s))"
  | (found) xs a s ys st' where "bs = xs @ (a, s, True) # ys" "k \<le> s"
      "block_locate_free (of_nat k) st = Some (of_nat a, st')"
      "hole z a0 e xs False a (a + 4 + s) True ys {} st'" "M st' (a + 4) = hdr s True False"
      "M st' (a + 4 + s) = of_nat a" "4 dvd s" "s < 2 ^ 30" "0 < a" "a + 8 + s < 2 ^ 32"
      "kept (live xs \<union> live ys) st st'"
proof -
  have p: "placed z a0 e" and t: "tiles a0 bs e" and fl: "flists z st (frees bs)"
    using h by (simp_all add: heap_ok_def)
  note ap = heap_list_apart [OF h]
  have k32: "k < 2 ^ 32" and uk: "unat (of_nat k :: u32) = k" using k(3) by (simp_all add: unat_of_nat_u32)
  obtain f l where fl': "mapping_search (of_nat k) = (f, l)" by fastforce
  have c: "k \<le> class_min (f, l)" "l < 32" "f < 24"
    using mapping_search_class [of "of_nat k"] k uk fl' by auto
  have k0: "(of_nat k :: u32) \<noteq> 0" using of_nat_0_u32 [of k] k by simp
  from fl ap c(3,2) show ?thesis
  proof (cases rule: search_suitable_spec)
    case none
    then have "block_locate_free (of_nat k) st = Some (0, st)"
      using k0 fl' by (simp add: block_locate_free_def)
    with none(2) fl' show ?thesis by (intro that(1)) simp_all
  next
    case (found a s f' l')
    then have "(a, s, True) \<in> set bs" by (simp add: frees_def)
    then obtain xs ys where bs: "bs = xs @ (a, s, True) # ys" by (meson split_list)
    note o = open_free [OF h [unfolded bs]]
    from hole_remove [OF o(1) found(3)] obtain st' where st': "remove_free_block (of_nat a) f' l' st = Some st'"
      "hole z a0 e xs False a (a + 4 + s) True ys {} st'" "kept (live xs \<union> live ys) st st'" "stay a (a + 4 + s) a st st'" .
    have "k \<le> class_min (f', l')" using c(1,2) class_min_mono [OF found(4)] by simp
    also have "\<dots> \<le> s" using mapping_insert_class(1) [of "of_nat s"] found(3) o(6) by (simp add: unat_of_nat_u32)
    finally have ks: "k \<le> s" .
    have "block_size (of_nat a) st = of_nat s" using o(2,4,6) by (intro header_reads(1)) auto
    moreover have "(of_nat k :: u32) \<le> of_nat s" using ks k32 o(6) by (simp add: of_nat_le_u32)
    moreover have "(of_nat a :: u32) \<noteq> 0" using o(7,8) by (intro of_nat_0_u32) auto
    ultimately have "block_locate_free (of_nat k) st = Some (of_nat a, st')"
      using k0 fl' found(1) st'(1) by (simp add: block_locate_free_def)
    moreover have "M st' (a + 4) = hdr s True False" "M st' (a + 4 + s) = of_nat a"
      using st'(4) o(2,3,5) by (simp_all add: stay_def)
    ultimately show ?thesis using bs ks st'(2,3) o by (intro that(2)) auto
  qed
qed

text \<open>What is left of a free block of size \<open>s\<close> after \<open>k\<close> bytes were taken from its front.\<close>

definition carve :: "nat \<Rightarrow> nat \<Rightarrow> nat \<Rightarrow> blk list" where
  "carve a s k = (if k + 16 \<le> s then [(a, k, False), (a + 4 + k, s - k - 4, True)] else [(a, s, False)])"

lemma prepare_used_spec:
  assumes h: "hole z a0 e xs False a (a + 4 + s) True ys {} st" and m: "M st (a + 4) = hdr s True False"
    and b: "M st (a + 4 + s) = of_nat a" and s: "4 dvd s" "s < 2 ^ 30" "0 < a" "a + 8 + s < 2 ^ 32"
    and k: "4 dvd k" "12 \<le> k" "k \<le> s"
    and sp: "separated False xs" "separated True ys"
  obtains st' where "block_prepare_used (of_nat a) (of_nat k) st = Some (of_nat (a + 8), st')"
    "heap_ok z a0 e (xs @ carve a s k @ ys) st'" "kept (live xs \<union> live ys) st st'"
proof -
  let ?b = "a + 4 + s" and ?r = "a + 4 + k" and ?rs = "s - k - 4"
  have nz: "(of_nat a :: u32) \<noteq> 0" using s by (intro of_nat_0_u32) auto
  have free: "block_is_free (of_nat a) st" using header_reads(2) [OF m s(1)] s by simp
  have can: "block_can_split (of_nat a) (of_nat k) st \<longleftrightarrow> k + 16 \<le> s"
    using block_can_split_hdr [OF m s(1), of k] s k by simp
  have g: "gap a0 e xs False a ?b True ys st" using h by (simp add: hole_def)
  show ?thesis
  proof (cases "k + 16 \<le> s")
    case False
    have s12: "12 \<le> s" using k by simp
    from gap_mark_used [OF g m s(1) s12] obtain st' where st': "block_mark_as_used (of_nat a) st = Some st'"
      "gap a0 e xs False a ?b False ys st'" "M st' (a + 4) = hdr s False False" "only {a + 4, a + 8 + s} st st'"
      "same_tables st st'" .
    from hole_writes [OF h st'(2,5,4)] have hw: "hole z a0 e xs False a ?b False ys {} st'"
      "kept (live xs \<union> live ys) st st'" by auto
    have "separated False ys" using sp(2) by (cases ys) auto
    with sp(1) have "heap_ok z a0 e (xs @ (a, s, False) # ys) st'"
      using hw(1) st'(3) s k by (intro close_block) (auto simp: separated_parts)
    moreover have "block_prepare_used (of_nat a) (of_nat k) st = Some (of_nat (a + 8), st')"
      using nz free can False st'(1)
      by (simp add: block_prepare_used_def block_trim_free_def block_to_ptr_def block_start_offset_def)
    ultimately show ?thesis using hw(2) False by (intro that) (auto simp: carve_def)
  next
    case True
    have rs: "4 dvd ?rs" "12 \<le> ?rs" "?r + 4 + ?rs = ?b" using True k s by auto
    have k8: "8 \<le> k" using k by simp
    from gap_split [OF g refl m s(1) k(1) k8 True] obtain st1 x where st1:
      "block_split (of_nat a) (of_nat k) st = Some (of_nat ?r, st1)"
      "gap a0 e xs False a ?b True ys st1" "M st1 (a + 4) = hdr k True False" "M st1 (?r + 4) = hdr ?rs True x"
      "M st1 ?b = of_nat ?r" "only {a + 4, a + 8 + k, ?b, ?b + 4} st st1" "same_tables st st1" .
    from hole_writes [OF h st1(2,7,6)] rs(3) have h1: "hole z a0 e xs False a ?b True ys {} st1"
      "kept (live xs \<union> live ys) st st1" by auto
    have rb: "?r \<le> ?b" using rs(3) by linarith
    let ?st2 = "put ?r (of_nat a) st1" and ?st3 = "put (?r + 4) (hdr ?rs True True) (put ?r (of_nat a) st1)"
    note lk = gap_link_next [OF st1(2,3) k(1) k8 rb]
    have m2: "M ?st2 (?r + 4) = hdr ?rs True x" using st1(4) s rs by (simp add: M_put)
    have spf: "block_set_prev_free (of_nat ?r) ?st2 = ?st3" by (rule header_writes(3) [OF m2 rs(1)])
    have o3: "only {?r + 4} ?st2 ?st3" using s rs(3) by (intro only_put) linarith
    have g3: "gap a0 e xs False a ?b True ys ?st3" using gap_frame [OF lk(2) o3] rs by simp
    have "same_tables st1 ?st3" by simp
    from hole_writes [OF h1(1) g3 this only_trans [OF lk(3) o3]] rs
    have h3: "hole z a0 e xs False a ?b True ys {} ?st3" "kept (live xs \<union> live ys) st1 ?st3" by auto
    have m3: "M ?st3 (?r + 4) = hdr ?rs True True" "M ?st3 (a + 4) = hdr k True False" "M ?st3 ?b = of_nat ?r"
    proof -
      have ne: "s \<noteq> k" "s \<noteq> 4 + k" using True by auto
      show "M ?st3 (?r + 4) = hdr ?rs True True" "M ?st3 (a + 4) = hdr k True False" "M ?st3 ?b = of_nat ?r"
        using s rs st1(3,5) k by (simp_all add: M_put ne)
    qed
    have ar: "a \<le> ?r" "?r + 4 + ?rs \<le> ?b" using rs(3) by simp_all
    from hole_insert [OF h3(1) ar rs(2,1) m3(1)] obtain st4 where st4:
      "block_insert (of_nat ?r) ?st3 = Some st4" "hole z a0 e xs False a ?b True ys {(?r, ?rs)} st4"
      "kept (live xs \<union> live ys) ?st3 st4" "stay a ?b ?r ?st3 st4" .
    have m4: "M st4 (?r + 4) = hdr ?rs True True" "M st4 (a + 4) = hdr k True False" "M st4 ?b = of_nat ?r"
      using st4(4) m3 rs k unfolding stay_def by auto
    from right_in [OF st4(2) ar(1) rs(3,2,1) m4(1,3)]
    have h4: "hole z a0 e xs False a ?r True ((?r, ?rs, True) # ys) {} st4" .
    then have g4: "gap a0 e xs False a ?r True ((?r, ?rs, True) # ys) st4" by (simp add: hole_def)
    from gap_mark_used [OF g4 m4(2) k(1,2)] obtain st5 where st5: "block_mark_as_used (of_nat a) st4 = Some st5"
      "gap a0 e xs False a ?r False ((?r, ?rs, True) # ys) st5" "M st5 (a + 4) = hdr k False False"
      "only {a + 4, a + 8 + k} st4 st5" "same_tables st4 st5" .
    from hole_writes [OF h4 st5(2,5,4)] have h5: "hole z a0 e xs False a ?r False ((?r, ?rs, True) # ys) {} st5"
      "kept (live xs \<union> live ys) st4 st5" by auto
    have "heap_ok z a0 e (xs @ (a, k, False) # (?r, ?rs, True) # ys) st5"
      using h5(1) st5(3) k sp by (intro close_block) (auto simp: separated_parts)
    moreover have "block_prepare_used (of_nat a) (of_nat k) st = Some (of_nat (a + 8), st5)"
      using nz free can True st1(1) lk(1) spf st4(1) st5(1)
      by (simp add: block_prepare_used_def block_trim_free_def block_to_ptr_def block_start_offset_def)
    moreover have "kept (live xs \<union> live ys) st st5"
      using h1(2) h3(2) st4(3) h5(2) by (blast intro: kept_trans)
    ultimately show ?thesis using True by (intro that) (auto simp: carve_def)
  qed
qed

lemma live_carve: "live (xs @ carve a s k @ ys) = insert (a, if k + 16 \<le> s then k else s) (live (xs @ (a, s, True) # ys))"
  by (auto simp: carve_def)

lemma malloc_spec:
  assumes h: "heap_ok z a0 e bs st" and n: "n < 2 ^ 32" "n < 2 ^ 30 \<longrightarrow> request n \<le> 2 ^ 30 - 2 ^ 24"
  obtains (none) "tlsf_malloc (of_nat n) st = Some (0, st)"
      "n = 0 \<or> 2 ^ 30 \<le> n \<or> (\<forall>a s. (a, s) \<in> frees bs \<longrightarrow>
         \<not> class_le (mapping_search (of_nat (request n))) (mapping_insert (of_nat s)))"
  | (found) xs a s ys st' where "bs = xs @ (a, s, True) # ys" "request n \<le> s" "0 < n" "0 < a" "a + 8 + s < 2 ^ 32"
      "tlsf_malloc (of_nat n) st = Some (of_nat (a + 8), st')"
      "heap_ok z a0 e (xs @ carve a s (request n) @ ys) st'" "kept (live bs) st st'"
proof (cases "n = 0 \<or> 2 ^ 30 \<le> n")
  case True
  then have "tlsf_malloc (of_nat n) st = Some (0, st)"
    using adjust_spec [OF n(1)]
    by (simp add: tlsf_malloc_def block_locate_free_def block_prepare_used_def)
  with True show ?thesis by (intro none) auto
next
  case False
  let ?k = "request n"
  have k: "?k \<le> 2 ^ 30 - 2 ^ 24" using n(2) False by simp
  have adj: "adjust_request_size (of_nat n) ALIGN_SIZE = Some (of_nat ?k)"
    using adjust_spec [OF n(1)] False by simp
  from h request_bounds(2,3) k show ?thesis
  proof (cases rule: locate_free_spec)
    case 1: none
    have "tlsf_malloc (of_nat n) st = Some (0, st)"
      using adj 1(1) by (simp add: tlsf_malloc_def block_prepare_used_def)
    with 1(2) show ?thesis by (intro none) auto
  next
    case 2: (found xs a s ys st')
    have sp: "separated False xs" "separated True ys"
      using h unfolding 2(1) heap_ok_def by (simp_all add: separated_parts)
    from prepare_used_spec [OF 2(4-10) request_bounds(2,3) 2(2) sp] obtain st'' where st'':
      "block_prepare_used (of_nat a) (of_nat ?k) st' = Some (of_nat (a + 8), st'')"
      "heap_ok z a0 e (xs @ carve a s ?k @ ys) st''" "kept (live xs \<union> live ys) st' st''" .
    have "tlsf_malloc (of_nat n) st = Some (of_nat (a + 8), st'')"
      using adj 2(3) st''(1) by (simp add: tlsf_malloc_def)
    moreover have "kept (live bs) st st''" using kept_trans [OF 2(11) st''(3)] 2(1) by simp
    ultimately show ?thesis using 2(1,2,9,10) False st''(2) by (intro found) auto
  qed
qed

section \<open>tlsf_free\<close>

definition join_prev :: "blk list \<Rightarrow> nat \<Rightarrow> nat \<Rightarrow> blk list \<times> nat \<times> nat" where
  "join_prev xs a s = (if xs \<noteq> [] \<and> snd (snd (last xs))
     then (butlast xs, fst (last xs), fst (snd (last xs)) + 4 + s) else (xs, a, s))"

definition join_next :: "nat \<Rightarrow> blk list \<Rightarrow> nat \<times> blk list" where
  "join_next s ys = (case ys of (b, t, True) # zs \<Rightarrow> (s + 4 + t, zs) | _ \<Rightarrow> (s, ys))"

definition release :: "blk list \<Rightarrow> nat \<Rightarrow> nat \<Rightarrow> blk list \<Rightarrow> blk list" where
  "release xs a s ys = (let (xs, a, s) = join_prev xs a s; (s, ys) = join_next s ys in xs @ (a, s, True) # ys)"

text \<open>A free block that is on no list yet fills the hole.\<close>

definition loose :: "nat \<Rightarrow> nat \<Rightarrow> nat \<Rightarrow> blk list \<Rightarrow> bool \<Rightarrow> nat \<Rightarrow> nat \<Rightarrow> blk list \<Rightarrow> tlsf \<Rightarrow> bool" where
  "loose z a0 e xs g a s ys st \<longleftrightarrow> hole z a0 e xs g a (a + 4 + s) True ys {} st
     \<and> M st (a + 4) = hdr s True g \<and> M st (a + 4 + s) = of_nat a \<and> 4 dvd s \<and> 12 \<le> s
     \<and> (g \<longleftrightarrow> xs \<noteq> [] \<and> snd (snd (last xs)))"

lemma looseD:
  assumes "loose z a0 e xs g a s ys st"
  shows "hole z a0 e xs g a (a + 4 + s) True ys {} st" "M st (a + 4) = hdr s True g"
    "M st (a + 4 + s) = of_nat a" "4 dvd s" "12 \<le> s" "g \<longleftrightarrow> xs \<noteq> [] \<and> snd (snd (last xs))"
    "placed z a0 e" "gap a0 e xs g a (a + 4 + s) True ys st" "0 < a" "a + 8 + s < 2 ^ 32" "s < 2 ^ 30"
proof -
  show 1: "hole z a0 e xs g a (a + 4 + s) True ys {} st" "M st (a + 4) = hdr s True g"
    "M st (a + 4 + s) = of_nat a" "4 dvd s" "12 \<le> s" "g \<longleftrightarrow> xs \<noteq> [] \<and> snd (snd (last xs))"
    using assms unfolding loose_def by blast+
  show 2: "placed z a0 e" "gap a0 e xs g a (a + 4 + s) True ys st" using 1(1) by (simp_all add: hole_def)
  show "0 < a" "a + 8 + s < 2 ^ 32" "s < 2 ^ 30" using gap_bounds [OF 2(2)] placedD [OF 2(1)] by linarith+
qed

lemma absorb_loose:
  assumes h: "hole z a0 e xs g a b True ys {} st" and b: "b = a + 4 + s + 4 + t"
    and m: "M st (a + 4) = hdr s True g" "M st (a + 4 + s + 4) = hdr t f q"
    and s: "4 dvd s" "4 dvd t" "12 \<le> s" and g: "g \<longleftrightarrow> xs \<noteq> [] \<and> snd (snd (last xs))"
  obtains st' where "block_absorb (of_nat a) (of_nat (a + 4 + s)) st = Some (of_nat a, st')"
    "loose z a0 e xs g a (s + 4 + t) ys st'" "kept (live xs \<union> live ys) st st'" "only {a + 4, b} st st'"
proof -
  have "gap a0 e xs g a b True ys st" using h by (simp add: hole_def)
  from gap_absorb [OF this b m s] obtain st' where st': "block_absorb (of_nat a) (of_nat (a + 4 + s)) st = Some (of_nat a, st')"
    "gap a0 e xs g a b True ys st'" "M st' (a + 4) = hdr (s + 4 + t) True g" "M st' b = of_nat a"
    "only {a + 4, b} st st'" "same_tables st st'" .
  from hole_writes [OF h st'(2,6,5)] b have hw: "hole z a0 e xs g a b True ys {} st'"
    "kept (live xs \<union> live ys) st st'" by auto
  have "loose z a0 e xs g a (s + 4 + t) ys st'"
    using hw(1) st'(3,4) b s g unfolding loose_def by (simp add: add.assoc)
  from st'(1) this hw(2) st'(5) show ?thesis by (rule that)
qed

lemma merge_prev_spec:
  assumes l: "loose z a0 e xs g a s ys st" and sp: "separated False xs"
  obtains xs' a' s' st' where "join_prev xs a s = (xs', a', s')" "loose z a0 e xs' False a' s' ys st'"
    "block_merge_prev (of_nat a) st = Some (of_nat a', st')" "kept (live xs \<union> live ys) st st'"
    "separated False xs'" "live xs' = live xs" "\<not> (xs' \<noteq> [] \<and> snd (snd (last xs')))"
    "\<forall>n. a + 4 \<le> n \<longrightarrow> n \<le> a + 8 + s \<longrightarrow> n \<noteq> a + 4 + s \<longrightarrow> M st' n = M st n"
    "a' = a \<and> s' = s \<or> a' + 16 \<le> a \<and> a' + 4 + s' = a + 4 + s"
proof -
  note d = looseD [OF l]
  have pf: "block_is_prev_free (of_nat a) st \<longleftrightarrow> g" using header_reads(3) [OF d(2,4)] d by simp
  show ?thesis
  proof (cases g)
    case False
    then have "block_merge_prev (of_nat a) st = Some (of_nat a, st)" using pf by (simp add: block_merge_prev_def)
    moreover have "join_prev xs a s = (xs, a, s)" using False d(6) by (simp add: join_prev_def)
    ultimately show ?thesis using l False sp d(6) by (intro that [of xs a s st]) auto
  next
    case True
    then obtain ws c t where xs: "xs = ws @ [(c, t, True)]"
      using d(6) by (cases xs rule: rev_cases) auto
    from left_out [OF d(1) [unfolded xs]] obtain g' where lo:
      "hole z a0 e ws g' c (a + 4 + s) True ys {(c, t)} st" "a = c + 4 + t" "M st (c + 4) = hdr t True g'"
      "M st a = of_nat c" "4 dvd t" "12 \<le> t" "g' \<longleftrightarrow> ws \<noteq> [] \<and> snd (snd (last ws))" .
    have t32: "t < 2 ^ 32" "0 < c" "c < 2 ^ 32"
    proof -
      have "gap a0 e ws g' c (a + 4 + s) True ys st" "placed z a0 e" using lo(1) by (simp_all add: hole_def)
      from gap_bounds [OF this(1)] placedD [OF this(2)] lo(2) show "t < 2 ^ 32" "0 < c" "c < 2 ^ 32" by linarith+
    qed
    have g': "\<not> g'" using lo(7) sp xs by (auto split: if_splits)
    obtain k l' where kl: "mapping_insert (of_nat t) = (k, l')" by fastforce
    from hole_remove [OF lo(1) kl] obtain st1 where st1: "remove_free_block (of_nat c) k l' st = Some st1"
      "hole z a0 e ws g' c (a + 4 + s) True ys {} st1" "kept (live ws \<union> live ys) st st1" "stay c (a + 4 + s) c st st1" .
    have m1: "M st1 (c + 4) = hdr t True g'" "M st1 (c + 4 + t + 4) = hdr s True g"
      using st1(4) lo(2,3,6) d(2) unfolding stay_def by auto
    have b: "a + 4 + s = c + 4 + t + 4 + s" using lo(2) by simp
    from absorb_loose [OF st1(2) b m1 lo(5) d(4) lo(6,7)] obtain st2 where st2:
      "block_absorb (of_nat c) (of_nat (c + 4 + t)) st1 = Some (of_nat c, st2)"
      "loose z a0 e ws g' c (t + 4 + s) ys st2" "kept (live ws \<union> live ys) st1 st2" "only {c + 4, a + 4 + s} st1 st2" .
    have stay: "\<forall>n. a + 4 \<le> n \<longrightarrow> n \<le> a + 8 + s \<longrightarrow> n \<noteq> a + 4 + s \<longrightarrow> M st2 n = M st n"
      using st1(4) st2(4) lo(2,6) d(10) unfolding stay_def only_def by auto
    have "block_merge_prev (of_nat a) st = Some (of_nat c, st2)"
    proof -
      have "prev_phys_block st (of_nat a) = of_nat c" using lo(4) by (simp add: field_M)
      moreover have "(of_nat c :: u32) \<noteq> 0" using t32 by (intro of_nat_0_u32)
      moreover have "block_is_free (of_nat c) st" using header_reads(2) [OF lo(3,5) t32(1)] by simp
      moreover have "block_remove (of_nat c) st = Some st1"
        using header_reads(1) [OF lo(3,5) t32(1)] kl st1(1) by (simp add: block_remove_def)
      ultimately show ?thesis using pf True st2(1) lo(2) by (simp add: block_merge_prev_def)
    qed
    moreover have "join_prev xs a s = (ws, c, t + 4 + s)" using xs by (simp add: join_prev_def)
    moreover have "kept (live xs \<union> live ys) st st2" using kept_trans [OF st1(3) st2(3)] xs by simp
    moreover have "separated False ws" "\<not> (ws \<noteq> [] \<and> snd (snd (last ws)))" using sp xs by (auto split: if_splits)
    moreover have "c + 16 \<le> a \<and> c + 4 + (t + 4 + s) = a + 4 + s" using lo(2,6) by simp
    ultimately show ?thesis using st2(2) g' xs stay by (intro that) auto
  qed
qed

lemma head_header:
  assumes "gap a0 e xs g a b pf ys st"
  obtains s f where "M st (b + 4) = hdr s f pf" "4 dvd s" "s < 2 ^ 32" "f \<longleftrightarrow> (case ys of [] \<Rightarrow> False | (b, s, f) # _ \<Rightarrow> f)"
    "case ys of [] \<Rightarrow> s = 0 | (b', t, f) # _ \<Rightarrow> b' = b \<and> t = s"
proof (cases ys)
  case Nil
  with assms show ?thesis by (intro that [of 0 False]) (auto simp: gap_def)
next
  case (Cons y zs)
  obtain b' s f where y: "y = (b', s, f)" by (cases y)
  have "s < 2 ^ 32" using gap_block(2) [OF assms, of b' s f] gap_bounds [OF assms] Cons y by simp
  then show ?thesis using assms Cons y by (intro that [of s f]) (auto simp: gap_def)
qed

lemma merge_next_spec:
  assumes l: "loose z a0 e xs False a s ys st" and sp: "separated False ys"
  obtains s' ys' st' where "join_next s ys = (s', ys')" "loose z a0 e xs False a s' ys' st'"
    "block_merge_next (of_nat a) st = Some (of_nat a, st')" "kept (live xs \<union> live ys) st st'"
    "separated True ys'" "live ys' = live ys"
    "\<forall>n. a + 4 < n \<longrightarrow> n \<le> a + 8 + s \<longrightarrow> M st' n = M st n" "s \<le> s'"
proof -
  note d = looseD [OF l]
  let ?b = "a + 4 + s"
  have nx: "block_next (of_nat a) st = Some (of_nat ?b)"
    using header_reads(5) [OF d(2,4)] d by simp
  have b0: "(of_nat ?b :: u32) \<noteq> 0" using d by (intro of_nat_0_u32) auto
  from head_header [OF d(8)] obtain t f where t: "M st (?b + 4) = hdr t f True" "4 dvd t" "t < 2 ^ 32"
    "f \<longleftrightarrow> (case ys of [] \<Rightarrow> False | (b, s, f) # _ \<Rightarrow> f)"
    "case ys of [] \<Rightarrow> t = 0 | (b', t', f) # _ \<Rightarrow> b' = ?b \<and> t' = t" .
  have fr: "block_is_free (of_nat ?b) st \<longleftrightarrow> f" using header_reads(2) [OF t(1-3)] .
  have nl: "\<not> block_is_last (of_nat a) st" using header_reads(4) [OF d(2,4)] d by simp
  show ?thesis
  proof (cases f)
    case False
    then have "join_next s ys = (s, ys)" using t(4) by (auto simp: join_next_def split: list.splits bool.splits)
    moreover have "block_merge_next (of_nat a) st = Some (of_nat a, st)"
      using nx b0 fr False by (simp add: block_merge_next_def)
    moreover have "separated True ys" using sp t(4) False by (cases ys) auto
    ultimately show ?thesis using l by (intro that) auto
  next
    case True
    then obtain zs where ys: "ys = (?b, t, True) # zs" using t(4,5) by (auto split: list.splits)
    note ro = right_out [OF d(1) [unfolded ys]]
    obtain k l' where kl: "mapping_insert (of_nat t) = (k, l')" by fastforce
    from hole_remove [OF ro(1) kl] obtain st1 where st1: "remove_free_block (of_nat ?b) k l' st = Some st1"
      "hole z a0 e xs False a (?b + 4 + t) True zs {} st1" "kept (live xs \<union> live zs) st st1"
      "stay a (?b + 4 + t) ?b st st1" .
    have m1: "M st1 (a + 4) = hdr s True False" "M st1 (a + 4 + s + 4) = hdr t True True"
      using st1(4) d(2) ro(2) unfolding stay_def by auto
    from absorb_loose [OF st1(2) refl m1 d(4) ro(4) d(5,6)] obtain st2 where st2:
      "block_absorb (of_nat a) (of_nat ?b) st1 = Some (of_nat a, st2)"
      "loose z a0 e xs False a (s + 4 + t) zs st2" "kept (live xs \<union> live zs) st1 st2" "only {a + 4, ?b + 4 + t} st1 st2" .
    have "\<forall>n. a + 4 < n \<longrightarrow> n \<le> a + 8 + s \<longrightarrow> M st2 n = M st n"
      using st1(4) st2(4) ro(5) d(10) unfolding stay_def only_def by auto
    moreover
    have "block_merge_next (of_nat a) st = Some (of_nat a, st2)"
    proof -
      have "block_remove (of_nat ?b) st = Some st1"
        using header_reads(1) [OF t(1-3)] kl st1(1) by (simp add: block_remove_def)
      then show ?thesis using nx b0 fr True nl st2(1) by (simp add: block_merge_next_def)
    qed
    moreover have "join_next s ys = (s + 4 + t, zs)" using ys by (simp add: join_next_def)
    moreover have "kept (live xs \<union> live ys) st st2" using kept_trans [OF st1(3) st2(3)] ys by simp
    moreover have "separated True zs" using sp ys by simp
    ultimately show ?thesis using st2(2) ys by (intro that) auto
  qed
qed

lemma insert_loose:
  assumes l: "loose z a0 e xs False a s ys st" and sp: "separated False xs" "separated True ys"
    "\<not> (xs \<noteq> [] \<and> snd (snd (last xs)))"
  obtains st' where "block_insert (of_nat a) st = Some st'" "heap_ok z a0 e (xs @ (a, s, True) # ys) st'"
    "kept (live xs \<union> live ys) st st'" "\<forall>n. a + 16 \<le> n \<longrightarrow> n \<le> a + 8 + s \<longrightarrow> M st' n = M st n"
proof -
  note d = looseD [OF l]
  from hole_insert [OF d(1) le_refl le_refl d(5,4,2)] obtain st' where st': "block_insert (of_nat a) st = Some st'"
    "hole z a0 e xs False a (a + 4 + s) True ys {(a, s)} st'" "kept (live xs \<union> live ys) st st'"
    "stay a (a + 4 + s) a st st'" .
  have "M st' (a + 4) = hdr s True False" "M st' (a + 4 + s) = of_nat a"
    using st'(4) d(2,3,5) unfolding stay_def by auto
  then have "heap_ok z a0 e (xs @ (a, s, True) # ys) st'"
    using st'(2) d(4,5) sp by (intro close_block) (auto simp: separated_parts)
  moreover have "\<forall>n. a + 16 \<le> n \<longrightarrow> n \<le> a + 8 + s \<longrightarrow> M st' n = M st n"
    using st'(4) unfolding stay_def by auto
  ultimately show ?thesis using st'(1,3) by (intro that)
qed

text \<open>
  The header of the freed block, and of a free block behind it, stay readable when they become part of
  a free block: the walk over the heap goes on from there.
\<close>

lemma free_spec_stale:
  assumes h: "heap_ok z a0 e (xs @ (a, s, False) # ys) st"
  obtains st' where "tlsf_free (of_nat (a + 8)) st = Some st'" "heap_ok z a0 e (release xs a s ys) st'"
    "kept (live xs \<union> live ys) st st'" "live (release xs a s ys) = live xs \<union> live ys"
    "fst (snd (join_prev xs a s)) \<noteq> a \<longrightarrow> M st' (a + 4) = hdr s True True
       \<and> (\<forall>b t zs. ys = (b, t, True) # zs \<longrightarrow> M st' (b + 4) = hdr t True True)"
proof -
  have sp: "separated False xs" "separated False ys"
    using h unfolding heap_ok_def by (simp_all add: separated_parts)
  from open_block [OF h] obtain g where o: "hole z a0 e xs g a (a + 4 + s) False ys (if False then {(a, s)} else {}) st"
    "M st (a + 4) = hdr s False g" "False \<longrightarrow> M st (a + 4 + s) = of_nat a" "4 dvd s" "12 \<le> s" "s < 2 ^ 30"
    "g \<longleftrightarrow> xs \<noteq> [] \<and> snd (snd (last xs))" "False \<longrightarrow> \<not> g" "0 < a" "a + 8 + s < 2 ^ 32" .
  have h0: "hole z a0 e xs g a (a + 4 + s) False ys {} st" using o(1) by simp
  then have g0: "gap a0 e xs g a (a + 4 + s) False ys st" by (simp add: hole_def)
  from gap_mark_free [OF g0 le_refl refl o(2,4,5)] obtain st1 where st1: "block_mark_as_free (of_nat a) st = Some st1"
    "gap a0 e xs g a (a + 4 + s) True ys st1" "M st1 (a + 4) = hdr s True g"
    "M st1 (a + 4 + s) = of_nat a" "only {a + 4, a + 4 + s, a + 4 + s + 4} st st1" "same_tables st st1" .
  from hole_writes [OF h0 st1(2,6,5)] o(5) have h1: "hole z a0 e xs g a (a + 4 + s) True ys {} st1"
    "kept (live xs \<union> live ys) st st1" by auto
  have l1: "loose z a0 e xs g a s ys st1" using h1(1) st1(3,4) o(4,5,7) by (simp only: loose_def simp_thms)
  from merge_prev_spec [OF l1 sp(1)] obtain xs' a' s' st2 where st2: "join_prev xs a s = (xs', a', s')"
    "loose z a0 e xs' False a' s' ys st2" "block_merge_prev (of_nat a) st1 = Some (of_nat a', st2)"
    "kept (live xs \<union> live ys) st1 st2" "separated False xs'" "live xs' = live xs"
    "\<not> (xs' \<noteq> [] \<and> snd (snd (last xs')))"
    "\<forall>n. a + 4 \<le> n \<longrightarrow> n \<le> a + 8 + s \<longrightarrow> n \<noteq> a + 4 + s \<longrightarrow> M st2 n = M st1 n"
    "a' = a \<and> s' = s \<or> a' + 16 \<le> a \<and> a' + 4 + s' = a + 4 + s" .
  from merge_next_spec [OF st2(2) sp(2)] obtain s'' ys' st3 where st3: "join_next s' ys = (s'', ys')"
    "loose z a0 e xs' False a' s'' ys' st3" "block_merge_next (of_nat a') st2 = Some (of_nat a', st3)"
    "kept (live xs' \<union> live ys) st2 st3" "separated True ys'" "live ys' = live ys"
    "\<forall>n. a' + 4 < n \<longrightarrow> n \<le> a' + 8 + s' \<longrightarrow> M st3 n = M st2 n" "s' \<le> s''" .
  from insert_loose [OF st3(2) st2(5) st3(5) st2(7)] obtain st4 where st4: "block_insert (of_nat a') st3 = Some st4"
    "heap_ok z a0 e (xs' @ (a', s'', True) # ys') st4" "kept (live xs' \<union> live ys') st3 st4"
    "\<forall>n. a' + 16 \<le> n \<longrightarrow> n \<le> a' + 8 + s'' \<longrightarrow> M st4 n = M st3 n" .
  have nz: "(of_nat (a + 8) :: u32) \<noteq> 0" using o(9,10) by (intro of_nat_0_u32) auto
  have "block_from_ptr (of_nat (a + 8)) = of_nat a" by (simp add: block_from_ptr_def block_start_offset_def)
  then have "tlsf_free (of_nat (a + 8)) st = Some st4"
    using nz st1(1) st2(3) st3(3) st4(1) by (simp add: tlsf_free_def)
  moreover have "release xs a s ys = xs' @ (a', s'', True) # ys'"
    using st2(1) st3(1) by (simp add: release_def)
  moreover have "kept (live xs \<union> live ys) st st4"
    using h1(2) st2(4,6) st3(4,6) st4(3) by (metis kept_trans)
  moreover have "fst (snd (join_prev xs a s)) \<noteq> a \<longrightarrow> M st4 (a + 4) = hdr s True True
    \<and> (\<forall>b t zs. ys = (b, t, True) # zs \<longrightarrow> M st4 (b + 4) = hdr t True True)"
  proof (intro impI conjI allI)
    assume "fst (snd (join_prev xs a s)) \<noteq> a"
    then have ne: "a' \<noteq> a" using st2(1) by simp
    then have le: "a' + 16 \<le> a" "a' + 4 + s' = a + 4 + s" using st2(9) by auto
    have g: "g" using ne st2(1) o(7) by (auto simp: join_prev_def split: if_splits)
    have same: "M st4 n = M st1 n" if "a + 4 \<le> n" "n \<le> a + 8 + s" "n \<noteq> a + 4 + s" for n
    proof -
      have "M st4 n = M st3 n" using st4(4) st3(8) le that by auto
      also have "\<dots> = M st2 n" using st3(7) le that by auto
      also have "\<dots> = M st1 n" using st2(8) that by auto
      finally show ?thesis .
    qed
    show "M st4 (a + 4) = hdr s True True" using same [of "a + 4"] st1(3) g o(5) by simp
    fix b t zs assume ys: "ys = (b, t, True) # zs"
    have b: "b = a + 4 + s" "M st1 (b + 4) = hdr t True True"
      using gapD(2,5) [OF st1(2)] unfolding ys by auto
    show "M st4 (b + 4) = hdr t True True" using same [of "b + 4"] b by simp
  qed
  ultimately show ?thesis using st4(2) st2(6) st3(6) by (intro that) auto
qed

lemma free_spec:
  assumes h: "heap_ok z a0 e (xs @ (a, s, False) # ys) st"
  obtains st' where "tlsf_free (of_nat (a + 8)) st = Some st'" "heap_ok z a0 e (release xs a s ys) st'"
    "kept (live xs \<union> live ys) st st'" "live (release xs a s ys) = live xs \<union> live ys"
  by (rule free_spec_stale [OF h]) (rule that)

text \<open>The owner of a block may write to its payload.\<close>

lemma heap_poke:
  assumes h: "heap_ok z a0 e (xs @ (a, s, False) # ys) st" and n: "a + 8 \<le> n" "n \<le> a + 4 + s"
  shows "heap_ok z a0 e (xs @ (a, s, False) # ys) (put n v st)" "kept (live xs \<union> live ys) st (put n v st)"
proof -
  from open_block [OF h] obtain g where o: "hole z a0 e xs g a (a + 4 + s) False ys (if False then {(a, s)} else {}) st"
    "M st (a + 4) = hdr s False g" "False \<longrightarrow> M st (a + 4 + s) = of_nat a" "4 dvd s" "12 \<le> s" "s < 2 ^ 30"
    "g \<longleftrightarrow> xs \<noteq> [] \<and> snd (snd (last xs))" "False \<longrightarrow> \<not> g" "0 < a" "a + 8 + s < 2 ^ 32" .
  have h0: "hole z a0 e xs g a (a + 4 + s) False ys {} st" using o(1) by simp
  then have g0: "gap a0 e xs g a (a + 4 + s) False ys st" by (simp add: hole_def)
  have on: "only {n} st (put n v st)" using n o(10) by (intro only_put) linarith
  have g1: "gap a0 e xs g a (a + 4 + s) False ys (put n v st)" using n by (intro gap_frame [OF g0 on]) auto
  have "same_tables st (put n v st)" by simp
  from hole_writes [OF h0 g1 this on] n have hw: "hole z a0 e xs g a (a + 4 + s) False ys {} (put n v st)"
    "kept (live xs \<union> live ys) st (put n v st)" by auto
  have m: "M (put n v st) (a + 4) = hdr s False g" using o(2,10) n by (simp add: M_put)
  have "separated False (xs @ (a, s, False) # ys)" using h by (simp only: heap_ok_def)
  with hw(1) m o(4,5) show "heap_ok z a0 e (xs @ (a, s, False) # ys) (put n v st)"
    by (intro close_block) auto
  show "kept (live xs \<union> live ys) st (put n v st)" by (rule hw(2))
qed

end
