(* ===== verification/TlsfSpec.thy ===== *)
theory TlsfSpec
  imports TlsfAlloc
begin

text \<open>
  What the allocator promises its clients: tlsf_create sets up a heap in the invariant, tlsf_malloc
  returns fresh blocks that are large enough, tlsf_free gives them back, and nothing of this touches the
  contents of the blocks that stay allocated. The contract is the locale \<open>allocator\<close>.
\<close>

section \<open>Setting up a pool\<close>

lemma flists_construct:
  assumes "block_null st = of_nat z" and "placed z a0 e"
  shows "flists z (pool_construct st) {}"
proof -
  have "class_ok z (pool_construct st) f l (members {} (f, l))" if "f < 24" "l < 32" for f l
  proof -
    have "dlist z (M (pool_construct st)) (blocks (pool_construct st) ! f ! l) []"
      using that assms(1) by (simp add: pool_construct_def dlist_def tlsf_consts store_def)
    then show ?thesis using that
      by (auto simp: class_ok_def members_def pool_construct_def tlsf_consts store_def)
  qed
  moreover have "shape (pool_construct st)" "block_null (pool_construct st) = of_nat z"
    "fl_bitmap (pool_construct st) = 0" "\<And>k. k < 24 \<Longrightarrow> sl_bitmap (pool_construct st) ! k = 0"
    using assms(1) by (simp_all add: shape_def pool_construct_def tlsf_consts store_def)
  ultimately show ?thesis by (auto simp: flists_def)
qed

definition round_down :: "nat \<Rightarrow> nat" where "round_down n = 4 * (n div 4)"

lemma align_down_spec:
  assumes "n < 2 ^ 32"
  shows "align_down (of_nat n) ALIGN_SIZE = Some (of_nat (round_down n))"
proof -
  have "unat ((of_nat n :: u32) AND 3) = n mod 4"
  proof -
    have "unat ((of_nat n :: u32) AND mask 2) = unat (of_nat n :: u32) mod 2 ^ 2"
      unfolding take_bit_eq_mask [symmetric] unsigned_take_bit_eq by (rule take_bit_eq_mod)
    then show ?thesis using assms by (simp add: unat_of_nat_u32 mask_eq_decr_exp)
  qed
  moreover have "unat (of_nat (n mod 4) :: u32) = n mod 4" by (rule unat_of_nat_u32) simp
  ultimately have e: "(of_nat n :: u32) AND 3 = of_nat (n mod 4)" by (simp only: word_unat_eq_iff)
  have "n - n mod 4 = round_down n" by (simp add: round_down_def minus_mod_eq_mult_div)
  then have "(of_nat n :: u32) - of_nat (n mod 4) = of_nat (round_down n)"
    by (metis mod_less_eq_dividend of_nat_diff)
  then show ?thesis unfolding align_down_def by (simp add: tlsf_consts e)
qed

lemma create_spec:
  assumes p: "4 dvd p" "0 < p" "p + bytes \<le> 2 ^ 32" and b: "12 \<le> round_down (bytes - 3180)" "3180 \<le> bytes"
    "round_down (bytes - 3180) < 2 ^ 30"
    and z: "block_null st = of_nat z" "0 < z" "z + 16 \<le> 2 ^ 32" "z + 16 \<le> p \<or> p + bytes \<le> z"
  obtains st' where "tlsf_create (of_nat p) (of_nat bytes) st = Some (of_nat p, st')"
    "heap_ok z (p + 3168) (p + 3168 + 4 + round_down (bytes - 3180)) [(p + 3168, round_down (bytes - 3180), True)] st'"
proof -
  let ?a = "p + 3168" and ?s = "round_down (bytes - 3180)"
  let ?e = "?a + 4 + ?s"
  have s: "4 dvd ?s" "?s \<le> bytes - 3180" by (simp_all add: round_down_def)
  have bd: "?e + 8 \<le> 2 ^ 32" using s p b by linarith
  have s30: "?s + 4 \<le> 2 ^ 30"
  proof -
    obtain q where "?s = 4 * q" by (simp add: round_down_def)
    with b(3) show ?thesis by simp
  qed
  have a4: "4 dvd ?a" using p(1) by simp
  have zz: "z + 16 \<le> ?a \<or> ?e + 8 \<le> z" using z(4) s b by linarith
  have pl: "placed z ?a ?e"
    unfolding placed_def using p(2) s30 a4 bd z(2,3) zz by simp
  let ?st1 = "pool_construct st"
  note fl1 = flists_construct [OF z(1) pl]
  from any_flags [OF s(1), of "M ?st1 (?a + 4)"] obtain f0 x where
    fx: "of_nat ?s OR (M ?st1 (?a + 4) AND (1 OR 2)) = hdr ?s f0 x" .
  let ?p = "put (?a + 4)"
  let ?st2 = "?p (hdr ?s f0 x) ?st1"
  let ?st3 = "?p (hdr ?s True x) ?st2"
  let ?st4 = "?p (hdr ?s True False) ?st3"
  have a32: "?a + 4 < 2 ^ 32" using bd by linarith
  have set1: "block_set_size (of_nat ?a) (of_nat ?s) ?st1 = ?st2"
    unfolding block_set_size_def field_M put_def block_header_free_bit_def block_header_prev_free_bit_def fx
    by simp
  have m2: "M ?st2 (?a + 4) = hdr ?s f0 x" "M ?st3 (?a + 4) = hdr ?s True x" "M ?st4 (?a + 4) = hdr ?s True False"
    using a32 by (simp_all add: M_put)
  note set2 = header_writes(1) [OF m2(1) s(1)] and set3 = header_writes(4) [OF m2(2) s(1)]
  have fl4: "flists z ?st4 {}"
  proof (rule flists_frame [OF fl1])
    show "\<forall>n \<in> link_words z {}. M ?st4 n = M ?st1 n"
      using z(2-3) zz a32 s by (auto simp: link_words_def M_put)
  qed simp
  obtain k l where kl: "mapping_insert (of_nat ?s) = (k, l)" by fastforce
  have ap: "apart z {(?a, ?s)}" using placedD [OF pl] b s30 by (auto simp: apart_def)
  from insert_free_block_spec [OF fl4 ap _ kl] obtain st5 where st5:
    "insert_free_block (of_nat ?a) k l ?st4 = Some st5" "flists z st5 {(?a, ?s)}"
    "only (link_words z {(?a, ?s)}) ?st4 st5" by auto
  have ins: "block_insert (of_nat ?a) ?st4 = Some st5"
    using st5(1) kl header_reads(1) [OF m2(3) s(1)] s30 by (simp add: block_insert_def)
  have lw: "?a + 4 \<notin> link_words z {(?a, ?s)}" "?e \<notin> link_words z {(?a, ?s)}" "?e + 4 \<notin> link_words z {(?a, ?s)}"
    using zz b(1) by (auto simp: link_words_def)
  have m5: "M st5 (?a + 4) = hdr ?s True False" using st5(3) lw(1) a32 m2(3) by (simp add: only_def)
  let ?st6 = "put ?e (of_nat ?a) st5"
  have ln: "block_link_next (of_nat ?a) st5 = Some (of_nat ?e, ?st6)"
    using header_reads(5) [OF m5 s(1)] s30 b(1) by (simp add: block_link_next_def put_def)
  have d0: "4 dvd (0::nat)" by simp
  from any_flags [OF d0, of "M ?st6 (?e + 4)"] obtain f1 x1 where
    fx1: "of_nat 0 OR (M ?st6 (?e + 4) AND (1 OR 2)) = hdr 0 f1 x1" .
  let ?q = "put (?e + 4)"
  let ?st7 = "?q (hdr 0 f1 x1) ?st6"
  let ?st8 = "?q (hdr 0 False x1) ?st7"
  let ?st9 = "?q (hdr 0 False True) ?st8"
  have set6: "block_set_size (of_nat ?e) 0 ?st6 = ?st7"
    using fx1 unfolding block_set_size_def field_M put_def block_header_free_bit_def block_header_prev_free_bit_def
    by simp
  have m7: "M ?st7 (?e + 4) = hdr 0 f1 x1" "M ?st8 (?e + 4) = hdr 0 False x1"
    using bd by (simp_all add: M_put)
  note set7 = header_writes(2) [OF m7(1) d0] and set8 = header_writes(3) [OF m7(2) d0]
  have m9: "M ?st9 (?e + 4) = hdr 0 False True" "M ?st9 ?e = of_nat ?a" "M ?st9 (?a + 4) = hdr ?s True False"
    using bd m5 b(1) by (simp_all add: M_put)
  have fl9: "flists z ?st9 {(?a, ?s)}"
  proof (rule flists_frame [OF st5(2)])
    show "same_tables st5 ?st9" by simp
    show "\<forall>n \<in> link_words z {(?a, ?s)}. M ?st9 n = M st5 n"
    proof
      fix n assume n: "n \<in> link_words z {(?a, ?s)}"
      then have "n < 2 ^ 32" using z(3) bd b(1) by (auto simp: link_words_def)
      moreover have "n \<noteq> ?e" "n \<noteq> ?e + 4" using n lw(2,3) by blast+
      ultimately show "M ?st9 n = M st5 n" using bd by (simp only: M_put if_False)
    qed
  qed
  have "heap_ok z ?a ?e [(?a, ?s, True)] ?st9"
    using pl s(1) b(1) m9 fl9 by (simp add: heap_ok_def headers_def)
  moreover have "tlsf_create (of_nat p) (of_nat bytes) st = Some (of_nat p, ?st9)"
  proof -
    have ov: "(of_nat bytes :: u32) - tlsf_overhead = of_nat (bytes - 3180)"
      using b(2) by (simp add: tlsf_overhead_def tlsf_consts of_nat_diff)
    have al: "align_down (of_nat bytes - tlsf_overhead) ALIGN_SIZE = Some (of_nat ?s)"
      unfolding ov using p b by (intro align_down_spec) linarith
    have al2: "align_down (of_nat ?s) ALIGN_SIZE = Some (of_nat ?s)"
      using align_down_spec [of ?s] s30 by (simp add: round_down_def)
    have lim: "\<not> ((of_nat ?s :: u32) < block_size_min \<or> (of_nat ?s :: u32) > block_size_max)"
      using of_nat_less_u32 [of ?s 12] of_nat_less_u32 [of "2 ^ 30" ?s] b(1) s30
      by (simp add: tlsf_consts push_bit_eq_mult)
    have blk: "offset_to_block (of_nat p) (sizeof_pool - block_header_overhead) = of_nat ?a"
      by (simp add: offset_to_block_def tlsf_consts)
    show ?thesis
      unfolding tlsf_create_def al bind.bind_lunit Let_def blk al2
      using lim ins ln set1 set2 set3 set6 set7 set8 al2
      by (simp del: of_nat_add)
  qed
  ultimately show ?thesis by (intro that) auto
qed


section \<open>The contract\<close>

text \<open>
  The client's view: the set of allocated blocks as pairs of the pointer and the size that
  tlsf_block_size returns for it.
\<close>

definition blocks_out :: "blk list \<Rightarrow> (nat \<times> nat) set" where
  "blocks_out bs = (\<lambda>(a, s). (a + 8, s)) ` live bs"

definition heap_inv :: "nat \<Rightarrow> nat \<Rightarrow> nat \<Rightarrow> (nat \<times> nat) set \<Rightarrow> tlsf \<Rightarrow> bool" where
  "heap_inv z a0 e U st \<longleftrightarrow> (\<exists>bs. heap_ok z a0 e bs st \<and> blocks_out bs = U)"

definition same_contents :: "(nat \<times> nat) set \<Rightarrow> tlsf \<Rightarrow> tlsf \<Rightarrow> bool" where
  "same_contents U st st' \<longleftrightarrow> (\<forall>(p, s) \<in> U. \<forall>n. p \<le> n \<longrightarrow> n < p + s \<longrightarrow> 4 dvd n \<longrightarrow> M st' n = M st n)"

lemma same_contents_kept: "same_contents (blocks_out bs) st st' \<longleftrightarrow> kept (live bs) st st'"
  by (auto simp: same_contents_def kept_def blocks_out_def)

text \<open>A request that the index tables can serve, see \<open>mapping_search_class\<close>.\<close>

definition servable :: "nat \<Rightarrow> bool" where
  "servable n \<longleftrightarrow> n < 2 ^ 32 \<and> (n < 2 ^ 30 \<longrightarrow> n \<le> 2 ^ 30 - 2 ^ 24)"

definition apart_blocks :: "(nat \<times> nat) set \<Rightarrow> bool" where
  "apart_blocks U \<longleftrightarrow> (\<forall>(p, s) \<in> U. \<forall>(q, t) \<in> U. (p, s) = (q, t) \<or> p + s \<le> q \<or> q + t \<le> p)"

text \<open>A client that asks for blocks and gives back the ones it holds.\<close>

datatype request = Take nat | Give nat

definition client_step ::
  "(u32 \<Rightarrow> 's \<Rightarrow> (u32 \<times> 's) option) \<Rightarrow> (u32 \<Rightarrow> 's \<Rightarrow> 's option) \<Rightarrow> (u32 \<Rightarrow> 's \<Rightarrow> u32)
    \<Rightarrow> request \<Rightarrow> (nat \<times> nat) list \<times> 's \<Rightarrow> ((nat \<times> nat) list \<times> 's) option" where
  "client_step alloc rel sz r held_st = (case held_st of (held, st) \<Rightarrow>
     case r of
       Take n \<Rightarrow> do {
         (p, st) \<leftarrow> alloc (of_nat n) st;
         Some (if p = 0 then held else (unat p, unat (sz p st)) # held, st) }
     | Give i \<Rightarrow>
         if i < length held then do {
           st \<leftarrow> rel (of_nat (fst (held ! i))) st;
           Some (take i held @ drop (Suc i) held, st) }
         else Some (held, st))"

definition client :: "(u32 \<Rightarrow> 's \<Rightarrow> (u32 \<times> 's) option) \<Rightarrow> (u32 \<Rightarrow> 's \<Rightarrow> 's option) \<Rightarrow> (u32 \<Rightarrow> 's \<Rightarrow> u32)
    \<Rightarrow> request list \<Rightarrow> (nat \<times> nat) list \<times> 's \<Rightarrow> ((nat \<times> nat) list \<times> 's) option" where
  "client alloc rel sz = foldM (client_step alloc rel sz)"

fun servable_request :: "request \<Rightarrow> bool" where
  "servable_request (Take n) = servable n"
| "servable_request (Give i) = True"

locale allocator =
  fixes inv :: "(nat \<times> nat) set \<Rightarrow> 's \<Rightarrow> bool"
    and same :: "(nat \<times> nat) set \<Rightarrow> 's \<Rightarrow> 's \<Rightarrow> bool"
    and alloc :: "u32 \<Rightarrow> 's \<Rightarrow> (u32 \<times> 's) option"
    and rel :: "u32 \<Rightarrow> 's \<Rightarrow> 's option"
    and sz :: "u32 \<Rightarrow> 's \<Rightarrow> u32"
  assumes alloc_law: "inv U st \<Longrightarrow> servable n \<Longrightarrow> \<exists>p st'. alloc (of_nat n) st = Some (p, st') \<and> same U st st'
      \<and> (p = 0 \<and> inv U st' \<or> p \<noteq> 0 \<and> n \<le> unat (sz p st') \<and> (unat p, unat (sz p st')) \<notin> U
          \<and> inv (insert (unat p, unat (sz p st')) U) st')"
    and rel_law: "inv U st \<Longrightarrow> (p, s) \<in> U \<Longrightarrow> \<exists>st'. rel (of_nat p) st = Some st'
      \<and> inv (U - {(p, s)}) st' \<and> same (U - {(p, s)}) st st'"
    and inv_apart: "inv U st \<Longrightarrow> apart_blocks U"
    and same_refl: "same U st st"
    and same_trans: "same U st st' \<Longrightarrow> same U st' st'' \<Longrightarrow> same U st st''"
    and same_mono: "same U st st' \<Longrightarrow> V \<subseteq> U \<Longrightarrow> same V st st'"
begin

definition owns :: "(nat \<times> nat) list \<Rightarrow> (nat \<times> nat) set \<Rightarrow> 's \<Rightarrow> bool" where
  "owns held others st \<longleftrightarrow> distinct held \<and> set held \<inter> others = {} \<and> inv (set held \<union> others) st"

lemma client_step_law:
  assumes o: "owns held others st" and r: "servable_request r"
  shows "\<exists>held' st'. client_step alloc rel sz r (held, st) = Some (held', st')
    \<and> owns held' others st' \<and> same others st st'"
proof (cases r)
  case (Take n)
  with r o obtain p st' where a: "alloc (of_nat n) st = Some (p, st')" "same (set held \<union> others) st st'"
    "p = 0 \<and> inv (set held \<union> others) st' \<or> p \<noteq> 0 \<and> n \<le> unat (sz p st')
      \<and> (unat p, unat (sz p st')) \<notin> set held \<union> others
      \<and> inv (insert (unat p, unat (sz p st')) (set held \<union> others)) st'"
    using alloc_law [of "set held \<union> others" st n] by (auto simp: owns_def)
  have "same others st st'" using a(2) by (rule same_mono) blast
  with a(1,3) o Take show ?thesis by (auto simp: client_step_def owns_def)
next
  case (Give i)
  show ?thesis
  proof (cases "i < length held")
    case True
    obtain p s where ps: "held ! i = (p, s)" by fastforce
    have held: "held = take i held @ (p, s) # drop (Suc i) held" using id_take_nth_drop [OF True] ps by simp
    let ?h = "take i held @ drop (Suc i) held"
    have "distinct (take i held @ (p, s) # drop (Suc i) held)" using o held by (simp add: owns_def)
    then have d: "distinct ?h" "(p, s) \<notin> set ?h" by auto
    have sh: "set held = insert (p, s) (set ?h)" by (subst held) auto
    have "(p, s) \<in> set held \<union> others" using sh by simp
    with o rel_law obtain st' where st': "rel (of_nat p) st = Some st'"
      "inv (set held \<union> others - {(p, s)}) st'" "same (set held \<union> others - {(p, s)}) st st'"
      unfolding owns_def by blast
    have no: "(p, s) \<notin> others" "set ?h \<inter> others = {}" using o sh by (auto simp: owns_def)
    then have e: "set held \<union> others - {(p, s)} = set ?h \<union> others" using sh d(2) by blast
    have "same others st st'" using st'(3) unfolding e by (rule same_mono) blast
    moreover have "owns ?h others st'" using d(1) no(2) st'(2) unfolding e owns_def by blast
    ultimately show ?thesis using Give True ps st'(1) by (simp add: client_step_def)
  next
    case False
    with Give o same_refl show ?thesis by (auto simp: client_step_def)
  qed
qed

lemma client_law:
  assumes "owns held others st" and "\<forall>r \<in> set rs. servable_request r"
  shows "\<exists>held' st'. client alloc rel sz rs (held, st) = Some (held', st')
    \<and> owns held' others st' \<and> same others st st'"
  using assms
proof (induction rs arbitrary: held st)
  case Nil
  then show ?case using same_refl by (simp add: client_def)
next
  case (Cons r rs)
  then obtain held1 st1 where 1: "client_step alloc rel sz r (held, st) = Some (held1, st1)"
    "owns held1 others st1" "same others st st1" using client_step_law [of held others st r] by auto
  then obtain held2 st2 where 2: "client alloc rel sz rs (held1, st1) = Some (held2, st2)"
    "owns held2 others st2" "same others st1 st2" using Cons.IH [OF 1(2)] Cons.prems(2) by auto
  have "client alloc rel sz (r # rs) (held, st) = Some (held2, st2)" using 1(1) 2(1) by (simp add: client_def)
  with 2(2) same_trans [OF 1(3) 2(3)] show ?case by blast
qed

lemma owns_apart: "owns held others st \<Longrightarrow> apart_blocks (set held \<union> others)"
  using inv_apart unfolding owns_def by blast

end

section \<open>The allocator of the code provides it\<close>

lemma block_size_out:
  assumes "heap_ok z a0 e (xs @ (a, s, f) # ys) st"
  shows "tlsf_block_size (of_nat (a + 8)) st = of_nat s"
proof -
  from open_block [OF assms] obtain g where o: "M st (a + 4) = hdr s f g" "4 dvd s" "s < 2 ^ 30" "0 < a"
    "a + 8 + s < 2 ^ 32" .
  have "(of_nat (a + 8) :: u32) \<noteq> 0" using o by (intro of_nat_0_u32) auto
  then show ?thesis using header_reads(1) [OF o(1,2)] o(3)
    by (simp add: tlsf_block_size_def block_from_ptr_def block_start_offset_def)
qed

lemma servable_request_size: "servable n \<Longrightarrow> n < 2 ^ 30 \<longrightarrow> request n \<le> 2 ^ 30 - 2 ^ 24"
  using request_bounds(4) [of n "(2 ^ 30 - 2 ^ 24) div 4"] by (simp add: servable_def)

lemma heap_apart:
  assumes "heap_ok z a0 e bs st"
  shows "apart_blocks (blocks_out bs)"
proof -
  have t: "tiles a0 bs e" using assms by (simp add: heap_ok_def)
  have "(a, s) = (b, t) \<or> a + 4 + s \<le> b \<or> b + 4 + t \<le> a" if "(a, s) \<in> live bs" "(b, t) \<in> live bs" for a s b t
    using tiles_apart [OF \<open>tiles a0 bs e\<close>, of a s False b t False] that by (auto simp: live_def)
  then show ?thesis unfolding apart_blocks_def blocks_out_def by fastforce
qed

lemma carve_out:
  assumes "bs = xs @ (a, s, True) # ys" and "request n \<le> s"
  obtains t where "n \<le> t" "t \<le> s" "blocks_out (xs @ carve a s (request n) @ ys) = insert (a + 8, t) (blocks_out bs)"
    "\<exists>us vs. xs @ carve a s (request n) @ ys = us @ (a, t, False) # vs"
proof -
  let ?t = "if request n + 16 \<le> s then request n else s"
  have "n \<le> ?t" "?t \<le> s" using request_bounds(1) [of n] assms(2) by auto
  moreover have "blocks_out (xs @ carve a s (request n) @ ys) = insert (a + 8, ?t) (blocks_out bs)"
    using assms(1) by (simp add: blocks_out_def live_carve del: live_simps)
  moreover have "\<exists>us vs. xs @ carve a s (request n) @ ys = us @ (a, ?t, False) # vs"
    by (auto simp: carve_def)
  ultimately show ?thesis by (rule that)
qed

lemma heap_alloc_law:
  assumes "heap_inv z a0 e U st" and "servable n"
  shows "\<exists>p st'. tlsf_malloc (of_nat n) st = Some (p, st') \<and> same_contents U st st'
    \<and> (p = 0 \<and> heap_inv z a0 e U st' \<or> p \<noteq> 0 \<and> n \<le> unat (tlsf_block_size p st')
      \<and> (unat p, unat (tlsf_block_size p st')) \<notin> U \<and> heap_inv z a0 e (insert (unat p, unat (tlsf_block_size p st')) U) st')"
proof -
  from assms(1) obtain bs where bs: "heap_ok z a0 e bs st" "blocks_out bs = U" by (auto simp: heap_inv_def)
  have n: "n < 2 ^ 32" using assms(2) by (simp add: servable_def)
  from bs(1) n servable_request_size [OF assms(2)] show ?thesis
  proof (cases rule: malloc_spec)
    case none
    with assms(1) show ?thesis by (intro exI [of _ 0] exI [of _ st]) (simp add: same_contents_def split_beta)
  next
    case (found xs a s ys st')
    from carve_out [OF found(1,2)] obtain t where t: "n \<le> t" "t \<le> s"
      "blocks_out (xs @ carve a s (request n) @ ys) = insert (a + 8, t) U"
      "\<exists>us vs. xs @ carve a s (request n) @ ys = us @ (a, t, False) # vs" unfolding bs(2) .
    then have sz: "tlsf_block_size (of_nat (a + 8)) st' = of_nat t" using block_size_out found(7) by metis
    have u: "unat (of_nat (a + 8) :: u32) = a + 8" "unat (of_nat t :: u32) = t" "(of_nat (a + 8) :: u32) \<noteq> 0"
      using found(4,5) t(2) unat_of_nat_u32 [of "a + 8"] unat_of_nat_u32 [of t] of_nat_0_u32 [of "a + 8"]
      by simp_all
    have "(a + 8, t) \<notin> U"
    proof
      assume "(a + 8, t) \<in> U"
      then have "(a, t, False) \<in> set bs" using bs(2) by (auto simp: blocks_out_def live_def)
      moreover have "tiles a0 bs e" using bs(1) by (simp add: heap_ok_def)
      ultimately show False using tiles_apart [of a0 bs e a t False a s True] found(1) by auto
    qed
    moreover have "heap_inv z a0 e (insert (a + 8, t) U) st'" using found(7) t(3) by (auto simp: heap_inv_def)
    moreover have "same_contents U st st'" using found(8) bs(2) same_contents_kept by metis
    ultimately show ?thesis using found(6) t(1) u sz by (intro exI [of _ "of_nat (a + 8)"] exI [of _ st']) simp
  qed
qed

lemma heap_free_law:
  assumes "heap_inv z a0 e U st" and "(p, s) \<in> U"
  shows "\<exists>st'. tlsf_free (of_nat p) st = Some st' \<and> heap_inv z a0 e (U - {(p, s)}) st'
    \<and> same_contents (U - {(p, s)}) st st'"
proof -
  from assms obtain bs a where bs: "heap_ok z a0 e bs st" "blocks_out bs = U" "p = a + 8" "(a, s, False) \<in> set bs"
    by (auto simp: heap_inv_def blocks_out_def live_def)
  then obtain xs ys where xy: "bs = xs @ (a, s, False) # ys" by (meson split_list)
  from free_spec [OF bs(1) [unfolded xy]] obtain st' where st': "tlsf_free (of_nat (a + 8)) st = Some st'"
    "heap_ok z a0 e (release xs a s ys) st'" "kept (live xs \<union> live ys) st st'"
    "live (release xs a s ys) = live xs \<union> live ys" .
  have "(a, s) \<notin> live xs \<union> live ys"
  proof
    assume "(a, s) \<in> live xs \<union> live ys"
    then have "(a, s, False) \<in> set xs \<union> set ys" by (auto simp: live_def)
    moreover have "tiles a0 (xs @ (a, s, False) # ys) e" using bs(1) xy by (simp only: heap_ok_def)
    then have t: "tiles a0 xs a" "tiles (a + 4 + s) ys e" by auto
    ultimately show False using tiles_in [OF t(1), of a s False] tiles_in [OF t(2), of a s False] by auto
  qed
  then have "(p, s) \<notin> blocks_out (release xs a s ys)" unfolding blocks_out_def st'(4) bs(3) by force
  moreover have "U = insert (p, s) (blocks_out (release xs a s ys))"
    unfolding bs(2) [symmetric] blocks_out_def st'(4) xy bs(3) by simp
  ultimately have "blocks_out (release xs a s ys) = U - {(p, s)}" by blast
  moreover have "same_contents (blocks_out (release xs a s ys)) st st'"
    unfolding same_contents_kept st'(4) by (rule st'(3))
  ultimately show ?thesis using st'(1,2) bs(3) unfolding heap_inv_def by metis
qed

interpretation heap: allocator "heap_inv z a0 e" same_contents tlsf_malloc tlsf_free tlsf_block_size
  for z a0 e
proof unfold_locales
  show "heap_inv z a0 e U st \<Longrightarrow> apart_blocks U" for U st
    using heap_apart by (auto simp: heap_inv_def)
  show "same_contents U st st' \<Longrightarrow> same_contents U st' st'' \<Longrightarrow> same_contents U st st''" for U st st' st''
    by (fastforce simp: same_contents_def)
  show "same_contents U st st' \<Longrightarrow> V \<subseteq> U \<Longrightarrow> same_contents V st st'" for U V st st'
    by (auto simp: same_contents_def)
  show "same_contents U st st" for U st by (auto simp: same_contents_def)
qed (rule heap_alloc_law heap_free_law, assumption, assumption)+

end
