(* ===== verification/TlsfCheck.thy ===== *)
theory TlsfCheck
  imports TlsfSpec
begin

text \<open>
  The self-check of the allocator (tlsf_check_heap) and the walk over the heap, on heaps in the
  invariant: the walk visits every block once in the order of the addresses, and the check finds
  nothing to complain about.

  An insisted condition that fails costs one point of the status, as in a build without assertions;
  a status of 0 says that no condition failed, so that no assertion of the other build would stop.
\<close>

section \<open>The check (tlsf.c)\<close>

definition insist :: "bool \<Rightarrow> int \<Rightarrow> int" where
  "insist x status = (if x then status else status - 1)"

type_synonym integrity = "int \<times> int"

definition integrity_walker :: "u32 \<Rightarrow> u32 \<Rightarrow> bool \<Rightarrow> integrity \<times> tlsf \<Rightarrow> (integrity \<times> tlsf) option" where
  "integrity_walker ptr sz used integ_st = (case integ_st of ((prev_status, status), st) \<Rightarrow>
     let block = block_from_ptr ptr;
         this_prev_status = (if block_is_prev_free block st then 1 else 0);
         this_status = (if block_is_free block st then 1 else 0);
         local = insist (sz = block_size block st) (insist (prev_status = this_prev_status) 0)
     in Some ((this_status, status + local), st))"

partial_function (option) check_list :: "nat \<Rightarrow> nat \<Rightarrow> tlsf \<Rightarrow> u32 \<Rightarrow> int \<Rightarrow> int option" where
  "check_list i j st block status =
     (if block = block_null st then Some status
      else do {
        next \<leftarrow> block_next block st;
        let status = insist (block_is_free block st) status;
        let status = insist (\<not> block_is_prev_free block st) status;
        let status = insist (\<not> block_is_free next st) status;
        let status = insist (block_is_prev_free next st) status;
        let status = insist (block_size block st \<ge> block_size_min) status;
        let status = insist (mapping_insert (block_size block st) = (i, j)) status;
        check_list i j st (next_free st block) status })"

declare check_list.simps [code]

definition check_class :: "nat \<Rightarrow> nat \<Rightarrow> tlsf \<Rightarrow> int \<Rightarrow> int option" where
  "check_class i j st status = do {
     sl_list \<leftarrow> get_sl_bitmap i st;
     block \<leftarrow> get_block i j st;
     let fl_map = fl_bitmap st AND push_bit i 1;
     let sl_map = sl_list AND push_bit j 1;
     let status = (if fl_map = 0 then insist (sl_map = 0) status else status);
     if sl_map = 0 then Some (insist (block = block_null st) status)
     else do {
       let status = insist (sl_list \<noteq> 0) status;
       let status = insist (block \<noteq> block_null st) status;
       check_list i j st block status } }"

definition tlsf_check_heap :: "u32 \<Rightarrow> tlsf \<Rightarrow> int option" where
  "tlsf_check_heap pool st = do {
     (integ, st) \<leftarrow> tlsf_walk_heap pool integrity_walker ((0, 0), st);
     foldM (\<lambda>i. foldM (\<lambda>j. check_class i j st) [0..<SL_INDEX_COUNT]) [0..<FL_INDEX_COUNT] (snd integ) }"

section \<open>The walk\<close>

lemma walk_blocks_fold:
  assumes "tiles a bs e" and "hseg (M st) pf (bs @ [(e, 0, False)]) q" and "0 < a" "e + 8 \<le> 2 ^ 32"
    and "\<forall>(b, s, f) \<in> set bs. \<forall>x. walker (of_nat (b + 8)) (of_nat s) (\<not> f) (x, st) = Some (g (b, s, f) x, st)"
  shows "walk_blocks walker (of_nat a) (x, st) = Some (fold g bs x, st)"
  using assms
proof (induction bs arbitrary: a pf x)
  case Nil
  then have m: "M st (a + 4) = hdr 0 False pf" by simp
  have "block_is_last (of_nat a) st" using header_reads(4) [OF m] by simp
  then show ?case by (subst walk_blocks.simps) simp
next
  case (Cons y bs)
  obtain b s f where y: "y = (b, s, f)" by (cases y)
  with Cons.prems have t: "b = a" "4 dvd s" "12 \<le> s" "tiles (a + 4 + s) bs e" and m: "M st (a + 4) = hdr s f pf"
    and h: "hseg (M st) f (bs @ [(e, 0, False)]) q" by auto
  have s32: "s < 2 ^ 32" "a < 2 ^ 32" using tiles_le [OF t(4)] Cons.prems(4) by simp_all
  note r = header_reads [OF m t(2) s32(1)]
  have w: "walker (of_nat (a + 8)) (of_nat s) (\<not> f) (x, st) = Some (g (a, s, f) x, st)"
    using Cons.prems(5) y t(1) by auto
  have ih: "walk_blocks walker (of_nat (a + 4 + s)) (g (a, s, f) x, st) = Some (fold g bs (g (a, s, f) x), st)"
    using Cons.prems y by (intro Cons.IH [OF t(4) h]) auto
  have p: "block_to_ptr (of_nat a) = of_nat (a + 8)" by (simp add: block_to_ptr_def block_start_offset_def)
  have "(of_nat a :: u32) \<noteq> 0" using Cons.prems(3) s32(2) by (rule of_nat_0_u32)
  moreover have "\<not> block_is_last (of_nat a) st" using r(4) t(3) by simp
  moreover have "block_next (of_nat a) st = Some (of_nat (a + 4 + s))" using r(5) t(3) by simp
  ultimately show ?case
    using w ih y t(1) by (subst walk_blocks.simps) (simp add: r(1,2) p del: of_nat_add)
qed

lemma walk_heap_fold:
  assumes h: "heap_ok z (p + 3168) e bs st"
    and w: "\<forall>(b, s, f) \<in> set bs. \<forall>x. walker (of_nat (b + 8)) (of_nat s) (\<not> f) (x, st) = Some (g (b, s, f) x, st)"
  shows "tlsf_walk_heap (of_nat p) walker (x, st) = Some (fold g bs x, st)"
proof -
  have blk: "offset_to_block (of_nat p) (sizeof_pool - block_header_overhead) = of_nat (p + 3168)"
    by (simp add: offset_to_block_def tlsf_consts)
  have "tiles (p + 3168) bs e" "hseg (M st) False (bs @ [(e, 0, False)]) False" "0 < p + 3168" "e + 8 \<le> 2 ^ 32"
    using h by (simp_all add: heap_ok_def headers_def placed_def)
  from walk_blocks_fold [OF this w] show ?thesis unfolding tlsf_walk_heap_def blk .
qed

section \<open>The check finds nothing\<close>

definition integrity_of :: "tlsf \<Rightarrow> blk \<Rightarrow> integrity \<Rightarrow> integrity" where
  "integrity_of st y = (\<lambda>(prev, status). case y of (a, s, f) \<Rightarrow>
     ((if f then 1 else 0), status + insist (prev = (if block_is_prev_free (of_nat a) st then 1 else 0)) 0))"

lemma integrity_fold:
  assumes "hseg (M st) pf bs q" and "\<forall>(a, s, f) \<in> set bs. 4 dvd s \<and> s < 2 ^ 32"
  shows "snd (fold (integrity_of st) bs (if pf then 1 else 0, 0)) = 0"
  using assms
proof (induction bs arbitrary: pf)
  case (Cons y bs)
  obtain a s f where y: "y = (a, s, f)" by (cases y)
  with Cons.prems have m: "M st (a + 4) = hdr s f pf" "4 dvd s" "s < 2 ^ 32" by auto
  have "integrity_of st y (if pf then 1 else 0, 0) = (if f then 1 else 0, 0)"
    using header_reads(3) [OF m] y by (simp add: integrity_of_def insist_def)
  with Cons y show ?case by simp
qed simp

lemma free_block_facts:
  assumes h: "heap_ok z a0 e bs st" and a: "(a, s) \<in> frees bs"
  shows "block_next (of_nat a) st = Some (of_nat (a + 4 + s))" "block_is_free (of_nat a) st"
    "\<not> block_is_prev_free (of_nat a) st" "\<not> block_is_free (of_nat (a + 4 + s)) st"
    "block_is_prev_free (of_nat (a + 4 + s)) st" "block_size (of_nat a) st = of_nat s" "12 \<le> s" "s < 2 ^ 32"
proof -
  from a obtain xs ys where bs: "bs = xs @ (a, s, True) # ys" unfolding frees_def by (auto dest: split_list)
  note o = open_free [OF h [unfolded bs]]
  have s32: "s < 2 ^ 32" using o(6) by simp
  note r = header_reads [OF o(2,4) s32]
  show "block_next (of_nat a) st = Some (of_nat (a + 4 + s))" "block_is_free (of_nat a) st"
    "\<not> block_is_prev_free (of_nat a) st" "block_size (of_nat a) st = of_nat s" "12 \<le> s" "s < 2 ^ 32"
    using r o(5) s32 by simp_all
  have g: "gap a0 e xs False a (a + 4 + s) True ys st" using o(1) by (simp add: hole_def)
  from head_header [OF g] obtain t f where t: "M st (a + 4 + s + 4) = hdr t f True" "4 dvd t" "t < 2 ^ 32"
    "f \<longleftrightarrow> (case ys of [] \<Rightarrow> False | (b, s, f) # _ \<Rightarrow> f)"
    "case ys of [] \<Rightarrow> t = 0 | (b', u, f) # _ \<Rightarrow> b' = a + 4 + s \<and> u = t" .
  have "separated True ys" using h unfolding bs heap_ok_def by (simp add: separated_parts)
  then have "\<not> f" using t(4) by (cases ys) auto
  with header_reads(2,3) [OF t(1-3)]
  show "\<not> block_is_free (of_nat (a + 4 + s)) st" "block_is_prev_free (of_nat (a + 4 + s)) st" by simp_all
qed

lemma check_list_ok:
  assumes h: "heap_ok z a0 e bs st" and d: "dls (M st) p b L q (of_nat z)" and n: "block_null st = of_nat z"
    and L: "\<forall>a \<in> set L. a \<in> members (frees bs) (i, j) \<and> of_nat a \<noteq> (of_nat z :: u32)"
  shows "check_list i j st b 0 = Some 0"
  using d L
proof (induction L arbitrary: p b)
  case Nil
  then show ?case using n by (subst check_list.simps) simp
next
  case (Cons a L)
  then obtain s where s: "(a, s) \<in> frees bs" "mapping_insert (of_nat s) = (i, j)" by (auto simp: members_def)
  note f = free_block_facts [OF h s(1)]
  have nn: "of_nat a \<noteq> block_null st" using Cons.prems(2) n by simp
  have mn: "block_size_min \<le> (of_nat s :: u32)" using f(7,8) of_nat_le_u32 [of 12 s] by (simp add: tlsf_consts)
  have b: "b = of_nat a" and d: "dls (M st) (of_nat a) (M st (a + 8)) L q (of_nat z)" using Cons.prems(1) by simp_all
  have ih: "check_list i j st (M st (a + 8)) 0 = Some 0" using Cons.prems(2) by (intro Cons.IH [OF d]) simp
  show ?case unfolding b
    by (subst check_list.simps) (use nn f(1-6) mn s(2) ih in \<open>simp add: insist_def field_M Let_def del: of_nat_add\<close>)
qed

lemma foldM_const: "(\<And>x. x \<in> set xs \<Longrightarrow> f x s = Some s) \<Longrightarrow> foldM f xs s = Some s"
  by (induction xs) auto

lemma check_class_ok:
  assumes h: "heap_ok z a0 e bs st" and ij: "i < 24" "j < 32"
  shows "check_class i j st 0 = Some 0"
proof -
  have fl: "flists z st (frees bs)" using h by (simp add: heap_ok_def)
  note ap = apart_range [OF heap_list_apart [OF h]]
  from flistsD [OF fl ij] obtain L where L: "dlist z (M st) (blocks st ! i ! j) L" "distinct L"
    "set L = members (frees bs) (i, j)" "bit (sl_bitmap st ! i) j \<longleftrightarrow> members (frees bs) (i, j) \<noteq> {}" .
  have sh: "length (sl_bitmap st) = 24" "length (blocks st) = 24" "length (blocks st ! i) = 32"
    "block_null st = of_nat z" "bit (fl_bitmap st) i \<longleftrightarrow> sl_bitmap st ! i \<noteq> 0"
    using fl ij by (auto simp: flists_def shape_def)
  have gets: "get_sl_bitmap i st = Some (sl_bitmap st ! i)" "get_block i j st = Some (blocks st ! i ! j)"
    using sh ij by (simp_all add: get_sl_bitmap_def get_block_def)
  have one: "w AND push_bit k 1 = 0 \<longleftrightarrow> \<not> bit w k" if "k < 32" for w :: u32 and k
    using that by (simp add: and_exp_eq_0_iff_not_bit push_bit_eq_mult)
  have sl0: "sl_bitmap st ! i \<noteq> 0" if "bit (sl_bitmap st ! i) j" using that by auto
  from L(1) obtain q where q: "dls (M st) (of_nat z) (blocks st ! i ! j) L q (of_nat z)" by (auto simp: dlist_def)
  show ?thesis
  proof (cases "L = []")
    case True
    then have "\<not> bit (sl_bitmap st ! i) j" "blocks st ! i ! j = of_nat z" using L(3,4) q by auto
    with gets one [OF ij(2)] sh(4) show ?thesis by (simp add: check_class_def insist_def Let_def)
  next
    case False
    have bit: "bit (sl_bitmap st ! i) j" using False L(3,4) by auto
    have nz: "of_nat a \<noteq> (of_nat z :: u32)" if "a \<in> set L" for a
    proof -
      from that L(3) obtain s where s: "(a, s) \<in> frees bs" by (auto simp: members_def)
      from ap(1,6) [OF s] ap(3) show ?thesis by (simp add: of_nat_eq_u32)
    qed
    have "blocks st ! i ! j = of_nat (hd L)" using dls_head [OF q] False by simp
    then have "blocks st ! i ! j \<noteq> of_nat z" using nz [of "hd L"] False by simp
    moreover have "check_list i j st (blocks st ! i ! j) 0 = Some 0"
      using check_list_ok [OF h q sh(4)] L(3) nz by blast
    moreover have "bit (fl_bitmap st) i" using sh(5) sl0 bit by simp
    moreover have "i < 32" using ij by simp
    ultimately show ?thesis using gets one [OF ij(2)] one [OF \<open>i < 32\<close>] sh(4) bit sl0
      by (simp add: check_class_def insist_def Let_def)
  qed
qed

end
