(* ===== verification/TlsfProps.thy ===== *)
theory TlsfProps
  imports TlsfCheck
begin

text \<open>The properties of the allocator.\<close>

section \<open>Concrete heaps for the witnesses\<close>

definition raw_pool :: tlsf where
  "raw_pool = \<lparr>fl_bitmap = 0, sl_bitmap = [], blocks = [], block_null = 256, mem = (\<lambda>_. 0)\<rparr>"

definition sample_pool :: tlsf where
  "sample_pool = snd (the (tlsf_create 4096 8192 raw_pool))"

lemma sample_pool_ok: "heap_ok 256 7264 12280 [(7264, 5012, True)] sample_pool"
proof -
  have z: "block_null raw_pool = of_nat 256" by (simp add: raw_pool_def)
  from create_spec [of 4096 8192 raw_pool 256] obtain st' where
    "tlsf_create 4096 8192 raw_pool = Some (4096, st')" "heap_ok 256 7264 12280 [(7264, 5012, True)] st'"
    using z by (auto simp: round_down_def)
  then show ?thesis by (simp add: sample_pool_def)
qed

section \<open>Bit scanning and size classes\<close>

text \<open>C28. The scans of tlsfbits.h find the highest and the lowest set bit of every word, and $-1$ for 0.\<close>
theorem tlsf_scans_exact:
  "tlsf_fls w = (if w = 0 then - 1 else int (Max {i. bit w i}))
   \<and> tlsf_ffs w = (if w = 0 then - 1 else int (Min {i. bit w i}))"
proof (cases "w = 0")
  case True
  then show ?thesis by (simp add: tlsf_fls_def tlsf_ffs_def tlsf_fls_generic_def fls_step_def)
next
  case False
  have fin: "finite {i. bit w i}" by (rule finite_subset [of _ "{..<32}"]) (auto dest: bit_imp_le_length)
  from lowest_bit [OF False] obtain j where j: "bit w j" "\<forall>i < j. \<not> bit w i" "tlsf_ffs w = int j" by blast
  have "Min {i. bit w i} = j" using fin j(1,2) by (intro Min_eqI) (auto simp: not_less [symmetric])
  moreover from tlsf_fls_bounds [OF False] obtain n where n: "tlsf_fls w = int n" "n < 32" "2 ^ n \<le> unat w"
    "unat w < 2 ^ (n + 1)" .
  have "Max {i. bit w i} = n"
  proof (rule Max_eqI [OF fin])
    show "i \<le> n" if "i \<in> {i. bit w i}" for i
    proof (rule ccontr)
      assume "\<not> i \<le> n"
      then have "(2::nat) ^ (n + 1) \<le> 2 ^ i" by (intro power_increasing) auto
      with n(4) have "unat w div 2 ^ i = 0" by simp
      then have "\<not> bit (unat w) i" by (simp add: bit_iff_odd)
      with that show False by (simp add: bit_unsigned_iff)
    qed
    have "unat w div 2 ^ n = 1" using n(3,4) by (intro div_nat_eqI) (simp_all add: mult_2)
    then have "bit (unat w) n" by (simp add: bit_iff_odd)
    then show "n \<in> {i. bit w i}" by (simp add: bit_unsigned_iff)
  qed
  ultimately show ?thesis using False j(3) n(1) by simp
qed

text \<open>
  C27. Every block filed in the class that the search starts at, or in a later one, is large enough for the
  rounded request; the class is inside the index tables exactly up to a request of $2^{30} - 2^{24}$ bytes.
\<close>
theorem tlsf_search_class_serves:
  assumes "4 dvd unat s" and "unat s \<le> 2 ^ 30"
  shows "(fst (mapping_search s) < FL_INDEX_COUNT \<longleftrightarrow> unat s \<le> 2 ^ 30 - 2 ^ 24)
    \<and> (class_le (mapping_search s) (mapping_insert t) \<longrightarrow> s \<le> t)"
proof (intro conjI impI)
  note c = mapping_search_class [OF assms]
  show "fst (mapping_search s) < FL_INDEX_COUNT \<longleftrightarrow> unat s \<le> 2 ^ 30 - 2 ^ 24"
    using c by (simp add: tlsf_consts)
  assume "class_le (mapping_search s) (mapping_insert t)"
  then have "class_min (mapping_search s) \<le> class_min (mapping_insert t)" using c by (intro class_min_mono) auto
  also have "\<dots> \<le> unat t" by (rule mapping_insert_class(1))
  finally show "s \<le> t" using c by (simp add: word_le_nat_alt)
qed

theorem tlsf_search_class_serves_witness:
  "mapping_search 100 = (0, 25) \<and> mapping_search (2 ^ 30 - 2 ^ 24) = (23, 31)
   \<and> (fst (mapping_search (2 ^ 30 - 2 ^ 24)) < FL_INDEX_COUNT)
   \<and> \<not> fst (mapping_search (2 ^ 30 - 2 ^ 24 + 4)) < FL_INDEX_COUNT"
proof (intro conjI)
  show "mapping_search 100 = (0, 25)" "mapping_search (2 ^ 30 - 2 ^ 24) = (23, 31)" by code_simp+
  show "fst (mapping_search (2 ^ 30 - 2 ^ 24)) < FL_INDEX_COUNT"
    using tlsf_search_class_serves [of "2 ^ 30 - 2 ^ 24"] by simp
  show "\<not> fst (mapping_search (2 ^ 30 - 2 ^ 24 + 4)) < FL_INDEX_COUNT"
    using tlsf_search_class_serves [of "2 ^ 30 - 2 ^ 24 + 4"] by simp
qed

section \<open>The operations\<close>

text \<open>
  C24. tlsf_create on a memory area that is aligned and large enough makes one free block of all of
  it but the 3180 bytes of overhead, in a heap that satisfies the invariant.
\<close>
theorem tlsf_create_sets_up:
  assumes "4 dvd p" "0 < p" "p + bytes \<le> 2 ^ 32" and "3180 + 12 \<le> bytes" "bytes < 2 ^ 30"
    and "block_null st = of_nat z" "0 < z" "z + 16 \<le> 2 ^ 32" "z + 16 \<le> p \<or> p + bytes \<le> z"
  shows "\<exists>st'. tlsf_create (of_nat p) (of_nat bytes) st = Some (of_nat p, st')
    \<and> heap_ok z (p + 3168) (p + 3168 + 4 + round_down (bytes - 3180))
        [(p + 3168, round_down (bytes - 3180), True)] st'"
proof -
  have "12 \<le> (bytes - 3180) div 4 * 4" using assms(4) div_le_mono [of 12 "bytes - 3180" 4] by simp
  then have "12 \<le> round_down (bytes - 3180)" by (simp add: round_down_def mult.commute)
  moreover have "round_down (bytes - 3180) < 2 ^ 30"
    unfolding round_down_def by (rule le_less_trans [OF times_div_less_eq_dividend]) (use assms(5) in simp)
  moreover have "3180 \<le> bytes" using assms(4) by simp
  ultimately show ?thesis using create_spec assms(1-3,6-9) by metis
qed

theorem tlsf_create_sets_up_witness:
  "\<exists>st'. tlsf_create 4096 8192 raw_pool = Some (4096, st') \<and> heap_ok 256 7264 12280 [(7264, 5012, True)] st'"
  using tlsf_create_sets_up [of 4096 8192 raw_pool 256] by (simp add: raw_pool_def round_down_def)

text \<open>
  C2. tlsf_malloc of a request that the tables can serve always returns, and either refuses and leaves
  the heap as it was, which happens only when the request is 0 or at least the maximum or no free block
  is in a sufficient class; or it takes a sufficient free block, returns its payload, which is aligned,
  splits off what is left over as a free block, and keeps the invariant and the contents of all other blocks.
\<close>
theorem tlsf_malloc_serves:
  assumes "heap_ok z a0 e bs st" and "servable n"
  shows "\<exists>p st'. tlsf_malloc (of_nat n) st = Some (p, st') \<and>
    (p = 0 \<and> st' = st \<and> (n = 0 \<or> 2 ^ 30 \<le> n \<or> (\<forall>a s. (a, s) \<in> frees bs \<longrightarrow>
         \<not> class_le (mapping_search (of_nat (request n))) (mapping_insert (of_nat s))))
     \<or> (\<exists>xs a s ys. bs = xs @ (a, s, True) # ys \<and> n \<le> request n \<and> request n \<le> s \<and> 4 dvd a + 8
         \<and> p = of_nat (a + 8) \<and> p \<noteq> 0 \<and> heap_ok z a0 e (xs @ carve a s (request n) @ ys) st' \<and> kept (live bs) st st'))"
proof -
  have n: "n < 2 ^ 32" using assms(2) by (simp add: servable_def)
  from assms(1) n servable_request_size [OF assms(2)] show ?thesis
  proof (cases rule: malloc_spec)
    case none
    then show ?thesis by (intro exI [of _ 0] exI [of _ st]) simp
  next
    case (found xs a s ys st')
    have "placed z a0 e" "tiles a0 bs e" using assms(1) by (simp_all add: heap_ok_def)
    then have "4 dvd a" using tiles_dvd placedD(2) found(1) by fastforce
    then have "4 dvd a + 8" by simp
    moreover have "(of_nat (a + 8) :: u32) \<noteq> 0" using found(4,5) by (intro of_nat_0_u32) auto
    moreover have "n \<le> request n" by (rule request_bounds)
    ultimately show ?thesis using found by blast
  qed
qed

theorem tlsf_malloc_serves_witness:
  "\<exists>p st'. tlsf_malloc 100 sample_pool = Some (p, st') \<and> p = 7272
    \<and> heap_ok 256 7264 12280 [(7264, 100, False), (7368, 4908, True)] st'"
proof -
  have "servable 100" by (simp add: servable_def)
  from tlsf_malloc_serves [OF sample_pool_ok this] obtain p st' where r: "tlsf_malloc 100 sample_pool = Some (p, st')"
    "p = 0 \<and> \<not> class_le (mapping_search (of_nat (request 100))) (mapping_insert (of_nat 5012)) \<or>
     (\<exists>xs a s ys. [(7264, 5012, True)] = xs @ (a, s, True) # ys \<and> p = of_nat (a + 8) \<and>
        heap_ok 256 7264 12280 (xs @ carve a s (request 100) @ ys) st')" by fastforce
  have "class_le (mapping_search (of_nat (request 100))) (mapping_insert (of_nat 5012))" by code_simp
  with r(2) obtain xs a s ys where "[(7264, 5012, True)] = xs @ (a, s, True) # ys" "p = of_nat (a + 8)"
    "heap_ok 256 7264 12280 (xs @ carve a s (request 100) @ ys) st'" by blast
  then have "p = 7272" "heap_ok 256 7264 12280 (carve 7264 5012 100) st'"
    by (auto simp: Cons_eq_append_conv request_def)
  with r(1) show ?thesis by (simp add: carve_def)
qed

text \<open>
  C3. tlsf_free of an allocated block always returns, merges the block with the free blocks right before
  and behind it, and keeps the invariant and the contents of all other allocated blocks, which are the
  allocated blocks afterwards.
\<close>
theorem tlsf_free_releases:
  assumes "heap_ok z a0 e (xs @ (a, s, False) # ys) st"
  shows "\<exists>st'. tlsf_free (of_nat (a + 8)) st = Some st' \<and> heap_ok z a0 e (release xs a s ys) st'
    \<and> live (release xs a s ys) = live xs \<union> live ys \<and> kept (live xs \<union> live ys) st st'"
  by (rule free_spec [OF assms]) blast

lemma release_carve:
  assumes "separated False (xs @ (a, s, True) # ys)" and "4 \<le> k"
  shows "\<exists>us t vs. xs @ carve a s k @ ys = us @ (a, t, False) # vs \<and> release us a t vs = xs @ (a, s, True) # ys"
proof -
  have x: "\<not> (xs \<noteq> [] \<and> snd (snd (last xs)))" and y: "separated True ys"
    using assms(1) unfolding separated_parts by simp_all
  have jp: "join_prev xs a t = (xs, a, t)" for t using x by (auto simp: join_prev_def)
  have jn: "join_next t ys = (t, ys)" for t using y by (cases ys) (auto simp: join_next_def)
  show ?thesis
  proof (cases "k + 16 \<le> s")
    case True
    then have "release xs a k ((a + 4 + k, s - k - 4, True) # ys) = xs @ (a, s, True) # ys"
      by (simp add: release_def jp join_next_def)
    with True show ?thesis by (intro exI [of _ xs] exI [of _ k] exI [of _ "(a + 4 + k, s - k - 4, True) # ys"]) (auto simp: carve_def)
  next
    case False
    have "release xs a s ys = xs @ (a, s, True) # ys" by (simp add: release_def jp jn)
    with False show ?thesis by (intro exI [of _ xs] exI [of _ s] exI [of _ ys]) (auto simp: carve_def)
  qed
qed

lemma sample_used:
  obtains st where "tlsf_malloc 100 sample_pool = Some (7272, st)"
    "heap_ok 256 7264 12280 [(7264, 100, False), (7368, 4908, True)] st"
proof -
  have "servable 100" by (simp add: servable_def)
  then have n: "(100::nat) < 2 ^ 32" "100 < 2 ^ 30 \<longrightarrow> request 100 \<le> 2 ^ 30 - 2 ^ 24"
    using servable_request_size by simp_all
  have c: "class_le (mapping_search (of_nat (request 100))) (mapping_insert (of_nat 5012))" by code_simp
  from sample_pool_ok n show ?thesis
  proof (cases rule: malloc_spec)
    case none
    with c show ?thesis by simp
  next
    case (found xs a s ys st')
    then have "xs = []" "a = 7264" "s = 5012" "ys = []" by (auto simp: Cons_eq_append_conv)
    with found(6,7) show ?thesis by (intro that) (simp_all add: carve_def request_def)
  qed
qed

theorem tlsf_free_releases_witness:
  "\<exists>st st'. tlsf_malloc 100 sample_pool = Some (7272, st) \<and> tlsf_free 7272 st = Some st'
    \<and> heap_ok 256 7264 12280 [(7264, 5012, True)] st'"
proof -
  from sample_used obtain st where st: "tlsf_malloc 100 sample_pool = Some (7272, st)"
    "heap_ok 256 7264 12280 ([] @ (7264, 100, False) # [(7368, 4908, True)]) st" by auto
  from tlsf_free_releases [OF st(2)] st(1) show ?thesis
    by (auto simp: release_def join_prev_def join_next_def)
qed

text \<open>
  C25. Giving back what tlsf_malloc returned restores the layout of the heap exactly: the block that was
  split off is merged again.
\<close>
theorem tlsf_malloc_free_roundtrip:
  assumes "heap_ok z a0 e bs st" and "servable n" and "tlsf_malloc (of_nat n) st = Some (p, st')" and "p \<noteq> 0"
  shows "\<exists>st''. tlsf_free p st' = Some st'' \<and> heap_ok z a0 e bs st''"
proof -
  have n: "n < 2 ^ 32" using assms(2) by (simp add: servable_def)
  from assms(1) n servable_request_size [OF assms(2)] show ?thesis
  proof (cases rule: malloc_spec)
    case none
    with assms(3,4) show ?thesis by simp
  next
    case (found xs a s ys st1)
    with assms(3) have st': "p = of_nat (a + 8)" "st' = st1" by auto
    have "separated False (xs @ (a, s, True) # ys)" using assms(1) found(1) by (simp only: heap_ok_def)
    moreover have "4 \<le> request n" using request_bounds(3) [of n] by simp
    ultimately obtain us t vs where u: "xs @ carve a s (request n) @ ys = us @ (a, t, False) # vs"
      "release us a t vs = xs @ (a, s, True) # ys" using release_carve by blast
    from free_spec [OF found(7) [unfolded u(1)]] obtain st2 where
      "tlsf_free (of_nat (a + 8)) st1 = Some st2" "heap_ok z a0 e (release us a t vs) st2" .
    then show ?thesis using st' u(2) found(1) by auto
  qed
qed

theorem tlsf_malloc_free_roundtrip_witness:
  "\<exists>st st'. tlsf_malloc 100 sample_pool = Some (7272, st) \<and> tlsf_free 7272 st = Some st'
    \<and> heap_ok 256 7264 12280 [(7264, 5012, True)] st'"
proof -
  have "servable 100" by (simp add: servable_def)
  moreover from sample_used obtain st where "tlsf_malloc (of_nat 100) sample_pool = Some (7272, st)" by auto
  ultimately show ?thesis using tlsf_malloc_free_roundtrip [OF sample_pool_ok, of 100 7272 st] by auto
qed

text \<open>
  C29. A request above $2^{30} - 2^{24}$ bytes that passes the size limit of adjust_request_size starts its
  search beyond the index tables: the code reads past the end of \<open>sl_bitmap\<close>.
\<close>
theorem tlsf_malloc_overruns_tables:
  assumes "heap_ok z a0 e bs st" and "2 ^ 30 - 2 ^ 24 < n" and "n < 2 ^ 30"
  shows "adjust_request_size (of_nat n) ALIGN_SIZE = Some (of_nat (request n)) \<and> tlsf_malloc (of_nat n) st = None"
proof -
  have r: "n \<le> request n" "4 dvd request n" "request n \<le> 2 ^ 30" "request n < 2 ^ 32"
    using request_bounds(1,2) [of n] request_bounds(4) [of n "2 ^ 28"] assms(2,3) by simp_all
  have u: "unat (of_nat (request n) :: u32) = request n" using r(4) by (rule unat_of_nat_u32)
  obtain f l where fl: "mapping_search (of_nat (request n)) = (f, l)" by fastforce
  have "\<not> f < 24" using mapping_search_class [of "of_nat (request n)"] r assms(2) fl u by auto
  moreover have "length (sl_bitmap st) = 24" using assms(1) by (simp add: heap_ok_def flists_def shape_def)
  ultimately have s: "search_suitable_block f l st = None"
    by (simp add: search_suitable_block_def get_sl_bitmap_def)
  have adj: "adjust_request_size (of_nat n) ALIGN_SIZE = Some (of_nat (request n))"
    using adjust_spec [of n] assms(2,3) by simp
  moreover have "(of_nat (request n) :: u32) \<noteq> 0" using r assms(2) by (intro of_nat_0_u32) auto
  then have "tlsf_malloc (of_nat n) st = None"
    using adj fl s by (simp add: tlsf_malloc_def block_locate_free_def)
  ultimately show ?thesis by simp
qed

theorem tlsf_malloc_overruns_tables_witness:
  "adjust_request_size 1060000000 ALIGN_SIZE = Some 1060000000 \<and> tlsf_malloc 1060000000 sample_pool = None"
  using tlsf_malloc_overruns_tables [OF sample_pool_ok, of 1060000000] by (simp add: request_def)

text \<open>
  C30. The walk over the heap calls the walker once for every block, in the order of the addresses, with the
  pointer, the size and whether the block is used, and it ends at the sentinel.
\<close>
theorem tlsf_walk_heap_visits:
  assumes "heap_ok z (p + 3168) e bs st"
  shows "tlsf_walk_heap (of_nat p) (\<lambda>ptr sz used (seen, st). Some (seen @ [(ptr, sz, used)], st)) ([], st)
    = Some (map (\<lambda>(a, s, f). (of_nat (a + 8), of_nat s, \<not> f)) bs, st)"
proof -
  let ?g = "\<lambda>(a, s, f) seen. seen @ [(of_nat (a + 8) :: u32, of_nat s :: u32, \<not> f)]"
  have "fold ?g bs seen = seen @ map (\<lambda>(a, s, f). (of_nat (a + 8), of_nat s, \<not> f)) bs" for seen
    by (induction bs arbitrary: seen) auto
  with walk_heap_fold [OF assms, of "\<lambda>ptr sz used (seen, st). Some (seen @ [(ptr, sz, used)], st)" ?g "[]"]
  show ?thesis by auto
qed

theorem tlsf_walk_heap_visits_witness:
  "tlsf_walk_heap 4096 (\<lambda>ptr sz used (seen, st). Some (seen @ [(ptr, sz, used)], st)) ([], sample_pool)
    = Some ([(7272, 5012, False)], sample_pool)"
  using tlsf_walk_heap_visits [of 256 4096 12280 "[(7264, 5012, True)]" sample_pool] sample_pool_ok by simp

text \<open>
  C26. The self-check returns 0 on every heap that satisfies the invariant, so that it raises no false
  alarm after any of the operations.
\<close>
theorem tlsf_check_heap_accepts:
  assumes "heap_ok z (p + 3168) e bs st"
  shows "tlsf_check_heap (of_nat p) st = Some 0"
proof -
  have t: "tiles (p + 3168) bs e" "e + 8 \<le> 2 ^ 32" using assms by (simp_all add: heap_ok_def placed_def)
  have size: "4 dvd s \<and> s < 2 ^ 32" if "(a, s, f) \<in> set bs" for a s f
    using tiles_in [OF t(1) that] t(2) by auto
  have hs: "\<exists>q. hseg (M st) False bs q" using assms by (auto simp: heap_ok_def headers_def)
  have w: "integrity_walker (of_nat (a + 8)) (of_nat s) (\<not> f) (x, st) = Some (integrity_of st (a, s, f) x, st)"
    if "(a, s, f) \<in> set bs" for a s f x
  proof -
    from that obtain xs ys where bs: "bs = xs @ (a, s, f) # ys" by (meson split_list)
    from open_block [OF assms [unfolded bs]] obtain g where m: "M st (a + 4) = hdr s f g" "4 dvd s" "s < 2 ^ 30" .
    then have "block_is_free (of_nat a) st = f" "block_size (of_nat a) st = of_nat s"
      using header_reads(1,2) [OF m(1,2)] by simp_all
    moreover have "block_from_ptr (of_nat (a + 8)) = of_nat a"
      by (simp add: block_from_ptr_def block_start_offset_def)
    ultimately show ?thesis
      by (cases x) (simp add: integrity_walker_def integrity_of_def insist_def Let_def split_beta)
  qed
  have "tlsf_walk_heap (of_nat p) integrity_walker ((0, 0), st) = Some (fold (integrity_of st) bs (0, 0), st)"
    using w by (intro walk_heap_fold [OF assms]) auto
  moreover from hs obtain q where "hseg (M st) False bs q" by blast
  then have "snd (fold (integrity_of st) bs (0, 0)) = 0" using integrity_fold [of st False bs q] size by auto
  moreover have "foldM (\<lambda>i. foldM (\<lambda>j. check_class i j st) [0..<SL_INDEX_COUNT]) [0..<FL_INDEX_COUNT] 0 = Some 0"
    using check_class_ok [OF assms] by (intro foldM_const) (simp add: tlsf_consts)
  ultimately show ?thesis by (simp add: tlsf_check_heap_def)
qed

theorem tlsf_check_heap_accepts_witness: "tlsf_check_heap 4096 sample_pool = Some 0"
  using tlsf_check_heap_accepts [of 256 4096 12280 "[(7264, 5012, True)]" sample_pool] sample_pool_ok by simp

text \<open>
  C4. A client that works on a heap with any sequence of servable requests and returns of blocks it holds
  never runs into a fault, the blocks it holds and the blocks of all others never overlap, and the contents
  of the others' blocks stay as they are.
\<close>
theorem tlsf_client_never_faults:
  assumes "heap_inv z a0 e (set held \<union> others) st" and "distinct held" and "set held \<inter> others = {}"
    and "\<forall>r \<in> set rs. servable_request r"
  shows "\<exists>held' st'. client tlsf_malloc tlsf_free tlsf_block_size rs (held, st) = Some (held', st')
    \<and> heap_inv z a0 e (set held' \<union> others) st' \<and> apart_blocks (set held' \<union> others) \<and> same_contents others st st'"
proof -
  have "heap.owns z a0 e held others st" using assms(1-3) by (simp add: heap.owns_def)
  from heap.client_law [OF this assms(4)] show ?thesis
    using heap.owns_apart unfolding heap.owns_def by blast
qed

theorem tlsf_client_never_faults_witness:
  "\<exists>held st. client tlsf_malloc tlsf_free tlsf_block_size [Take 100, Take 5000, Take 40, Give 1, Give 7]
      ([], sample_pool) = Some (held, st) \<and> apart_blocks (set held)"
proof -
  have "heap_inv 256 7264 12280 {} sample_pool"
    using sample_pool_ok by (auto simp: heap_inv_def blocks_out_def intro!: exI [of _ "[(7264, 5012, True)]"])
  with tlsf_client_never_faults [of 256 7264 12280 "[]" "{}" sample_pool "[Take 100, Take 5000, Take 40, Give 1, Give 7]"]
  show ?thesis by (auto simp: servable_def)
qed

end
