(* ===== verification/Critical.thy ===== *)
theory Critical
  imports ThreadOps
begin

text \<open>
  Critical sections: code between mutex_lock and mutex_unlock of one mutex, as the subsystems above the
  scheduler use it. A caller that has to wait leaves everything alone until it holds the mutex; a
  call inside the section may have to wait for another mutex, and a panic ends the caller.
\<close>

datatype 'a answer = Done 'a | Waits | Panicked

text \<open>The kernel is a part of the state, read with \<open>get\<close> and written with \<open>put\<close>.\<close>

definition with_mutex :: "('s \<Rightarrow> kstate) \<Rightarrow> (kstate \<Rightarrow> 's \<Rightarrow> 's) \<Rightarrow> mid
    \<Rightarrow> ('s \<Rightarrow> ('a answer \<times> 's) option) \<Rightarrow> 's \<Rightarrow> ('a answer \<times> 's) option" where
  "with_mutex get put m body s = do {
     (r, k) \<leftarrow> mutex_lock m TIMEOUT_BLOCK (get s);
     let s = put k s;
     case r of
       Ret _ \<Rightarrow> do {
         (x, s) \<leftarrow> body s;
         case x of
           Done x \<Rightarrow> do {
             (r, k) \<leftarrow> mutex_unlock m (get s);
             Some (case r of Ret _ \<Rightarrow> Done x | Blocks \<Rightarrow> Waits | Panics \<Rightarrow> Panicked, put k s) }
         | Waits \<Rightarrow> Some (Waits, s)
         | Panicked \<Rightarrow> Some (Panicked, s) }
     | Blocks \<Rightarrow> Some (Waits, s)
     | Panics \<Rightarrow> Some (Panicked, s) }"

text \<open>One call after another.\<close>

definition andthen :: "('s \<Rightarrow> ('a answer \<times> 's) option) \<Rightarrow> ('a \<Rightarrow> 's \<Rightarrow> ('b answer \<times> 's) option) \<Rightarrow> 's \<Rightarrow> ('b answer \<times> 's) option" where
  "andthen f g s = do {
     (x, s) \<leftarrow> f s;
     case x of Done x \<Rightarrow> g x s | Waits \<Rightarrow> Some (Waits, s) | Panicked \<Rightarrow> Some (Panicked, s) }"

definition finish :: "'a \<Rightarrow> 's \<Rightarrow> ('a answer \<times> 's) option" where
  "finish x s = Some (Done x, s)"

lemma andthen_Done [simp]: "f s = Some (Done x, s') \<Longrightarrow> andthen f g s = g x s'"
  by (simp add: andthen_def)

section \<open>Taking a mutex that is not contended\<close>

text \<open>
  The mutex is free with no waiter, or the caller holds it already, and its recursion count is \<open>d\<close> below
  its greatest value, so that it can be locked \<open>d\<close> times in a row.
\<close>

definition can_nest :: "nat \<Rightarrow> mid \<Rightarrow> kstate \<Rightarrow> bool" where
  "can_nest d m k \<longleftrightarrow> (let x = mutexes k m in
     (m_count x = 0 \<and> m_waiters x = None \<or> 0 < m_count x \<and> m_owner x = Some (current_thread k))
     \<and> m_count x + int d \<le> INT_MAX)"

definition can_take :: "mid \<Rightarrow> kstate \<Rightarrow> bool" where
  "can_take m k = can_nest 1 m k"

lemma can_nest_mono: "can_nest d m k \<Longrightarrow> n \<le> d \<Longrightarrow> can_nest n m k"
  by (auto simp: can_nest_def Let_def)

text \<open>The kernel is as before, but for the owners and the links of mutexes that are free.\<close>

definition kernel_same :: "kstate \<Rightarrow> kstate \<Rightarrow> bool" where
  "kernel_same k k' \<longleftrightarrow> threads k' = threads k \<and> current_thread k' = current_thread k
     \<and> (\<forall>m. if m_count (mutexes k m) = 0
            then m_count (mutexes k' m) = 0 \<and> m_waiters (mutexes k' m) = m_waiters (mutexes k m)
            else mutexes k' m = mutexes k m)"

lemma kernel_same_refl [simp]: "kernel_same k k"
  by (simp add: kernel_same_def)

lemma kernel_same_trans: "kernel_same k k' \<Longrightarrow> kernel_same k' k'' \<Longrightarrow> kernel_same k k''"
  unfolding kernel_same_def by metis

lemma kernel_same_can_nest: "kernel_same k k' \<Longrightarrow> can_nest d n k \<Longrightarrow> can_nest d n k'"
  unfolding kernel_same_def can_nest_def Let_def by (elim conjE, drule spec [of _ n]) (auto split: if_splits)

lemma kernel_same_can_take: "kernel_same k k' \<Longrightarrow> can_take n k \<Longrightarrow> can_take n k'"
  unfolding can_take_def by (rule kernel_same_can_nest)

definition taken :: "mid \<Rightarrow> kstate \<Rightarrow> kstate" where
  "taken m k = snd (the (mutex_lock m TIMEOUT_BLOCK k))"

lemma taken:
  assumes "can_take m k"
  shows "mutex_lock m TIMEOUT_BLOCK k = Some (Ret THREAD_OK, taken m k)"
    "current_thread (taken m k) = current_thread k"
    "0 < m_count (mutexes (taken m k) m)" "m_owner (mutexes (taken m k) m) = Some (current_thread k)"
    "n \<noteq> m \<Longrightarrow> mutexes (taken m k) n = mutexes k n"
    "m_count (mutexes (taken m k) m) = m_count (mutexes k m) + 1"
  using assms by (auto simp: taken_def can_take_def can_nest_def mutex_lock_def Let_def)

lemma taken_can_nest:
  assumes "can_nest (Suc d) m k"
  shows "can_nest d m (taken m k)"
proof -
  have "can_take m k" unfolding can_take_def using assms by (rule can_nest_mono) simp
  note t = taken [OF this]
  from assms show ?thesis using t(2-4,6) by (simp add: can_nest_def Let_def)
qed

lemma taken_can_nest_other:
  assumes "can_take m k" and "n \<noteq> m" and "can_nest d n k"
  shows "can_nest d n (taken m k)"
  using taken(2,5) [OF assms(1)] assms(2,3) by (simp add: can_nest_def)

text \<open>A section that gives the mutex back as it got it leaves the kernel as it found it.\<close>

lemma unlock_taken:
  assumes "can_take m k" and s: "kernel_same (taken m k) k1"
  obtains k' r where "mutex_unlock m k1 = Some (Ret r, k')" "kernel_same k k'"
proof -
  let ?t = "current_thread k"
  have t: "threads k1 = threads (taken m k)" "current_thread k1 = ?t" "mutexes k1 m = mutexes (taken m k) m"
    using s taken(2,3) [OF assms(1)] by (auto simp: kernel_same_def)
  have n: "if m_count (mutexes k n) = 0
            then m_count (mutexes k1 n) = 0 \<and> m_waiters (mutexes k1 n) = m_waiters (mutexes k n)
            else mutexes k1 n = mutexes k n" if "n \<noteq> m" for n
    using s taken(5) [OF assms(1) that] unfolding kernel_same_def by metis
  show ?thesis
  proof (cases "m_count (mutexes k m) = 0")
    case True
    have l: "taken m k = upd_thread ?t (\<lambda>r. r\<lparr>t_owned_mutexes := Some m\<rparr>)
        (upd_mutex m (\<lambda>r. r\<lparr>m_count := 1, m_owner := Some ?t, m_owned_next := t_owned_mutexes (threads k ?t)\<rparr>) k)"
      using True by (simp add: taken_def mutex_lock_def Let_def)
    have w: "m_waiters (mutexes k m) = None" using assms(1) True by (auto simp: can_take_def can_nest_def Let_def)
    let ?k' = "upd_mutex m (\<lambda>r. r\<lparr>m_count := 0\<rparr>) (upd_thread ?t (\<lambda>r. r\<lparr>t_owned_mutexes := t_owned_mutexes (threads k ?t)\<rparr>)
      (upd_mutex m (\<lambda>r. r\<lparr>m_count := m_count r - 1\<rparr>) k1))"
    have "mutex_unlock m k1 = Some (Ret THREAD_OK, ?k')"
      using t w by (simp add: mutex_unlock_def Let_def mutex_unlock_internal_def mutex_hand_over_def owned_next_def l)
    moreover have "kernel_same k ?k'"
      unfolding kernel_same_def using t w True n by (auto simp: l fun_eq_iff)
    ultimately show ?thesis by (rule that)
  next
    case False
    have o: "m_owner (mutexes k m) = Some (current_thread k)" "0 < m_count (mutexes k m)"
      "m_count (mutexes k m) < INT_MAX"
      using assms(1) False by (auto simp: can_take_def can_nest_def Let_def)
    have l: "taken m k = upd_mutex m (\<lambda>r. r\<lparr>m_count := m_count r + 1\<rparr>) k"
      using False o by (simp add: taken_def mutex_lock_def Let_def)
    let ?k' = "upd_mutex m (\<lambda>r. r\<lparr>m_count := m_count r - 1\<rparr>) k1"
    have "mutex_unlock m k1 = Some (Ret (m_count (mutexes k m)), ?k')"
      using t o by (simp add: mutex_unlock_def Let_def l)
    moreover have "kernel_same k ?k'"
      unfolding kernel_same_def using t o False n by (auto simp: l)
    ultimately show ?thesis by (rule that)
  qed
qed

text \<open>The section runs as if there were no mutex.\<close>

lemma with_mutex_runs:
  assumes "can_take m (get s)" and "body (put (taken m (get s)) s) = Some (Done x, s1)"
    and "kernel_same (taken m (get s)) (get s1)"
  obtains k' where "with_mutex get put m body s = Some (Done x, put k' s1)" "kernel_same (get s) k'"
proof -
  from unlock_taken [OF assms(1,3)] obtain k' r where
    "mutex_unlock m (get s1) = Some (Ret r, k')" "kernel_same (get s) k'" .
  with assms(2) taken(1) [OF assms(1)] show ?thesis by (intro that [of k']) (simp_all add: with_mutex_def)
qed

end
