(* ===== verification/Malloc.thy ===== *)
theory Malloc
  imports TlsfProps Critical
begin

text \<open>
  The kernel's heap: emcore/malloc.c. Every function takes \<open>malloc_mutex\<close>, works on the pool of
  the allocator and releases the mutex; the last word of a block names the thread that owns it.

  The state is the kernel's with the heap beside it. A caller that has to wait for the mutex leaves
  the heap alone until it holds it; a panic of mutex_unlock ends the caller.
\<close>

section \<open>The functions (malloc.c)\<close>

record mctl =
  kern :: kstate
  malloc_mutex :: mid
  global_mallocpool :: u32

type_synonym mstate = "mctl \<times> tlsf"

definition locked :: "(mstate \<Rightarrow> ('a \<times> mstate) option) \<Rightarrow> mstate \<Rightarrow> ('a answer \<times> mstate) option" where
  "locked body cs = with_mutex (kern \<circ> fst) (\<lambda>k (c, h). (c\<lparr>kern := k\<rparr>, h)) (malloc_mutex (fst cs))
     (\<lambda>cs. do { (x, cs) \<leftarrow> body cs; Some (Done x, cs) }) cs"

definition owner_word :: "u32 \<Rightarrow> u32 \<Rightarrow> u32" where
  "owner_word ptr sz = ptr + sz - 4"

definition malloc :: "u32 \<Rightarrow> mstate \<Rightarrow> (u32 answer \<times> mstate) option" where
  "malloc sz = locked (\<lambda>(c, h). do {
     (ptr, h) \<leftarrow> tlsf_malloc (sz + 4) h;
     if ptr \<noteq> 0 then
       let sz = tlsf_block_size ptr h in
       Some (ptr, c, store (owner_word ptr sz) (current_thread (kern c)) h)
     else Some (ptr, c, h) })"

definition memalign :: "u32 \<Rightarrow> u32 \<Rightarrow> mstate \<Rightarrow> (u32 answer \<times> mstate) option" where
  "memalign align sz = locked (\<lambda>(c, h). do {
     (ptr, h) \<leftarrow> tlsf_memalign align (sz + 4) h;
     if ptr \<noteq> 0 then
       let sz = tlsf_block_size ptr h in
       Some (ptr, c, store (owner_word ptr sz) (current_thread (kern c)) h)
     else Some (ptr, c, h) })"

text \<open>
  The owner of a block is read and written at its last word; for the NULL pointer, whose
  \<open>tlsf_block_size\<close> is 0, this is the word at address $-4$. The memory of the model has a
  word at every address, in the heap or not.
\<close>

definition realign :: "u32 \<Rightarrow> u32 \<Rightarrow> u32 \<Rightarrow> mstate \<Rightarrow> (u32 answer \<times> mstate) option" where
  "realign ptr align sz = locked (\<lambda>(c, h). do {
     let oldsize = tlsf_block_size ptr h;
     let owner = mem h (owner_word ptr oldsize);
     (ptr_new, h) \<leftarrow> tlsf_realign ptr align (sz + 4) h;
     if ptr_new \<noteq> 0 then
       let sz = tlsf_block_size ptr_new h in
       Some (ptr_new, c, store (owner_word ptr_new sz) owner h)
     else Some (ptr_new, c, h) })"

definition realloc :: "u32 \<Rightarrow> u32 \<Rightarrow> mstate \<Rightarrow> (u32 answer \<times> mstate) option" where
  "realloc ptr sz = realign ptr 4 sz"

definition reownalloc :: "u32 \<Rightarrow> u32 \<Rightarrow> mstate \<Rightarrow> (unit answer \<times> mstate) option" where
  "reownalloc ptr owner = locked (\<lambda>(c, h). do {
     let sz = tlsf_block_size ptr h;
     Some ((), c, store (owner_word ptr sz) owner h) })"

definition free :: "u32 \<Rightarrow> mstate \<Rightarrow> (unit answer \<times> mstate) option" where
  "free ptr = locked (\<lambda>(c, h). do {
     h \<leftarrow> tlsf_free ptr h;
     Some ((), c, h) })"

text \<open>
  The walker of \<open>free_all_of_thread\<close>. Its call of \<open>free\<close> takes the mutex a second time, so it can neither
  wait nor panic; should it, nothing is said of the walk.
\<close>

definition free_if_thread :: "u32 \<Rightarrow> u32 \<Rightarrow> u32 \<Rightarrow> bool \<Rightarrow> mstate \<Rightarrow> mstate option" where
  "free_if_thread owner ptr sz used cs =
     (if mem (snd cs) (owner_word ptr sz) = owner
      then do { (r, cs) \<leftarrow> free ptr cs; (case r of Done _ \<Rightarrow> Some cs | _ \<Rightarrow> None) }
      else Some cs)"

definition free_all_of_thread :: "u32 \<Rightarrow> mstate \<Rightarrow> (unit answer \<times> mstate) option" where
  "free_all_of_thread owner = locked (\<lambda>(c, h). do {
     cs \<leftarrow> tlsf_walk_heap (global_mallocpool c) (free_if_thread owner) (c, h);
     Some ((), cs) })"

definition malloc_walk :: "(u32 \<Rightarrow> u32 \<Rightarrow> bool \<Rightarrow> mstate \<Rightarrow> mstate option) \<Rightarrow> mstate \<Rightarrow> (unit answer \<times> mstate) option" where
  "malloc_walk walker = locked (\<lambda>(c, h). do {
     cs \<leftarrow> tlsf_walk_heap (global_mallocpool c) walker (c, h);
     Some ((), cs) })"

definition malloc_lock :: "mctl \<Rightarrow> (outcome \<times> kstate) option" where
  "malloc_lock c = mutex_lock (malloc_mutex c) TIMEOUT_BLOCK (kern c)"

definition malloc_unlock :: "mctl \<Rightarrow> (outcome \<times> kstate) option" where
  "malloc_unlock c = mutex_unlock (malloc_mutex c) (kern c)"

definition malloc_init :: "u32 \<Rightarrow> u32 \<Rightarrow> mstate \<Rightarrow> mstate option" where
  "malloc_init poolstart poolend = (\<lambda>(c, h). do {
     let c = c\<lparr>kern := mutex_init (malloc_mutex c) (kern c)\<rparr>;
     (pool, h) \<leftarrow> tlsf_create poolstart (poolend - poolstart) h;
     Some (c\<lparr>global_mallocpool := pool\<rparr>, h) })"

section \<open>The critical section\<close>

text \<open>The calling thread can take the mutex, and once more inside, as \<open>free_all_of_thread\<close> does.\<close>

definition may_lock :: "mctl \<Rightarrow> bool" where
  "may_lock c \<longleftrightarrow> can_nest 2 (malloc_mutex c) (kern c)"

definition lockable :: "mctl \<Rightarrow> bool" where
  "lockable c \<longleftrightarrow> can_take (malloc_mutex c) (kern c)"

lemma may_lock_lockable: "may_lock c \<Longrightarrow> lockable c"
  unfolding may_lock_def lockable_def can_take_def by (erule can_nest_mono) simp

definition same_kernel :: "mctl \<Rightarrow> mctl \<Rightarrow> bool" where
  "same_kernel c c' \<longleftrightarrow> malloc_mutex c' = malloc_mutex c \<and> global_mallocpool c' = global_mallocpool c
     \<and> kernel_same (kern c) (kern c')"

lemma same_kernel_refl [simp]: "same_kernel c c"
  by (simp add: same_kernel_def)

lemma same_kernel_trans: "same_kernel c c' \<Longrightarrow> same_kernel c' c'' \<Longrightarrow> same_kernel c c''"
  by (auto simp: same_kernel_def intro: kernel_same_trans)

lemma same_kernel_may_lock: "same_kernel c c' \<Longrightarrow> may_lock c \<Longrightarrow> may_lock c'"
  by (auto simp: same_kernel_def may_lock_def intro: kernel_same_can_nest)

lemma same_kernel_lockable: "same_kernel c c' \<Longrightarrow> lockable c \<Longrightarrow> lockable c'"
  by (auto simp: same_kernel_def lockable_def intro: kernel_same_can_take)

definition lock_held :: "mctl \<Rightarrow> mctl" where
  "lock_held c = c\<lparr>kern := taken (malloc_mutex c) (kern c)\<rparr>"

lemma lock_held:
  assumes "lockable c"
  shows "current_thread (kern (lock_held c)) = current_thread (kern c)"
    "malloc_mutex (lock_held c) = malloc_mutex c" "global_mallocpool (lock_held c) = global_mallocpool c"
  using taken(2) assms by (simp_all add: lock_held_def lockable_def)

lemma lock_held_lockable: "may_lock c \<Longrightarrow> lockable (lock_held c)"
  using taken_can_nest [of 1] by (simp add: lock_held_def may_lock_def lockable_def can_take_def numeral_2_eq_2)

text \<open>A body that leaves the kernel's view of the mutex alone runs as if there were no mutex.\<close>

lemma locked_runs:
  assumes "lockable c" and b: "body (lock_held c, h) = Some (x, c1, h1)" and "same_kernel (lock_held c) c1"
  shows "\<exists>c'. locked body (c, h) = Some (Done x, c', h1) \<and> same_kernel c c'"
proof -
  let ?b = "\<lambda>cs. do { (x, cs) \<leftarrow> body cs; Some (Done x, cs) }"
  let ?get = "kern \<circ> fst" and ?put = "\<lambda>k (c, h). (c\<lparr>kern := k\<rparr>, h)"
  have "can_take (malloc_mutex c) (?get (c, h))" using assms(1) by (simp add: lockable_def)
  moreover have "?b (?put (taken (malloc_mutex c) (?get (c, h))) (c, h)) = Some (Done x, c1, h1)"
    using b by (simp add: lock_held_def)
  moreover have "kernel_same (taken (malloc_mutex c) (?get (c, h))) (?get (c1, h1))"
    using assms(3) by (simp add: same_kernel_def lock_held_def)
  ultimately obtain k' where "with_mutex ?get ?put (malloc_mutex c) ?b (c, h) = Some (Done x, ?put k' (c1, h1))"
    "kernel_same (?get (c, h)) k'" by (rule with_mutex_runs)
  with assms(3) show ?thesis by (auto simp: locked_def same_kernel_def lock_held_def)
qed

section \<open>Allocating and freeing\<close>

lemma owner_slot:
  assumes "p + s < 2 ^ 32" "4 \<le> s"
  shows "owner_word (of_nat p) (of_nat s) = of_nat (p + s - 4)"
  using assms by (simp add: owner_word_def of_nat_diff)

lemma free_call:
  assumes "lockable c" and "tlsf_free ptr h = Some h'"
  shows "\<exists>c'. free ptr (c, h) = Some (Done (), c', h') \<and> same_kernel c c'"
  unfolding free_def using assms by (intro locked_runs [where ?c1.0 = "lock_held c"]) simp_all

text \<open>The blocks that are allocated, and the thread that each belongs to.\<close>

definition owner_of :: "tlsf \<Rightarrow> nat \<times> nat \<Rightarrow> u32" where
  "owner_of h b = (case b of (a, s) \<Rightarrow> M h (a + 4 + s))"

lemma owner_read:
  assumes "a + 8 + s < 2 ^ 32" and "12 \<le> s"
  shows "mem h (owner_word (of_nat (a + 8)) (of_nat s)) = owner_of h (a, s)"
proof -
  have "owner_word (of_nat (a + 8)) (of_nat s) = of_nat (a + 4 + s)"
    using owner_slot [of "a + 8" s] assms by (simp add: add.commute add.left_commute)
  then show ?thesis by (simp add: owner_of_def M_def)
qed


section \<open>Freeing what a thread owns\<close>

lemma walk_step:
  assumes m: "M h (a + 4) = hdr s f g" "4 dvd s" "12 \<le> s" and b: "0 < a" "a + 8 + s < 2 ^ 32"
  shows "walk_blocks walker (of_nat a) (c, h) = do {
      (c', h') \<leftarrow> walker (of_nat (a + 8)) (of_nat s) (\<not> f) (c, h);
      next \<leftarrow> block_next (of_nat a) h';
      walk_blocks walker next (c', h') }"
proof -
  have s: "s < 2 ^ 32" using b by simp
  have "(of_nat a :: u32) \<noteq> 0" using b by (intro of_nat_0_u32) auto
  moreover have "\<not> block_is_last (of_nat a) h" using header_reads(4) [OF m(1,2) s] m(3) by simp
  moreover have "block_to_ptr (of_nat a) = of_nat (a + 8)" by (simp add: block_to_ptr_def block_start_offset_def)
  ultimately show ?thesis
    using header_reads(1,2) [OF m(1,2) s]
    by (subst walk_blocks.simps) (simp add: case_prod_unfold del: of_nat_add)
qed

lemma join_prev_facts:
  assumes "join_prev xs a s = (xs', a', s')"
  shows "live xs' = live xs" "fst ` set xs' \<subseteq> fst ` set xs" "a' = a \<or> a' \<in> fst ` set xs"
    "tiles a0 xs a \<Longrightarrow> a' + 4 + s' = a + 4 + s"
  using assms by (cases xs rule: rev_cases; auto simp: join_prev_def split: if_splits)+

lemma join_next_facts:
  assumes "join_next s ys = (s', ys')"
  shows "live ys' = live ys" "fst ` set ys' \<subseteq> fst ` set ys" "length ys' \<le> length ys"
    "s' = s \<and> ys' = ys \<or> (\<exists>b t. ys = (b, t, True) # ys' \<and> s' = s + 4 + t)"
proof -
  show c: "s' = s \<and> ys' = ys \<or> (\<exists>b t. ys = (b, t, True) # ys' \<and> s' = s + 4 + t)"
    using assms by (auto simp: join_next_def split: list.splits bool.splits)
  then show "live ys' = live ys" "length ys' \<le> length ys" by auto
  from c have "set ys' \<subseteq> set ys" by auto
  then show "fst ` set ys' \<subseteq> fst ` set ys" by (rule image_mono)
qed

lemma ball_three: "A \<subseteq> A' \<Longrightarrow> x = a \<or> x \<in> A' \<Longrightarrow> B \<subseteq> B' \<Longrightarrow> \<forall>v \<in> A' \<union> {a} \<union> B'. P v \<Longrightarrow> \<forall>v \<in> A \<union> {x} \<union> B. P v"
  by blast

lemma kept_owner:
  assumes "kept U h h'" "(a, s) \<in> U" "4 dvd a" "4 dvd s" "12 \<le> s"
  shows "owner_of h' (a, s) = owner_of h (a, s)"
  using assms by (force simp: kept_def owner_of_def)

lemma walk_free:
  assumes "heap_ok z a0 e (xs @ ys) h" "lockable c" "\<forall>a \<in> fst ` set (xs @ ys). of_nat a \<noteq> owner"
    "tiles w ys e"
  shows "\<exists>c' h' bs'. walk_blocks (free_if_thread owner) (of_nat w) (c, h) = Some (c', h') \<and> same_kernel c c'
    \<and> heap_ok z a0 e bs' h' \<and> live bs' = live xs \<union> {b \<in> live ys. owner_of h b \<noteq> owner} \<and> kept (live bs') h h'"
  using assms
proof (induction "length ys" arbitrary: xs ys h c w rule: less_induct)
  case less
  show ?case
  proof (cases ys)
    case Nil
    have "headers h xs e" using less.prems(1) Nil by (simp add: heap_ok_def)
    then obtain pf where m: "M h (e + 4) = hdr 0 False pf" by (auto simp: headers_def)
    have "block_is_last (of_nat e) h" using header_reads(4) [OF m] by simp
    moreover have "w = e" using less.prems(4) Nil by simp
    ultimately have "walk_blocks (free_if_thread owner) (of_nat w) (c, h) = Some (c, h)"
      by (subst walk_blocks.simps) simp
    then show ?thesis using less.prems(1) Nil by (intro exI [of _ c] exI [of _ h] exI [of _ xs]) simp
  next
    case (Cons y zs)
    obtain a s f where y: "y = (a, s, f)" by (cases y)
    have w: "w = a" "tiles (a + 4 + s) zs e" using less.prems(4) Cons y by auto
    have h: "heap_ok z a0 e (xs @ (a, s, f) # zs) h" using less.prems(1) Cons y by simp
    from open_block [OF h] obtain g where o: "M h (a + 4) = hdr s f g" "f \<longrightarrow> M h (a + 4 + s) = of_nat a"
      "4 dvd s" "12 \<le> s" "0 < a" "a + 8 + s < 2 ^ 32" .
    have s32: "s < 2 ^ 32" using o(6) by simp
    have tl: "tiles a0 (xs @ (a, s, f) # zs) e" "placed z a0 e" using h by (simp_all only: heap_ok_def)
    have dvd: "\<forall>(b, t, f) \<in> set (xs @ (a, s, f) # zs). 4 dvd b" using tiles_dvd [OF tl(1)] placedD(2) [OF tl(2)] by blast
    have txs: "tiles a0 xs a" using tl(1) by auto
    note st = walk_step [OF o(1,3-6), of "free_if_thread owner" c, folded w(1)]
    have own: "mem h (owner_word (of_nat (a + 8)) (of_nat s)) = owner_of h (a, s)"
      using owner_read o by simp
    show ?thesis
    proof (cases "owner_of h (a, s) = owner")
      case False
      have nx: "block_next (of_nat a) h = Some (of_nat (a + 4 + s))"
        using header_reads(5) [OF o(1,3) s32] o(4) by simp
      have "walk_blocks (free_if_thread owner) (of_nat w) (c, h)
          = walk_blocks (free_if_thread owner) (of_nat (a + 4 + s)) (c, h)"
        unfolding st free_if_thread_def using own False nx w(1) by (simp del: of_nat_add)
      moreover have "\<exists>c' h' bs'. walk_blocks (free_if_thread owner) (of_nat (a + 4 + s)) (c, h) = Some (c', h')
          \<and> same_kernel c c' \<and> heap_ok z a0 e bs' h'
          \<and> live bs' = live (xs @ [(a, s, f)]) \<union> {b \<in> live zs. owner_of h b \<noteq> owner} \<and> kept (live bs') h h'"
        using less.prems Cons y w(2) by (intro less.hyps) auto
      moreover have "live (xs @ [(a, s, f)]) \<union> {b \<in> live zs. owner_of h b \<noteq> owner}
          = live xs \<union> {b \<in> live ys. owner_of h b \<noteq> owner}"
        using False Cons y by auto
      ultimately show ?thesis by simp
    next
      case True
      then have f: "f = False" using o(2) less.prems(3) Cons y by (auto simp: owner_of_def)
      obtain xs1 a1 s1 where jp: "join_prev xs a s = (xs1, a1, s1)" by (metis prod_cases3)
      obtain s2 zs2 where jn: "join_next s1 zs = (s2, zs2)" by fastforce
      have rel: "release xs a s zs = xs1 @ (a1, s2, True) # zs2" using jp jn by (simp add: release_def)
      from free_spec_stale [OF h [unfolded f]] obtain h1 where h1: "tlsf_free (of_nat (a + 8)) h = Some h1"
        "heap_ok z a0 e (release xs a s zs) h1" "kept (live xs \<union> live zs) h h1"
        "live (release xs a s zs) = live xs \<union> live zs"
        "fst (snd (join_prev xs a s)) \<noteq> a \<longrightarrow> M h1 (a + 4) = hdr s True True
           \<and> (\<forall>b t vs. zs = (b, t, True) # vs \<longrightarrow> M h1 (b + 4) = hdr t True True)" .
      from free_call [OF less.prems(2) h1(1)] obtain c1 where c1: "free (of_nat (a + 8)) (c, h) = Some (Done (), c1, h1)"
        "same_kernel c c1" by blast
      note F = join_prev_facts [OF jp] and G = join_next_facts [OF jn]
      have start: "walk_blocks (free_if_thread owner) (of_nat w) (c, h) = do {
          next \<leftarrow> block_next (of_nat a) h1; walk_blocks (free_if_thread owner) next (c1, h1) }"
        unfolding st free_if_thread_def using own True c1(1) w(1) by (simp del: of_nat_add)
      have h1': "heap_ok z a0 e ((xs1 @ [(a1, s2, True)]) @ zs2) h1" using h1(2) rel by simp
      have end_eq: "a1 + 4 + s1 = a + 4 + s" using F(4) txs by blast
      from open_free [of z a0 e xs1 a1 s2 zs2 h1] h1(2) rel have of1: "M h1 (a1 + 4) = hdr s2 True False"
        "M h1 (a1 + 4 + s2) = of_nat a1" "4 dvd s2" "12 \<le> s2" "0 < a1" "a1 + 8 + s2 < 2 ^ 32" by auto
      have addr: "\<forall>b \<in> fst ` set ((xs1 @ [(a1, s2, True)]) @ zs2). of_nat b \<noteq> owner"
      proof -
        have new: "fst ` set ((xs1 @ [(a1, s2, True)]) @ zs2) = fst ` set xs1 \<union> {a1} \<union> fst ` set zs2" by auto
        have old: "fst ` set (xs @ ys) = fst ` set xs \<union> {a} \<union> fst ` set zs" using Cons y by auto
        show ?thesis unfolding new by (rule ball_three [OF F(2,3) G(2) less.prems(3) [unfolded old]])
      qed
      have t2: "tiles (a1 + 4 + s2) zs2 e"
      proof -
        have "tiles a0 (xs1 @ (a1, s2, True) # zs2) e" using h1(2) rel by (simp add: heap_ok_def)
        then show ?thesis by auto
      qed
      have walk: "walk_blocks (free_if_thread owner) (of_nat w) (c, h)
          = walk_blocks (free_if_thread owner) (of_nat (a1 + 4 + s2)) (c1, h1)"
      proof (cases "a1 = a")
        case True
        have "block_next (of_nat a) h1 = Some (of_nat (a1 + 4 + s2))"
          using header_reads(5) [OF of1(1,3)] of1(4,6) True by simp
        then show ?thesis unfolding start by (simp del: of_nat_add)
      next
        case False
        then have stale: "M h1 (a + 4) = hdr s True True"
          "\<And>b t vs. zs = (b, t, True) # vs \<Longrightarrow> M h1 (b + 4) = hdr t True True"
          using h1(5) jp by auto
        have "block_next (of_nat a) h1 = Some (of_nat (a + 4 + s))"
          using header_reads(5) [OF stale(1) o(3) s32] o(4) by simp
        then have go: "walk_blocks (free_if_thread owner) (of_nat w) (c, h)
            = walk_blocks (free_if_thread owner) (of_nat (a + 4 + s)) (c1, h1)"
          unfolding start by (simp del: of_nat_add)
        from G(4) show ?thesis
        proof (elim disjE exE conjE)
          assume "s2 = s1"
          then show ?thesis using go by (simp only: end_eq)
        next
          fix b t assume zs: "zs = (b, t, True) # zs2" and s2: "s2 = s1 + 4 + t"
          have b: "b = a + 4 + s" "4 dvd t" "12 \<le> t" using w(2) zs by auto
          have e2: "b + 4 + t = a1 + 4 + s2" using b(1) end_eq s2 by simp
          have bnd: "0 < b" "b + 8 + t < 2 ^ 32" using of1(6) e2 b(1) o(5) by simp_all
          have mb: "M h1 (b + 4) = hdr t True True" by (rule stale(2) [OF zs])
          have t32: "t < 2 ^ 32" using bnd by simp
          note stb = walk_step [OF mb b(2,3) bnd, of "free_if_thread owner" c1]
          have "mem h1 (owner_word (of_nat (b + 8)) (of_nat t)) = M h1 (b + 4 + t)"
            using owner_read [OF bnd(2) b(3), of h1] by (simp add: owner_of_def)
          also have "\<dots> = of_nat a1" using of1(2) unfolding e2 .
          finally have "mem h1 (owner_word (of_nat (b + 8)) (of_nat t)) \<noteq> owner" using addr by auto
          moreover have "block_next (of_nat b) h1 = Some (of_nat (b + 4 + t))"
            using header_reads(5) [OF mb b(2) t32] b(3) by simp
          ultimately have "walk_blocks (free_if_thread owner) (of_nat b) (c1, h1)
              = walk_blocks (free_if_thread owner) (of_nat (b + 4 + t)) (c1, h1)"
            unfolding stb free_if_thread_def by (simp del: of_nat_add)
          then show ?thesis using go unfolding b(1) [symmetric] e2 by simp
        qed
      qed
      have "length zs2 < length ys" using G(3) Cons by simp
      from less.hyps [OF this h1' same_kernel_lockable [OF c1(2) less.prems(2)] addr t2]
      obtain c2 h2 bs2 where r: "walk_blocks (free_if_thread owner) (of_nat (a1 + 4 + s2)) (c1, h1) = Some (c2, h2)"
        "same_kernel c1 c2" "heap_ok z a0 e bs2 h2"
        "live bs2 = live (xs1 @ [(a1, s2, True)]) \<union> {b \<in> live zs2. owner_of h1 b \<noteq> owner}" "kept (live bs2) h1 h2" by blast
      have own1: "owner_of h1 b = owner_of h b" if "b \<in> live zs" for b
      proof -
        obtain p t where b: "b = (p, t)" by fastforce
        with that have "(p, t, False) \<in> set (xs @ (a, s, f) # zs)" by (auto simp: live_def)
        with tiles_in [OF tl(1) this] dvd have "4 dvd p" "4 dvd t" "12 \<le> t" by blast+
        then show ?thesis using kept_owner [OF h1(3)] that b by auto
      qed
      have lv: "live bs2 = live xs \<union> {b \<in> live ys. owner_of h b \<noteq> owner}"
        unfolding r(4) using F(1) G(1) own1 True f Cons y by auto
      have "kept (live bs2) h h2"
        using kept_trans [OF kept_mono [OF h1(3), of "live bs2"] r(5)] lv Cons y f True by auto
      then show ?thesis using walk r(1,3) lv same_kernel_trans [OF c1(2) r(2)] by auto
    qed
  qed
qed


section \<open>Properties\<close>

text \<open>The part of malloc and realign that asks the allocator and stores the owner \<open>w\<close>.\<close>

lemma alloc_owned:
  assumes "heap_ok z a0 e bs h" and "servable (n + 4)"
  obtains (refused) "tlsf_malloc (of_nat n + 4) h = Some (0, h)"
  | (made) a t bs' h1 where "tlsf_malloc (of_nat n + 4) h = Some (of_nat (a + 8), h1)" "(of_nat (a + 8) :: u32) \<noteq> 0"
      "tlsf_block_size (of_nat (a + 8)) h1 = of_nat t"
      "\<And>w. heap_ok z a0 e bs' (store (owner_word (of_nat (a + 8)) (of_nat t)) w h1)
         \<and> owner_of (store (owner_word (of_nat (a + 8)) (of_nat t)) w h1) (a, t) = w
         \<and> kept (live bs) h (store (owner_word (of_nat (a + 8)) (of_nat t)) w h1)"
      "live bs' = insert (a, t) (live bs)" "(a, t) \<notin> live bs" "n + 4 \<le> t"
proof -
  have n: "n + 4 < 2 ^ 32" using assms(2) by (simp add: servable_def)
  have sz: "(of_nat n :: u32) + 4 = of_nat (n + 4)" by simp
  from assms(1) n servable_request_size [OF assms(2)] show ?thesis
  proof (cases rule: malloc_spec)
    case none
    then show ?thesis unfolding sz [symmetric] by (intro refused)
  next
    case (found xs a s ys h1)
    let ?t = "if request (n + 4) + 16 \<le> s then request (n + 4) else s"
    obtain vs where vs: "xs @ carve a s (request (n + 4)) @ ys = xs @ (a, ?t, False) # vs" "live vs = live ys"
      by (cases "request (n + 4) + 16 \<le> s") (auto simp: carve_def)
    have t: "n + 4 \<le> ?t" "?t \<le> s" "12 \<le> ?t"
      using request_bounds(1,3) [of "n + 4"] found(2) by auto
    have h1: "heap_ok z a0 e (xs @ (a, ?t, False) # vs) h1" using found(7) vs(1) by simp
    have ow: "owner_word (of_nat (a + 8)) (of_nat ?t) = of_nat (a + 4 + ?t)"
      using owner_slot [of "a + 8" ?t] found(5) t by (simp add: add.commute add.left_commute)
    have st: "store (owner_word (of_nat (a + 8)) (of_nat ?t)) w h1 = put (a + 4 + ?t) w h1" for w
      unfolding ow by (simp add: put_def)
    have lv: "live bs = live xs \<union> live vs" using found(1) vs(2) by simp
    have "heap_ok z a0 e (xs @ (a, ?t, False) # vs) (put (a + 4 + ?t) w h1)
        \<and> owner_of (put (a + 4 + ?t) w h1) (a, ?t) = w \<and> kept (live bs) h (put (a + 4 + ?t) w h1)" for w
    proof -
      note hp = heap_poke [OF h1, of "a + 4 + ?t" w]
      have "kept (live bs) h1 (put (a + 4 + ?t) w h1)" using hp(2) t lv by simp
      with found(8) have "kept (live bs) h (put (a + 4 + ?t) w h1)" by (rule kept_trans)
      moreover have "owner_of (put (a + 4 + ?t) w h1) (a, ?t) = w"
        using found(5) t by (simp add: owner_of_def M_put)
      ultimately show ?thesis using hp(1) t by simp
    qed
    moreover have "(a, ?t) \<notin> live bs"
    proof
      assume "(a, ?t) \<in> live bs"
      then have "(a, ?t, False) \<in> set bs" by (auto simp: live_def)
      moreover have "tiles a0 bs e" using assms(1) by (simp add: heap_ok_def)
      ultimately show False using tiles_apart [of a0 bs e a ?t False a s True] found(1) by auto
    qed
    moreover have "(of_nat (a + 8) :: u32) \<noteq> 0" using found(4,5) by (intro of_nat_0_u32) auto
    moreover have "live (xs @ (a, ?t, False) # vs) = insert (a, ?t) (live bs)" using lv by simp
    ultimately show ?thesis using found(6) block_size_out [OF h1] t(1) unfolding sz [symmetric] st [symmetric]
      by (intro made [of a h1 ?t "xs @ (a, ?t, False) # vs"]) blast+
  qed
qed

lemma malloc_call:
  assumes "heap_ok z a0 e bs h" and "may_lock c" and "servable (n + 4)"
  shows "\<exists>ptr c' h'. malloc (of_nat n) (c, h) = Some (Done ptr, c', h') \<and> same_kernel c c' \<and>
    (ptr = 0 \<and> h' = h \<or> (\<exists>a t bs'. ptr = of_nat (a + 8) \<and> ptr \<noteq> 0 \<and> heap_ok z a0 e bs' h'
       \<and> live bs' = insert (a, t) (live bs) \<and> (a, t) \<notin> live bs \<and> n + 4 \<le> t
       \<and> owner_of h' (a, t) = current_thread (kern c) \<and> kept (live bs) h h'))"
proof -
  note ok = may_lock_lockable [OF assms(2)]
  from assms(1,3) show ?thesis
  proof (cases rule: alloc_owned)
    case refused
    have "\<exists>c'. malloc (of_nat n) (c, h) = Some (Done 0, c', h) \<and> same_kernel c c'"
      unfolding malloc_def using refused
      by (intro locked_runs [OF ok, where ?c1.0 = "lock_held c"]) simp_all
    then show ?thesis by blast
  next
    case (made a t bs' h1)
    let ?h2 = "store (owner_word (of_nat (a + 8)) (of_nat t)) (current_thread (kern c)) h1"
    have "\<exists>c'. malloc (of_nat n) (c, h) = Some (Done (of_nat (a + 8)), c', ?h2) \<and> same_kernel c c'"
      unfolding malloc_def using made(1-3) lock_held(1) [OF ok]
      by (intro locked_runs [OF ok, where ?c1.0 = "lock_held c"]) (simp_all del: of_nat_add)
    with made(2,4-7) show ?thesis by blast
  qed
qed

text \<open>
  C6. malloc, asked for \<open>n\<close> bytes such that the allocator can serve \<open>n + 4\<close> (the sum does not wrap around, and it is
  not in the zone where the allocator leaves its tables), returns when the mutex can be taken, and
  either refuses and leaves the heap alone, or makes a block with room for the request that belongs to the
  calling thread; the other blocks keep their contents, and the mutex is as before.
\<close>

theorem malloc_owned:
  assumes "heap_ok z a0 e bs h" and "may_lock c" and "servable (n + 4)"
  shows "\<exists>ptr c' h'. malloc (of_nat n) (c, h) = Some (Done ptr, c', h') \<and> same_kernel c c' \<and>
    (ptr = 0 \<and> h' = h \<or> (\<exists>a t bs'. ptr = of_nat (a + 8) \<and> ptr \<noteq> 0 \<and> heap_ok z a0 e bs' h'
       \<and> live bs' = insert (a, t) (live bs) \<and> (a, t) \<notin> live bs \<and> n + 4 \<le> t
       \<and> owner_of h' (a, t) = current_thread (kern c) \<and> kept (live bs) h h'))"
  by (rule malloc_call [OF assms])

text \<open>
  C32. realloc of the NULL pointer allocates, but it does not make the calling thread the owner of the block:
  before it looks at the pointer it reads the owner of the old block, for NULL from the word at address $-4$,
  and this word becomes the owner of the new block. For the sizes that malloc can serve, with the
  mutex free, it returns, and the other blocks keep their contents.
\<close>

theorem realloc_null_stray_owner:
  assumes "heap_ok z a0 e bs h" and "may_lock c" and "servable (n + 4)"
  shows "\<exists>ptr c' h'. realloc 0 (of_nat n) (c, h) = Some (Done ptr, c', h') \<and> same_kernel c c' \<and>
    (ptr = 0 \<and> h' = h \<or> (\<exists>a t bs'. ptr = of_nat (a + 8) \<and> ptr \<noteq> 0 \<and> heap_ok z a0 e bs' h'
       \<and> live bs' = insert (a, t) (live bs) \<and> (a, t) \<notin> live bs \<and> n + 4 \<le> t
       \<and> owner_of h' (a, t) = mem h 0xfffffffc \<and> kept (live bs) h h'))"
proof -
  note ok = may_lock_lockable [OF assms(2)]
  have nz: "(of_nat n :: u32) + 4 \<noteq> 0"
  proof -
    have "n + 4 < 2 ^ 32" using assms(3) by (simp add: servable_def)
    then have "(of_nat (n + 4) :: u32) \<noteq> 0" by (intro of_nat_0_u32) auto
    then show ?thesis by simp
  qed
  have z: "tlsf_block_size 0 h = 0" "owner_word 0 0 = 0xfffffffc"
    by (simp add: tlsf_block_size_def, simp add: owner_word_def)
  from assms(1,3) show ?thesis
  proof (cases rule: alloc_owned)
    case refused
    have "\<exists>c'. realloc 0 (of_nat n) (c, h) = Some (Done 0, c', h) \<and> same_kernel c c'"
      unfolding realloc_def realign_def using refused nz
      by (intro locked_runs [OF ok, where ?c1.0 = "lock_held c"]) (simp_all add: tlsf_realign_def z)
    then show ?thesis by blast
  next
    case (made a t bs' h1)
    let ?h2 = "store (owner_word (of_nat (a + 8)) (of_nat t)) (mem h 0xfffffffc) h1"
    have "\<exists>c'. realloc 0 (of_nat n) (c, h) = Some (Done (of_nat (a + 8)), c', ?h2) \<and> same_kernel c c'"
      unfolding realloc_def realign_def using made(1-3) nz
      by (intro locked_runs [OF ok, where ?c1.0 = "lock_held c"])
        (simp_all add: tlsf_realign_def z del: of_nat_add)
    with made(2,4-7) show ?thesis by blast
  qed
qed

text \<open>
  C7. \<open>free_all_of_thread\<close> gives back exactly the blocks of the thread, although the walk over the heap goes on
  through blocks that were merged under it: afterwards the allocated blocks are those of the other threads,
  with their contents, and the heap satisfies the invariant. The thread structure is no block header.
\<close>
theorem free_all_of_thread_exact:
  assumes "heap_ok z (p + 3168) e bs h" and "may_lock c" and "global_mallocpool c = of_nat p"
    and "\<forall>a \<in> fst ` set bs. of_nat a \<noteq> owner"
  shows "\<exists>c' h' bs'. free_all_of_thread owner (c, h) = Some (Done (), c', h') \<and> same_kernel c c'
    \<and> heap_ok z (p + 3168) e bs' h' \<and> live bs' = {b \<in> live bs. owner_of h b \<noteq> owner} \<and> kept (live bs') h h'"
proof -
  have blk: "offset_to_block (of_nat p) (sizeof_pool - block_header_overhead) = of_nat (p + 3168)"
    by (simp add: offset_to_block_def tlsf_consts)
  have "tiles (p + 3168) bs e" using assms(1) by (simp add: heap_ok_def)
  then obtain c1 h1 bs1 where r: "walk_blocks (free_if_thread owner) (of_nat (p + 3168)) (lock_held c, h) = Some (c1, h1)"
    "same_kernel (lock_held c) c1" "heap_ok z (p + 3168) e bs1 h1"
    "live bs1 = {b \<in> live bs. owner_of h b \<noteq> owner}" "kept (live bs1) h h1"
    using walk_free [of z "p + 3168" e "[]" bs h "lock_held c" owner "p + 3168"] assms(1,4) lock_held_lockable [OF assms(2)] by auto
  have "\<exists>c'. free_all_of_thread owner (c, h) = Some (Done (), c', h1) \<and> same_kernel c c'"
    unfolding free_all_of_thread_def using r(1,2) assms(3) lock_held(3) [OF may_lock_lockable [OF assms(2)]] blk
    by (intro locked_runs [OF may_lock_lockable [OF assms(2)]]) (simp_all add: tlsf_walk_heap_def del: of_nat_add)
  with r(3-5) show ?thesis by blast
qed

section \<open>Witnesses\<close>

definition sample_ctl :: mctl where
  "sample_ctl = \<lparr>kern = kernel0, malloc_mutex = 100, global_mallocpool = 4096\<rparr>"

lemma sample_may_lock: "may_lock sample_ctl"
  by (simp add: may_lock_def can_nest_def sample_ctl_def kernel0_def INT_MAX_def Let_def)

theorem malloc_owned_witness:
  "\<exists>ptr c h. malloc 100 (sample_ctl, sample_pool) = Some (Done ptr, c, h) \<and> same_kernel sample_ctl c"
  using malloc_owned [OF sample_pool_ok sample_may_lock, of 100] by (fastforce simp: servable_def)

lemma sample_stray: "mem sample_pool 0xfffffffc = 0" "current_thread (kern sample_ctl) = 2"
  by code_simp+

theorem realloc_null_stray_owner_witness:
  "\<exists>ptr c' h'. realloc 0 100 (sample_ctl, sample_pool) = Some (Done ptr, c', h')
    \<and> (ptr = 0 \<and> h' = sample_pool \<or> (\<exists>a t. ptr = of_nat (a + 8) \<and> owner_of h' (a, t) \<noteq> current_thread (kern sample_ctl)))"
  using realloc_null_stray_owner [OF sample_pool_ok sample_may_lock, of 100] sample_stray
  by (fastforce simp: servable_def)

theorem free_all_of_thread_exact_witness:
  "\<exists>h c' h' bs'. heap_ok 256 7264 12280 [(7264, 100, False), (7368, 4908, True)] h
    \<and> free_all_of_thread 2 (sample_ctl, h) = Some (Done (), c', h') \<and> heap_ok 256 7264 12280 bs' h' \<and> live bs' = {}"
proof -
  from sample_used obtain h0 where "heap_ok 256 7264 12280 ([] @ (7264, 100, False) # [(7368, 4908, True)]) h0" by auto
  from heap_poke(1) [OF this, of 7368 2]
  have h: "heap_ok 256 (4096 + 3168) 12280 [(7264, 100, False), (7368, 4908, True)] (put 7368 2 h0)" by simp
  have o: "owner_of (put 7368 2 h0) (7264, 100) = 2" by (simp add: owner_of_def M_put)
  have "\<forall>a \<in> fst ` set [(7264::nat, 100::nat, False), (7368, 4908, True)]. of_nat a \<noteq> (2 :: u32)" by simp
  from free_all_of_thread_exact [OF h sample_may_lock _ this] o h show ?thesis
    by (fastforce simp: sample_ctl_def)
qed

text \<open>
  C31. The size of a request wraps around: malloc(0xffffffff) asks the allocator for 3 bytes, and hands
  out a block of 12 bytes for a request of almost 4 GB.
\<close>
theorem malloc_size_wraps:
  "\<exists>ptr c h. malloc 0xffffffff (sample_ctl, sample_pool) = Some (Done ptr, c, h) \<and> ptr \<noteq> 0
    \<and> heap_ok 256 7264 12280 [(7264, 12, False), (7280, 4996, True)] h \<and> tlsf_block_size ptr h = 12"
proof -
  have n: "(3::nat) < 2 ^ 32" "3 < 2 ^ 30 \<longrightarrow> request 3 \<le> 2 ^ 30 - 2 ^ 24" by (simp_all add: request_def)
  have c: "class_le (mapping_search (of_nat (request 3))) (mapping_insert (of_nat 5012))" by code_simp
  from sample_pool_ok n show ?thesis
  proof (cases rule: malloc_spec)
    case none
    with c show ?thesis by simp
  next
    case (found xs a s ys h1)
    then have e: "xs = []" "a = 7264" "s = 5012" "ys = []" by (auto simp: Cons_eq_append_conv)
    have h1: "heap_ok 256 7264 12280 ([] @ (7264, 12, False) # [(7280, 4996, True)]) h1"
      using found(7) e by (simp add: carve_def request_def)
    have sz: "tlsf_block_size 7272 h1 = 12" using block_size_out [OF h1] by simp
    let ?h2 = "put 7280 2 h1"
    have h2: "heap_ok 256 7264 12280 ([] @ (7264, 12, False) # [(7280, 4996, True)]) ?h2"
      using heap_poke(1) [OF h1, of 7280 2] by simp
    have wrap: "(0xffffffff :: u32) + 4 = 3" by code_simp
    have cur: "current_thread (kern (lock_held sample_ctl)) = 2"
      using lock_held(1) [OF may_lock_lockable [OF sample_may_lock]] by (simp add: sample_ctl_def kernel0_def)
    have "\<exists>c'. malloc 0xffffffff (sample_ctl, sample_pool) = Some (Done 7272, c', ?h2) \<and> same_kernel sample_ctl c'"
      unfolding malloc_def using found(6) e sz cur wrap
      by (intro locked_runs [OF may_lock_lockable [OF sample_may_lock], where ?c1.0 = "lock_held sample_ctl"])
        (simp_all only: wrap, simp_all add: put_def owner_word_def)
    moreover have "tlsf_block_size 7272 ?h2 = 12" using block_size_out [OF h2] by simp
    ultimately show ?thesis using h2 by auto
  qed
qed

end
