(* ===== verification/Button.thy ===== *)
theory Button
  imports Malloc
begin

text \<open>
  The button event hooks: emcore/button.c. The hooks are structures on the kernel's heap, linked into
  a list that \<open>button_mutex\<close> protects. Their fields are kept beside the heap, at their addresses; NULL
  is \<open>None\<close>. A handler is called through a parameter of the model, since it is code of any caller.
\<close>

section \<open>The functions (button.c)\<close>

datatype button_event = BUTTON_PRESS | BUTTON_RELEASE | WHEEL_TOUCH | WHEEL_UNTOUCH | WHEEL_POSITION
  | WHEEL_MOVED | WHEEL_MOVED_ACCEL | WHEEL_FORWARD | WHEEL_BACKWARD

record button_hook_entry =
  h_next :: "u32 option"
  h_owner :: tid
  h_handler :: u32
  h_user :: u32

record button_state =
  bheap :: mstate
  hooks :: "u32 \<Rightarrow> button_hook_entry"
  head_button_hook :: "u32 option"
  button_mutex :: mid

definition bkern :: "button_state \<Rightarrow> kstate" where "bkern s = kern (fst (bheap s))"

definition set_bkern :: "kstate \<Rightarrow> button_state \<Rightarrow> button_state" where
  "set_bkern k s = s\<lparr>bheap := (fst (bheap s)\<lparr>kern := k\<rparr>, snd (bheap s))\<rparr>"

definition on_heap :: "(mstate \<Rightarrow> ('a answer \<times> mstate) option) \<Rightarrow> button_state \<Rightarrow> ('a answer \<times> button_state) option" where
  "on_heap f s = do { (x, ms) \<leftarrow> f (bheap s); Some (x, s\<lparr>bheap := ms\<rparr>) }"

definition hook_next :: "button_state \<Rightarrow> u32 \<Rightarrow> u32 option" where
  "hook_next s h = h_next (hooks s h)"

definition set_hook_next :: "u32 \<Rightarrow> u32 option \<Rightarrow> button_state \<Rightarrow> button_state" where
  "set_hook_next h n s = s\<lparr>hooks := (hooks s)(h := hooks s h\<lparr>h_next := n\<rparr>)\<rparr>"

definition button_init :: "button_state \<Rightarrow> button_state" where
  "button_init s = set_bkern (mutex_init (button_mutex s) (bkern s)) (s\<lparr>head_button_hook := None\<rparr>)"

definition button_register_handler :: "u32 \<Rightarrow> u32 \<Rightarrow> button_state \<Rightarrow> (u32 option answer \<times> button_state) option" where
  "button_register_handler handler user =
     andthen (on_heap (malloc 16)) (\<lambda>hook s.
       if hook = 0 then finish None s
       else
         let s = s\<lparr>hooks := (hooks s)(hook := hooks s hook
               \<lparr>h_owner := current_thread (bkern s), h_handler := handler, h_user := user\<rparr>)\<rparr> in
         with_mutex bkern set_bkern (button_mutex s)
           (\<lambda>s. finish (Some hook) ((set_hook_next hook (head_button_hook s) s)\<lparr>head_button_hook := Some hook\<rparr>)) s)"

text \<open>
  \<open>for (h = head_button_hook; h && h->next; h = h->next);\<close> with its empty body: the last hook.
\<close>

partial_function (option) last_hook :: "(u32 \<Rightarrow> u32 option) \<Rightarrow> u32 option \<Rightarrow> u32 option option" where
  "last_hook next h = (case h of
      None \<Rightarrow> Some None
    | Some t \<Rightarrow> (case next t of None \<Rightarrow> Some (Some t) | Some n \<Rightarrow> last_hook next (Some n)))"

declare last_hook.simps [code]

definition unregister_locked :: "u32 option \<Rightarrow> button_state \<Rightarrow> (int answer \<times> button_state) option" where
  "unregister_locked hook s =
     (if head_button_hook s = hook then do {
        h \<leftarrow> head_button_hook s;
        andthen (on_heap (free h)) (\<lambda>_. finish 0) (s\<lparr>head_button_hook := hook_next s h\<rparr>) }
      else do {
        last \<leftarrow> last_hook (hook_next s) (head_button_hook s);
        h \<leftarrow> last;
        if hook_next s h = hook then do {
          n \<leftarrow> hook_next s h;
          andthen (on_heap (free n)) (\<lambda>_. finish 0) (set_hook_next h (hook_next s n) s) }
        else finish (- 1) s })"

definition button_unregister_handler :: "u32 option \<Rightarrow> button_state \<Rightarrow> (int answer \<times> button_state) option" where
  "button_unregister_handler hook s = with_mutex bkern set_bkern (button_mutex s) (unregister_locked hook) s"

partial_function (option) send_to ::
  "(u32 \<Rightarrow> u32 \<Rightarrow> button_event \<Rightarrow> int \<Rightarrow> int \<Rightarrow> button_state \<Rightarrow> (unit answer \<times> button_state) option)
    \<Rightarrow> button_event \<Rightarrow> int \<Rightarrow> int \<Rightarrow> u32 option \<Rightarrow> button_state \<Rightarrow> (unit answer \<times> button_state) option" where
  "send_to call ev which value h s = (case h of
      None \<Rightarrow> Some (Done (), s)
    | Some t \<Rightarrow> do {
        (r, s) \<leftarrow> call (h_handler (hooks s t)) (h_user (hooks s t)) ev which value s;
        case r of
          Done _ \<Rightarrow> send_to call ev which value (hook_next s t) s
        | Waits \<Rightarrow> Some (Waits, s)
        | Panicked \<Rightarrow> Some (Panicked, s) })"

declare send_to.simps [code]

definition button_send_event ::
  "(u32 \<Rightarrow> u32 \<Rightarrow> button_event \<Rightarrow> int \<Rightarrow> int \<Rightarrow> button_state \<Rightarrow> (unit answer \<times> button_state) option)
    \<Rightarrow> button_event \<Rightarrow> int \<Rightarrow> int \<Rightarrow> button_state \<Rightarrow> (unit answer \<times> button_state) option" where
  "button_send_event call ev which value s = with_mutex bkern set_bkern (button_mutex s)
     (\<lambda>s. send_to call ev which value (head_button_hook s) s) s"

text \<open>The two loops of \<open>button_unregister_all_of_thread\<close>, the second one with its inner loop.\<close>

partial_function (option) drop_heads :: "tid \<Rightarrow> button_state \<Rightarrow> (unit answer \<times> button_state) option" where
  "drop_heads process s = (case head_button_hook s of
      None \<Rightarrow> Some (Done (), s)
    | Some h \<Rightarrow> if h_owner (hooks s h) = process then do {
          (r, s) \<leftarrow> on_heap (free h) (s\<lparr>head_button_hook := hook_next s h\<rparr>);
          case r of Done _ \<Rightarrow> drop_heads process s | Waits \<Rightarrow> Some (Waits, s) | Panicked \<Rightarrow> Some (Panicked, s) }
        else Some (Done (), s))"

declare drop_heads.simps [code]

partial_function (option) drop_after :: "tid \<Rightarrow> u32 \<Rightarrow> button_state \<Rightarrow> (unit answer \<times> button_state) option" where
  "drop_after process h s = (case hook_next s h of
      None \<Rightarrow> Some (Done (), s)
    | Some n \<Rightarrow> if h_owner (hooks s n) = process then do {
          (r, s) \<leftarrow> on_heap (free n) (set_hook_next h (hook_next s n) s);
          case r of Done _ \<Rightarrow> drop_after process h s | Waits \<Rightarrow> Some (Waits, s) | Panicked \<Rightarrow> Some (Panicked, s) }
        else Some (Done (), s))"

declare drop_after.simps [code]

partial_function (option) drop_all :: "tid \<Rightarrow> u32 option \<Rightarrow> button_state \<Rightarrow> (unit answer \<times> button_state) option" where
  "drop_all process h s = (case h of
      None \<Rightarrow> Some (Done (), s)
    | Some t \<Rightarrow> do {
        (r, s) \<leftarrow> drop_after process t s;
        case r of Done _ \<Rightarrow> drop_all process (hook_next s t) s | Waits \<Rightarrow> Some (Waits, s) | Panicked \<Rightarrow> Some (Panicked, s) })"

declare drop_all.simps [code]

definition button_unregister_all_of_thread :: "tid \<Rightarrow> button_state \<Rightarrow> (unit answer \<times> button_state) option" where
  "button_unregister_all_of_thread process s = with_mutex bkern set_bkern (button_mutex s)
     (andthen (drop_heads process) (\<lambda>_ s. drop_all process (head_button_hook s) s)) s"

section \<open>The list of hooks\<close>

interpretation hook: chain hook_next set_hook_next
  by unfold_locales (simp add: hook_next_def set_hook_next_def fun_eq_iff)

text \<open>
  The hooks \<open>xs\<close> are in the list and on the heap, whose allocated blocks are \<open>U\<close>: inside the section, and outside
  of it, where the mutex of the heap can be taken as if the two were one mutex.
\<close>

definition hooks_in :: "nat \<Rightarrow> nat \<Rightarrow> nat \<Rightarrow> (nat \<times> nat) set \<Rightarrow> u32 list \<Rightarrow> button_state \<Rightarrow> bool" where
  "hooks_in z a0 e U xs s \<longleftrightarrow> heap_inv z a0 e U (snd (bheap s)) \<and> lockable (fst (bheap s))
     \<and> linked (hook_next s) (head_button_hook s) xs \<and> (\<forall>x \<in> set xs. \<exists>t. (unat x, t) \<in> U)"

definition hooks_ok :: "nat \<Rightarrow> nat \<Rightarrow> nat \<Rightarrow> (nat \<times> nat) set \<Rightarrow> u32 list \<Rightarrow> button_state \<Rightarrow> bool" where
  "hooks_ok z a0 e U xs s \<longleftrightarrow> hooks_in z a0 e U xs s \<and> may_lock (fst (bheap s))"

definition blocks_but :: "u32 set \<Rightarrow> (nat \<times> nat) set \<Rightarrow> (nat \<times> nat) set" where
  "blocks_but X U = {(p, t) \<in> U. p \<notin> unat ` X}"

lemma blocks_but_simps [simp]: "blocks_but {} U = U" "blocks_but X (blocks_but Y U) = blocks_but (Y \<union> X) U"
  by (auto simp: blocks_but_def)

lemma sel_set_hook_next [simp]:
  "bheap (set_hook_next h n s) = bheap s" "head_button_hook (set_hook_next h n s) = head_button_hook s"
  "button_mutex (set_hook_next h n s) = button_mutex s"
  "h_owner (hooks (set_hook_next h n s) x) = h_owner (hooks s x)"
  "h_handler (hooks (set_hook_next h n s) x) = h_handler (hooks s x)"
  by (simp_all add: set_hook_next_def)

text \<open>What freeing a hook leaves alone.\<close>

definition same_hooks :: "button_state \<Rightarrow> button_state \<Rightarrow> bool" where
  "same_hooks s s' \<longleftrightarrow> hooks s' = hooks s \<and> head_button_hook s' = head_button_hook s \<and> button_mutex s' = button_mutex s
     \<and> same_kernel (fst (bheap s)) (fst (bheap s'))"

lemma heap_block_unique:
  assumes "heap_inv z a0 e U h" and "(p, s) \<in> U" and "(p, t) \<in> U"
  shows "s = t"
proof -
  from assms(1) obtain bs where bs: "heap_ok z a0 e bs h" "blocks_out bs = U" by (auto simp: heap_inv_def)
  have mem: "\<exists>a. p = a + 8 \<and> (a, u, False) \<in> set bs" if "(p, u) \<in> U" for u
    using that unfolding bs(2) [symmetric] blocks_out_def live_def by force
  from mem [OF assms(2)] obtain a where a: "p = a + 8" "(a, s, False) \<in> set bs" by blast
  moreover from mem [OF assms(3)] a(1) have "(a, t, False) \<in> set bs" by auto
  moreover have "tiles a0 bs e" using bs(1) by (simp add: heap_ok_def)
  ultimately show ?thesis using tiles_apart [of a0 bs e a s False a t False] by auto
qed

lemma free_hook:
  assumes "heap_inv z a0 e U (snd (bheap s))" and "lockable (fst (bheap s))" and "(unat x, t) \<in> U"
  obtains s' where "on_heap (free x) s = Some (Done (), s')" "heap_inv z a0 e (blocks_but {x} U) (snd (bheap s'))"
    "lockable (fst (bheap s'))" "same_hooks s s'"
proof -
  obtain c h where ch: "bheap s = (c, h)" by fastforce
  from heap_free_law [OF assms(1,3)] obtain h' where h': "tlsf_free x h = Some h'"
    "heap_inv z a0 e (U - {(unat x, t)}) h'" by (auto simp: ch)
  from assms(2) have "lockable c" by (simp add: ch)
  from free_call [OF this h'(1)] obtain c' where c': "free x (c, h) = Some (Done (), c', h')" "same_kernel c c'" by blast
  have "(p, u) \<in> U - {(unat x, t)} \<longleftrightarrow> (p, u) \<in> blocks_but {x} U" for p u
    using heap_block_unique [OF assms(1), of "unat x" t u] assms(3) by (auto simp: blocks_but_def)
  then have "U - {(unat x, t)} = blocks_but {x} U" by (auto simp only: set_eq_iff split_paired_all)
  with c' h' \<open>lockable c\<close> show ?thesis
    by (intro that [of "s\<lparr>bheap := (c', h')\<rparr>"])
      (auto simp: on_heap_def ch same_hooks_def intro: same_kernel_lockable)
qed


section \<open>Inside the critical section\<close>

definition held :: "button_state \<Rightarrow> button_state" where
  "held s = set_bkern (taken (button_mutex s) (bkern s)) s"

lemma set_bkern_sel [simp]:
  "hooks (set_bkern k s) = hooks s" "head_button_hook (set_bkern k s) = head_button_hook s"
  "button_mutex (set_bkern k s) = button_mutex s" "snd (bheap (set_bkern k s)) = snd (bheap s)"
  "hook_next (set_bkern k s) = hook_next s" "bkern (set_bkern k s) = k"
  "malloc_mutex (fst (bheap (set_bkern k s))) = malloc_mutex (fst (bheap s))"
  "global_mallocpool (fst (bheap (set_bkern k s))) = global_mallocpool (fst (bheap s))"
  "kern (fst (bheap (set_bkern k s))) = k"
  by (simp_all add: set_bkern_def hook_next_def bkern_def fun_eq_iff)

lemma held_ok:
  assumes "hooks_ok z a0 e U xs s" and "can_take (button_mutex s) (bkern s)"
  shows "hooks_in z a0 e U xs (held s)"
proof -
  let ?m = "malloc_mutex (fst (bheap s))"
  have m: "can_nest 2 ?m (bkern s)" using assms(1) by (simp add: hooks_ok_def may_lock_def bkern_def)
  have "can_take ?m (taken (button_mutex s) (bkern s))"
  proof (cases "?m = button_mutex s")
    case True
    with m show ?thesis using taken_can_nest [of 1] by (simp add: can_take_def numeral_2_eq_2)
  next
    case False
    from m have "can_nest 1 ?m (bkern s)" by (rule can_nest_mono) simp
    with taken_can_nest_other [OF assms(2) False] show ?thesis by (simp add: can_take_def)
  qed
  then show ?thesis using assms(1) by (simp add: hooks_ok_def hooks_in_def held_def lockable_def)
qed

lemma section_runs:
  assumes "can_take (button_mutex s) (bkern s)" and "body (held s) = Some (Done x, s1)"
    and "same_kernel (fst (bheap (held s))) (fst (bheap s1))"
  obtains k' where "with_mutex bkern set_bkern (button_mutex s) body s = Some (Done x, set_bkern k' s1)"
    "kernel_same (bkern s) k'"
proof (rule with_mutex_runs [of "button_mutex s" bkern s body set_bkern x s1])
  show "body (set_bkern (taken (button_mutex s) (bkern s)) s) = Some (Done x, s1)" using assms(2) by (simp add: held_def)
  show "kernel_same (taken (button_mutex s) (bkern s)) (bkern s1)"
    using assms(3) by (simp add: same_kernel_def held_def bkern_def)
qed (use assms(1) that in auto)

text \<open>Leaving the section.\<close>

lemma hooks_ok_leave:
  assumes "hooks_in z a0 e U xs s1" and "can_nest 2 (malloc_mutex (fst (bheap s))) (bkern s)"
    and "malloc_mutex (fst (bheap s1)) = malloc_mutex (fst (bheap s))" and k: "kernel_same (bkern s) k'"
  shows "hooks_ok z a0 e U xs (set_bkern k' s1)"
proof -
  have "can_nest 2 (malloc_mutex (fst (bheap s1))) k'" using kernel_same_can_nest [OF k assms(2)] assms(3) by simp
  moreover from this have "can_take (malloc_mutex (fst (bheap s1))) k'"
    unfolding can_take_def by (rule can_nest_mono) simp
  ultimately show ?thesis using assms(1) by (simp add: hooks_ok_def hooks_in_def may_lock_def lockable_def)
qed

lemma same_hooks_trans: "same_hooks s s1 \<Longrightarrow> same_hooks s1 s2 \<Longrightarrow> same_hooks s s2"
  by (auto simp: same_hooks_def intro: same_kernel_trans)

lemma same_hooks_next: "same_hooks s s' \<Longrightarrow> hook_next s' = hook_next s"
  by (simp add: same_hooks_def hook_next_def fun_eq_iff)

lemma hooks_inD:
  assumes "hooks_in z a0 e U xs s"
  shows "heap_inv z a0 e U (snd (bheap s))" "lockable (fst (bheap s))" "linked (hook_next s) (head_button_hook s) xs"
    "x \<in> set xs \<Longrightarrow> \<exists>t. (unat x, t) \<in> U"
  using assms by (auto simp: hooks_in_def)

lemma last_hook_linked: "linked next h (xs @ [x]) \<Longrightarrow> last_hook next h = Some (Some x)"
proof (induction xs arbitrary: h)
  case Nil
  then show ?case by (subst last_hook.simps) auto
next
  case (Cons y xs)
  then have "h = Some y" "linked next (next y) (xs @ [x])" by auto
  moreover from this obtain n where "next y = Some n" by (cases xs) auto
  ultimately show ?case using Cons.IH [of "next y"] by (subst last_hook.simps) auto
qed

lemma section_faults:
  assumes "can_take (button_mutex s) (bkern s)" and "body (held s) = None"
  shows "with_mutex bkern set_bkern (button_mutex s) body s = None"
  using assms taken(1) by (simp add: with_mutex_def held_def)

lemma blocks_but_keep: "(unat x, t) \<in> U \<Longrightarrow> x \<notin> X \<Longrightarrow> (unat x, t) \<in> blocks_but X U"
  by (auto simp: blocks_but_def dest: word_unat_eq_iff [THEN iffD2])

text \<open>A section that keeps the list in order, seen from outside.\<close>

lemma section_hooks:
  assumes ok: "hooks_ok z a0 e U xs s" and free: "can_take (button_mutex s) (bkern s)"
    and b: "body (held s) = Some (Done x, s1)" "hooks_in z a0 e V ys s1"
      "same_kernel (fst (bheap (held s))) (fst (bheap s1))"
  shows "\<exists>s'. with_mutex bkern set_bkern (button_mutex s) body s = Some (Done x, s')
    \<and> hooks_ok z a0 e V ys s' \<and> kernel_same (bkern s) (bkern s') \<and> hooks s' = hooks s1"
proof -
  from section_runs [of s body x s1, OF free b(1,3)] obtain k' where
    k: "with_mutex bkern set_bkern (button_mutex s) body s = Some (Done x, set_bkern k' s1)" "kernel_same (bkern s) k'" .
  have "malloc_mutex (fst (bheap s1)) = malloc_mutex (fst (bheap s))"
    using b(3) by (simp add: same_kernel_def held_def)
  moreover have "can_nest 2 (malloc_mutex (fst (bheap s))) (bkern s)"
    using ok by (simp add: hooks_ok_def may_lock_def bkern_def)
  ultimately have "hooks_ok z a0 e V ys (set_bkern k' s1)" using hooks_ok_leave b(2) k(2) by metis
  with k show ?thesis by auto
qed

lemma unregister_head:
  assumes ok: "hooks_in z a0 e U (h # ys) s"
  obtains s1 where "unregister_locked (Some h) s = Some (Done 0, s1)" "hooks_in z a0 e (blocks_but {h} U) ys s1"
    "same_kernel (fst (bheap s)) (fst (bheap s1))"
proof -
  note D = hooks_inD [OF ok]
  let ?s1 = "s\<lparr>head_button_hook := hook_next s h\<rparr>"
  from D(4) [of h] obtain t where t: "(unat h, t) \<in> U" by auto
  from free_hook [of z a0 e U ?s1 h t] D(1,2) t obtain s1 where s1: "on_heap (free h) ?s1 = Some (Done (), s1)"
    "heap_inv z a0 e (blocks_but {h} U) (snd (bheap s1))" "lockable (fst (bheap s1))" "same_hooks ?s1 s1" by auto
  have d: "h \<notin> set ys" using linked_distinct [OF D(3)] by simp
  have nx: "hook_next s1 = hook_next s" "head_button_hook s1 = hook_next s h"
    using s1(4) by (simp_all add: same_hooks_def hook_next_def fun_eq_iff)
  have "\<exists>t. (unat x, t) \<in> blocks_but {h} U" if x: "x \<in> set ys" for x
  proof -
    from D(4) [of x] x obtain t where "(unat x, t) \<in> U" by auto
    then have "(unat x, t) \<in> blocks_but {h} U" using x d by (intro blocks_but_keep) auto
    then show ?thesis ..
  qed
  then have "hooks_in z a0 e (blocks_but {h} U) ys s1" using s1(2,3) nx D(3) by (simp add: hooks_in_def)
  moreover have "unregister_locked (Some h) s = Some (Done 0, s1)"
    using s1(1) D(3) by (simp add: unregister_locked_def finish_def)
  moreover have "same_kernel (fst (bheap s)) (fst (bheap s1))" using s1(4) by (simp add: same_hooks_def)
  ultimately show ?thesis by (intro that)
qed

lemma unregister_other:
  assumes l: "linked (hook_next s) (head_button_hook s) xs" and h: "head_button_hook s \<noteq> hook \<or> xs = []"
  shows "unregister_locked hook s = (if xs = [] \<or> hook = None then None else Some (Done (- 1), s))"
proof (cases xs rule: rev_cases)
  case Nil
  with l show ?thesis by (auto simp: unregister_locked_def last_hook.simps)
next
  case (snoc us x)
  then have "last_hook (hook_next s) (head_button_hook s) = Some (Some x)" "hook_next s x = None"
    using l last_hook_linked by (metis, auto)
  with snoc h show ?thesis by (auto simp: unregister_locked_def finish_def)
qed

text \<open>
  C35. button_unregister_handler takes the first hook of the list off it and frees it. For any other hook it
  returns $-1$ and leaves the list as it is, also when the hook is in the list: the loop that
  should search for it has an empty body and only finds the last hook. On an empty list, and for
  the NULL hook, it dereferences NULL.
\<close>
theorem button_unregister_only_head:
  assumes ok: "hooks_ok z a0 e U xs s" and free: "can_take (button_mutex s) (bkern s)"
  shows "if xs = [] \<or> hook = None then button_unregister_handler hook s = None
    else if hook = Some (hd xs)
    then \<exists>s'. button_unregister_handler hook s = Some (Done 0, s') \<and> hooks_ok z a0 e (blocks_but {hd xs} U) (tl xs) s'
    else \<exists>s'. button_unregister_handler hook s = Some (Done (- 1), s') \<and> hooks_ok z a0 e U xs s'"
proof -
  note H = held_ok [OF ok free]
  note D = hooks_inD(3) [OF H]
  consider "xs = [] \<or> hook = None" | h ys where "xs = h # ys" "hook = Some h"
    | "xs \<noteq> []" "hook \<noteq> None" "hook \<noteq> Some (hd xs)" by (cases xs; cases hook) auto
  then show ?thesis
  proof cases
    case 1
    then have "head_button_hook (held s) \<noteq> hook \<or> xs = []" using D by (cases xs) auto
    from unregister_other [OF D this] 1 show ?thesis
      unfolding button_unregister_handler_def by (simp add: section_faults [OF free])
  next
    case 2
    from unregister_head [OF H [unfolded 2(1)]] obtain s1 where "unregister_locked (Some h) (held s) = Some (Done 0, s1)"
      "hooks_in z a0 e (blocks_but {h} U) ys s1" "same_kernel (fst (bheap (held s))) (fst (bheap s1))" .
    from section_hooks [where body = "unregister_locked (Some h)", OF ok free this] 2 show ?thesis
      unfolding button_unregister_handler_def by auto
  next
    case 3
    then have "head_button_hook (held s) \<noteq> hook \<or> xs = []" using D by (cases xs) auto
    from unregister_other [OF D this] 3 have "unregister_locked hook (held s) = Some (Done (- 1), held s)" by simp
    from section_hooks [where body = "unregister_locked hook", OF ok free this H] 3 show ?thesis
      unfolding button_unregister_handler_def by auto
  qed
qed

section \<open>Unregistering the hooks of a thread\<close>

lemma drop_heads_spec:
  assumes "hooks_in z a0 e U xs s"
  shows "\<exists>s'. drop_heads p s = Some (Done (), s')
    \<and> hooks_in z a0 e (blocks_but (set (takeWhile (\<lambda>x. h_owner (hooks s x) = p) xs)) U)
        (dropWhile (\<lambda>x. h_owner (hooks s x) = p) xs) s'
    \<and> hooks s' = hooks s \<and> same_kernel (fst (bheap s)) (fst (bheap s'))"
  using assms
proof (induction xs arbitrary: s U)
  case Nil
  then have "head_button_hook s = None" using hooks_inD(3) by fastforce
  then have "drop_heads p s = Some (Done (), s)" by (subst drop_heads.simps) simp
  with Nil show ?case by auto
next
  case (Cons h ys)
  note D = hooks_inD [OF Cons.prems]
  have hd: "head_button_hook s = Some h" using D(3) by simp
  show ?case
  proof (cases "h_owner (hooks s h) = p")
    case False
    with hd have "drop_heads p s = Some (Done (), s)" by (subst drop_heads.simps) simp
    with False Cons.prems show ?thesis by auto
  next
    case True
    from unregister_head [OF Cons.prems] obtain s1 where s1: "unregister_locked (Some h) s = Some (Done 0, s1)"
      "hooks_in z a0 e (blocks_but {h} U) ys s1" "same_kernel (fst (bheap s)) (fst (bheap s1))" .
    from s1(1) hd have f: "on_heap (free h) (s\<lparr>head_button_hook := hook_next s h\<rparr>) = Some (Done (), s1)"
      by (auto simp: unregister_locked_def andthen_def finish_def split: bind_splits answer.splits)
    then have hk: "hooks s1 = hooks s" by (auto simp: on_heap_def split: bind_splits)
    from f hd True have st: "drop_heads p s = drop_heads p s1" by (subst drop_heads.simps) simp
    from Cons.IH [OF s1(2)] obtain s' where s': "drop_heads p s1 = Some (Done (), s')"
      "hooks_in z a0 e (blocks_but (set (takeWhile (\<lambda>x. h_owner (hooks s1 x) = p) ys)) (blocks_but {h} U))
        (dropWhile (\<lambda>x. h_owner (hooks s1 x) = p) ys) s'"
      "hooks s' = hooks s1" "same_kernel (fst (bheap s1)) (fst (bheap s'))" by blast
    with st hk True same_kernel_trans [OF s1(3) s'(4)] show ?thesis by auto
  qed
qed

text \<open>The inner loop unlinks the run of the thread's hooks behind one hook.\<close>

lemma drop_after_spec:
  assumes "hooks_in z a0 e U (us @ h # ys) s"
  shows "\<exists>s'. drop_after p h s = Some (Done (), s')
    \<and> hooks_in z a0 e (blocks_but (set (takeWhile (\<lambda>x. h_owner (hooks s x) = p) ys)) U)
        (us @ h # dropWhile (\<lambda>x. h_owner (hooks s x) = p) ys) s'
    \<and> (\<forall>x. h_owner (hooks s' x) = h_owner (hooks s x)) \<and> same_kernel (fst (bheap s)) (fst (bheap s'))"
  using assms
proof (induction ys arbitrary: s U)
  case Nil
  then have "hook_next s h = None" using hooks_inD(3) by fastforce
  then have "drop_after p h s = Some (Done (), s)" by (subst drop_after.simps) simp
  with Nil show ?case by auto
next
  case (Cons n ys)
  note D = hooks_inD [OF Cons.prems]
  have nx: "hook_next s h = Some n" using D(3) by auto
  show ?case
  proof (cases "h_owner (hooks s n) = p")
    case False
    with nx have "drop_after p h s = Some (Done (), s)" by (subst drop_after.simps) simp
    with False Cons.prems show ?thesis by auto
  next
    case True
    let ?s1 = "set_hook_next h (hook_next s n) s"
    have l1: "linked (hook_next ?s1) (head_button_hook ?s1) (us @ h # ys)"
      using hook.unlink_after [OF D(3)] by simp
    from D(4) [of n] obtain t where t: "(unat n, t) \<in> U" by auto
    from free_hook [of z a0 e U ?s1 n t] D(1,2) t obtain s2 where s2: "on_heap (free n) ?s1 = Some (Done (), s2)"
      "heap_inv z a0 e (blocks_but {n} U) (snd (bheap s2))" "lockable (fst (bheap s2))" "same_hooks ?s1 s2" by auto
    have d: "n \<notin> set (us @ h # ys)" using linked_distinct [OF D(3)] by auto
    have nx2: "hook_next s2 = hook_next ?s1" "head_button_hook s2 = head_button_hook ?s1"
      using same_hooks_next [OF s2(4)] s2(4) by (simp_all add: same_hooks_def)
    have "\<exists>t. (unat x, t) \<in> blocks_but {n} U" if x: "x \<in> set (us @ h # ys)" for x
    proof -
      from D(4) [of x] x obtain t where "(unat x, t) \<in> U" by auto
      then have "(unat x, t) \<in> blocks_but {n} U" using x d by (intro blocks_but_keep) auto
      then show ?thesis ..
    qed
    then have ok2: "hooks_in z a0 e (blocks_but {n} U) (us @ h # ys) s2"
      using s2(2,3) nx2 l1 by (simp add: hooks_in_def)
    have ow: "h_owner (hooks s2 x) = h_owner (hooks s x)" for x using s2(4) by (simp add: same_hooks_def)
    have sk: "same_kernel (fst (bheap s)) (fst (bheap s2))" using s2(4) by (simp add: same_hooks_def)
    have st: "drop_after p h s = drop_after p h s2" using nx True s2(1) by (subst drop_after.simps) simp
    from Cons.IH [OF ok2] obtain s' where s': "drop_after p h s2 = Some (Done (), s')"
      "hooks_in z a0 e (blocks_but (set (takeWhile (\<lambda>x. h_owner (hooks s2 x) = p) ys)) (blocks_but {n} U))
        (us @ h # dropWhile (\<lambda>x. h_owner (hooks s2 x) = p) ys) s'"
      "\<forall>x. h_owner (hooks s' x) = h_owner (hooks s2 x)" "same_kernel (fst (bheap s2)) (fst (bheap s'))" by blast
    with st ow True same_kernel_trans [OF sk s'(4)] show ?thesis by simp
  qed
qed

lemma dropWhile_filter: "filter (\<lambda>x. \<not> P x) (dropWhile P xs) = filter (\<lambda>x. \<not> P x) xs"
  by (induction xs) auto

lemma filter_split: "set (filter P xs) = set (takeWhile P xs) \<union> set (filter P (dropWhile P xs))"
  by (induction xs) auto

lemma drop_all_spec:
  assumes "hooks_in z a0 e U (us @ ys) s" and "linked (hook_next s) q ys"
    and "case ys of [] \<Rightarrow> True | y # _ \<Rightarrow> h_owner (hooks s y) \<noteq> p"
  shows "\<exists>s'. drop_all p q s = Some (Done (), s')
    \<and> hooks_in z a0 e (blocks_but (set (filter (\<lambda>x. h_owner (hooks s x) = p) ys)) U)
        (us @ filter (\<lambda>x. h_owner (hooks s x) \<noteq> p) ys) s'
    \<and> (\<forall>x. h_owner (hooks s' x) = h_owner (hooks s x)) \<and> same_kernel (fst (bheap s)) (fst (bheap s'))"
  using assms
proof (induction "length ys" arbitrary: ys us q s U rule: less_induct)
  case less
  show ?case
  proof (cases ys)
    case Nil
    with less.prems(2) have "drop_all p q s = Some (Done (), s)" by (subst drop_all.simps) simp
    with Nil less.prems(1) show ?thesis by auto
  next
    case (Cons h zs)
    let ?P = "\<lambda>x. h_owner (hooks s x) = p"
    have q: "q = Some h" "\<not> ?P h" using less.prems(2,3) Cons by auto
    from drop_after_spec [OF less.prems(1) [unfolded Cons], of p] obtain s1 where s1: "drop_after p h s = Some (Done (), s1)"
      "hooks_in z a0 e (blocks_but (set (takeWhile ?P zs)) U) (us @ h # dropWhile ?P zs) s1"
      "\<forall>x. h_owner (hooks s1 x) = h_owner (hooks s x)" "same_kernel (fst (bheap s)) (fst (bheap s1))" by blast
    have st: "drop_all p q s = drop_all p (hook_next s1 h) s1" using q s1(1) by (subst drop_all.simps) simp
    have ok1: "hooks_in z a0 e (blocks_but (set (takeWhile ?P zs)) U) ((us @ [h]) @ dropWhile ?P zs) s1"
      using s1(2) by simp
    have l1: "linked (hook_next s1) (hook_next s1 h) (dropWhile ?P zs)"
      using hooks_inD(3) [OF s1(2)] by auto
    have hd1: "case dropWhile ?P zs of [] \<Rightarrow> True | y # _ \<Rightarrow> h_owner (hooks s1 y) \<noteq> p"
      using s1(3) by (auto split: list.splits simp: dropWhile_eq_Cons_conv)
    have "length (dropWhile ?P zs) < length ys" using Cons length_dropWhile_le [of ?P zs] by simp
    from less.hyps [OF this ok1 l1 hd1] obtain s' where s': "drop_all p (hook_next s1 h) s1 = Some (Done (), s')"
      "hooks_in z a0 e (blocks_but (set (filter (\<lambda>x. h_owner (hooks s1 x) = p) (dropWhile ?P zs)))
          (blocks_but (set (takeWhile ?P zs)) U))
        ((us @ [h]) @ filter (\<lambda>x. h_owner (hooks s1 x) \<noteq> p) (dropWhile ?P zs)) s'"
      "\<forall>x. h_owner (hooks s' x) = h_owner (hooks s1 x)" "same_kernel (fst (bheap s1)) (fst (bheap s'))" by blast
    have "set (takeWhile ?P zs) \<union> {x \<in> set (dropWhile ?P zs). ?P x} = {x \<in> set zs. ?P x}"
      using filter_split [of ?P zs] by simp
    then show ?thesis
      using st s'(1,3) same_kernel_trans [OF s1(4) s'(4)] s'(2) s1(3) Cons q(2)
      by (intro exI [of _ s']) (simp add: dropWhile_filter)
  qed
qed

text \<open>
  C33. button_unregister_all_of_thread returns, keeps exactly the hooks of the other threads, in their order, and
  frees the blocks of the thread's hooks and no other block.
\<close>
theorem button_unregister_all_filters:
  assumes ok: "hooks_ok z a0 e U xs s" and free: "can_take (button_mutex s) (bkern s)"
  shows "\<exists>s'. button_unregister_all_of_thread p s = Some (Done (), s') \<and> kernel_same (bkern s) (bkern s')
    \<and> hooks_ok z a0 e (blocks_but {x \<in> set xs. h_owner (hooks s x) = p} U)
        (filter (\<lambda>x. h_owner (hooks s x) \<noteq> p) xs) s'"
proof -
  let ?P = "\<lambda>x. h_owner (hooks s x) = p"
  note H = held_ok [OF ok free]
  have hk: "hooks (held s) = hooks s" by (simp add: held_def)
  from drop_heads_spec [OF H, of p] obtain s1 where s1: "drop_heads p (held s) = Some (Done (), s1)"
    "hooks_in z a0 e (blocks_but (set (takeWhile ?P xs)) U) ([] @ dropWhile ?P xs) s1"
    "hooks s1 = hooks s" "same_kernel (fst (bheap (held s))) (fst (bheap s1))" unfolding hk by auto
  have l1: "linked (hook_next s1) (head_button_hook s1) (dropWhile ?P xs)" using hooks_inD(3) [OF s1(2)] by simp
  have "case dropWhile ?P xs of [] \<Rightarrow> True | y # _ \<Rightarrow> h_owner (hooks s1 y) \<noteq> p"
    using s1(3) by (auto split: list.splits simp: dropWhile_eq_Cons_conv)
  from drop_all_spec [OF s1(2) l1 this] obtain s2 where s2: "drop_all p (head_button_hook s1) s1 = Some (Done (), s2)"
    "hooks_in z a0 e (blocks_but (set (filter ?P (dropWhile ?P xs))) (blocks_but (set (takeWhile ?P xs)) U))
      ([] @ filter (\<lambda>x. \<not> ?P x) (dropWhile ?P xs)) s2" "same_kernel (fst (bheap s1)) (fst (bheap s2))"
    unfolding s1(3) by blast
  have b: "andthen (drop_heads p) (\<lambda>_ s. drop_all p (head_button_hook s) s) (held s) = Some (Done (), s2)"
    using s1(1) s2(1) by simp
  have "set (takeWhile ?P xs) \<union> set (filter ?P (dropWhile ?P xs)) = {x \<in> set xs. ?P x}"
    using filter_split [of ?P xs] by simp
  with s2(2) have "hooks_in z a0 e (blocks_but {x \<in> set xs. ?P x} U) (filter (\<lambda>x. \<not> ?P x) xs) s2"
    by (simp add: dropWhile_filter)
  from section_hooks [where body = "andthen (drop_heads p) (\<lambda>_ s. drop_all p (head_button_hook s) s)",
      OF ok free b this same_kernel_trans [OF s1(4) s2(3)]] show ?thesis
    unfolding button_unregister_all_of_thread_def by blast
qed

section \<open>Registering, and sending events\<close>

text \<open>
  C34. button_register_handler puts a new hook of the calling thread in front of the list, in a block of the
  heap that was not allocated before; if there is no memory, it returns NULL and changes nothing.
\<close>
theorem button_register_adds:
  assumes ok: "hooks_ok z a0 e U xs s" and free: "can_take (button_mutex s) (bkern s)"
  shows "\<exists>r s'. button_register_handler handler user s = Some (Done r, s') \<and>
    (case r of None \<Rightarrow> hooks_ok z a0 e U xs s' \<and> hooks s' = hooks s
     | Some hook \<Rightarrow> (\<exists>t. 20 \<le> t \<and> (unat hook, t) \<notin> U \<and> hooks_ok z a0 e (insert (unat hook, t) U) (hook # xs) s')
         \<and> h_owner (hooks s' hook) = current_thread (bkern s) \<and> h_handler (hooks s' hook) = handler
         \<and> h_user (hooks s' hook) = user \<and> (\<forall>x. x \<noteq> hook \<longrightarrow> hooks s' x = hooks s x))"
proof -
  obtain c h where ch: "bheap s = (c, h)" by fastforce
  have oki: "hooks_in z a0 e U xs s" and lk: "may_lock (fst (bheap s))" using ok by (simp_all add: hooks_ok_def)
  note D = hooks_inD [OF oki]
  from D(1) obtain bs where bs: "heap_ok z a0 e bs h" "blocks_out bs = U" by (auto simp: heap_inv_def ch)
  have lk: "may_lock c" using lk ch by simp
  have sv: "servable (16 + 4)" by (simp add: servable_def)
  have "(16 :: u32) = of_nat 16" by simp
  with malloc_call [OF bs(1) lk sv] have "\<exists>ptr c1 h1. malloc 16 (c, h) = Some (Done ptr, c1, h1) \<and> same_kernel c c1 \<and>
      (ptr = 0 \<and> h1 = h \<or> (\<exists>a t bs'. ptr = of_nat (a + 8) \<and> ptr \<noteq> 0 \<and> heap_ok z a0 e bs' h1
       \<and> live bs' = insert (a, t) (live bs) \<and> (a, t) \<notin> live bs \<and> 16 + 4 \<le> t
       \<and> owner_of h1 (a, t) = current_thread (kern c) \<and> kept (live bs) h h1))" by (simp only:)
  then obtain ptr c1 h1 where m: "malloc 16 (c, h) = Some (Done ptr, c1, h1)" "same_kernel c c1"
    and cases: "ptr = 0 \<and> h1 = h \<or> (\<exists>a t bs'. ptr = of_nat (a + 8) \<and> ptr \<noteq> 0 \<and> heap_ok z a0 e bs' h1
       \<and> live bs' = insert (a, t) (live bs) \<and> (a, t) \<notin> live bs \<and> 16 + 4 \<le> t
       \<and> owner_of h1 (a, t) = current_thread (kern c) \<and> kept (live bs) h h1)" by blast
  let ?s1 = "s\<lparr>bheap := (c1, h1)\<rparr>"
  have on: "on_heap (malloc 16) s = Some (Done ptr, ?s1)" using m(1) by (simp add: on_heap_def ch)
  have lk1: "may_lock c1" using same_kernel_may_lock [OF m(2) lk] .
  show ?thesis
  proof (cases "ptr = 0")
    case True
    with cases have "h1 = h" by auto
    moreover have "hook_next ?s1 = hook_next s" by (simp add: hook_next_def fun_eq_iff)
    ultimately have "hooks_ok z a0 e U xs ?s1" using oki lk1 ch may_lock_lockable [OF lk1] by (simp add: hooks_ok_def hooks_in_def)
    then show ?thesis using on True by (simp add: button_register_handler_def finish_def)
  next
    case False
    with cases obtain a t bs' where a: "ptr = of_nat (a + 8)" "heap_ok z a0 e bs' h1"
      "live bs' = insert (a, t) (live bs)" "(a, t) \<notin> live bs" "20 \<le> t" by auto
    have "a + 8 < 2 ^ 32"
    proof -
      have "(a, t, False) \<in> set bs'" using a(3) by (auto simp: live_def)
      moreover have "tiles a0 bs' e" "e + 8 \<le> 2 ^ 32" using a(2) by (simp_all add: heap_ok_def placed_def)
      ultimately show ?thesis using tiles_in a(5) by fastforce
    qed
    then have ua: "unat ptr = a + 8" using a(1) by (simp add: unat_of_nat_u32 del: of_nat_add)
    have U1: "blocks_out bs' = insert (unat ptr, t) U" using a(3) bs(2) ua by (simp add: blocks_out_def)
    have new: "(unat ptr, t) \<notin> U" using a(4) bs(2) ua by (auto simp: blocks_out_def)
    have inv1: "heap_inv z a0 e (insert (unat ptr, t) U) h1" using a(2) U1 by (auto simp: heap_inv_def)
    have notin: "ptr \<notin> set xs"
    proof
      assume "ptr \<in> set xs"
      from D(4) [OF this] obtain u where u: "(unat ptr, u) \<in> U" by blast
      then have "u = t" using heap_block_unique [OF inv1, of "unat ptr" u t] by simp
      with u new show False by simp
    qed
    let ?s2 = "?s1\<lparr>hooks := (hooks s)(ptr := hooks s ptr
       \<lparr>h_owner := current_thread (kern c1), h_handler := handler, h_user := user\<rparr>)\<rparr>"
    have nx2: "hook_next ?s2 = hook_next s" by (simp add: hook_next_def fun_eq_iff)
    have ok2: "hooks_ok z a0 e (insert (unat ptr, t) U) xs ?s2"
      using inv1 lk1 D(3,4) nx2 may_lock_lockable [OF lk1] by (auto simp: hooks_ok_def hooks_in_def)
    have free2: "can_take (button_mutex ?s2) (bkern ?s2)"
      using free m(2) kernel_same_can_take [of "kern c" "kern c1"] by (simp add: bkern_def ch same_kernel_def)
    let ?body = "\<lambda>s. finish (Some ptr) ((set_hook_next ptr (head_button_hook s) s)\<lparr>head_button_hook := Some ptr\<rparr>)"
    define s3 where "s3 = (set_hook_next ptr (head_button_hook (held ?s2)) (held ?s2))\<lparr>head_button_hook := Some ptr\<rparr>"
    note ok3 = held_ok [OF ok2 free2]
    note D3 = hooks_inD [OF ok3]
    have s3: "bheap s3 = bheap (held ?s2)" "head_button_hook s3 = Some ptr" by (simp_all add: s3_def)
    have "hook_next s3 = hook_next (set_hook_next ptr (head_button_hook (held ?s2)) (held ?s2))"
      by (simp add: s3_def hook_next_def fun_eq_iff)
    with hook.push_front [OF D3(3) notin] have "linked (hook_next s3) (Some ptr) (ptr # xs)" by (simp only:)
    moreover have "\<forall>x \<in> set (ptr # xs). \<exists>u. (unat x, u) \<in> insert (unat ptr, t) U" using D(4) by auto
    ultimately have ok4: "hooks_in z a0 e (insert (unat ptr, t) U) (ptr # xs) s3"
      using D3(1,2) unfolding hooks_in_def s3 by blast
    have b: "?body (held ?s2) = Some (Done (Some ptr), s3)" by (simp add: finish_def s3_def)
    have sk: "same_kernel (fst (bheap (held ?s2))) (fst (bheap s3))" by (simp add: s3)
    from section_hooks [where body = ?body, OF ok2 free2 b ok4 sk] obtain s' where
      s': "with_mutex bkern set_bkern (button_mutex ?s2) ?body ?s2 = Some (Done (Some ptr), s')"
      "hooks_ok z a0 e (insert (unat ptr, t) U) (ptr # xs) s'" "hooks s' = hooks s3" by blast
    have reg: "button_register_handler handler user s = Some (Done (Some ptr), s')"
      using on False s'(1) by (simp add: button_register_handler_def bkern_def)
    have cur: "current_thread (kern c1) = current_thread (bkern s)"
      using m(2) by (simp add: same_kernel_def kernel_same_def bkern_def ch)
    have "h_owner (hooks s' ptr) = current_thread (bkern s)" "h_handler (hooks s' ptr) = handler"
      "h_user (hooks s' ptr) = user" "\<forall>x. x \<noteq> ptr \<longrightarrow> hooks s' x = hooks s x"
      using s'(3) cur by (simp_all add: s3_def set_hook_next_def held_def)
    with reg s'(2) new a(5) show ?thesis by auto
  qed
qed

text \<open>
  What a handler may do: anything that leaves the hooks, their list and the button mutex as they are and does
  not switch threads for good. It may take and release other mutexes, signal wakeups and use the heap.
\<close>

definition handler_keeps :: "button_state \<Rightarrow> button_state \<Rightarrow> bool" where
  "handler_keeps s s' \<longleftrightarrow> hooks s' = hooks s \<and> head_button_hook s' = head_button_hook s \<and> button_mutex s' = button_mutex s
     \<and> current_thread (bkern s') = current_thread (bkern s)
     \<and> t_owned_mutexes (threads (bkern s') (current_thread (bkern s))) = t_owned_mutexes (threads (bkern s) (current_thread (bkern s)))
     \<and> m_owner (mutexes (bkern s') (button_mutex s)) = m_owner (mutexes (bkern s) (button_mutex s))
     \<and> m_count (mutexes (bkern s') (button_mutex s)) = m_count (mutexes (bkern s) (button_mutex s))"

lemma handler_keeps_refl [simp]: "handler_keeps s s"
  by (simp add: handler_keeps_def)

lemma handler_keeps_trans: "handler_keeps s s1 \<Longrightarrow> handler_keeps s1 s2 \<Longrightarrow> handler_keeps s s2"
  by (simp add: handler_keeps_def)

lemma taken_owned:
  assumes "can_take m k" and "m_count (mutexes k m) = 0"
  shows "t_owned_mutexes (threads (taken m k) (current_thread k)) = Some m"
  using assms by (simp add: taken_def mutex_lock_def Let_def)

lemma unlock_after_handlers:
  assumes free: "can_take (button_mutex s) (bkern s)" and k: "handler_keeps (held s) s1"
  shows "\<exists>r k'. mutex_unlock (button_mutex s) (bkern s1) = Some (Ret r, k')"
proof -
  let ?m = "button_mutex s" and ?t = "current_thread (bkern s)"
  note t = taken [OF free]
  have f: "current_thread (bkern s1) = ?t" "m_owner (mutexes (bkern s1) ?m) = Some ?t"
    "m_count (mutexes (bkern s1) ?m) = m_count (mutexes (bkern s) ?m) + 1"
    "t_owned_mutexes (threads (bkern s1) ?t) = t_owned_mutexes (threads (taken ?m (bkern s)) ?t)"
    using k t(2,4,6) by (simp_all add: handler_keeps_def held_def)
  have "0 \<le> m_count (mutexes (bkern s) ?m)" using free by (auto simp: can_take_def can_nest_def Let_def)
  then show ?thesis
  proof (cases "m_count (mutexes (bkern s) ?m) = 0")
    case True
    with f taken_owned [OF free] show ?thesis
      by (simp add: mutex_unlock_def Let_def mutex_unlock_internal_def)
  next
    case False
    with f \<open>0 \<le> m_count (mutexes (bkern s) ?m)\<close> show ?thesis by (simp add: mutex_unlock_def Let_def)
  qed
qed

text \<open>
  C36. button_send_event calls the handler of every hook once, in the order of the list, with its user
  pointer, and then releases the mutex. The assumptions on the handlers, which are code of any caller: as long
  as the state satisfies some invariant \<open>I\<close> of theirs, each of them returns, keeps \<open>I\<close>, and leaves the hooks, their
  list and the button mutex alone; the handlers neither block nor register or unregister hooks. They may
  signal wakeups, take and release other mutexes and use the heap.
\<close>
theorem button_send_event_calls_all:
  assumes l: "linked (hook_next s) (head_button_hook s) xs" and free: "can_take (button_mutex s) (bkern s)"
    and start: "I (held s)"
    and call: "\<And>h u s. I s \<Longrightarrow> call h u ev which value s = Some (Done (), f h u s) \<and> handler_keeps s (f h u s) \<and> I (f h u s)"
  shows "\<exists>r k. mutex_unlock (button_mutex s) (bkern (fold (\<lambda>x. f (h_handler (hooks s x)) (h_user (hooks s x))) xs (held s))) = Some (Ret r, k)
    \<and> button_send_event call ev which value s = Some (Done (), set_bkern k
      (fold (\<lambda>x. f (h_handler (hooks s x)) (h_user (hooks s x))) xs (held s)))"
proof -
  have send: "send_to call ev which value q s1 = Some (Done (), fold (\<lambda>x. f (h_handler (hooks s1 x)) (h_user (hooks s1 x))) ys s1)
      \<and> handler_keeps s1 (fold (\<lambda>x. f (h_handler (hooks s1 x)) (h_user (hooks s1 x))) ys s1)"
    if "linked (hook_next s1) q ys" "I s1" for q ys s1
    using that
  proof (induction ys arbitrary: q s1)
    case Nil
    then show ?case by (subst send_to.simps) simp
  next
    case (Cons y ys)
    let ?s2 = "f (h_handler (hooks s1 y)) (h_user (hooks s1 y)) s1"
    have c: "call (h_handler (hooks s1 y)) (h_user (hooks s1 y)) ev which value s1 = Some (Done (), ?s2)"
      and s2: "handler_keeps s1 ?s2" "I ?s2" using call [OF Cons.prems(2)] by blast+
    then have hk: "hooks ?s2 = hooks s1" by (simp add: handler_keeps_def)
    then have nx: "hook_next ?s2 = hook_next s1" by (simp add: hook_next_def fun_eq_iff)
    with Cons.prems have "linked (hook_next ?s2) (hook_next ?s2 y) ys" by auto
    from Cons.IH [OF this s2(2)] have ih: "send_to call ev which value (hook_next ?s2 y) ?s2
        = Some (Done (), fold (\<lambda>x. f (h_handler (hooks s1 x)) (h_user (hooks s1 x))) ys ?s2)"
      "handler_keeps ?s2 (fold (\<lambda>x. f (h_handler (hooks s1 x)) (h_user (hooks s1 x))) ys ?s2)" unfolding hk by blast+
    have "q = Some y" using Cons.prems by simp
    then show ?case using c ih handler_keeps_trans [OF s2(1) ih(2)] by (subst send_to.simps) simp
  qed
  let ?s1 = "fold (\<lambda>x. f (h_handler (hooks s x)) (h_user (hooks s x))) xs (held s)"
  have "linked (hook_next (held s)) (head_button_hook (held s)) xs" using l by (simp add: held_def)
  from send [OF this start] have r: "send_to call ev which value (head_button_hook (held s)) (held s) = Some (Done (), ?s1)"
    "handler_keeps (held s) ?s1" by (simp_all add: held_def)
  from unlock_after_handlers [OF free r(2)] obtain x k where u: "mutex_unlock (button_mutex s) (bkern ?s1) = Some (Ret x, k)" by blast
  have lock: "mutex_lock (button_mutex s) TIMEOUT_BLOCK (bkern s) = Some (Ret THREAD_OK, taken (button_mutex s) (bkern s))"
    by (rule taken(1) [OF free])
  have "button_send_event call ev which value s = Some (Done (), set_bkern k ?s1)"
    using lock r(1) u by (simp add: button_send_event_def with_mutex_def held_def)
  with u show ?thesis by blast
qed

section \<open>Witnesses\<close>

definition sample_buttons :: "tlsf \<Rightarrow> button_state" where
  "sample_buttons h = \<lparr>bheap = (sample_ctl, h),
     hooks = (\<lambda>_. \<lparr>h_next = None, h_owner = 2, h_handler = 8, h_user = 0\<rparr>),
     head_button_hook = Some 7272, button_mutex = 101\<rparr>"

lemma sample_buttons:
  obtains h where "hooks_ok 256 7264 12280 {(7272, 100)} [7272] (sample_buttons h)"
    "can_take (button_mutex (sample_buttons h)) (bkern (sample_buttons h))"
proof -
  from sample_used obtain h where h: "heap_ok 256 7264 12280 [(7264, 100, False), (7368, 4908, True)] h" by auto
  have "blocks_out [(7264, 100, False), (7368, 4908, True)] = {(7272::nat, 100)}" by (auto simp: blocks_out_def live_def)
  then have "heap_inv 256 7264 12280 {(7272, 100)} h" using h unfolding heap_inv_def by blast
  then have "hooks_ok 256 7264 12280 {(7272, 100)} [7272] (sample_buttons h)"
    using sample_may_lock may_lock_lockable [OF sample_may_lock]
    by (simp add: hooks_ok_def hooks_in_def sample_buttons_def hook_next_def)
  moreover have "can_take (button_mutex (sample_buttons h)) (bkern (sample_buttons h))"
    by (simp add: sample_buttons_def bkern_def sample_ctl_def kernel0_def can_take_def can_nest_def INT_MAX_def Let_def)
  ultimately show ?thesis by (rule that)
qed

theorem button_unregister_only_head_witness:
  "\<exists>h s'. button_unregister_handler (Some 7272) (sample_buttons h) = Some (Done 0, s')
    \<and> hooks_ok 256 7264 12280 {} [] s'"
proof -
  from sample_buttons obtain h where h: "hooks_ok 256 7264 12280 {(7272, 100)} [7272] (sample_buttons h)"
    "can_take (button_mutex (sample_buttons h)) (bkern (sample_buttons h))" .
  have "blocks_but {7272} {(7272::nat, 100::nat)} = {}" by (auto simp: blocks_but_def)
  with button_unregister_only_head [OF h, of "Some 7272"] show ?thesis by (auto split: if_splits)
qed

theorem button_unregister_all_filters_witness:
  "\<exists>h s'. button_unregister_all_of_thread 2 (sample_buttons h) = Some (Done (), s')
    \<and> hooks_ok 256 7264 12280 {} [] s'"
proof -
  from sample_buttons obtain h where h: "hooks_ok 256 7264 12280 {(7272, 100)} [7272] (sample_buttons h)"
    "can_take (button_mutex (sample_buttons h)) (bkern (sample_buttons h))" .
  have "blocks_but {x \<in> set [7272]. h_owner (hooks (sample_buttons h) x) = 2} {(7272::nat, 100::nat)} = {}"
    by (auto simp: blocks_but_def sample_buttons_def)
  with button_unregister_all_filters [OF h, of 2] show ?thesis by (auto simp: sample_buttons_def)
qed

theorem button_register_adds_witness:
  "\<exists>h r s'. button_register_handler 8 0 (sample_buttons h) = Some (Done r, s')"
proof -
  from sample_buttons obtain h where h: "hooks_ok 256 7264 12280 {(7272, 100)} [7272] (sample_buttons h)"
    "can_take (button_mutex (sample_buttons h)) (bkern (sample_buttons h))" .
  from button_register_adds [OF h, of 8 0] show ?thesis by blast
qed

text \<open>
  Two hooks, and handlers that signal the wakeup their user pointer names and record their number: hook
  7272 with handler 8 is called before hook 7400 with handler 9.
\<close>

definition two_hooks :: button_state where
  "two_hooks = (sample_buttons sample_pool)\<lparr>hooks := (\<lambda>x. if x = 7272
     then \<lparr>h_next = Some 7400, h_owner = 2, h_handler = 8, h_user = 40\<rparr>
     else \<lparr>h_next = None, h_owner = 2, h_handler = 9, h_user = 41\<rparr>)\<rparr>"

definition record_call :: "u32 \<Rightarrow> button_state \<Rightarrow> button_state" where
  "record_call h s = set_bkern ((bkern s)\<lparr>last_tick := 10 * last_tick (bkern s) + h\<rparr>) s"

definition signalling :: "u32 \<Rightarrow> u32 \<Rightarrow> button_event \<Rightarrow> int \<Rightarrow> int \<Rightarrow> button_state \<Rightarrow> (unit answer \<times> button_state) option" where
  "signalling h u ev which value s = do {
     (r, k) \<leftarrow> wakeup_signal u (bkern s);
     Some (Done (), record_call h (set_bkern k s)) }"

definition signalled :: "u32 \<Rightarrow> u32 \<Rightarrow> button_state \<Rightarrow> button_state" where
  "signalled h u s = record_call h (set_bkern (upd_wakeup u (\<lambda>r. r\<lparr>w_signalled := True\<rparr>) (bkern s)) s)"

definition nobody_waits :: "button_state \<Rightarrow> bool" where
  "nobody_waits s \<longleftrightarrow> (\<forall>w. w_waiter (wakeups (bkern s) w) = None)"

lemma signalling_ok:
  assumes "nobody_waits s"
  shows "signalling h u ev which value s = Some (Done (), signalled h u s) \<and> handler_keeps s (signalled h u s)
    \<and> nobody_waits (signalled h u s)"
  using assms
  by (simp add: nobody_waits_def signalling_def signalled_def record_call_def wakeup_signal_def handler_keeps_def)

lemma mutex_unlock_frame:
  assumes "mutex_unlock m s = Some (Ret r, k)"
  shows "last_tick k = last_tick s" "wakeups k = wakeups s"
proof -
  have h: "last_tick (mutex_hand_over m x) = last_tick x \<and> wakeups (mutex_hand_over m x) = wakeups x" for x
    by (auto simp: mutex_hand_over_def make_ready_def Let_def split: option.splits)
  have u: "last_tick y = last_tick x \<and> wakeups y = wakeups x"
    if "unlink_loop owned_next set_owned_next m p x = Some y" for p x y
    using that by (rule unlink_loop_invariant) (simp_all add: set_owned_next_def)
  have i: "last_tick y = last_tick x \<and> wakeups y = wakeups x" if "mutex_unlock_internal m x = Some y" for x y
    using that u h by (fastforce simp: mutex_unlock_internal_def split: bind_splits option.splits if_splits)
  have "last_tick k = last_tick s \<and> wakeups k = wakeups s"
    using assms i [of "upd_mutex m (\<lambda>r. r\<lparr>m_count := m_count r - 1\<rparr>) s" k]
    by (auto simp: mutex_unlock_def panics_def Let_def split: if_splits bind_splits)
  then show "last_tick k = last_tick s" "wakeups k = wakeups s" by auto
qed

theorem button_send_event_calls_all_witness:
  "\<exists>s'. button_send_event signalling BUTTON_PRESS 1 1 two_hooks = Some (Done (), s')
    \<and> last_tick (bkern s') = 89 \<and> w_signalled (wakeups (bkern s') 40) \<and> w_signalled (wakeups (bkern s') 41)"
proof -
  have l: "linked (hook_next two_hooks) (head_button_hook two_hooks) [7272, 7400]"
    by (simp add: hook_next_def two_hooks_def sample_buttons_def)
  have t: "can_take (button_mutex two_hooks) (bkern two_hooks)"
    by (simp add: two_hooks_def sample_buttons_def bkern_def sample_ctl_def kernel0_def can_take_def can_nest_def INT_MAX_def Let_def)
  have n: "nobody_waits (held two_hooks)" and z: "last_tick (bkern (held two_hooks)) = 0"
    by (simp_all add: nobody_waits_def held_def two_hooks_def sample_buttons_def bkern_def sample_ctl_def kernel0_def
        taken_def mutex_lock_def Let_def)
  have f: "h_handler (hooks two_hooks 7272) = 8" "h_user (hooks two_hooks 7272) = 40"
    "h_handler (hooks two_hooks 7400) = 9" "h_user (hooks two_hooks 7400) = 41" by (simp_all add: two_hooks_def)
  let ?s = "signalled 9 41 (signalled 8 40 (held two_hooks))"
  from button_send_event_calls_all [where f = signalled and I = nobody_waits, OF l t n signalling_ok] obtain r k where
    k: "mutex_unlock (button_mutex two_hooks) (bkern ?s) = Some (Ret r, k)"
      "button_send_event signalling BUTTON_PRESS 1 1 two_hooks = Some (Done (), set_bkern k ?s)"
    by (fastforce simp: f)
  from mutex_unlock_frame [OF k(1)] z have "last_tick k = 89" "w_signalled (wakeups k 40)" "w_signalled (wakeups k 41)"
    by (simp_all add: signalled_def record_call_def)
  with k(2) show ?thesis by auto
qed

end
