(* ===== verification/Loops.thy ===== *)
theory Loops
  imports Critical
begin

text \<open>
  Loops of C inside code that may wait or panic. A turn of a loop goes on with a new value of
  the loop's variables, or leaves the loop (\<open>break\<close>, or \<open>return\<close> out of the loop).
\<close>

datatype ('x, 'r) turn = Go 'x | Leave 'r

primrec for_each :: "'i list \<Rightarrow> ('i \<Rightarrow> 'x \<Rightarrow> 's \<Rightarrow> (('x, 'r) turn answer \<times> 's) option) \<Rightarrow> 'x
    \<Rightarrow> 's \<Rightarrow> (('x, 'r) turn answer \<times> 's) option" where
  "for_each [] body x = finish (Go x)"
| "for_each (i # is) body x = andthen (body i x)
     (\<lambda>t. case t of Go x \<Rightarrow> for_each is body x | Leave r \<Rightarrow> finish (Leave r))"

text \<open>What follows a loop that a \<open>return\<close> may have left.\<close>

definition unless_left :: "('s \<Rightarrow> (('x, 'r) turn answer \<times> 's) option) \<Rightarrow> ('x \<Rightarrow> 's \<Rightarrow> ('r answer \<times> 's) option)
    \<Rightarrow> 's \<Rightarrow> ('r answer \<times> 's) option" where
  "unless_left loop rest = andthen loop (\<lambda>t. case t of Go x \<Rightarrow> rest x | Leave r \<Rightarrow> finish r)"

text \<open>A loop with no bound of its own, until a turn leaves it.\<close>

partial_function (option) forever :: "('x \<Rightarrow> 's \<Rightarrow> (('x, 'r) turn answer \<times> 's) option) \<Rightarrow> 'x
    \<Rightarrow> 's \<Rightarrow> ('r answer \<times> 's) option" where
  "forever body x s = (case body x s of
      None \<Rightarrow> None
    | Some (a, s) \<Rightarrow> (case a of
          Done t \<Rightarrow> (case t of Go x \<Rightarrow> forever body x s | Leave r \<Rightarrow> Some (Done r, s))
        | Waits \<Rightarrow> Some (Waits, s)
        | Panicked \<Rightarrow> Some (Panicked, s)))"

declare forever.simps [code]

definition modify :: "('s \<Rightarrow> 's) \<Rightarrow> 's \<Rightarrow> (unit answer \<times> 's) option" where
  "modify f s = Some (Done (), f s)"

text \<open>Execution goes on only if the condition holds.\<close>

definition require :: "('s \<Rightarrow> bool) \<Rightarrow> 's \<Rightarrow> (unit answer \<times> 's) option" where
  "require P s = (if P s then Some (Done (), s) else None)"

lemma andthen_modify [simp]: "andthen (modify f) g s = g () (f s)"
  by (simp add: andthen_def modify_def)

lemma andthen_finish [simp]: "andthen (finish x) g s = g x s"
  by (simp add: andthen_def finish_def)

lemma andthen_require [simp]: "andthen (require P) g s = (if P s then g () s else None)"
  by (simp add: andthen_def require_def)

lemma andthen_assoc: "andthen (andthen f g) h s = andthen f (\<lambda>x. andthen (g x) h) s"
  by (auto simp: andthen_def split: bind_splits answer.splits)

lemma unless_left_Go: "loop s = Some (Done (Go x), s') \<Longrightarrow> unless_left loop rest s = rest x s'"
  by (simp add: unless_left_def)

lemma unless_left_Leave: "loop s = Some (Done (Leave r), s') \<Longrightarrow> unless_left loop rest s = Some (Done r, s')"
  by (simp add: unless_left_def finish_def)

section \<open>Rules\<close>

text \<open>A loop of which every turn goes on runs through, and keeps what every turn keeps.\<close>

lemma for_each_runs:
  assumes "P 0 x s"
    and "\<And>n x s. n < length is \<Longrightarrow> P n x s \<Longrightarrow> \<exists>x' s'. body (is ! n) x s = Some (Done (Go x'), s') \<and> P (Suc n) x' s'"
  shows "\<exists>x' s'. for_each is body x s = Some (Done (Go x'), s') \<and> P (length is) x' s'"
  using assms
proof (induction "is" arbitrary: P x s)
  case Nil
  then show ?case by (simp add: finish_def)
next
  case (Cons i "is")
  from Cons.prems(2) [of 0 x s] Cons.prems(1) obtain x1 s1 where
    b: "body i x s = Some (Done (Go x1), s1)" "P (Suc 0) x1 s1" by auto
  have "\<exists>x' s'. for_each is body x1 s1 = Some (Done (Go x'), s') \<and> P (Suc (length is)) x' s'"
  proof (rule Cons.IH [of "\<lambda>n. P (Suc n)"])
    show "P (Suc 0) x1 s1" by (rule b(2))
    show "\<exists>x' s'. body (is ! n) x s = Some (Done (Go x'), s') \<and> P (Suc (Suc n)) x' s'"
      if "n < length is" "P (Suc n) x s" for n x s using Cons.prems(2) [of "Suc n" x s] that by auto
  qed
  with b show ?case by auto
qed

text \<open>A loop of which no turn does anything.\<close>

lemma for_each_skips:
  "(\<And>i. i \<in> set is \<Longrightarrow> body i x s = Some (Done (Go x), s)) \<Longrightarrow> for_each is body x s = Some (Done (Go x), s)"
  by (induction "is") (simp_all add: finish_def)

section \<open>Total correctness\<close>

text \<open>A run ends, neither waiting nor in a panic, with a result and a state that satisfy \<open>Q\<close>.\<close>

definition ends :: "('a answer \<times> 's) option \<Rightarrow> ('a \<Rightarrow> 's \<Rightarrow> bool) \<Rightarrow> bool" where
  "ends r Q \<longleftrightarrow> (\<exists>x s'. r = Some (Done x, s') \<and> Q x s')"

lemma ends_Some [simp]: "ends (Some (Done x, s)) Q \<longleftrightarrow> Q x s"
  by (simp add: ends_def)

lemma endsI: "r = Some (Done x, s') \<Longrightarrow> Q x s' \<Longrightarrow> ends r Q"
  by simp

lemma endsE:
  assumes "ends r Q"
  obtains x s' where "r = Some (Done x, s')" "Q x s'"
  using assms by (auto simp: ends_def)

lemma ends_weaken: "ends r Q \<Longrightarrow> (\<And>x s'. Q x s' \<Longrightarrow> R x s') \<Longrightarrow> ends r R"
  unfolding ends_def by blast

lemma ends_finish [simp]: "ends (finish x s) Q \<longleftrightarrow> Q x s"
  by (simp add: finish_def)

lemma ends_modify [simp]: "ends (modify f s) Q \<longleftrightarrow> Q () (f s)"
  by (simp add: modify_def)

lemma ends_andthen: "ends (andthen f g s) Q \<longleftrightarrow> ends (f s) (\<lambda>x s'. ends (g x s') Q)"
proof
  assume "ends (andthen f g s) Q"
  then show "ends (f s) (\<lambda>x s'. ends (g x s') Q)"
    by (auto simp: ends_def andthen_def split: bind_splits answer.splits)
next
  assume "ends (f s) (\<lambda>x s'. ends (g x s') Q)"
  then show "ends (andthen f g s) Q" by (auto simp: ends_def)
qed

text \<open>Of a call only its specification is used.\<close>

lemma ends_seq: "ends (f s) P \<Longrightarrow> (\<And>x s'. P x s' \<Longrightarrow> ends (g x s') Q) \<Longrightarrow> ends (andthen f g s) Q"
  unfolding ends_andthen by (rule ends_weaken)

lemma ends_go: "r = Some (Done (Go x), s') \<Longrightarrow> P x s' \<Longrightarrow> ends r (\<lambda>t s'. \<exists>x'. t = Go x' \<and> P x' s')"
  by simp

lemma ends_for_each:
  assumes "P 0 x s"
    and "\<And>n x s. n < length is \<Longrightarrow> P n x s \<Longrightarrow> ends (body (is ! n) x s) (\<lambda>t s'. \<exists>x'. t = Go x' \<and> P (Suc n) x' s')"
  shows "ends (for_each is body x s) (\<lambda>t s'. \<exists>x'. t = Go x' \<and> P (length is) x' s')"
proof -
  have "\<exists>x' s'. for_each is body x s = Some (Done (Go x'), s') \<and> P (length is) x' s'"
  proof (rule for_each_runs [where P = P])
    show "P 0 x s" by (rule assms(1))
    fix n x s assume "n < length is" "P n x s"
    from assms(2) [OF this] show "\<exists>x' s'. body (is ! n) x s = Some (Done (Go x'), s') \<and> P (Suc n) x' s'"
      by (auto simp: ends_def)
  qed
  then show ?thesis by (auto simp: ends_def)
qed

lemma ends_unless_left:
  "ends (loop s) (\<lambda>t s'. \<exists>x. t = Go x \<and> ends (rest x s') Q) \<Longrightarrow> ends (unless_left loop rest s) Q"
  unfolding unless_left_def ends_andthen by (erule ends_weaken) auto

text \<open>A loop to its end, and what follows it.\<close>

lemma ends_loop:
  assumes "P 0 x s"
    and "\<And>n x s. n < length is \<Longrightarrow> P n x s \<Longrightarrow> ends (body (is ! n) x s) (\<lambda>t s'. \<exists>x'. t = Go x' \<and> P (Suc n) x' s')"
    and "\<And>x s. P (length is) x s \<Longrightarrow> ends (rest x s) Q"
  shows "ends (unless_left (for_each is body x) rest s) Q"
  by (rule ends_unless_left, rule ends_weaken [OF ends_for_each [OF assms(1,2)]]) (auto intro: assms(3))

text \<open>A loop that a measure bounds.\<close>

lemma ends_forever:
  assumes "P x s"
    and "\<And>x s. P x s \<Longrightarrow> ends (body x s) (\<lambda>t s'. case t of Leave r \<Rightarrow> Q r s' | Go x' \<Rightarrow> P x' s' \<and> m x' s' < (m x s :: nat))"
  shows "ends (forever body x s) Q"
  using assms(1)
proof (induction "m x s" arbitrary: x s rule: less_induct)
  case less
  from assms(2) [OF less.prems] obtain t s' where t: "body x s = Some (Done t, s')"
    "case t of Leave r \<Rightarrow> Q r s' | Go x' \<Rightarrow> P x' s' \<and> m x' s' < m x s" by (rule endsE)
  show ?case
  proof (cases t)
    case (Leave r)
    with t show ?thesis by (intro endsI [of _ r s']) (subst forever.simps, simp_all)
  next
    case (Go x')
    with t(2) have "m x' s' < m x s" "P x' s'" by simp_all
    from less.hyps [OF this] obtain y s'' where "forever body x' s' = Some (Done y, s'')" "Q y s''" by (rule endsE)
    with t Go show ?thesis by (intro endsI [of _ y s'']) (subst forever.simps, simp_all)
  qed
qed

text \<open>A critical section.\<close>

lemma ends_with_mutex:
  assumes "can_take m (get s)"
    and "ends (body (put (taken m (get s)) s))
      (\<lambda>x s1. kernel_same (taken m (get s)) (get s1) \<and> (\<forall>k. kernel_same (get s) k \<longrightarrow> Q x (put k s1)))"
  shows "ends (with_mutex get put m body s) Q"
proof -
  from assms(2) obtain x s1 where "body (put (taken m (get s)) s) = Some (Done x, s1)"
    and s1: "kernel_same (taken m (get s)) (get s1)" "\<forall>k. kernel_same (get s) k \<longrightarrow> Q x (put k s1)" by (rule endsE) blast
  from with_mutex_runs [of m get s body put x s1, OF assms(1) this(1,2)] obtain k where
    "with_mutex get put m body s = Some (Done x, put k s1)" "kernel_same (get s) k" by blast
  with s1(2) show ?thesis by simp
qed

end
