(* ===== verification/FtlVfl.thy ===== *)
theory FtlVfl
  imports Loops
begin

text \<open>
  The flash translation layer of the iPod Nano 2G (emcore/target/ipodnano2g/ftl.c): its data, and the
  VFL, the lower half that maps virtual to physical blocks of each bank and survives bad blocks.

  Numbers are natural numbers; where a sum or a difference may leave the width of its C type, the
  wrap-around is written out. A page is its 1024 half words. The NAND driver, whose code
  drives registers, DMA and the ECC unit, is a parameter: one function for each entry point of
  nand.h, on a state of its own. \<open>panicf(PANIC_KILLTHREAD, ...)\<close> does not return; the code of ftl.c that
  stands behind such a call is not reached and is not in the model.
\<close>

section \<open>Data\<close>

type_synonym page = "nat list"

abbreviation u16_mod :: "nat \<Rightarrow> nat" where "u16_mod n \<equiv> n mod 65536"
abbreviation u32_mod :: "nat \<Rightarrow> nat" where "u32_mod n \<equiv> n mod 4294967296"

text \<open>
  The first 12 bytes of the spare area of a page; \<open>sp_word0\<close> is \<open>user.lpn\<close> and \<open>meta.usn\<close>, \<open>sp_word1\<close> is
  \<open>user.usn\<close>, whose low half is \<open>meta.idx\<close>. The rest of the area belongs to the ECC unit.
\<close>

record ftl_spare_data_type =
  sp_word0 :: nat
  sp_word1 :: nat
  sp_field_8 :: nat
  sp_type :: nat
  sp_eccmark :: nat

definition spare_ff :: ftl_spare_data_type where
  "spare_ff = \<lparr>sp_word0 = 0xFFFFFFFF, sp_word1 = 0xFFFFFFFF, sp_field_8 = 0xFF, sp_type = 0xFF, sp_eccmark = 0xFF\<rparr>"

definition set_idx :: "nat \<Rightarrow> ftl_spare_data_type \<Rightarrow> ftl_spare_data_type" where
  "set_idx i sp = sp\<lparr>sp_word1 := sp_word1 sp div 65536 * 65536 + u16_mod i\<rparr>"

definition get_idx :: "ftl_spare_data_type \<Rightarrow> nat" where
  "get_idx sp = u16_mod (sp_word1 sp)"

record ftl_log_type =
  l_usn :: nat
  scatteredvblock :: nat
  logicalvblock :: nat
  pageoffsets :: "nat \<Rightarrow> nat"
  pagesused :: nat
  pagescurrent :: nat
  issequential :: nat

record ftl_cxt_type =
  c_usn :: nat
  nextblockusn :: nat
  freecount :: nat
  nextfreeidx :: nat
  swapcounter :: nat
  blockpool :: "nat \<Rightarrow> nat"
  field_36 :: nat
  ftl_map_pages :: "nat \<Rightarrow> nat"
  field_58 :: "nat list"
  ftl_erasectr_pages :: "nat \<Rightarrow> nat"
  field_A0 :: "nat list"
  whimory_ptrs :: "nat list"
  erasedirty :: nat
  field_120 :: nat
  ftlctrlblocks :: "nat \<Rightarrow> nat"
  ftlctrlpage :: nat
  clean_flag :: nat
  field_130 :: "nat list"

record ftl_vfl_cxt_type =
  v_usn :: nat
  v_ftlctrlblocks :: "nat \<Rightarrow> nat"
  field_A :: nat
  updatecount :: nat
  activecxtblock :: nat
  nextcxtpage :: nat
  field_14 :: "nat list"
  field_18 :: nat
  spareused :: nat
  firstspare :: nat
  sparecount :: nat
  remaptable :: "nat \<Rightarrow> nat"
  bbt :: "nat \<Rightarrow> nat"
  vflcxtblocks :: "nat \<Rightarrow> nat"
  scheduledstart :: nat
  field_7AC :: "nat list"
  checksum1 :: nat
  checksum2 :: nat

record ftl_trouble_type =
  t_block :: nat
  t_bank :: nat
  t_errors :: nat

record nand_device_info_type =
  dev_blocks :: nat
  dev_userblocks :: nat
  dev_pagesperblock :: nat
  dev_blocksizeexponent :: nat

text \<open>
  The driver (nand.h). A read is given the old contents of its buffers, since it need not write to
  them, and returns the new ones. All accesses use ECC.
\<close>

record 'n nand_driver =
  nand_read_page :: "nat \<Rightarrow> nat \<Rightarrow> page \<Rightarrow> ftl_spare_data_type \<Rightarrow> bool \<Rightarrow> 'n \<Rightarrow> (nat \<times> page \<times> ftl_spare_data_type) \<times> 'n"
  nand_read_page_fast :: "nat \<Rightarrow> (nat \<Rightarrow> page) \<Rightarrow> (nat \<Rightarrow> ftl_spare_data_type) \<Rightarrow> bool \<Rightarrow> 'n
    \<Rightarrow> (nat \<times> (nat \<Rightarrow> page) \<times> (nat \<Rightarrow> ftl_spare_data_type)) \<times> 'n"
  nand_write_page :: "nat \<Rightarrow> nat \<Rightarrow> page \<Rightarrow> ftl_spare_data_type \<Rightarrow> 'n \<Rightarrow> nat \<times> 'n"
  nand_write_page_start :: "nat \<Rightarrow> nat \<Rightarrow> page \<Rightarrow> ftl_spare_data_type \<Rightarrow> 'n \<Rightarrow> nat \<times> 'n"
  nand_write_page_collect :: "nat \<Rightarrow> 'n \<Rightarrow> nat \<times> 'n"
  nand_block_erase :: "nat \<Rightarrow> nat \<Rightarrow> 'n \<Rightarrow> nat \<times> 'n"
  nand_reset :: "nat \<Rightarrow> 'n \<Rightarrow> nat \<times> 'n"

record 'n ftl =
  fkern :: kstate
  ftl_mtx :: mid
  ftl_initialized :: bool
  nand :: 'n
  ftl_nand_type :: nand_device_info_type
  ftl_banks :: nat
  ftl_banks_exponent :: nat
  ppb :: nat
  ppb_exponent :: nat
  syshyperblocks :: nat
  ftl_map :: "nat \<Rightarrow> nat"
  ftl_erasectr :: "nat \<Rightarrow> nat"
  ftl_erasectr_dirt :: "nat \<Rightarrow> nat"
  ftl_vfl_cxt :: "nat \<Rightarrow> ftl_vfl_cxt_type"
  ftl_vfl_usn :: nat
  ftl_cxt :: ftl_cxt_type
  behind_cxt :: "nat list"
  ftl_bbt :: "nat \<Rightarrow> nat \<Rightarrow> nat"
  ftl_log :: "nat \<Rightarrow> ftl_log_type"
  ftl_troublelog :: "nat \<Rightarrow> ftl_trouble_type"
  ftl_buffer :: page
  ftl_sparebuffer :: "nat \<Rightarrow> ftl_spare_data_type"
  ftl_copybuffer :: "nat \<Rightarrow> page"
  ftl_copyspare :: "nat \<Rightarrow> ftl_spare_data_type"

type_synonym ('n, 'a) ftl_op = "'n ftl \<Rightarrow> ('a answer \<times> 'n ftl) option"

abbreviation blocks :: "'n ftl \<Rightarrow> nat" where "blocks s \<equiv> dev_blocks (ftl_nand_type s)"
abbreviation userblocks :: "'n ftl \<Rightarrow> nat" where "userblocks s \<equiv> dev_userblocks (ftl_nand_type s)"
abbreviation pagesperblock :: "'n ftl \<Rightarrow> nat" where "pagesperblock s \<equiv> dev_pagesperblock (ftl_nand_type s)"

definition upd_vfl :: "nat \<Rightarrow> (ftl_vfl_cxt_type \<Rightarrow> ftl_vfl_cxt_type) \<Rightarrow> 'n ftl \<Rightarrow> 'n ftl" where
  "upd_vfl bank f s = s\<lparr>ftl_vfl_cxt := (ftl_vfl_cxt s)(bank := f (ftl_vfl_cxt s bank))\<rparr>"

definition upd_cxt :: "(ftl_cxt_type \<Rightarrow> ftl_cxt_type) \<Rightarrow> 'n ftl \<Rightarrow> 'n ftl" where
  "upd_cxt f s = s\<lparr>ftl_cxt := f (ftl_cxt s)\<rparr>"

definition upd_log :: "nat \<Rightarrow> (ftl_log_type \<Rightarrow> ftl_log_type) \<Rightarrow> 'n ftl \<Rightarrow> 'n ftl" where
  "upd_log e f s = s\<lparr>ftl_log := (ftl_log s)(e := f (ftl_log s e))\<rparr>"

definition set_spare :: "nat \<Rightarrow> ftl_spare_data_type \<Rightarrow> 'n ftl \<Rightarrow> 'n ftl" where
  "set_spare i sp s = s\<lparr>ftl_sparebuffer := (ftl_sparebuffer s)(i := sp)\<rparr>"

section \<open>The driver's functions on the state\<close>

definition chip :: "('n \<Rightarrow> 'a \<times> 'n) \<Rightarrow> ('n, 'a) ftl_op" where
  "chip f s = (let (x, n) = f (nand s) in Some (Done x, s\<lparr>nand := n\<rparr>))"

text \<open>A read into \<open>ftl_buffer\<close> and the first entry of \<open>ftl_sparebuffer\<close>.\<close>

definition put_page :: "nat \<times> page \<times> ftl_spare_data_type \<Rightarrow> ('n, nat) ftl_op" where
  "put_page r s = (let (rc, buf, sp) = r in Some (Done rc, set_spare 0 sp (s\<lparr>ftl_buffer := buf\<rparr>)))"

definition nand_read :: "'n nand_driver \<Rightarrow> nat \<Rightarrow> nat \<Rightarrow> bool \<Rightarrow> ('n, nat) ftl_op" where
  "nand_read dev bank page checkempty s =
     andthen (chip (nand_read_page dev bank page (ftl_buffer s) (ftl_sparebuffer s 0) checkempty)) put_page s"

text \<open>\<open>panicf(PANIC_KILLTHREAD, ...)\<close>, alone and after \<open>ftl_initialized = false\<close>.\<close>

definition kill_thread :: "('n, 'a) ftl_op" where
  "kill_thread s = do { (r, k) \<leftarrow> panics (fkern s); Some (Panicked, s\<lparr>fkern := k\<rparr>) }"

definition give_up :: "('n, 'a) ftl_op" where
  "give_up s = kill_thread (s\<lparr>ftl_initialized := False\<rparr>)"

section \<open>The VFL context\<close>

text \<open>The context as the half words of the page that it is written to.\<close>

definition halves :: "nat \<Rightarrow> nat list" where
  "halves n = [u16_mod n, u16_mod (n div 65536)]"

definition vfl_words :: "ftl_vfl_cxt_type \<Rightarrow> page" where
  "vfl_words c = halves (v_usn c) @ map (v_ftlctrlblocks c) [0..<3] @ [field_A c] @ halves (updatecount c)
     @ [activecxtblock c, nextcxtpage c] @ field_14 c @ [field_18 c, spareused c, firstspare c, sparecount c]
     @ map (remaptable c) [0..<0x334] @ map (\<lambda>i. bbt c (2 * i) + 256 * bbt c (2 * i + 1)) [0..<0x8D]
     @ map (vflcxtblocks c) [0..<4] @ [scheduledstart c] @ field_7AC c @ halves (checksum1 c) @ halves (checksum2 c)"

definition word_at :: "page \<Rightarrow> nat \<Rightarrow> nat" where
  "word_at p i = p ! (2 * i) + 65536 * p ! (2 * i + 1)"

definition ftl_vfl_calculate_checksum :: "ftl_vfl_cxt_type \<Rightarrow> nat \<times> nat" where
  "ftl_vfl_calculate_checksum c =
     fold (\<lambda>i (c1, c2). (u32_mod (c1 + word_at (vfl_words c) i), c2 XOR word_at (vfl_words c) i)) [0..<0x1FE]
       (0xAABBCCDD, 0xAABBCCDD)"

definition ftl_vfl_verify_checksum :: "ftl_vfl_cxt_type \<Rightarrow> nat" where
  "ftl_vfl_verify_checksum c = (let (c1, c2) = ftl_vfl_calculate_checksum c in
     if c1 = checksum1 c then 0
     else if c2 \<noteq> checksum2 c then 0
     else 1)"

definition ftl_vfl_update_checksum :: "ftl_vfl_cxt_type \<Rightarrow> ftl_vfl_cxt_type" where
  "ftl_vfl_update_checksum c = (let (c1, c2) = ftl_vfl_calculate_checksum c in c\<lparr>checksum1 := c1, checksum2 := c2\<rparr>)"

definition cxt_page :: "nat \<Rightarrow> nat \<Rightarrow> 'n ftl \<Rightarrow> nat" where
  "cxt_page bank i s = (let c = ftl_vfl_cxt s bank in
     u32_mod (vflcxtblocks c (activecxtblock c) * pagesperblock s + nextcxtpage c + 2 ^ 32 - i))"

definition cxt_page_good :: "nat \<Rightarrow> nat \<Rightarrow> 'n ftl \<Rightarrow> bool" where
  "cxt_page_good bank rc s = (let c = ftl_vfl_cxt s bank; sp = ftl_sparebuffer s 0 in
     rc AND 0x11F = 0 \<and> take 0x3D6 (ftl_buffer s) = take 0x3D6 (vfl_words c)
     \<and> sp_word0 sp = updatecount c \<and> sp_field_8 sp = 0 \<and> sp_type sp = 0x80)"

definition ftl_vfl_store_cxt :: "'n nand_driver \<Rightarrow> nat \<Rightarrow> ('n, nat) ftl_op" where
  "ftl_vfl_store_cxt dev bank =
     andthen (modify (\<lambda>s.
       let usn = u32_mod (ftl_vfl_usn s + 1);
           s = upd_vfl bank (\<lambda>c. ftl_vfl_update_checksum (c\<lparr>
                 updatecount := u32_mod (updatecount c + 0xFFFFFFFF),
                 v_usn := usn,
                 nextcxtpage := u16_mod (nextcxtpage c + 8)\<rparr>)) (s\<lparr>ftl_vfl_usn := usn\<rparr>) in
       set_spare 0 (spare_ff\<lparr>sp_word0 := updatecount (ftl_vfl_cxt s bank), sp_field_8 := 0, sp_type := 0x80\<rparr>) s))
     (\<lambda>_. andthen (require (\<lambda>s. activecxtblock (ftl_vfl_cxt s bank) < 4))
     (\<lambda>_. unless_left
       (for_each [1..<9] (\<lambda>i _ s. andthen
          (chip (nand_write_page dev bank (cxt_page bank i s) (vfl_words (ftl_vfl_cxt s bank)) (ftl_sparebuffer s 0)))
          (\<lambda>_. finish (Go ())) s) ())
     (\<lambda>_. unless_left
       (for_each [1..<9] (\<lambda>i good s. andthen (nand_read dev bank (cxt_page bank i s) False)
          (\<lambda>rc s. finish (Go (if cxt_page_good bank rc s then good + 1 else good)) s) s) (0 :: nat))
     (\<lambda>good. finish (if good > 3 then 0 else 1)))))"

definition erase_cxt_block :: "'n nand_driver \<Rightarrow> nat \<Rightarrow> nat \<Rightarrow> ('n, (unit, unit) turn) ftl_op" where
  "erase_cxt_block dev bank i = for_each [0..<4] (\<lambda>j _ s. andthen
     (chip (nand_block_erase dev bank (u32_mod (vflcxtblocks (ftl_vfl_cxt s bank) i * pagesperblock s))))
     (\<lambda>rc. finish (if rc = 0 then Leave () else Go ())) s) ()"

definition ftl_vfl_commit_cxt :: "'n nand_driver \<Rightarrow> nat \<Rightarrow> ('n, nat) ftl_op" where
  "ftl_vfl_commit_cxt dev bank s =
     andthen
       (if nextcxtpage (ftl_vfl_cxt s bank) + 8 \<le> pagesperblock s then ftl_vfl_store_cxt dev bank else finish 1)
     (\<lambda>rc s. if rc = 0 then finish 0 s else
       let current = activecxtblock (ftl_vfl_cxt s bank) in
       andthen (forever (\<lambda>i s.
         let i = (i + 1) mod 4 in
         if i = current then finish (Leave (1 :: nat)) s
         else if vflcxtblocks (ftl_vfl_cxt s bank) i = 0xFFFF then finish (Go i) s
         else andthen (erase_cxt_block dev bank i) (\<lambda>t. case t of
             Go _ \<Rightarrow> finish (Go i)
           | Leave _ \<Rightarrow> andthen (modify (upd_vfl bank (\<lambda>c. c\<lparr>activecxtblock := i, nextcxtpage := 0\<rparr>)))
               (\<lambda>_. andthen (ftl_vfl_store_cxt dev bank)
               (\<lambda>rc. finish (if rc = 0 then Leave 0 else Go i)))) s) current)
       (\<lambda>rc. if rc = 0 then finish 0 else give_up) s) s"

section \<open>Bad blocks and remapping\<close>

definition ftl_vfl_is_good_block :: "nat \<Rightarrow> nat \<Rightarrow> 'n ftl \<Rightarrow> nat option" where
  "ftl_vfl_is_good_block bank block s = do {
     check (bank < 4 \<and> block div 64 < 0x11A);
     let bbtentry = bbt (ftl_vfl_cxt s bank) (block div 64);
     Some (if bbtentry AND 2 ^ ((7 + 2 ^ 32 - block div 8) mod 8) = 0 then 0 else 1) }"

definition ftl_vfl_set_good_block :: "nat \<Rightarrow> nat \<Rightarrow> nat \<Rightarrow> 'n ftl \<Rightarrow> 'n ftl" where
  "ftl_vfl_set_good_block bank block isgood = (let bit = 2 ^ ((7 + 2 ^ 32 - block div 8) mod 8) in
     upd_vfl bank (\<lambda>c. c\<lparr>bbt := (bbt c)(block div 64 :=
       (if isgood = 1 then bbt c (block div 64) OR bit else bbt c (block div 64) AND (0xff XOR bit)))\<rparr>))"

definition ftl_vfl_get_physical_block :: "nat \<Rightarrow> nat \<Rightarrow> 'n ftl \<Rightarrow> nat option" where
  "ftl_vfl_get_physical_block bank block s = do {
     good \<leftarrow> ftl_vfl_is_good_block bank block s;
     if good = 1 then Some block
     else
       let c = ftl_vfl_cxt s bank in
       (case find (\<lambda>i. 0x334 \<le> i \<or> remaptable c i = block) [0..<spareused c] of
          Some spareindex \<Rightarrow> do { check (spareindex < 0x334); Some (firstspare c + spareindex) }
        | None \<Rightarrow> Some block) }"

definition ftl_vfl_check_remap_scheduled :: "nat \<Rightarrow> nat \<Rightarrow> 'n ftl \<Rightarrow> nat" where
  "ftl_vfl_check_remap_scheduled bank block s = (let c = ftl_vfl_cxt s bank in
     if \<exists>i \<in> set [1..<0x334]. scheduledstart c < i \<and> remaptable c i = block then 1 else 0)"

definition ftl_vfl_schedule_block_for_remap :: "nat \<Rightarrow> nat \<Rightarrow> ('n, unit) ftl_op" where
  "ftl_vfl_schedule_block_for_remap bank block s =
     (if ftl_vfl_check_remap_scheduled bank block s = 1 then finish () s else give_up s)"

text \<open>\<open>ftl_vfl_remap_block\<close> panics first of all.\<close>

definition ftl_vfl_remap_block :: "('n, nat) ftl_op" where
  "ftl_vfl_remap_block = give_up"

definition ftl_vfl_log_success :: "nat \<Rightarrow> nat \<Rightarrow> 'n ftl \<Rightarrow> 'n ftl" where
  "ftl_vfl_log_success bank vblock s =
     (case find (\<lambda>i. t_block (ftl_troublelog s i) = vblock \<and> t_bank (ftl_troublelog s i) = bank) [0..<5] of
        None \<Rightarrow> s
      | Some i \<Rightarrow>
          let t = ftl_troublelog s i; errors = (t_errors t + 255) mod 256 in
          s\<lparr>ftl_troublelog := (ftl_troublelog s)(i :=
            t\<lparr>t_errors := errors, t_block := (if errors = 0 then 0xFFFF else t_block t)\<rparr>)\<rparr>)"

section \<open>Reading and writing virtual pages\<close>

definition abs_page :: "nat \<Rightarrow> 'n ftl \<Rightarrow> nat" where
  "abs_page vpage s = u32_mod (vpage + ppb s * syshyperblocks s)"

definition page_in_block :: "nat \<Rightarrow> 'n ftl \<Rightarrow> nat" where
  "page_in_block abspage s = (abspage div 2 ^ ftl_banks_exponent s) AND (2 ^ dev_blocksizeexponent (ftl_nand_type s) - 1)"

definition trouble :: "nat \<Rightarrow> bool" where
  "trouble ret \<longleftrightarrow> ret AND 0x11D \<noteq> 0 \<and> ret AND 2 = 0"

definition ftl_vfl_read :: "'n nand_driver \<Rightarrow> nat \<Rightarrow> page \<Rightarrow> ftl_spare_data_type \<Rightarrow> bool \<Rightarrow> bool
    \<Rightarrow> ('n, nat \<times> page \<times> ftl_spare_data_type) ftl_op" where
  "ftl_vfl_read dev vpage buf sp checkempty remaponfail s =
     (let abspage = abs_page vpage s in
      if u32_mod (blocks s * ppb s) \<le> abspage \<or> abspage < ppb s then finish (4, buf, sp) s
      else do {
        let bank = abspage AND (ftl_banks s - 1);
        let block = abspage div 2 ^ ppb_exponent s;
        physblock \<leftarrow> ftl_vfl_get_physical_block bank block s;
        let physpage = u32_mod (physblock * pagesperblock s + page_in_block abspage s);
        andthen (chip (nand_read_page dev bank physpage buf sp checkempty)) (\<lambda>(ret, buf, sp) s.
          if trouble ret then
            andthen (chip (nand_reset dev bank)) (\<lambda>_.
            andthen (chip (nand_read_page dev bank physpage buf sp checkempty)) (\<lambda>(ret, buf, sp).
            andthen (if remaponfail \<and> trouble ret then ftl_vfl_schedule_block_for_remap bank block else finish ()) (\<lambda>_.
            finish (ret, buf, sp)))) s
          else finish (ret, buf, sp) s) s })"

text \<open>A read into the FTL's own buffers.\<close>

definition vfl_read_own :: "'n nand_driver \<Rightarrow> nat \<Rightarrow> bool \<Rightarrow> bool \<Rightarrow> ('n, nat) ftl_op" where
  "vfl_read_own dev vpage checkempty remaponfail s =
     andthen (ftl_vfl_read dev vpage (ftl_buffer s) (ftl_sparebuffer s 0) checkempty remaponfail) put_page s"

text \<open>The result of a read as the four bits of a bank in the result of a fast read.\<close>

definition add_result :: "nat \<Rightarrow> nat \<Rightarrow> nat \<Rightarrow> nat" where
  "add_result i ret rc = rc
     OR (if ret AND 1 \<noteq> 0 then push_bit (4 * i) 1 else 0) OR (if ret AND 2 \<noteq> 0 then push_bit (4 * i) 2 else 0)
     OR (if ret AND 0x10 \<noteq> 0 then push_bit (4 * i) 4 else 0) OR (if ret AND 0x100 \<noteq> 0 then push_bit (4 * i) 8 else 0)"

definition ftl_vfl_read_fast :: "'n nand_driver \<Rightarrow> nat \<Rightarrow> (nat \<Rightarrow> page) \<Rightarrow> (nat \<Rightarrow> ftl_spare_data_type) \<Rightarrow> bool \<Rightarrow> bool
    \<Rightarrow> ('n, nat \<times> (nat \<Rightarrow> page) \<times> (nat \<Rightarrow> ftl_spare_data_type)) ftl_op" where
  "ftl_vfl_read_fast dev vpage bufs sps checkempty remaponfail s =
     (let abspage = abs_page vpage s in
      if u32_mod (blocks s * ppb s) \<le> u32_mod (abspage + ftl_banks s - 1) \<or> abspage < ppb s then finish (4, bufs, sps) s
      else do {
        let bank = abspage AND (ftl_banks s - 1);
        let block = abspage div 2 ^ ppb_exponent s;
        remapped \<leftarrow> foldM (\<lambda>i r. do { b \<leftarrow> ftl_vfl_get_physical_block i block s; Some (r \<or> b \<noteq> block) }) [0..<ftl_banks s] False;
        if bank \<noteq> 0 \<or> remapped then
          unless_left (for_each [0..<ftl_banks s] (\<lambda>i (rc, bufs, sps).
            andthen (ftl_vfl_read dev (vpage + i) (bufs i) (sps i) checkempty remaponfail) (\<lambda>(ret, buf, sp).
            finish (Go (add_result i ret rc, bufs(i := buf), sps(i := sp))))) (0, bufs, sps))
          finish s
        else do {
          let physpage = u32_mod (block * pagesperblock s + page_in_block abspage s);
          andthen (chip (nand_read_page_fast dev physpage bufs sps checkempty)) (\<lambda>(rc, bufs, sps) s.
            if rc AND 0xdddd = 0 then finish (rc, bufs, sps) s
            else unless_left (for_each [0..<ftl_banks s] (\<lambda>i (rc, bufs, sps).
              let st = drop_bit (4 * i) rc in
              if st AND 2 \<noteq> 0 \<or> st AND 0xd = 0 then finish (Go (rc, bufs, sps))
              else
                let rc = rc AND (0xffffffff XOR push_bit (4 * i) 0xf) in
                andthen (chip (nand_reset dev i)) (\<lambda>_.
                andthen (chip (nand_read_page dev i physpage (bufs i) (sps i) checkempty)) (\<lambda>(ret, buf, sp).
                andthen (if remaponfail \<and> trouble ret then ftl_vfl_schedule_block_for_remap i block else finish ()) (\<lambda>_.
                finish (Go (add_result i ret rc, bufs(i := buf), sps(i := sp))))))) (rc, bufs, sps))
              finish s) s } })"

text \<open>
  A write to one bank goes on while the next one is started. The pages that were started are kept as the arrays \<open>bank\<close>
  and \<open>physpage\<close> keep them, the newest first. A page that the driver reports as failed is read back.
\<close>

definition confirm_write :: "'n nand_driver \<Rightarrow> nat \<Rightarrow> nat \<Rightarrow> ('n, unit) ftl_op" where
  "confirm_write dev bank physpage =
     andthen (nand_read dev bank physpage True) (\<lambda>rc. if rc AND 0x11F \<noteq> 0 then give_up else finish ())"

definition collect_write :: "'n nand_driver \<Rightarrow> nat \<times> nat \<Rightarrow> ('n, unit) ftl_op" where
  "collect_write dev b =
     andthen (chip (nand_write_page_collect dev (fst b)))
       (\<lambda>rc. if rc \<noteq> 0 then confirm_write dev (fst b) (snd b) else finish ())"

definition start_write :: "'n nand_driver \<Rightarrow> nat \<times> nat \<Rightarrow> page \<Rightarrow> ftl_spare_data_type \<Rightarrow> ('n, unit) ftl_op" where
  "start_write dev b buf sp =
     andthen (chip (nand_write_page_start dev (fst b) (snd b) buf sp))
       (\<lambda>rc. if rc \<noteq> 0 then confirm_write dev (fst b) (snd b) else finish ())"

definition locate_page :: "nat \<Rightarrow> 'n ftl \<Rightarrow> (nat \<times> nat) option" where
  "locate_page abspage s = do {
     let bank = abspage mod ftl_banks s;
     let block = abspage div (pagesperblock s * ftl_banks s);
     let page = (abspage div ftl_banks s) mod pagesperblock s;
     physblock \<leftarrow> ftl_vfl_get_physical_block bank block s;
     Some (bank, u32_mod (physblock * pagesperblock s + page)) }"

definition ftl_vfl_write :: "'n nand_driver \<Rightarrow> nat \<Rightarrow> nat \<Rightarrow> (nat \<Rightarrow> page) \<Rightarrow> (nat \<Rightarrow> ftl_spare_data_type) \<Rightarrow> ('n, nat) ftl_op" where
  "ftl_vfl_write dev vpage count bufs sps s =
     (let abspage = abs_page vpage s in
      if u32_mod (blocks s * ppb s) < u32_mod (abspage + count) \<or> abspage < ppb s then finish 4 s
      else
        unless_left (for_each [0..<count] (\<lambda>i started s. do {
          b \<leftarrow> locate_page (u32_mod (abspage + i)) s;
          let started = b # started;
          andthen (if ftl_banks s \<le> i then collect_write dev (started ! ftl_banks s) else finish ()) (\<lambda>_.
          andthen (start_write dev b (bufs i) (sps i)) (\<lambda>_.
          finish (Go started))) s }) [])
        (\<lambda>started s. unless_left
          (for_each (rev [0..<min count (ftl_banks s)]) (\<lambda>i _.
             andthen (collect_write dev (started ! i)) (\<lambda>_. finish (Go ()))) ())
          (\<lambda>_. finish 0) s) s)"

end
