(* ===== verification/Ftl.thy ===== *)
theory Ftl
  imports FtlVfl
begin

text \<open>
  The upper half of the flash translation layer (emcore/target/ipodnano2g/ftl.c): logical blocks live in a virtual
  block each (\<open>ftl_map\<close>), pages that were written since are scattered over the blocks of \<open>ftl_log\<close>, the
  other blocks wait in a pool. A pointer to an entry of \<open>ftl_log\<close> is its index, NULL is \<open>None\<close>.
\<close>

definition neg :: "nat \<Rightarrow> nat" where "neg n = 2 ^ 32 - n"

definition FTL_COPYBUF_SIZE :: nat where "FTL_COPYBUF_SIZE = 4"
definition FTL_WRITESPARE_SIZE :: nat where "FTL_WRITESPARE_SIZE = 32"
definition CACHEALIGN_SIZE :: nat where "CACHEALIGN_SIZE = 16"

abbreviation page_of :: "nat \<Rightarrow> page" where "page_of n \<equiv> replicate 1024 n"

definition ftl_locked :: "('n, 'a) ftl_op \<Rightarrow> ('n, 'a) ftl_op" where
  "ftl_locked body s = with_mutex fkern (\<lambda>k s. s\<lparr>fkern := k\<rparr>) (ftl_mtx s) body s"

definition lift :: "'a option \<Rightarrow> 's \<Rightarrow> ('a answer \<times> 's) option" where
  "lift x s = (case x of None \<Rightarrow> None | Some y \<Rightarrow> Some (Done y, s))"

lemma andthen_lift [simp]: "andthen (lift x) g s = (case x of None \<Rightarrow> None | Some y \<Rightarrow> g y s)"
  by (simp add: andthen_def lift_def split: option.splits)

section \<open>Reading\<close>

definition ftl_get_log_entry :: "nat \<Rightarrow> 'n ftl \<Rightarrow> nat option" where
  "ftl_get_log_entry block s =
     find (\<lambda>i. scatteredvblock (ftl_log s i) \<noteq> 0xFFFF \<and> logicalvblock (ftl_log s i) = block) [0..<0x11]"

text \<open>Where a logical page is.\<close>

definition sector_page :: "nat \<Rightarrow> nat \<Rightarrow> 'n ftl \<Rightarrow> nat" where
  "sector_page block page s = (case ftl_get_log_entry block s of
       Some e \<Rightarrow> let l = ftl_log s e in
         if scatteredvblock l \<noteq> 0xFFFF \<and> pageoffsets l page \<noteq> 0xFFFF
         then scatteredvblock l * ppb s + pageoffsets l page
         else ftl_map s block * ppb s + page
     | None \<Rightarrow> ftl_map s block * ppb s + page)"

text \<open>One turn of the loop of \<open>ftl_read\<close>: the number of sectors read so far, the error, and the buffer.\<close>

definition read_turn :: "'n nand_driver \<Rightarrow> nat \<Rightarrow> nat \<Rightarrow> nat \<times> nat \<times> (nat \<Rightarrow> page)
    \<Rightarrow> ('n, (nat \<times> nat \<times> (nat \<Rightarrow> page), nat \<times> (nat \<Rightarrow> page)) turn) ftl_op" where
  "read_turn dev sector count = (\<lambda>(i, error, buffer) s.
     if count \<le> i then finish (Leave (error, buffer)) s
     else
       let block = u32_mod (sector + i) div ppb s; page = u32_mod (sector + i) mod ppb s in
       andthen (require (\<lambda>_. block < 0x2000)) (\<lambda>_ s.
       let abspage = sector_page block page s in
       if i + ftl_banks s \<le> count \<and> page AND (ftl_banks s - 1) = 0 \<and> ftl_get_log_entry block s = None then
         andthen (ftl_vfl_read_fast dev abspage (\<lambda>j. buffer (i + j)) (ftl_sparebuffer s) True True) (\<lambda>(ret, bufs, sps) s.
           let s = s\<lparr>ftl_sparebuffer := sps\<rparr>;
               buffer = (\<lambda>k. if i \<le> k then bufs (k - i) else buffer k);
               (error, buffer) = fold (\<lambda>j (error, buffer).
                 if ret AND push_bit (4 * j) 2 \<noteq> 0 then (error, buffer(i + j := page_of 0))
                 else if ret AND push_bit (4 * j) 0xd \<noteq> 0 \<or> sp_eccmark (sps j) \<noteq> 0xFF
                 then (neg 3, buffer(i + j := page_of 0))
                 else (error, buffer)) [0..<ftl_banks s] (error, buffer) in
           finish (Go (i + ftl_banks s, error, buffer)) s) s
       else
         andthen (ftl_vfl_read dev abspage (buffer i) (ftl_sparebuffer s 0) True True) (\<lambda>(ret, buf, sp) s.
           let s = set_spare 0 sp s;
               (error, buf) = (if ret AND 2 \<noteq> 0 then (error, page_of 0)
                 else if ret AND 0x11D \<noteq> 0 \<or> sp_eccmark sp \<noteq> 0xFF then (neg 4, page_of 0)
                 else (error, buf)) in
           finish (Go (i + 1, error, buffer(i := buf))) s) s) s)"

definition ftl_read :: "'n nand_driver \<Rightarrow> nat \<Rightarrow> nat \<Rightarrow> nat \<Rightarrow> (nat \<Rightarrow> page) \<Rightarrow> ('n, nat \<times> (nat \<Rightarrow> page)) ftl_op" where
  "ftl_read dev sector count addr buffer s =
     (if \<not> ftl_initialized s then finish (neg 1, buffer) s
      else if addr mod CACHEALIGN_SIZE \<noteq> 0 then kill_thread s
      else if u32_mod (userblocks s * ppb s) < u32_mod (sector + count) then finish (neg 2, buffer) s
      else if count = 0 then finish (0, buffer) s
      else ftl_locked (\<lambda>s.
        if \<not> ftl_initialized s then finish (neg 1, buffer) s
        else forever (read_turn dev sector count) (0, 0, buffer) s) s)"

section \<open>Erasing, and the pool of free blocks\<close>

definition ftl_erase_block_internal :: "'n nand_driver \<Rightarrow> nat \<Rightarrow> ('n, nat) ftl_op" where
  "ftl_erase_block_internal dev block s =
     (let block = u32_mod (block + blocks s + 2 ^ 33 - userblocks s - 0x17) in
      if block = 0 \<or> blocks s \<le> block then finish 1 s
      else unless_left (for_each [0..<ftl_banks s] (\<lambda>i _.
        andthen (\<lambda>s. if ftl_vfl_check_remap_scheduled i block s = 1
                 then andthen ftl_vfl_remap_block (\<lambda>_. finish ()) s else finish () s) (\<lambda>_.
        andthen (modify (ftl_vfl_log_success i block)) (\<lambda>_ s.
        andthen (lift (ftl_vfl_get_physical_block i block s)) (\<lambda>pblock.
        andthen (for_each [0..<3] (\<lambda>j _ s.
           andthen (chip (nand_block_erase dev i (u32_mod (pblock * pagesperblock s))))
             (\<lambda>rc. finish (if rc = 0 then Leave () else Go ())) s) ()) (\<lambda>t.
        case t of Leave _ \<Rightarrow> finish (Go ()) | Go _ \<Rightarrow> give_up)) s))) ()) (\<lambda>_. finish 0) s)"

definition ftl_erase_block :: "'n nand_driver \<Rightarrow> nat \<Rightarrow> ('n, nat) ftl_op" where
  "ftl_erase_block dev block =
     andthen (require (\<lambda>_. block < 0x2000)) (\<lambda>_.
     andthen (modify (\<lambda>s. s\<lparr>ftl_erasectr := (ftl_erasectr s)(block := u16_mod (ftl_erasectr s block + 1))\<rparr>)) (\<lambda>_.
     andthen (modify (\<lambda>s. if ftl_erasectr_dirt s (block div 1024) = 100 then upd_cxt (\<lambda>c. c\<lparr>erasedirty := 1\<rparr>) s
         else s\<lparr>ftl_erasectr_dirt := (ftl_erasectr_dirt s)(block div 1024 := (ftl_erasectr_dirt s (block div 1024) + 1) mod 256)\<rparr>)) (\<lambda>_.
     ftl_erase_block_internal dev block)))"

text \<open>An index into the ring buffer.\<close>

definition pool_idx :: "nat \<Rightarrow> nat" where
  "pool_idx i = (if 0x14 \<le> i then i - 0x14 else i)"

definition best_pool_block :: "'n ftl \<Rightarrow> (nat \<times> nat) option" where
  "best_pool_block s = foldM (\<lambda>i (erasectr, bestidx).
     let c = ftl_cxt s; idx = pool_idx (nextfreeidx c + i) in do {
       check (idx < 0x14);
       if blockpool c idx = 0 then Some (erasectr, bestidx)
       else do {
         check (blockpool c idx < 0x2000);
         Some (if ftl_erasectr s (blockpool c idx) < erasectr then (ftl_erasectr s (blockpool c idx), idx)
               else (erasectr, bestidx)) } })
     [0..<freecount (ftl_cxt s)] (0xFFFFFFFF, 0xFFFFFFFF)"

definition ftl_allocate_pool_block :: "'n nand_driver \<Rightarrow> ('n, nat) ftl_op" where
  "ftl_allocate_pool_block dev s = do {
     (_, bestidx) \<leftarrow> best_pool_block s;
     if bestidx = 0xFFFFFFFF then give_up s
     else
       let block = blockpool (ftl_cxt s) bestidx;
           s = (if bestidx = nextfreeidx (ftl_cxt s) then s
                else upd_cxt (\<lambda>c. c\<lparr>blockpool := (blockpool c)(bestidx := blockpool c (nextfreeidx c), nextfreeidx c := block)\<rparr>) s) in
       if userblocks s + 0x17 < block then give_up s
       else andthen (ftl_erase_block dev block) (\<lambda>rc.
         if rc \<noteq> 0 then finish 0xFFFFFFFF
         else andthen (modify (upd_cxt (\<lambda>c. c\<lparr>
             nextfreeidx := (if u16_mod (nextfreeidx c + 1) = 0x14 then 0 else u16_mod (nextfreeidx c + 1)),
             freecount := u16_mod (freecount c + 65535)\<rparr>))) (\<lambda>_. finish block)) s }"

definition ftl_release_pool_block :: "nat \<Rightarrow> ('n, unit) ftl_op" where
  "ftl_release_pool_block block s =
     (if userblocks s + 0x17 \<le> block then give_up s
      else
        let idx = pool_idx (nextfreeidx (ftl_cxt s) + freecount (ftl_cxt s)) in
        andthen (require (\<lambda>_. idx < 0x14)) (\<lambda>_. modify (upd_cxt (\<lambda>c. c\<lparr>
          freecount := u16_mod (freecount c + 1), blockpool := (blockpool c)(idx := u16_mod block)\<rparr>))) s)"

section \<open>The pages of the FTL's own data\<close>

definition ftl_store_ctrl_block_list :: "'n nand_driver \<Rightarrow> ('n, nat) ftl_op" where
  "ftl_store_ctrl_block_list dev s =
     (let s = s\<lparr>ftl_vfl_cxt := (\<lambda>i. if i < ftl_banks s
        then ftl_vfl_cxt s i\<lparr>v_ftlctrlblocks := ftlctrlblocks (ftl_cxt s)\<rparr> else ftl_vfl_cxt s i)\<rparr> in
      ftl_vfl_commit_cxt dev (ftl_vfl_usn s mod ftl_banks s) s)"

text \<open>A page's part of \<open>ftl_map\<close> or \<open>ftl_erasectr\<close>.\<close>

definition table_page :: "(nat \<Rightarrow> nat) \<Rightarrow> nat \<Rightarrow> page" where
  "table_page t i = map t [i * 1024..<(i + 1) * 1024]"

definition write_own :: "'n nand_driver \<Rightarrow> nat \<Rightarrow> page \<Rightarrow> ('n, nat) ftl_op" where
  "write_own dev vpage buf s = ftl_vfl_write dev vpage 1 (\<lambda>_. buf) (ftl_sparebuffer s) s"

definition ftl_save_erasectr_page :: "'n nand_driver \<Rightarrow> nat \<Rightarrow> ('n, nat) ftl_op" where
  "ftl_save_erasectr_page dev index =
     andthen (require (\<lambda>_. index < 8)) (\<lambda>_.
     andthen (modify (\<lambda>s. set_spare 0 (set_idx index (spare_ff\<lparr>sp_word0 := c_usn (ftl_cxt s)\<rparr>)\<lparr>sp_type := 0x46\<rparr>) s)) (\<lambda>_ s.
     andthen (write_own dev (ftlctrlpage (ftl_cxt s)) (table_page (ftl_erasectr s) index)) (\<lambda>rc.
     if rc \<noteq> 0 then finish 1 else (\<lambda>s.
     andthen (vfl_read_own dev (ftlctrlpage (ftl_cxt s)) True True) (\<lambda>rc s.
       if rc AND 0x11F \<noteq> 0 \<or> ftl_buffer s \<noteq> table_page (ftl_erasectr s) index
        \<or> sp_type (ftl_sparebuffer s 0) \<noteq> 0x46 \<or> get_idx (ftl_sparebuffer s 0) \<noteq> index
        \<or> sp_word0 (ftl_sparebuffer s 0) \<noteq> c_usn (ftl_cxt s)
       then finish 1 s
       else finish 0 (upd_cxt (\<lambda>c. c\<lparr>ftl_erasectr_pages := (ftl_erasectr_pages c)(index := ftlctrlpage c)\<rparr>)
         (s\<lparr>ftl_erasectr_dirt := (ftl_erasectr_dirt s)(index := 0)\<rparr>))) s)) s))"

definition map_pages :: "nat \<Rightarrow> nat" where
  "map_pages len = len div 1024 + (if len AND 0x1FF \<noteq> 0 then 1 else 0)"

definition next_ctrl_block :: "'n ftl \<Rightarrow> nat" where
  "next_ctrl_block s = (case find (\<lambda>i. u32_mod ((ftlctrlblocks (ftl_cxt s) i + 1) * ppb s) = ftlctrlpage (ftl_cxt s)) [0..<3] of
       Some i \<Rightarrow> (i + 1) mod 3 | None \<Rightarrow> (3 + 1) mod 3)"

text \<open>
  A control block is replaced by a new one. The pages of counters in the old block are written again; should
  one of them fail, the code restores the entry of its index, not that of the block.
\<close>

definition move_counters :: "'n nand_driver \<Rightarrow> nat \<Rightarrow> nat \<Rightarrow> nat \<Rightarrow> unit \<Rightarrow> ('n, (unit, nat) turn) ftl_op" where
  "move_counters dev oldblock newblock i _ =
     andthen (require (\<lambda>_. i < 8)) (\<lambda>_ s.
     let p = ftl_erasectr_pages (ftl_cxt s) i in
     if oldblock * ppb s \<le> p \<and> p < (oldblock + 1) * ppb s then
       andthen (modify (upd_cxt (\<lambda>c. c\<lparr>c_usn := u32_mod (c_usn c + 0xFFFFFFFF)\<rparr>))) (\<lambda>_.
       andthen (ftl_save_erasectr_page dev i) (\<lambda>rc.
       if rc \<noteq> 0 then
         andthen (require (\<lambda>_. i < 3)) (\<lambda>_.
         andthen (modify (upd_cxt (\<lambda>c. c\<lparr>ftlctrlblocks := (ftlctrlblocks c)(i := oldblock),
             ftlctrlpage := u32_mod (oldblock * (ppb s + 1) + 0xFFFFFFFF)\<rparr>))) (\<lambda>_.
         andthen (ftl_release_pool_block newblock) (\<lambda>_. finish (Leave 1))))
       else andthen (modify (upd_cxt (\<lambda>c. c\<lparr>ftlctrlpage := u32_mod (ftlctrlpage c + 1)\<rparr>))) (\<lambda>_. finish (Go ())))) s
     else finish (Go ()) s)"

definition ftl_next_ctrl_pool_page :: "'n nand_driver \<Rightarrow> ('n, nat) ftl_op" where
  "ftl_next_ctrl_pool_page dev =
     andthen (modify (upd_cxt (\<lambda>c. c\<lparr>ftlctrlpage := u32_mod (ftlctrlpage c + 1)\<rparr>))) (\<lambda>_ s.
       if ftlctrlpage (ftl_cxt s) mod ppb s \<noteq> 0 then finish 0 s
       else
         let i = next_ctrl_block s; oldblock = ftlctrlblocks (ftl_cxt s) i in
         andthen (ftl_allocate_pool_block dev) (\<lambda>newblock.
         if newblock = 0xFFFFFFFF then finish 1 else
         andthen (modify (\<lambda>s. upd_cxt (\<lambda>c. c\<lparr>ftlctrlblocks := (ftlctrlblocks c)(i := newblock),
             ftlctrlpage := u32_mod (newblock * ppb s)\<rparr>) s)) (\<lambda>_ s.
         unless_left (for_each [0..<map_pages (userblocks s + 23)] (move_counters dev oldblock newblock) ())
         (\<lambda>_. andthen (ftl_release_pool_block oldblock) (\<lambda>_. ftl_store_ctrl_block_list dev)) s)) s)"

section \<open>Copying\<close>

definition next_usn :: "'n ftl \<Rightarrow> 'n ftl" where
  "next_usn = upd_cxt (\<lambda>c. c\<lparr>nextblockusn := u32_mod (nextblockusn c + 1)\<rparr>)"

definition user_spare :: "nat \<Rightarrow> nat \<Rightarrow> bool \<Rightarrow> bool \<Rightarrow> ftl_spare_data_type" where
  "user_spare lpn usn final bad = spare_ff\<lparr>sp_word0 := u32_mod lpn, sp_word1 := usn,
     sp_type := (if final then 0x41 else 0x40), sp_eccmark := (if bad then 0x55 else 0xFF)\<rparr>"

definition ftl_copy_page :: "'n nand_driver \<Rightarrow> nat \<Rightarrow> nat \<Rightarrow> nat \<Rightarrow> nat \<Rightarrow> ('n, nat) ftl_op" where
  "ftl_copy_page dev source destination lpn type s =
     andthen (ftl_vfl_read dev source (ftl_copybuffer s 0) (ftl_copyspare s 0) True True) (\<lambda>(rc, buf, sp) s.
       let rc = rc AND 0x11F; s = next_usn s;
           s = s\<lparr>ftl_copybuffer := (ftl_copybuffer s)(0 := if rc AND 2 \<noteq> 0 then page_of 0 else buf),
             ftl_copyspare := (ftl_copyspare s)(0 := user_spare lpn (nextblockusn (ftl_cxt s))
               (type = 1 \<and> destination mod ppb s = ppb s - 1) (rc AND 2 = 0 \<and> rc \<noteq> 0))\<rparr> in
       ftl_vfl_write dev destination 1 (ftl_copybuffer s) (ftl_copyspare s) s) s"

text \<open>A read into the copy buffers from one of them on; the buffers are aligned.\<close>

definition read_copy :: "'n nand_driver \<Rightarrow> nat \<Rightarrow> nat \<Rightarrow> nat \<Rightarrow> ('n, nat) ftl_op" where
  "read_copy dev sector count j s =
     andthen (ftl_read dev sector count 0 (\<lambda>k. ftl_copybuffer s (j + k))) (\<lambda>(rc, buf) s.
       finish rc (s\<lparr>ftl_copybuffer := (\<lambda>k. if j \<le> k then buf (k - j) else ftl_copybuffer s k)\<rparr>)) s"

text \<open>\<open>ftl_copy_block\<close> copies a few pages at a time; if they cannot be read together, they are read one by one.\<close>

definition mark_copy :: "'n nand_driver \<Rightarrow> nat \<Rightarrow> nat \<Rightarrow> nat \<Rightarrow> nat \<Rightarrow> unit \<Rightarrow> ('n, (unit, unit) turn) ftl_op" where
  "mark_copy dev source i rc j _ s =
     andthen (if rc \<noteq> 0 then read_copy dev (u32_mod (source * ppb s + i + j)) 1 j else finish 0) (\<lambda>rc.
     andthen (modify (\<lambda>s. s\<lparr>ftl_copyspare := (ftl_copyspare s)(j := user_spare (source * ppb s + i + j)
         (nextblockusn (ftl_cxt s)) (i + j = ppb s - 1) (rc \<noteq> 0))\<rparr>)) (\<lambda>_. finish (Go ()))) s"

definition copy_batch :: "'n nand_driver \<Rightarrow> nat \<Rightarrow> nat \<Rightarrow> nat \<Rightarrow> unit \<Rightarrow> ('n, (unit, unit) turn) ftl_op" where
  "copy_batch dev source destination i _ s =
     andthen (read_copy dev (u32_mod (source * ppb s + i)) FTL_COPYBUF_SIZE 0) (\<lambda>rc.
     andthen (modify (\<lambda>s. s\<lparr>ftl_copyspare := (\<lambda>_. spare_ff)\<rparr>)) (\<lambda>_.
     andthen (for_each [0..<FTL_COPYBUF_SIZE] (mark_copy dev source i rc) ()) (\<lambda>_ s.
     andthen (ftl_vfl_write dev (u32_mod (destination * ppb s + i)) FTL_COPYBUF_SIZE (ftl_copybuffer s) (ftl_copyspare s))
       (\<lambda>rc. finish (if rc \<noteq> 0 then Leave () else Go ())) s))) s"

definition ftl_copy_block :: "'n nand_driver \<Rightarrow> nat \<Rightarrow> nat \<Rightarrow> ('n, nat) ftl_op" where
  "ftl_copy_block dev source destination =
     andthen (modify next_usn) (\<lambda>_ s.
     andthen (for_each (filter (\<lambda>i. i mod FTL_COPYBUF_SIZE = 0) [0..<ppb s]) (copy_batch dev source destination) ())
     (\<lambda>t. case t of Go _ \<Rightarrow> finish 0
       | Leave _ \<Rightarrow> andthen (ftl_erase_block dev destination) (\<lambda>_. finish 1)) s)"

end
