(* ===== verification/FtlOps.thy ===== *)
theory FtlOps
  imports Ftl
begin

text \<open>
  The scattered blocks of the flash translation layer, and its operations \<open>ftl_write\<close> and \<open>ftl_sync\<close>
  (emcore/target/ipodnano2g/ftl.c).
\<close>

section \<open>Getting rid of a scattered block\<close>

definition ftl_check_still_sequential :: "nat \<Rightarrow> ftl_log_type \<Rightarrow> ftl_log_type" where
  "ftl_check_still_sequential page l =
     (if pagesused l \<noteq> pagescurrent l \<or> pageoffsets l page \<noteq> page then l\<lparr>issequential := 0\<rparr> else l)"

definition compact_page :: "'n nand_driver \<Rightarrow> nat \<Rightarrow> ftl_log_type \<Rightarrow> nat \<Rightarrow> nat \<Rightarrow> unit \<Rightarrow> ('n, (unit, unit) turn) ftl_op" where
  "compact_page dev e backup block j _ s =
     (let l = ftl_log s e in
      if pageoffsets l j = 0xFFFF then finish (Go ()) s
      else
        andthen (ftl_copy_page dev (u32_mod (scatteredvblock backup * ppb s + pageoffsets l j))
            (u32_mod (block * ppb s + pagesused l)) (u32_mod (logicalvblock l * ppb s + j)) (issequential l)) (\<lambda>rc.
        if rc \<noteq> 0 then finish (Leave ())
        else andthen (modify (upd_log e (\<lambda>l. ftl_check_still_sequential j (l\<lparr>
            pageoffsets := (pageoffsets l)(j := pagesused l), pagesused := u16_mod (pagesused l + 1),
            pagescurrent := u16_mod (pagescurrent l + 1)\<rparr>)))) (\<lambda>_. finish (Go ()))) s)"

text \<open>One pass over the pages of an entry, into a new block; it is left when a page cannot be copied.\<close>

definition compact_pages :: "'n nand_driver \<Rightarrow> nat \<Rightarrow> ftl_log_type \<Rightarrow> nat \<Rightarrow> ('n, (unit, unit) turn) ftl_op" where
  "compact_pages dev e backup block s = for_each [0..<ppb s] (compact_page dev e backup block) () s"

definition compact_try :: "'n nand_driver \<Rightarrow> nat \<Rightarrow> ftl_log_type \<Rightarrow> nat \<Rightarrow> unit \<Rightarrow> ('n, (unit, nat) turn) ftl_op" where
  "compact_try dev e backup i _ =
     andthen (ftl_allocate_pool_block dev) (\<lambda>block.
     if block = 0xFFFFFFFF then finish (Leave 1) else
     andthen (modify (upd_log e (\<lambda>l. l\<lparr>pagesused := 0, pagescurrent := 0, issequential := 1,
         scatteredvblock := u16_mod block\<rparr>))) (\<lambda>_.
     andthen (compact_pages dev e backup block) (\<lambda>t s.
     if t = Go () \<and> pagescurrent backup = pagescurrent (ftl_log s e)
     then andthen (ftl_release_pool_block (scatteredvblock backup)) (\<lambda>_. finish (Leave 0)) s
     else andthen (modify (upd_log e (\<lambda>_. backup))) (\<lambda>_. finish (Go ())) s)))"

definition ftl_compact_scattered :: "'n nand_driver \<Rightarrow> nat \<Rightarrow> ('n, nat) ftl_op" where
  "ftl_compact_scattered dev e s =
     (if pagescurrent (ftl_log s e) = 0 then
        andthen (ftl_release_pool_block (scatteredvblock (ftl_log s e))) (\<lambda>_.
        andthen (modify (upd_log e (\<lambda>l. l\<lparr>scatteredvblock := 0xFFFF\<rparr>))) (\<lambda>_. finish 0)) s
      else unless_left (for_each [0..<4] (compact_try dev e (ftl_log s e)) ()) (\<lambda>_. finish 1) s)"

text \<open>The logical block is copied to a new block; the result is that block, or nothing if the pool is empty.\<close>

definition commit_try :: "'n nand_driver \<Rightarrow> nat \<Rightarrow> nat \<Rightarrow> unit \<Rightarrow> ('n, (unit, nat option) turn) ftl_op" where
  "commit_try dev e i _ =
     andthen (ftl_allocate_pool_block dev) (\<lambda>block.
     if block = 0xFFFFFFFF then finish (Leave None) else (\<lambda>s.
     andthen (ftl_copy_block dev (logicalvblock (ftl_log s e)) block) (\<lambda>error.
     if error = 0 then finish (Leave (Some block))
     else andthen (ftl_release_pool_block block) (\<lambda>_. finish (Go ()))) s))"

definition ftl_commit_scattered :: "'n nand_driver \<Rightarrow> nat \<Rightarrow> ('n, nat) ftl_op" where
  "ftl_commit_scattered dev e =
     andthen (for_each [0..<4] (commit_try dev e) ())
     (\<lambda>t. case t of Go _ \<Rightarrow> finish 1 | Leave b \<Rightarrow> (case b of None \<Rightarrow> finish 1 | Some block \<Rightarrow> (\<lambda>s.
       let lvb = logicalvblock (ftl_log s e) in
       andthen (ftl_release_pool_block (scatteredvblock (ftl_log s e))) (\<lambda>_.
       andthen (modify (upd_log e (\<lambda>l. l\<lparr>scatteredvblock := 0xFFFF\<rparr>))) (\<lambda>_.
       andthen (require (\<lambda>_. lvb < 0x2000)) (\<lambda>_ s.
       andthen (ftl_release_pool_block (ftl_map s lvb)) (\<lambda>_.
       andthen (modify (\<lambda>s. s\<lparr>ftl_map := (ftl_map s)(lvb := u16_mod block)\<rparr>)) (\<lambda>_.
       finish 0)) s))) s)))"

text \<open>
  The rest of a sequential block is filled up, a few pages at a time, from the block that it replaces; the
  result is whether that was possible.
\<close>

definition mark_fill :: "nat \<Rightarrow> nat \<Rightarrow> nat \<Rightarrow> nat \<Rightarrow> unit \<Rightarrow> ('n, (unit, unit) turn) ftl_op" where
  "mark_fill lpn used rc i _ =
     andthen (modify next_usn) (\<lambda>_.
     andthen (modify (\<lambda>s. s\<lparr>ftl_copyspare := (ftl_copyspare s)(i := user_spare (lpn + i)
         (nextblockusn (ftl_cxt s)) (used + i = ppb s - 1) (rc \<noteq> 0))\<rparr>)) (\<lambda>_. finish (Go ())))"

definition fill_batch :: "'n nand_driver \<Rightarrow> nat \<Rightarrow> unit \<Rightarrow> ('n, (unit, bool) turn) ftl_op" where
  "fill_batch dev e _ s =
     (let l = ftl_log s e; used = pagesused l in
      if ppb s \<le> used then finish (Leave True) s
      else
        let lpn = logicalvblock l * ppb s + used; newpage = scatteredvblock l * ppb s + used;
            count = min FTL_COPYBUF_SIZE (ppb s - used) in
        if \<exists>i \<in> set [0..<count]. pageoffsets l (used + i) \<noteq> 0xFFFF then finish (Leave False) s
        else
          andthen (read_copy dev (u32_mod lpn) count 0) (\<lambda>rc.
          andthen (modify (\<lambda>s. s\<lparr>ftl_copyspare := (\<lambda>_. spare_ff)\<rparr>)) (\<lambda>_.
          andthen (for_each [0..<count] (mark_fill lpn used rc) ()) (\<lambda>_ s.
          andthen (ftl_vfl_write dev (u32_mod newpage) count (ftl_copybuffer s) (ftl_copyspare s)) (\<lambda>rc.
          if rc \<noteq> 0 then finish (Leave False)
          else andthen (modify (upd_log e (\<lambda>l. l\<lparr>pagesused := u16_mod (pagesused l + count)\<rparr>))) (\<lambda>_. finish (Go ()))) s))) s)"

definition ftl_commit_sequential :: "'n nand_driver \<Rightarrow> nat \<Rightarrow> ('n, nat) ftl_op" where
  "ftl_commit_sequential dev e s =
     (if issequential (ftl_log s e) \<noteq> 1 \<or> pagescurrent (ftl_log s e) \<noteq> pagesused (ftl_log s e) then finish 1 s
      else andthen (forever (fill_batch dev e) ()) (\<lambda>filled s. if filled then
         let lvb = logicalvblock (ftl_log s e) in
         andthen (require (\<lambda>_. lvb < 0x2000)) (\<lambda>_ s.
         andthen (ftl_release_pool_block (ftl_map s lvb)) (\<lambda>_.
         andthen (modify (\<lambda>s. s\<lparr>ftl_map := (ftl_map s)(lvb := scatteredvblock (ftl_log s e))\<rparr>)) (\<lambda>_.
         andthen (modify (upd_log e (\<lambda>l. l\<lparr>scatteredvblock := 0xFFFF\<rparr>))) (\<lambda>_. finish 0))) s) s
       else ftl_commit_scattered dev e s) s)"

text \<open>
  The oldest entry, and of the oldest ones the one with most current pages; \<open>Leave\<close> if an entry is
  empty.
\<close>

definition oldest_entry :: "'n ftl \<Rightarrow> (nat option, unit) turn" where
  "oldest_entry s =
     (if \<exists>i \<in> set [0..<0x11]. scatteredvblock (ftl_log s i) \<noteq> 0xFFFF
           \<and> (pagesused (ftl_log s i) = 0 \<or> pagescurrent (ftl_log s i) = 0)
      then Leave ()
      else
        let (age, used, entry) = fold (\<lambda>i (age, used, entry). let l = ftl_log s i in
            if scatteredvblock l \<noteq> 0xFFFF \<and> (l_usn l < age \<or> l_usn l = age \<and> used < pagescurrent l)
            then (l_usn l, pagescurrent l, Some i) else (age, used, entry)) [0..<0x11] (0xFFFFFFFF, 0, None) in
        Go entry)"

definition count_swap :: "'n ftl \<Rightarrow> 'n ftl" where
  "count_swap = upd_cxt (\<lambda>c. c\<lparr>swapcounter := u16_mod (swapcounter c + 1)\<rparr>)"

definition commit_entry :: "'n nand_driver \<Rightarrow> nat \<Rightarrow> ('n, nat) ftl_op" where
  "commit_entry dev e s =
     (if issequential (ftl_log s e) = 1 then ftl_commit_sequential dev e s else ftl_commit_scattered dev e s)"

definition ftl_remove_scattered_block :: "'n nand_driver \<Rightarrow> nat option \<Rightarrow> ('n, nat) ftl_op" where
  "ftl_remove_scattered_block dev entry s = (case entry of
       None \<Rightarrow> (case oldest_entry s of
           Leave _ \<Rightarrow> finish 1 s
         | Go e \<Rightarrow> (case e of None \<Rightarrow> finish 1 s | Some e \<Rightarrow> commit_entry dev e (count_swap s)))
     | Some e \<Rightarrow>
         if pagescurrent (ftl_log s e) < ppb s div 2 then ftl_compact_scattered dev e (count_swap s)
         else commit_entry dev e (count_swap s))"

section \<open>Making a log entry\<close>

definition ftl_init_log_entry :: "ftl_log_type \<Rightarrow> ftl_log_type" where
  "ftl_init_log_entry l = l\<lparr>issequential := 1, pagescurrent := 0, pagesused := 0, pageoffsets := (\<lambda>_. 0xFFFF)\<rparr>"

definition touch_entry :: "nat \<Rightarrow> 'n ftl \<Rightarrow> 'n ftl" where
  "touch_entry e s = upd_log e (\<lambda>l. l\<lparr>l_usn := u32_mod (nextblockusn (ftl_cxt s) + 0xFFFFFFFF)\<rparr>) s"

definition init_entry :: "nat \<Rightarrow> nat \<Rightarrow> ('n, nat option) ftl_op" where
  "init_entry block e = andthen (modify (upd_log e (\<lambda>l. ftl_init_log_entry l\<lparr>logicalvblock := u16_mod block\<rparr>))) (\<lambda>_.
     andthen (modify (touch_entry e)) (\<lambda>_. finish (Some e)))"

definition ftl_allocate_log_entry :: "'n nand_driver \<Rightarrow> nat \<Rightarrow> ('n, nat option) ftl_op" where
  "ftl_allocate_log_entry dev block s = (case ftl_get_log_entry block s of
       Some e \<Rightarrow> finish (Some e) (touch_entry e s)
     | None \<Rightarrow>
         (case find (\<lambda>i. scatteredvblock (ftl_log s i) \<noteq> 0xFFFF \<and> pagesused (ftl_log s i) = 0) [0..<0x11] of
            Some e \<Rightarrow> init_entry block e s
          | None \<Rightarrow>
              andthen (if freecount (ftl_cxt s) < 3 then give_up
                else if freecount (ftl_cxt s) = 3 then ftl_remove_scattered_block dev None else finish 0) (\<lambda>rc s.
              if rc \<noteq> 0 then finish None s
              else
                andthen (lift (find (\<lambda>i. scatteredvblock (ftl_log s i) = 0xFFFF) [0..<0x11])) (\<lambda>e.
                andthen (ftl_allocate_pool_block dev) (\<lambda>block'.
                andthen (modify (upd_log e (\<lambda>l. l\<lparr>scatteredvblock := u16_mod block'\<rparr>))) (\<lambda>_.
                if u16_mod block' = 0xFFFF then finish None else init_entry block e))) s) s))"

section \<open>Committing the context\<close>

text \<open>The context as the driver writes it: its own half words and what is behind it in memory.\<close>

definition cxt_words :: "'n ftl \<Rightarrow> page" where
  "cxt_words s = (let c = ftl_cxt s in halves (c_usn c) @ halves (nextblockusn c) @ [freecount c, nextfreeidx c, swapcounter c]
     @ map (blockpool c) [0..<0x14] @ [field_36 c] @ concat (map (\<lambda>i. halves (ftl_map_pages c i)) [0..<8]) @ field_58 c
     @ concat (map (\<lambda>i. halves (ftl_erasectr_pages c i)) [0..<8]) @ field_A0 c @ whimory_ptrs c @ halves (erasedirty c) @ [field_120 c]
     @ map (ftlctrlblocks c) [0..<3] @ halves (ftlctrlpage c) @ halves (clean_flag c) @ field_130 c @ behind_cxt s)"

definition commit_counters :: "'n nand_driver \<Rightarrow> nat \<Rightarrow> unit \<Rightarrow> ('n, (unit, nat) turn) ftl_op" where
  "commit_counters dev i _ =
     andthen (ftl_next_ctrl_pool_page dev) (\<lambda>rc.
     if rc \<noteq> 0 then finish (Leave 1) else
     andthen (ftl_save_erasectr_page dev i) (\<lambda>rc.
     if rc \<noteq> 0 then finish (Leave 1) else finish (Go ())))"

definition commit_map :: "'n nand_driver \<Rightarrow> nat \<Rightarrow> unit \<Rightarrow> ('n, (unit, nat) turn) ftl_op" where
  "commit_map dev i _ =
     andthen (ftl_next_ctrl_pool_page dev) (\<lambda>rc.
     if rc \<noteq> 0 then finish (Leave 1) else
     andthen (require (\<lambda>_. i < 8)) (\<lambda>_.
     andthen (modify (\<lambda>s. set_spare 0 (set_idx i (spare_ff\<lparr>sp_word0 := c_usn (ftl_cxt s)\<rparr>)\<lparr>sp_type := 0x44\<rparr>) s)) (\<lambda>_ s.
     andthen (write_own dev (ftlctrlpage (ftl_cxt s)) (table_page (ftl_map s) i)) (\<lambda>rc.
     if rc \<noteq> 0 then finish (Leave 1)
     else andthen (modify (upd_cxt (\<lambda>c. c\<lparr>ftl_map_pages := (ftl_map_pages c)(i := ftlctrlpage c)\<rparr>))) (\<lambda>_. finish (Go ()))) s)))"

definition commit_root :: "'n nand_driver \<Rightarrow> ('n, nat) ftl_op" where
  "commit_root dev =
     andthen (ftl_next_ctrl_pool_page dev) (\<lambda>rc.
     if rc \<noteq> 0 then finish 1 else
     andthen (modify (\<lambda>s. set_spare 0 (spare_ff\<lparr>sp_word0 := c_usn (ftl_cxt s), sp_type := 0x43\<rparr>)
         (upd_cxt (\<lambda>c. c\<lparr>clean_flag := 1\<rparr>) s))) (\<lambda>_ s.
     andthen (write_own dev (ftlctrlpage (ftl_cxt s)) (cxt_words s)) (\<lambda>rc.
     finish (if rc \<noteq> 0 then 1 else 0)) s))"

definition ftl_commit_cxt :: "'n nand_driver \<Rightarrow> ('n, nat) ftl_op" where
  "ftl_commit_cxt dev s =
     (let mappages = (userblocks s + 0x3ff) div 1024; ctrpages = (userblocks s + 23 + 0x3ff) div 1024;
          endpage = u32_mod (ftlctrlpage (ftl_cxt s) + mappages + ctrpages + 1);
          s = (if u32_mod ((ftlctrlpage (ftl_cxt s) div ppb s + 1) * ppb s) \<le> endpage
               then upd_cxt (\<lambda>c. c\<lparr>ftlctrlpage := ftlctrlpage c OR (ppb s - 1)\<rparr>) s else s) in
      unless_left (for_each [0..<ctrpages] (commit_counters dev) ()) (\<lambda>_.
      unless_left (for_each [0..<mappages] (commit_map dev) ()) (\<lambda>_. commit_root dev)) s)"

section \<open>Wear levelling\<close>

text \<open>
  The most worn free block, and the least worn logical block without a log entry; after the first
  candidate, \<open>max\<close> and \<open>min\<close> are read at the index of the candidate, not at its block.
\<close>

definition most_worn :: "'n ftl \<Rightarrow> (nat \<times> nat \<times> nat) option" where
  "most_worn s = foldM (\<lambda>i (hi, maxidx, maxvb).
     let c = ftl_cxt s; idx = pool_idx (nextfreeidx c + i) in do {
       check (idx < 0x14 \<and> blockpool c idx < 0x2000);
       Some (if hi < ftl_erasectr s (blockpool c idx) then (ftl_erasectr s idx, idx, blockpool c idx) else (hi, maxidx, maxvb)) })
     [0..<freecount (ftl_cxt s)] (0, 0x14, 0)"

definition least_worn :: "nat \<Rightarrow> 'n ftl \<Rightarrow> (nat \<times> nat \<times> nat \<times> nat) option" where
  "least_worn hi s = foldM (\<lambda>i (hi, lo, minidx, minvb). do {
       check (i < 0x2000 \<and> ftl_map s i < 0x2000);
       let hi = max hi (ftl_erasectr s (ftl_map s i));
       if ftl_get_log_entry i s \<noteq> None then Some (hi, lo, minidx, minvb)
       else Some (if ftl_erasectr s (ftl_map s i) < lo then (hi, ftl_erasectr s i, i, ftl_map s i) else (hi, lo, minidx, minvb)) })
     [0..<userblocks s] (hi, 0xFFFFFFFF, 0, 0)"

definition ftl_swap_blocks :: "'n nand_driver \<Rightarrow> ('n, nat) ftl_op" where
  "ftl_swap_blocks dev s = do {
     (hi, maxidx, maxvb) \<leftarrow> most_worn s;
     if maxidx = 0x14 then finish 0 s
     else do {
       (hi, lo, minidx, minvb) \<leftarrow> least_worn hi s;
       if u32_mod (hi + 2 ^ 32 - lo) < 5 then finish 0 s
       else if minvb = maxvb then finish 0 s
       else
         andthen (ftl_erase_block dev maxvb) (\<lambda>rc.
         if rc \<noteq> 0 then finish 1 else
         andthen (ftl_copy_block dev minidx maxvb) (\<lambda>rc.
         if rc \<noteq> 0 then finish 1 else
         andthen (modify (upd_cxt (\<lambda>c. c\<lparr>blockpool := (blockpool c)(maxidx := minvb)\<rparr>))) (\<lambda>_.
         andthen (modify (\<lambda>s. s\<lparr>ftl_map := (ftl_map s)(minidx := maxvb)\<rparr>)) (\<lambda>_. finish 0)))) s } }"

section \<open>Writing\<close>

text \<open>The mark of an unclean FTL, written before the first write; the result is that of \<open>ftl_write\<close> if it fails.\<close>

definition write_mark :: "'n nand_driver \<Rightarrow> nat \<Rightarrow> unit \<Rightarrow> ('n, (unit, nat) turn) ftl_op" where
  "write_mark dev i _ =
     andthen (ftl_next_ctrl_pool_page dev) (\<lambda>rc.
     if rc \<noteq> 0 then finish (Leave (neg 3)) else
     andthen (modify (\<lambda>s. set_spare 0 (spare_ff\<lparr>sp_word0 := c_usn (ftl_cxt s), sp_type := 0x47\<rparr>)
       (s\<lparr>ftl_buffer := page_of 0xFFFF\<rparr>))) (\<lambda>_ s.
     andthen (write_own dev (ftlctrlpage (ftl_cxt s)) (ftl_buffer s)) (\<lambda>rc.
     finish (if rc = 0 then Leave 0 else Go ())) s))"

definition mark_dirty :: "'n nand_driver \<Rightarrow> ('n, (unit, nat) turn) ftl_op" where
  "mark_dirty dev s =
     (if clean_flag (ftl_cxt s) \<noteq> 1 then finish (Go ()) s
      else andthen (for_each [0..<3] (write_mark dev) ())
        (\<lambda>t. case t of Go _ \<Rightarrow> finish (Leave (neg 4))
          | Leave rc \<Rightarrow> if rc \<noteq> 0 then finish (Leave rc)
              else andthen (modify (upd_cxt (\<lambda>c. c\<lparr>clean_flag := 0\<rparr>))) (\<lambda>_. finish (Go ()))) s)"

text \<open>A whole block is written in one go, from its first page on.\<close>

definition rewrite_page :: "'n nand_driver \<Rightarrow> nat \<Rightarrow> nat \<Rightarrow> (nat \<Rightarrow> page) \<Rightarrow> nat \<Rightarrow> unit \<Rightarrow> ('n, (unit, unit) turn) ftl_op" where
  "rewrite_page dev vblock j buffer k _ =
     andthen (forever (\<lambda>_ s.
       andthen (ftl_vfl_write dev (u32_mod (vblock * ppb s + j + k)) 1 (\<lambda>_. buffer (j + k)) (\<lambda>_. ftl_sparebuffer s k))
         (\<lambda>rc. finish (if rc = 0 then Leave () else Go ())) s) ()) (\<lambda>_.
     finish (Go ()))"

definition whole_batch :: "'n nand_driver \<Rightarrow> nat \<Rightarrow> nat \<Rightarrow> (nat \<Rightarrow> page) \<Rightarrow> nat \<Rightarrow> unit \<Rightarrow> ('n, (unit, unit) turn) ftl_op" where
  "whole_batch dev vblock lpn buffer j _ =
     andthen (modify (\<lambda>s. s\<lparr>ftl_sparebuffer := (\<lambda>k. user_spare (lpn + j + k) (nextblockusn (ftl_cxt s)) (j = ppb s - 1) False)\<rparr>)) (\<lambda>_ s.
     andthen (ftl_vfl_write dev (u32_mod (vblock * ppb s + j)) FTL_WRITESPARE_SIZE (\<lambda>k. buffer (j + k)) (ftl_sparebuffer s)) (\<lambda>rc.
     if rc = 0 then finish (Go ())
     else (\<lambda>s. for_each (filter (bit rc) [0..<ftl_banks s]) (rewrite_page dev vblock j buffer) () s)) s)"

definition write_whole_block :: "'n nand_driver \<Rightarrow> nat \<Rightarrow> nat \<Rightarrow> (nat \<Rightarrow> page) \<Rightarrow> ('n, unit) ftl_op" where
  "write_whole_block dev vblock lpn buffer s =
     unless_left (for_each (filter (\<lambda>j. j mod FTL_WRITESPARE_SIZE = 0) [0..<ppb s]) (whole_batch dev vblock lpn buffer) ())
     (\<lambda>_. finish ()) s"

definition write_full :: "'n nand_driver \<Rightarrow> nat \<Rightarrow> nat \<Rightarrow> nat \<Rightarrow> (nat \<Rightarrow> page) \<Rightarrow> ('n, (unit, nat) turn) ftl_op" where
  "write_full dev e block lpn buffer s =
     (let vblock = scatteredvblock (ftl_log s e) in
      andthen (modify (upd_log e (\<lambda>l. l\<lparr>scatteredvblock := 0xFFFF\<rparr>))) (\<lambda>_ s.
      andthen (if pagesused (ftl_log s e) \<noteq> 0
        then andthen (ftl_release_pool_block vblock) (\<lambda>_. ftl_allocate_pool_block dev) else finish vblock) (\<lambda>vblock.
      if vblock = 0xFFFFFFFF then finish (Leave (neg 6)) else
      andthen (modify next_usn) (\<lambda>_.
      andthen (write_whole_block dev vblock lpn buffer) (\<lambda>_.
      andthen (require (\<lambda>_. block < 0x2000)) (\<lambda>_ s.
      andthen (ftl_release_pool_block (ftl_map s block)) (\<lambda>_.
      andthen (modify (\<lambda>s. s\<lparr>ftl_map := (ftl_map s)(block := u16_mod vblock)\<rparr>)) (\<lambda>_.
      finish (Go ()))) s)))) s) s)"

text \<open>The entry after pages from \<open>page\<close> on were written to it.\<close>

definition note_pages :: "nat \<Rightarrow> nat \<Rightarrow> ftl_log_type \<Rightarrow> ftl_log_type" where
  "note_pages page cnt l = fold (\<lambda>j l.
     let current = (if pageoffsets l (page + j) = 0xFFFF then u16_mod (pagescurrent l + 1) else pagescurrent l);
         offset = pagesused l - cnt + j in
     l\<lparr>pagescurrent := current, pageoffsets := (pageoffsets l)(page + j := u16_mod offset),
       issequential := (if offset + 1 \<noteq> current \<or> u16_mod offset \<noteq> page + j then 0 else issequential l)\<rparr>) [0..<cnt] l"

definition mark_scattered :: "nat \<Rightarrow> nat \<Rightarrow> nat \<Rightarrow> nat \<Rightarrow> unit \<Rightarrow> ('n, (unit, unit) turn) ftl_op" where
  "mark_scattered e lpn used j _ =
     andthen (modify next_usn) (\<lambda>_.
     andthen (modify (\<lambda>s. set_spare j (user_spare (lpn + j) (nextblockusn (ftl_cxt s))
       (used + j = ppb s - 1 \<and> issequential (ftl_log s e) \<noteq> 0) False) s)) (\<lambda>_. finish (Go ())))"

text \<open>Some pages for the scattered block; the result is their number.\<close>

definition write_scattered :: "'n nand_driver \<Rightarrow> nat \<Rightarrow> nat \<Rightarrow> nat \<Rightarrow> nat \<Rightarrow> (nat \<Rightarrow> page) \<Rightarrow> ('n, nat) ftl_op" where
  "write_scattered dev e page lpn left buffer s =
     (let used = pagesused (ftl_log s e);
          cnt = min (min (min FTL_WRITESPARE_SIZE left) (ppb s - used)) (ppb s - page) in
      andthen (for_each [0..<cnt] (mark_scattered e lpn used) ()) (\<lambda>_ s.
      let abspage = u32_mod (scatteredvblock (ftl_log s e) * ppb s + used) in
      andthen (modify (upd_log e (\<lambda>l. l\<lparr>pagesused := u16_mod (pagesused l + cnt)\<rparr>))) (\<lambda>_ s.
      andthen (ftl_vfl_write dev abspage cnt buffer (ftl_sparebuffer s)) (\<lambda>rc.
      if rc \<noteq> 0 then give_up
      else andthen (modify (upd_log e (note_pages page cnt))) (\<lambda>_. finish cnt)) s) s) s)"

text \<open>One turn of the loop of \<open>ftl_write\<close>, at the \<open>i\<close>th sector.\<close>

definition write_turn :: "'n nand_driver \<Rightarrow> nat \<Rightarrow> nat \<Rightarrow> (nat \<Rightarrow> page) \<Rightarrow> nat \<Rightarrow> ('n, (nat, nat) turn) ftl_op" where
  "write_turn dev sector count buffer i s =
     (let lpn = u32_mod (sector + i); block = lpn div ppb s; page = lpn mod ppb s in
      andthen (ftl_allocate_log_entry dev block) (\<lambda>entry. case entry of None \<Rightarrow> finish (Leave (neg 5)) | Some e \<Rightarrow>
      andthen (\<lambda>s. if page = 0 \<and> ppb s \<le> count - i then
          andthen (write_full dev e block lpn (\<lambda>k. buffer (i + k)))
            (\<lambda>t s. finish (case t of Leave rc \<Rightarrow> Leave rc | Go _ \<Rightarrow> Go (e, i + ppb s)) s) s
        else
          andthen (if pagesused (ftl_log s e) = ppb s
            then andthen (ftl_remove_scattered_block dev (Some e)) (\<lambda>_. ftl_allocate_log_entry dev block)
            else finish (Some e)) (\<lambda>entry. case entry of None \<Rightarrow> finish (Leave (neg 7)) | Some e \<Rightarrow>
          andthen (write_scattered dev e page lpn (count - i) (\<lambda>k. buffer (i + k))) (\<lambda>cnt.
          finish (Go (e, i + cnt)))) s) (\<lambda>t. case t of Leave rc \<Rightarrow> finish (Leave rc) | Go (e, i) \<Rightarrow> (\<lambda>s.
      andthen (if pagesused (ftl_log s e) = ppb s then ftl_remove_scattered_block dev (Some e) else finish 0) (\<lambda>_.
      finish (Go i)) s))) s)"

definition swap_tries :: "'n nand_driver \<Rightarrow> ('n, (unit, unit) turn) ftl_op" where
  "swap_tries dev = for_each [0..<4] (\<lambda>i _. andthen (ftl_swap_blocks dev) (\<lambda>rc. finish (if rc = 0 then Leave () else Go ()))) ()"

definition less_swaps :: "'n ftl \<Rightarrow> 'n ftl" where
  "less_swaps = upd_cxt (\<lambda>c. c\<lparr>swapcounter := u16_mod (swapcounter c + 65536 - 20)\<rparr>)"

definition save_dirty :: "'n nand_driver \<Rightarrow> nat \<Rightarrow> unit \<Rightarrow> ('n, (unit, unit) turn) ftl_op" where
  "save_dirty dev i _ s =
     (if 100 \<le> ftl_erasectr_dirt s i then
        andthen (ftl_next_ctrl_pool_page dev) (\<lambda>_.
        andthen (ftl_save_erasectr_page dev i) (\<lambda>_. finish (Go ()))) s
      else finish (Go ()) s)"

definition save_dirty_counters :: "'n nand_driver \<Rightarrow> ('n, unit) ftl_op" where
  "save_dirty_counters dev s =
     (if erasedirty (ftl_cxt s) \<noteq> 1 then finish () s
      else unless_left (for_each [0..<8] (save_dirty dev) ()) (\<lambda>_. finish ()) (upd_cxt (\<lambda>c. c\<lparr>erasedirty := 0\<rparr>) s))"

definition ftl_write :: "'n nand_driver \<Rightarrow> nat \<Rightarrow> nat \<Rightarrow> nat \<Rightarrow> (nat \<Rightarrow> page) \<Rightarrow> ('n, nat) ftl_op" where
  "ftl_write dev sector count addr buffer s =
     (if \<not> ftl_initialized s then finish (neg 1) s
      else if addr mod CACHEALIGN_SIZE \<noteq> 0 then kill_thread s
      else if u32_mod (userblocks s * ppb s) < u32_mod (sector + count) then finish (neg 2) s
      else if count = 0 then finish 0 s
      else ftl_locked (\<lambda>s.
        if \<not> ftl_initialized s then finish (neg 1) s
        else
          unless_left (mark_dirty dev) (\<lambda>_.
          andthen (forever (\<lambda>i s.
            if count \<le> i then finish (Leave 0) s else write_turn dev sector count buffer i s) 0) (\<lambda>rc.
          if rc \<noteq> 0 then finish rc else (\<lambda>s.
          andthen (if 300 \<le> swapcounter (ftl_cxt s)
            then andthen (modify less_swaps) (\<lambda>_. andthen (swap_tries dev) (\<lambda>_. finish ())) else finish ()) (\<lambda>_.
          andthen (save_dirty_counters dev) (\<lambda>_. finish 0)) s))) s) s)"

definition commit_next :: "'n nand_driver \<Rightarrow> nat \<Rightarrow> nat \<Rightarrow> ('n, (nat, nat) turn) ftl_op" where
  "commit_next dev i rc s =
     (if scatteredvblock (ftl_log s i) = 0xFFFF then finish (Go rc) s
      else andthen (modify next_usn) (\<lambda>_.
        andthen (commit_entry dev i) (\<lambda>r. finish (Go (rc OR r)))) s)"

definition commit_all :: "'n nand_driver \<Rightarrow> ('n, nat) ftl_op" where
  "commit_all dev = unless_left (for_each [0..<0x11] (commit_next dev) 0) finish"

definition try_commit_cxt :: "'n nand_driver \<Rightarrow> nat \<Rightarrow> unit \<Rightarrow> ('n, (unit, nat) turn) ftl_op" where
  "try_commit_cxt dev i _ =
     andthen (ftl_commit_cxt dev) (\<lambda>rc.
     if rc = 0 then finish (Leave 0)
     else andthen (modify (\<lambda>s. upd_cxt (\<lambda>c. c\<lparr>ftlctrlpage := ftlctrlpage c OR (ppb s - 1)\<rparr>) s)) (\<lambda>_. finish (Go ())))"

definition ftl_sync :: "'n nand_driver \<Rightarrow> ('n, nat) ftl_op" where
  "ftl_sync dev s =
     (if \<not> ftl_initialized s then finish 0 s
      else if clean_flag (ftl_cxt s) = 1 then finish 0 s
      else ftl_locked (\<lambda>s.
        if \<not> ftl_initialized s then finish (neg 1) s
        else
          andthen (if 20 \<le> swapcounter (ftl_cxt s)
            then andthen (swap_tries dev) (\<lambda>t. case t of Leave _ \<Rightarrow> modify less_swaps | Go _ \<Rightarrow> finish ()) else finish ()) (\<lambda>_.
          andthen (commit_all dev) (\<lambda>rc.
          if rc \<noteq> 0 then finish (neg 1)
          else unless_left (for_each [0..<5] (try_commit_cxt dev) ())
            (\<lambda>_. finish (neg 2)))) s) s)"

end
