(* ===== verification/FtlMount.thy ===== *)
theory FtlMount
  imports FtlOps
begin

text \<open>
  Mounting the flash translation layer (emcore/target/ipodnano2g/ftl.c): the driver's bad block tables, the VFL context of
  each bank, the FTL context, the block map and the erase counters are read back from the flash.
\<close>

section \<open>What a page says\<close>

definition byte_at :: "page \<Rightarrow> nat \<Rightarrow> nat" where
  "byte_at p i = (if even i then p ! (i div 2) mod 256 else p ! (i div 2) div 256)"

definition vfl_of_page :: "page \<Rightarrow> ftl_vfl_cxt_type" where
  "vfl_of_page p = \<lparr>v_usn = word_at p 0, v_ftlctrlblocks = (\<lambda>i. p ! (2 + i)), field_A = p ! 5,
     updatecount = word_at p 3, activecxtblock = p ! 8, nextcxtpage = p ! 9, field_14 = take 2 (drop 10 p),
     field_18 = p ! 12, spareused = p ! 13, firstspare = p ! 14, sparecount = p ! 15,
     remaptable = (\<lambda>i. p ! (16 + i)), bbt = (\<lambda>i. byte_at p (0x688 + i)), vflcxtblocks = (\<lambda>i. p ! (977 + i)),
     scheduledstart = p ! 981, field_7AC = take 38 (drop 982 p), checksum1 = word_at p 510, checksum2 = word_at p 511\<rparr>"

definition cxt_of_page :: "page \<Rightarrow> ftl_cxt_type" where
  "cxt_of_page p = \<lparr>c_usn = word_at p 0, nextblockusn = word_at p 1, freecount = p ! 4, nextfreeidx = p ! 5,
     swapcounter = p ! 6, blockpool = (\<lambda>i. p ! (7 + i)), field_36 = p ! 27, ftl_map_pages = (\<lambda>i. word_at p (14 + i)),
     field_58 = take 20 (drop 44 p), ftl_erasectr_pages = (\<lambda>i. word_at p (32 + i)), field_A0 = take 56 (drop 80 p),
     whimory_ptrs = take 6 (drop 136 p), erasedirty = word_at p 71, field_120 = p ! 144, ftlctrlblocks = (\<lambda>i. p ! (145 + i)),
     ftlctrlpage = word_at p 74, clean_flag = word_at p 75, field_130 = take 174 (drop 152 p)\<rparr>"

section \<open>The driver's bad block table\<close>

definition devinfo_sign :: "nat list" where
  "devinfo_sign = map of_char ''DEVICEINFOSIGN'' @ [0, 0]"

definition find_in_block :: "'n nand_driver \<Rightarrow> nat \<Rightarrow> nat \<Rightarrow> ('n, (unit, nat) turn) ftl_op" where
  "find_in_block dev bank block s = for_each [u32_mod (pagesperblock s + 2 ^ 32 - 8)..<pagesperblock s] (\<lambda>page _ s.
     let pagenum = u32_mod (block * pagesperblock s + page) in
     andthen (nand_read dev bank pagenum False) (\<lambda>rc s.
       finish (if rc AND 0x11F = 0 \<and> map (byte_at (ftl_buffer s)) [0..<0x10] = devinfo_sign
               then Leave pagenum else Go ()) s) s) () s"

text \<open>The number of the device information page of a bank, 0 if it has none.\<close>

definition ftl_find_devinfo :: "'n nand_driver \<Rightarrow> nat \<Rightarrow> ('n, nat) ftl_op" where
  "ftl_find_devinfo dev bank s =
     unless_left (for_each (rev [blocks s - blocks s div 10..<blocks s]) (\<lambda>block _. find_in_block dev bank block) ())
       (\<lambda>_. finish 0) s"

definition ftl_has_devinfo :: "'n nand_driver \<Rightarrow> ('n, nat) ftl_op" where
  "ftl_has_devinfo dev s =
     unless_left (for_each [0..<ftl_banks s] (\<lambda>i _. andthen (ftl_find_devinfo dev i)
       (\<lambda>page. finish (if page = 0 then Leave 0 else Go ()))) ()) (\<lambda>_. finish 1) s"

definition nand_read_data :: "'n nand_driver \<Rightarrow> nat \<Rightarrow> nat \<Rightarrow> ('n, nat) ftl_op" where
  "nand_read_data dev bank page s =
     andthen (chip (nand_read_page dev bank page (ftl_buffer s) (ftl_sparebuffer s 0) False))
       (\<lambda>(rc, buf, _) s. finish rc (s\<lparr>ftl_buffer := buf\<rparr>)) s"

definition ftl_load_bbt :: "'n nand_driver \<Rightarrow> nat \<Rightarrow> ('n, nat) ftl_op" where
  "ftl_load_bbt dev bank =
     andthen (ftl_find_devinfo dev bank) (\<lambda>page s.
     if page = 0 then finish 1 s
     else
       let pagebase = page - (page AND (pagesperblock s - 1)) in
       andthen (nand_read_data dev bank page) (\<lambda>rc s.
       if rc AND 0x11F \<noteq> 0 then finish 1 s
       else if map (byte_at (ftl_buffer s)) [0x18..<0x1C] \<noteq> map of_char ''BBT'' @ [0] then finish 1 s
       else
         let unk1 = ftl_buffer s ! 0x10; unk2 = ftl_buffer s ! 0x11; k = u32_mod (word_at (ftl_buffer s) 4 * 6 + 10) in
         andthen (require (\<lambda>_. k + 1 < 1024)) (\<lambda>_ s.
         let unk3 = ftl_buffer s ! k + ftl_buffer s ! (k + 1) in
         unless_left (for_each [0..<unk1] (\<lambda>i _.
           andthen (forever (\<lambda>j s.
             let page2 = u32_mod (unk2 + i + unk3 * j) in
             if u32_mod (pagesperblock s + 2 ^ 32 - 8) \<le> page2 then finish (Leave 1) s
             else andthen (nand_read_data dev bank (u32_mod (pagebase + page2))) (\<lambda>rc s.
               if rc AND 0x11F = 0
               then finish (Leave (0 :: nat)) (s\<lparr>ftl_bbt := (ftl_bbt s)(bank := byte_at (ftl_buffer s))\<rparr>)
               else finish (Go (j + 1)) s) s) 0) (\<lambda>rc. finish (if rc = 0 then Leave 0 else Go ()))) ())
         (\<lambda>_. finish 1) s) s) s)"

section \<open>The VFL\<close>

definition ftl_is_good_block :: "(nat \<Rightarrow> nat) \<Rightarrow> nat \<Rightarrow> nat" where
  "ftl_is_good_block table block = (if table (block div 8) AND 2 ^ (block mod 8) = 0 then 0 else 1)"

definition ftl_vfl_read_page :: "'n nand_driver \<Rightarrow> nat \<Rightarrow> nat \<Rightarrow> nat \<Rightarrow> ('n, nat) ftl_op" where
  "ftl_vfl_read_page dev bank block startpage =
     unless_left (for_each [0..<8] (\<lambda>i _ s.
       andthen (nand_read dev bank (u32_mod (block * pagesperblock s + startpage + i)) True) (\<lambda>rc s.
         finish (if rc AND 0x11F = 0 \<and> sp_field_8 (ftl_sparebuffer s 0) = 0 \<and> sp_type (ftl_sparebuffer s 0) = 0x80
                 then Leave 0 else Go ()) s) s) ()) (\<lambda>_. finish 1)"

text \<open>The bank with the most recent context; \<open>None\<close> if there is no bank.\<close>

definition ftl_vfl_get_newest_cxt :: "'n ftl \<Rightarrow> nat option" where
  "ftl_vfl_get_newest_cxt s = snd (fold (\<lambda>i (maxusn, cxt).
     if maxusn \<le> v_usn (ftl_vfl_cxt s i) then (v_usn (ftl_vfl_cxt s i), Some i) else (maxusn, cxt)) [0..<ftl_banks s] (0, None))"

text \<open>The newest of the blocks that hold the contexts of a bank, by the smallest update count; 4 if there is none.\<close>

definition newest_cxt_block :: "'n nand_driver \<Rightarrow> nat \<Rightarrow> (nat \<Rightarrow> nat) \<Rightarrow> ('n, nat) ftl_op" where
  "newest_cxt_block dev i vflcxtblock =
     unless_left (for_each [0..<4] (\<lambda>k (minusn, vflcxtidx).
       if vflcxtblock k = 0xFFFF then finish (Go (minusn, vflcxtidx))
       else andthen (ftl_vfl_read_page dev i (vflcxtblock k) 0) (\<lambda>rc s.
         let usn = sp_word0 (ftl_sparebuffer s 0) in
         finish (Go (if rc = 0 \<and> 0 < usn \<and> usn \<le> minusn then (usn, k) else (minusn, vflcxtidx))) s)) (0xFFFFFFFF, 4))
     (\<lambda>(_, vflcxtidx). finish vflcxtidx)"

text \<open>The first page of the last context of a block.\<close>

definition last_cxt_page :: "'n nand_driver \<Rightarrow> nat \<Rightarrow> nat \<Rightarrow> ('n, nat) ftl_op" where
  "last_cxt_page dev i block s =
     andthen (for_each (filter (\<lambda>k. k mod 8 = 0) [8..<pagesperblock s]) (\<lambda>k before.
       andthen (ftl_vfl_read_page dev i block k) (\<lambda>rc. finish (if rc \<noteq> 0 then Leave before else Go k))) 0)
     (\<lambda>t. finish (case t of Go k \<Rightarrow> k | Leave k \<Rightarrow> k)) s"

text \<open>The context of a bank, from the first block that can be read; the result is whether the mount goes on.\<close>

definition vfl_open_bank :: "'n nand_driver \<Rightarrow> nat \<Rightarrow> ('n, nat) ftl_op" where
  "vfl_open_bank dev i s =
     andthen (for_each [1..<syshyperblocks s + 1] (\<lambda>j _ s.
       if ftl_is_good_block (ftl_bbt s i) j = 0 then finish (Go ()) s
       else andthen (ftl_vfl_read_page dev i j 0) (\<lambda>rc s.
         if rc \<noteq> 0 then finish (Go ()) s
         else
           let vflcxtblock = vflcxtblocks (vfl_of_page (ftl_buffer s)) in
           andthen (newest_cxt_block dev i vflcxtblock) (\<lambda>vflcxtidx.
           if vflcxtidx = 4 then finish (Leave 1)
           else
             andthen (last_cxt_page dev i (vflcxtblock vflcxtidx)) (\<lambda>k.
             andthen (ftl_vfl_read_page dev i (vflcxtblock vflcxtidx) k) (\<lambda>rc.
             if rc \<noteq> 0 then give_up
             else
               andthen (modify (\<lambda>s. upd_vfl i (\<lambda>_. vfl_of_page (ftl_buffer s)) s)) (\<lambda>_ s.
               if ftl_vfl_verify_checksum (ftl_vfl_cxt s i) \<noteq> 0 then finish (Leave 1) s
               else finish (Leave 0) (s\<lparr>ftl_vfl_usn := max (ftl_vfl_usn s) (v_usn (ftl_vfl_cxt s i))\<rparr>))))) s) s) ())
     (\<lambda>t. finish (case t of Go _ \<Rightarrow> 0 | Leave rc \<Rightarrow> rc)) s"

definition ftl_vfl_open :: "'n nand_driver \<Rightarrow> ('n, nat) ftl_op" where
  "ftl_vfl_open dev =
     andthen (modify (\<lambda>s. s\<lparr>ftl_vfl_usn := 0\<rparr>)) (\<lambda>_ s.
     unless_left (for_each [0..<ftl_banks s] (\<lambda>i _.
       andthen (ftl_load_bbt dev i) (\<lambda>rc.
       if rc \<noteq> 0 then finish (Leave 1)
       else andthen (vfl_open_bank dev i) (\<lambda>rc. finish (if rc \<noteq> 0 then Leave 1 else Go ())))) ())
     (\<lambda>_ s. andthen (lift (ftl_vfl_get_newest_cxt s)) (\<lambda>cxt.
        andthen (modify (\<lambda>s. s\<lparr>ftl_vfl_cxt := (\<lambda>i. if i < ftl_banks s
          then ftl_vfl_cxt s i\<lparr>v_ftlctrlblocks := v_ftlctrlblocks (ftl_vfl_cxt s cxt)\<rparr> else ftl_vfl_cxt s i)\<rparr>)) (\<lambda>_.
        finish 0)) s) s)"

section \<open>The FTL\<close>

text \<open>The newest of the blocks that hold the FTL's data.\<close>

definition find_ftlcxtblock :: "'n nand_driver \<Rightarrow> (nat \<Rightarrow> nat) \<Rightarrow> ('n, nat) ftl_op" where
  "find_ftlcxtblock dev ctrlblocks =
     unless_left (for_each [0..<3] (\<lambda>i (ftlcxtblock, minusn) s.
       andthen (vfl_read_own dev (u32_mod (ppb s * ctrlblocks i)) True False) (\<lambda>rc s.
         let sp = ftl_sparebuffer s 0 in
         finish (Go (if rc AND 0x11F \<noteq> 0 \<or> int (sp_type sp) - 0x43 > 4
                        \<or> ftlcxtblock \<noteq> 0xffffffff \<and> minusn \<le> sp_word0 sp
                     then (ftlcxtblock, minusn) else (ctrlblocks i, sp_word0 sp))) s) s) (0xffffffff, 0xffffffff))
     (\<lambda>(ftlcxtblock, _). finish ftlcxtblock)"

text \<open>
  The last page of the block that can be read must be an FTL context; page 0 is not looked at.
\<close>

definition find_ftlcxt :: "'n nand_driver \<Rightarrow> nat \<Rightarrow> ('n, nat) ftl_op" where
  "find_ftlcxt dev ftlcxtblock s =
     unless_left (for_each (rev [1..<pagesperblock s * ftl_banks s]) (\<lambda>i _ s.
       andthen (vfl_read_own dev (u32_mod (ppb s * ftlcxtblock + i)) True False) (\<lambda>rc s.
         if rc AND 0x11F \<noteq> 0 then finish (Go ()) s
         else if sp_type (ftl_sparebuffer s 0) = 0x43
         then finish (Leave 1) (s\<lparr>ftl_cxt := cxt_of_page (ftl_buffer s)\<rparr>)
         else finish (Leave 0) s) s) ()) (\<lambda>_. finish 0) s"

text \<open>The tables, a page at a time; the last page may be read in part.\<close>

definition load_page :: "nat \<Rightarrow> nat \<Rightarrow> page \<Rightarrow> (nat \<Rightarrow> nat) \<Rightarrow> nat \<Rightarrow> nat" where
  "load_page i len p t = (let toread = min 2048 (u32_mod (2 * len + 2 ^ 32 - i * 2048)) in
     (\<lambda>k. if i * 1024 \<le> k \<and> k < i * 1024 + toread div 2 then p ! (k - i * 1024) else t k))"

definition load_table :: "'n nand_driver \<Rightarrow> nat \<Rightarrow> (ftl_cxt_type \<Rightarrow> nat \<Rightarrow> nat) \<Rightarrow> (nat \<Rightarrow> page \<Rightarrow> 'n ftl \<Rightarrow> 'n ftl) \<Rightarrow> ('n, nat) ftl_op" where
  "load_table dev len pages store =
     unless_left (for_each [0..<map_pages len] (\<lambda>i _.
       andthen (require (\<lambda>_. i < 8)) (\<lambda>_ s.
       andthen (vfl_read_own dev (pages (ftl_cxt s) i) True True) (\<lambda>rc s.
         if rc AND 0x11F \<noteq> 0 then finish (Leave 1) s else finish (Go ()) (store i (ftl_buffer s) s)) s)) ()) (\<lambda>_. finish 0)"

definition ftl_open :: "'n nand_driver \<Rightarrow> ('n, nat) ftl_op" where
  "ftl_open dev s =
     andthen (lift (ftl_vfl_get_newest_cxt s)) (\<lambda>cxt s.
     andthen (find_ftlcxtblock dev (v_ftlctrlblocks (ftl_vfl_cxt s cxt))) (\<lambda>ftlcxtblock.
     if ftlcxtblock = 0xffffffff then finish 1 else
     andthen (find_ftlcxt dev ftlcxtblock) (\<lambda>found.
     if found = 0 then finish 1 else (\<lambda>s.
     andthen (load_table dev (userblocks s) ftl_map_pages
       (\<lambda>i p s. s\<lparr>ftl_map := load_page i (userblocks s) p (ftl_map s)\<rparr>)) (\<lambda>rc.
     if rc \<noteq> 0 then finish 1 else
     andthen (load_table dev (userblocks s + 23) ftl_erasectr_pages
       (\<lambda>i p s. s\<lparr>ftl_erasectr := load_page i (userblocks s + 23) p (ftl_erasectr s)\<rparr>)) (\<lambda>rc.
     if rc \<noteq> 0 then finish 1 else
     andthen (modify (\<lambda>s. s\<lparr>
       ftl_log := (\<lambda>i. if i < 0x11 then ftl_log s i\<lparr>scatteredvblock := 0xFFFF, logicalvblock := 0xFFFF\<rparr> else ftl_log s i),
       ftl_troublelog := (\<lambda>_. \<lparr>t_block = 0xFFFF, t_bank = 0xFF, t_errors = 0xFF\<rparr>),
       ftl_erasectr_dirt := (\<lambda>_. 0)\<rparr>)) (\<lambda>_. finish 0))) s))) s) s"

text \<open>
  \<open>ftl_init\<close>, with the driver's start (\<open>nand_device_init\<close>, \<open>nand_get_device_type\<close>) and \<open>ftl_repair\<close> as parameters.
\<close>

definition detect_banks :: "(nat \<Rightarrow> nand_device_info_type option) \<Rightarrow> nat" where
  "detect_banks devtype = fold (\<lambda>i n. if devtype i \<noteq> None then i + 1 else n) [0..<4] 0"

definition set_geometry :: "(nat \<Rightarrow> nand_device_info_type option) \<Rightarrow> 'n ftl \<Rightarrow> 'n ftl option" where
  "set_geometry devtype s = do {
     dev \<leftarrow> devtype 0;
     let banks = detect_banks devtype;
     let bexp = (if banks = 4 then 2 else if banks = 2 then 1 else 0);
     let pexp = dev_blocksizeexponent dev + bexp;
     Some (s\<lparr>ftl_banks := banks, ftl_nand_type := dev, ftl_banks_exponent := bexp, ppb_exponent := pexp, ppb := 2 ^ pexp,
       syshyperblocks := u32_mod (dev_blocks dev + 2 ^ 33 - dev_userblocks dev - 0x17)\<rparr>) }"

definition ftl_init :: "'n nand_driver \<Rightarrow> ('n \<Rightarrow> int \<times> 'n) \<Rightarrow> (nat \<Rightarrow> nand_device_info_type option) \<Rightarrow> ('n, nat) ftl_op
    \<Rightarrow> ('n, nat) ftl_op" where
  "ftl_init dev nand_device_init devtype ftl_repair s =
     (if ftl_initialized s then finish 0 s
      else
        andthen (modify (\<lambda>s. s\<lparr>fkern := mutex_init (ftl_mtx s) (fkern s)\<rparr>)) (\<lambda>_.
        andthen (chip nand_device_init) (\<lambda>rc. if rc \<noteq> 0 then kill_thread else (\<lambda>s.
        andthen (\<lambda>s. case set_geometry devtype s of None \<Rightarrow> None | Some s \<Rightarrow> finish () s) (\<lambda>_.
        andthen (ftl_has_devinfo dev) (\<lambda>ok. if ok = 0 then finish (neg 1) else
        andthen (ftl_vfl_open dev) (\<lambda>rc. if rc \<noteq> 0 then finish (neg 2) else
        andthen (ftl_open dev) (\<lambda>rc.
        if rc = 0 then andthen (modify (\<lambda>s. s\<lparr>ftl_initialized := True\<rparr>)) (\<lambda>_. finish 0)
        else andthen ftl_repair (\<lambda>rc.
          if rc \<noteq> 0 then finish (neg 2)
          else andthen (ftl_open dev) (\<lambda>rc.
            if rc = 0 then andthen (modify (\<lambda>s. s\<lparr>ftl_initialized := True\<rparr>)) (\<lambda>_. finish 0)
            else finish (neg 2))))))) s))) s)"

end
