(* ===== verification/FtlChip.thy ===== *)
theory FtlChip
  imports FtlMount
begin

text \<open>
  What the FTL relies on below: a flash without errors, seen through a function \<open>cont\<close> that says what a
  page of a bank holds, and a VFL that maps virtual pages one to one to pages of the banks. The
  functions of the VFL then read and write an array of virtual pages.
\<close>

section \<open>A working flash\<close>

type_synonym 'n contents = "'n \<Rightarrow> nat \<Rightarrow> nat \<Rightarrow> (page \<times> ftl_spare_data_type) option"

text \<open>
  A page is erased (\<open>None\<close>) or holds what was written to it. A read of an erased page that asks for it reports so.
  The fast read of all banks reports the errors of each bank in four bits; for an erased page it
  may also report nothing, and then the spare data are the erased ones.
\<close>

definition nibble :: "nat \<Rightarrow> nat \<Rightarrow> nat" where
  "nibble i rc = take_bit 4 (drop_bit (4 * i) rc)"

definition reads :: "'n nand_driver \<Rightarrow> 'n contents \<Rightarrow> nat \<Rightarrow> bool" where
  "reads dev cont banks \<longleftrightarrow> (\<forall>n bank p buf sp ce. bank < banks \<longrightarrow>
     (case nand_read_page dev bank p buf sp ce n of ((rc, b, x), n') \<Rightarrow> cont n' = cont n \<and>
        (case cont n bank p of Some (d, y) \<Rightarrow> rc AND 0x11F = 0 \<and> b = d \<and> x = y | None \<Rightarrow> ce \<longrightarrow> rc AND 2 \<noteq> 0)))"

definition reads_fast :: "'n nand_driver \<Rightarrow> 'n contents \<Rightarrow> nat \<Rightarrow> bool" where
  "reads_fast dev cont banks \<longleftrightarrow> (\<forall>n p bufs sps.
     (case nand_read_page_fast dev p bufs sps True n of ((rc, bs, xs), n') \<Rightarrow> cont n' = cont n
        \<and> (\<forall>i \<ge> banks. bs i = bufs i)
        \<and> (\<forall>i < banks. case cont n i p of
             Some (d, y) \<Rightarrow> nibble i rc = 0 \<and> bs i = d \<and> xs i = y
           | None \<Rightarrow> nibble i rc AND 2 \<noteq> 0 \<or> nibble i rc = 0 \<and> sp_eccmark (xs i) = 0xFF)))"

definition writes :: "'n nand_driver \<Rightarrow> 'n contents \<Rightarrow> nat \<Rightarrow> bool" where
  "writes dev cont banks \<longleftrightarrow> (\<forall>n bank p d y. bank < banks \<longrightarrow> cont n bank p = None \<longrightarrow>
     (case nand_write_page_start dev bank p d y n of (rc, n') \<Rightarrow>
        rc = 0 \<and> cont n' = (cont n)(bank := (cont n bank)(p := Some (d, y)))) \<and>
     (case nand_write_page dev bank p d y n of (rc, n') \<Rightarrow>
        cont n' = (cont n)(bank := (cont n bank)(p := Some (d, y)))))"

definition settles :: "'n nand_driver \<Rightarrow> 'n contents \<Rightarrow> nat \<Rightarrow> bool" where
  "settles dev cont banks \<longleftrightarrow> (\<forall>n bank. bank < banks \<longrightarrow>
     (case nand_write_page_collect dev bank n of (rc, n') \<Rightarrow> rc = 0 \<and> cont n' = cont n)
     \<and> cont (snd (nand_reset dev bank n)) = cont n)"

definition erases :: "'n nand_driver \<Rightarrow> 'n contents \<Rightarrow> nat \<Rightarrow> nat \<Rightarrow> bool" where
  "erases dev cont banks pages \<longleftrightarrow> (\<forall>n bank p. bank < banks \<longrightarrow> pages dvd p \<longrightarrow>
     (case nand_block_erase dev bank p n of (rc, n') \<Rightarrow> rc = 0
        \<and> cont n' = (\<lambda>b q. if b = bank \<and> p \<le> q \<and> q < p + pages then None else cont n b q)))"

definition working :: "'n nand_driver \<Rightarrow> 'n contents \<Rightarrow> nat \<Rightarrow> nat \<Rightarrow> bool" where
  "working dev cont banks pages \<longleftrightarrow> reads dev cont banks \<and> reads_fast dev cont banks \<and> writes dev cont banks
     \<and> settles dev cont banks \<and> erases dev cont banks pages"

lemma workingD:
  assumes "working dev cont banks pages"
  shows "reads dev cont banks" "reads_fast dev cont banks" "writes dev cont banks" "settles dev cont banks"
    "erases dev cont banks pages"
  using assms by (simp_all add: working_def)

lemma read_page:
  assumes "working dev cont banks pages" and "bank < banks"
  obtains rc b x n' where "nand_read_page dev bank p buf sp ce n = ((rc, b, x), n')" "cont n' = cont n"
    "case cont n bank p of Some (d, y) \<Rightarrow> rc AND 0x11F = 0 \<and> b = d \<and> x = y | None \<Rightarrow> ce \<longrightarrow> rc AND 2 \<noteq> 0"
proof -
  obtain rc b x n' where "nand_read_page dev bank p buf sp ce n = ((rc, b, x), n')" by (metis prod_cases3 surj_pair)
  with workingD(1) [OF assms(1), unfolded reads_def, rule_format, OF assms(2), where p = p and buf = buf and sp = sp and ce = ce and n = n] show ?thesis
    by (intro that [of rc b x n']) auto
qed

lemma write_start:
  assumes "working dev cont banks pages" and "bank < banks" and "cont n bank p = None"
  obtains n' where "nand_write_page_start dev bank p d y n = (0, n')" "cont n' = (cont n)(bank := (cont n bank)(p := Some (d, y)))"
  using workingD(3) [OF assms(1), unfolded writes_def, rule_format, OF assms(2,3), of d y]
  by (cases "nand_write_page_start dev bank p d y n") (auto intro: that)

lemma write_page:
  assumes "working dev cont banks pages" and "bank < banks" and "cont n bank p = None"
  obtains rc n' where "nand_write_page dev bank p d y n = (rc, n')" "cont n' = (cont n)(bank := (cont n bank)(p := Some (d, y)))"
  using workingD(3) [OF assms(1), unfolded writes_def, rule_format, OF assms(2,3), of d y]
  by (cases "nand_write_page dev bank p d y n") (auto intro: that)

lemma write_collect:
  assumes "working dev cont banks pages" and "bank < banks"
  obtains n' where "nand_write_page_collect dev bank n = (0, n')" "cont n' = cont n"
  using workingD(4) [OF assms(1), unfolded settles_def, rule_format, OF assms(2), of n]
  by (cases "nand_write_page_collect dev bank n") (auto intro: that)

lemma reset_keeps:
  assumes "working dev cont banks pages" and "bank < banks"
  obtains rc n' where "nand_reset dev bank n = (rc, n')" "cont n' = cont n"
  using workingD(4) [OF assms(1), unfolded settles_def, rule_format, OF assms(2), of n]
  by (cases "nand_reset dev bank n") (auto intro: that)

lemma erase_page:
  assumes "working dev cont banks pages" and "bank < banks" and "pages dvd p"
  obtains n' where "nand_block_erase dev bank p n = (0, n')"
    "cont n' = (\<lambda>b q. if b = bank \<and> p \<le> q \<and> q < p + pages then None else cont n b q)"
  using workingD(5) [OF assms(1), unfolded erases_def, rule_format, OF assms(2,3), of n]
  by (cases "nand_block_erase dev bank p n") (auto intro: that)

lemma andthen_chip [simp]: "andthen (chip f) g s = g (fst (f (nand s))) (s\<lparr>nand := snd (f (nand s))\<rparr>)"
  by (simp add: andthen_def chip_def case_prod_unfold Let_def)

lemma not_trouble: "rc AND 0x11F = 0 \<Longrightarrow> \<not> trouble rc"
proof -
  assume "rc AND 0x11F = 0"
  moreover have "rc AND 0x11D = (rc AND 0x11F) AND 0x11D" by (simp add: and.assoc)
  ultimately have "rc AND 0x11D = 0" by simp
  then show ?thesis by (simp add: trouble_def)
qed

lemma no_error_bits:
  assumes "(rc :: nat) AND 0x11F = 0"
  shows "rc AND 1 = 0" "rc AND 2 = 0" "rc AND 0x10 = 0" "rc AND 0x100 = 0" "rc AND 0x11D = 0"
proof -
  have z: "rc AND x = 0" if "0x11F AND x = x" for x
    using assms that by (metis and.assoc and.commute and_zero_eq)
  show "rc AND 1 = 0" "rc AND 2 = 0" "rc AND 0x10 = 0" "rc AND 0x100 = 0" "rc AND 0x11D = 0" by (rule z; simp)+
qed

section \<open>Geometry\<close>

definition geo_ok :: "'n ftl \<Rightarrow> bool" where
  "geo_ok s \<longleftrightarrow> ftl_banks_exponent s \<le> 2 \<and> ftl_banks s = 2 ^ ftl_banks_exponent s
     \<and> pagesperblock s = 2 ^ dev_blocksizeexponent (ftl_nand_type s)
     \<and> ppb_exponent s = dev_blocksizeexponent (ftl_nand_type s) + ftl_banks_exponent s
     \<and> ppb s = 2 ^ ppb_exponent s \<and> 5 \<le> ppb_exponent s \<and> ppb_exponent s \<le> 9
     \<and> userblocks s + 0x17 \<le> 0x2000 \<and> 18 \<le> userblocks s \<and> 1 \<le> syshyperblocks s
     \<and> blocks s = syshyperblocks s + userblocks s + 0x17 \<and> blocks s \<le> 0x4000"

definition vblocks :: "'n ftl \<Rightarrow> nat" where "vblocks s = userblocks s + 0x17"
definition vpages :: "'n ftl \<Rightarrow> nat" where "vpages s = vblocks s * ppb s"

definition phys :: "nat \<Rightarrow> nat \<Rightarrow> 'n ftl \<Rightarrow> nat" where
  "phys bank block s = the (ftl_vfl_get_physical_block bank block s)"

definition phys_ok :: "'n ftl \<Rightarrow> bool" where
  "phys_ok s \<longleftrightarrow> (\<forall>bank < ftl_banks s.
     (\<forall>b. syshyperblocks s \<le> b \<longrightarrow> b < blocks s \<longrightarrow>
        ftl_vfl_get_physical_block bank b s = Some (phys bank b s) \<and> phys bank b s < 0x20000)
     \<and> inj_on (\<lambda>b. phys bank b s) {syshyperblocks s..<blocks s} \<and> 0x333 \<le> scheduledstart (ftl_vfl_cxt s bank))"

text \<open>Where a virtual page is, and what it holds.\<close>

definition loc :: "'n ftl \<Rightarrow> nat \<Rightarrow> nat \<times> nat" where
  "loc s v = (let a = v + ppb s * syshyperblocks s in
     (a mod ftl_banks s, phys (a mod ftl_banks s) (a div ppb s) s * pagesperblock s + a div ftl_banks s mod pagesperblock s))"

definition vcont :: "'n contents \<Rightarrow> 'n ftl \<Rightarrow> nat \<Rightarrow> (page \<times> ftl_spare_data_type) option" where
  "vcont cont s v = cont (nand s) (fst (loc s v)) (snd (loc s v))"

lemma geo:
  assumes "geo_ok s"
  shows "0 < ppb s" "0 < ftl_banks s" "ftl_banks s \<le> 4" "ppb s \<le> 512" "ppb s = pagesperblock s * ftl_banks s"
    "0 < pagesperblock s" "32 dvd ppb s" "ftl_banks s dvd 4"
proof -
  note g = assms [unfolded geo_ok_def]
  show "0 < ppb s" "0 < ftl_banks s" "0 < pagesperblock s" "ppb s = pagesperblock s * ftl_banks s"
    using g by (simp_all add: power_add)
  have "ppb s \<le> 2 ^ 9" "ftl_banks s \<le> 2 ^ 2" using g by (metis power_increasing one_le_numeral)+
  then show "ppb s \<le> 512" "ftl_banks s \<le> 4" by simp_all
  have "(2::nat) ^ 5 dvd ppb s" "ftl_banks s dvd 2 ^ 2" using g by (metis le_imp_power_dvd)+
  then show "32 dvd ppb s" "ftl_banks s dvd 4" by simp_all
qed

lemma and_minus_one: "(a :: nat) AND (2 ^ k - 1) = a mod 2 ^ k"
  by (simp add: take_bit_eq_mask mask_eq_exp_minus_1 flip: take_bit_eq_mod)

lemma abs_in_range:
  assumes g: "geo_ok s" and v: "v < vpages s"
  shows "abs_page v s = v + ppb s * syshyperblocks s" "ppb s \<le> abs_page v s" "abs_page v s < blocks s * ppb s"
    "blocks s * ppb s < 2 ^ 32" "u32_mod (blocks s * ppb s) = blocks s * ppb s"
    "syshyperblocks s \<le> abs_page v s div ppb s" "abs_page v s div ppb s < blocks s"
    "abs_page v s AND (ftl_banks s - 1) = abs_page v s mod ftl_banks s" "abs_page v s mod ftl_banks s < ftl_banks s"
    "page_in_block (abs_page v s) s = abs_page v s div ftl_banks s mod pagesperblock s"
    "abs_page v s div 2 ^ ppb_exponent s = abs_page v s div ppb s"
proof -
  note gg = g [unfolded geo_ok_def] and p = geo [OF g]
  have b: "blocks s * ppb s = syshyperblocks s * ppb s + vpages s"
    using gg by (simp add: vpages_def vblocks_def algebra_simps)
  have "blocks s * ppb s \<le> 0x4000 * 512" using gg p(4) by (intro mult_le_mono) auto
  then show lim: "blocks s * ppb s < 2 ^ 32" by simp
  then show "u32_mod (blocks s * ppb s) = blocks s * ppb s" by simp
  show a: "abs_page v s = v + ppb s * syshyperblocks s"
    using v b lim by (simp add: abs_page_def mult.commute)
  have "1 * ppb s \<le> syshyperblocks s * ppb s" using gg by (intro mult_le_mono1) simp
  then show "ppb s \<le> abs_page v s" using a mult.commute [of "ppb s" "syshyperblocks s"] by linarith
  show l: "abs_page v s < blocks s * ppb s" using a b v by (simp add: mult.commute)
  then show "abs_page v s div ppb s < blocks s" using p(1) by (simp add: div_less_iff_less_mult)
  show "syshyperblocks s \<le> abs_page v s div ppb s" using p(1) a by (simp add: less_eq_div_iff_mult_less_eq mult.commute)
  show "abs_page v s AND (ftl_banks s - 1) = abs_page v s mod ftl_banks s" using gg and_minus_one by metis
  show "abs_page v s mod ftl_banks s < ftl_banks s" using p(2) by simp
  show "page_in_block (abs_page v s) s = abs_page v s div ftl_banks s mod pagesperblock s"
    using gg and_minus_one by (metis page_in_block_def)
  show "abs_page v s div 2 ^ ppb_exponent s = abs_page v s div ppb s" using gg by metis
qed

lemma loc_bank: "geo_ok s \<Longrightarrow> fst (loc s v) < ftl_banks s"
  using geo(2) [of s] by (simp add: loc_def Let_def)

lemma loc_page:
  assumes "geo_ok s" "phys_ok s" "v < vpages s"
  shows "ftl_vfl_get_physical_block (abs_page v s mod ftl_banks s) (abs_page v s div ppb s) s
      = Some (phys (abs_page v s mod ftl_banks s) (abs_page v s div ppb s) s)"
    "u32_mod (phys (abs_page v s mod ftl_banks s) (abs_page v s div ppb s) s * pagesperblock s
       + abs_page v s div ftl_banks s mod pagesperblock s) = snd (loc s v)"
    "fst (loc s v) = abs_page v s mod ftl_banks s"
proof -
  note r = abs_in_range [OF assms(1,3)] and p = geo [OF assms(1)]
  let ?b = "abs_page v s mod ftl_banks s" and ?q = "abs_page v s div ppb s"
  have ph: "ftl_vfl_get_physical_block ?b ?q s = Some (phys ?b ?q s)" "phys ?b ?q s < 0x20000"
    using assms(2) r by (auto simp: phys_ok_def)
  show "ftl_vfl_get_physical_block ?b ?q s = Some (phys ?b ?q s)" by (rule ph)
  have "pagesperblock s \<le> ppb s" using p(2) unfolding p(5) by simp
  then have pp: "pagesperblock s \<le> 512" using p(4) by simp
  have "phys ?b ?q s * pagesperblock s \<le> 0x20000 * 512" using ph(2) pp by (intro mult_le_mono) auto
  moreover have "abs_page v s div ftl_banks s mod pagesperblock s < pagesperblock s" using p(6) by simp
  ultimately have "phys ?b ?q s * pagesperblock s + abs_page v s div ftl_banks s mod pagesperblock s < 2 ^ 32"
    using pp by simp
  then show "u32_mod (phys ?b ?q s * pagesperblock s + abs_page v s div ftl_banks s mod pagesperblock s) = snd (loc s v)"
    using r(1) by (simp add: loc_def Let_def)
  show "fst (loc s v) = ?b" using r(1) by (simp add: loc_def Let_def)
qed

lemma eq_by_div_mod: "(a :: nat) div n = c div n \<Longrightarrow> a mod n = c mod n \<Longrightarrow> a = c"
  by (metis div_mult_mod_eq)

lemma loc_inj:
  assumes g: "geo_ok s" and ph: "phys_ok s" and v: "v < vpages s" "w < vpages s" and e: "loc s v = loc s w"
  shows "v = w"
proof -
  note rv = abs_in_range [OF g v(1)] and rw = abs_in_range [OF g v(2)] and p = geo [OF g]
  let ?a = "abs_page v s" and ?c = "abs_page w s"
  have m: "?a mod ftl_banks s = ?c mod ftl_banks s" using e rv(1) rw(1) by (simp add: loc_def Let_def)
  have "phys (?a mod ftl_banks s) (?a div ppb s) s * pagesperblock s + ?a div ftl_banks s mod pagesperblock s
      = phys (?a mod ftl_banks s) (?c div ppb s) s * pagesperblock s + ?c div ftl_banks s mod pagesperblock s"
    (is "?x * ?n + ?y mod ?n = ?x' * ?n + ?y' mod ?n")
    using arg_cong [OF e, of snd] unfolding loc_def Let_def snd_conv rv(1) [symmetric] rw(1) [symmetric] m by simp
  then have "(?x * ?n + ?y mod ?n) div ?n = (?x' * ?n + ?y' mod ?n) div ?n"
    "(?x * ?n + ?y mod ?n) mod ?n = (?x' * ?n + ?y' mod ?n) mod ?n" by simp_all
  then have xy: "?x = ?x'" "?y mod ?n = ?y' mod ?n" using p(6) by simp_all
  have "inj_on (\<lambda>b. phys (?a mod ftl_banks s) b s) {syshyperblocks s..<blocks s}"
    using ph rv(9) by (simp add: phys_ok_def)
  with xy(1) rv(6,7) rw(6,7) have d: "?a div ppb s = ?c div ppb s" by (auto dest: inj_onD)
  have dd: "x div ppb s = x div ftl_banks s div pagesperblock s" for x using p(5) by (simp add: div_mult2_eq mult.commute)
  have "?a div ftl_banks s = ?c div ftl_banks s"
    using d [unfolded dd] xy(2) by (rule eq_by_div_mod)
  from this m have "?a = ?c" by (rule eq_by_div_mod)
  with rv(1) rw(1) show ?thesis by linarith
qed

end
