(* ===== verification/FtlPages.thy ===== *)
theory FtlPages
  imports FtlChip
begin

text \<open>The functions of the VFL on a working flash: they read and write virtual pages.\<close>

section \<open>States with the same layout\<close>

definition same_layout :: "'n ftl \<Rightarrow> 'n ftl \<Rightarrow> bool" where
  "same_layout s s' \<longleftrightarrow> ftl_nand_type s' = ftl_nand_type s \<and> ftl_banks s' = ftl_banks s
     \<and> ftl_banks_exponent s' = ftl_banks_exponent s \<and> ppb s' = ppb s \<and> ppb_exponent s' = ppb_exponent s
     \<and> syshyperblocks s' = syshyperblocks s
     \<and> (\<forall>bank. bbt (ftl_vfl_cxt s' bank) = bbt (ftl_vfl_cxt s bank)
        \<and> spareused (ftl_vfl_cxt s' bank) = spareused (ftl_vfl_cxt s bank)
        \<and> firstspare (ftl_vfl_cxt s' bank) = firstspare (ftl_vfl_cxt s bank)
        \<and> remaptable (ftl_vfl_cxt s' bank) = remaptable (ftl_vfl_cxt s bank)
        \<and> scheduledstart (ftl_vfl_cxt s' bank) = scheduledstart (ftl_vfl_cxt s bank))"

lemma same_layout_refl [simp]: "same_layout s s"
  by (simp add: same_layout_def)

lemma same_layout_trans: "same_layout s s' \<Longrightarrow> same_layout s' s'' \<Longrightarrow> same_layout s s''"
  by (simp add: same_layout_def)

lemma same_layout_physical:
  assumes "same_layout s s'"
  shows "ftl_vfl_get_physical_block bank b s' = ftl_vfl_get_physical_block bank b s" "phys bank b s' = phys bank b s"
  using assms by (simp_all add: same_layout_def ftl_vfl_get_physical_block_def ftl_vfl_is_good_block_def phys_def Let_def
      split: option.split)

lemma same_layout:
  assumes "same_layout s s'"
  shows "geo_ok s' = geo_ok s" "phys_ok s' = phys_ok s" "loc s' = loc s" "vpages s' = vpages s" "vblocks s' = vblocks s"
    "ppb s' = ppb s" "ftl_banks s' = ftl_banks s" "userblocks s' = userblocks s" "pagesperblock s' = pagesperblock s"
    "abs_page v s' = abs_page v s" "locate_page a s' = locate_page a s"
    "ftl_vfl_check_remap_scheduled bank b s' = ftl_vfl_check_remap_scheduled bank b s"
proof -
  note l = assms [unfolded same_layout_def] and p = same_layout_physical [OF assms]
  show "geo_ok s' = geo_ok s" using l by (simp add: geo_ok_def)
  show "phys_ok s' = phys_ok s" using l p by (simp add: phys_ok_def)
  show "loc s' = loc s" using l p by (simp add: loc_def fun_eq_iff)
  show "vpages s' = vpages s" "vblocks s' = vblocks s" "abs_page v s' = abs_page v s" "ppb s' = ppb s" "ftl_banks s' = ftl_banks s"
    "userblocks s' = userblocks s" "pagesperblock s' = pagesperblock s"
    using l by (simp_all add: vpages_def vblocks_def abs_page_def)
  show "locate_page a s' = locate_page a s" using l p by (simp add: locate_page_def Let_def)
  show "ftl_vfl_check_remap_scheduled bank b s' = ftl_vfl_check_remap_scheduled bank b s"
    using l by (simp add: ftl_vfl_check_remap_scheduled_def Let_def)
qed

lemma same_layout_nand [simp]: "same_layout s (s\<lparr>nand := n\<rparr>)"
  by (simp add: same_layout_def)

lemmas nand_layout = same_layout [OF same_layout_nand]

lemma vcont_nand: "vcont cont (s\<lparr>nand := n\<rparr>) v = cont n (fst (loc s v)) (snd (loc s v))"
  by (simp add: vcont_def nand_layout)

section \<open>Reading\<close>

definition runs_on :: "'n nand_driver \<Rightarrow> 'n contents \<Rightarrow> 'n ftl \<Rightarrow> bool" where
  "runs_on dev cont s \<longleftrightarrow> geo_ok s \<and> phys_ok s \<and> working dev cont (ftl_banks s) (pagesperblock s)"

lemma runs_onD:
  assumes "runs_on dev cont s"
  shows "geo_ok s" "phys_ok s" "working dev cont (ftl_banks s) (pagesperblock s)"
  using assms by (simp_all add: runs_on_def)

lemma runs_on_layout: "same_layout s s' \<Longrightarrow> runs_on dev cont s' = runs_on dev cont s"
  by (simp add: runs_on_def same_layout)

lemma runs_on_nand [simp]: "runs_on dev cont (s\<lparr>nand := n\<rparr>) = runs_on dev cont s"
  by (rule runs_on_layout [OF same_layout_nand])

lemma vfl_read:
  assumes r: "runs_on dev cont s" and v: "v < vpages s"
  obtains rc b x n where "ftl_vfl_read dev v buf sp True f s = Some (Done (rc, b, x), s\<lparr>nand := n\<rparr>)" "cont n = cont (nand s)"
    "case vcont cont s v of Some (d, y) \<Rightarrow> rc AND 0x11F = 0 \<and> b = d \<and> x = y | None \<Rightarrow> rc AND 2 \<noteq> 0"
proof -
  note R = runs_onD [OF r]
  note a = abs_in_range [OF R(1) v] and l = loc_page [OF R(1,2) v]
  from read_page [OF R(3) loc_bank [OF R(1)], where p = "snd (loc s v)" and buf = buf and sp = sp and ce = True and n = "nand s"] obtain rc b x n where
    n: "nand_read_page dev (fst (loc s v)) (snd (loc s v)) buf sp True (nand s) = ((rc, b, x), n)" "cont n = cont (nand s)"
    "case cont (nand s) (fst (loc s v)) (snd (loc s v)) of Some (d, y) \<Rightarrow> rc AND 0x11F = 0 \<and> b = d \<and> x = y
      | None \<Rightarrow> True \<longrightarrow> rc AND 2 \<noteq> 0" .
  then have c: "case vcont cont s v of Some (d, y) \<Rightarrow> rc AND 0x11F = 0 \<and> b = d \<and> x = y | None \<Rightarrow> rc AND 2 \<noteq> 0"
    by (auto simp: vcont_def split: option.splits)
  have "\<not> trouble rc" using c not_trouble [of rc] by (auto simp: trouble_def split: option.splits)
  then have "ftl_vfl_read dev v buf sp True f s = Some (Done (rc, b, x), s\<lparr>nand := n\<rparr>)"
    using a(2,3,5,8,10,11) l n(1) by (simp add: ftl_vfl_read_def Let_def finish_def)
  from this n(2) c show ?thesis by (rule that)
qed

section \<open>The fast read of all banks\<close>

lemma bit_nibble: "bit (nibble i rc) n \<longleftrightarrow> n < 4 \<and> bit rc (4 * i + n)"
  by (simp add: nibble_def bit_take_bit_iff bit_drop_bit_eq)

lemma drop_bit_nibble:
  assumes "take_bit 4 m = (m :: nat)"
  shows "drop_bit (4 * i) rc AND m = nibble i rc AND m"
proof -
  have "drop_bit (4 * i) rc AND take_bit 4 m = nibble i rc AND take_bit 4 m"
    unfolding nibble_def by (simp add: bit_eq_iff bit_and_iff bit_take_bit_iff) auto
  with assms show ?thesis by simp
qed

lemma push_bit_nibble:
  assumes "take_bit 4 m = (m :: nat)"
  shows "rc AND push_bit (4 * i) m = 0 \<longleftrightarrow> nibble i rc AND m = 0"
proof -
  have "rc AND push_bit (4 * i) m = push_bit (4 * i) (drop_bit (4 * i) rc AND m)"
    by (rule bit_eqI) (auto simp: bit_and_iff bit_push_bit_iff bit_drop_bit_eq)
  then show ?thesis by (simp only: drop_bit_nibble [OF assms] push_bit_eq_0_iff)
qed

lemma nibble_zero: "nibble i 0 = 0"
  by (simp add: nibble_def)

lemma add_result_good: "ret AND 0x11F = 0 \<Longrightarrow> add_result i ret rc = rc"
  using no_error_bits(1-4) [of ret] by (simp only: add_result_def) simp

lemma nibble_or: "nibble j (a OR b) = nibble j a OR nibble j b"
  by (simp add: nibble_def)

lemma nibble_push: "take_bit 4 c = c \<Longrightarrow> nibble j (push_bit (4 * i) c) = (if j = i then c else 0)"
proof -
  assume c: "take_bit 4 c = c"
  have "nibble j (push_bit (4 * i) (take_bit 4 c)) = (if j = i then take_bit 4 c else 0)"
    by (rule bit_eqI) (auto simp: bit_nibble bit_push_bit_iff bit_take_bit_iff)
  then show ?thesis by (simp only: c)
qed

lemma nibble_if_push: "take_bit 4 c = c \<Longrightarrow> nibble j (if b then push_bit (4 * i) c else 0) = (if b \<and> j = i then c else 0)"
  by (cases b) (simp_all only: nibble_push nibble_zero if_True if_False simp_thms)

lemma nibble_add_result: "nibble j (add_result i ret rc) = (if j = i then nibble j rc
     OR (if ret AND 1 \<noteq> 0 then 1 else 0) OR (if ret AND 2 \<noteq> 0 then 2 else 0)
     OR (if ret AND 0x10 \<noteq> 0 then 4 else 0) OR (if ret AND 0x100 \<noteq> 0 then 8 else 0) else nibble j rc)"
proof -
  have t: "take_bit 4 1 = (1 :: nat)" "take_bit 4 2 = (2 :: nat)" "take_bit 4 4 = (4 :: nat)" "take_bit 4 8 = (8 :: nat)" by simp_all
  show ?thesis
    unfolding add_result_def nibble_or nibble_if_push [OF t(1)] nibble_if_push [OF t(2)] nibble_if_push [OF t(3)] nibble_if_push [OF t(4)]
    by (cases "j = i") (simp_all only: simp_thms if_True if_False or.right_neutral)
qed

lemma add_result_erased: "ret AND 2 \<noteq> 0 \<Longrightarrow> nibble i (add_result i ret rc) AND 2 \<noteq> 0"
proof -
  assume "ret AND 2 \<noteq> 0"
  then have "bit (nibble i (add_result i ret rc)) 1"
    unfolding nibble_add_result by (simp add: bit_or_iff bit_numeral_rec bit_0)
  then have "bit (nibble i (add_result i ret rc) AND 2) 1" by (simp add: bit_and_iff bit_numeral_rec bit_0)
  then show ?thesis by (metis bit_0_eq bot_fun_def bot_bool_def)
qed

text \<open>What a fast read says of a bank.\<close>

definition fast_ok :: "(page \<times> ftl_spare_data_type) option \<Rightarrow> nat \<Rightarrow> page \<Rightarrow> ftl_spare_data_type \<Rightarrow> bool" where
  "fast_ok c nib b x \<longleftrightarrow> (case c of Some (d, y) \<Rightarrow> nib = 0 \<and> b = d \<and> x = y
     | None \<Rightarrow> nib AND 2 \<noteq> 0 \<or> nib = 0 \<and> sp_eccmark x = 0xFF)"

lemma physical_foldM:
  assumes "\<And>i. i \<in> set xs \<Longrightarrow> ftl_vfl_get_physical_block i block s = Some (phys i block s)"
  shows "foldM (\<lambda>i r. ftl_vfl_get_physical_block i block s \<bind> (\<lambda>b. Some (r \<or> b \<noteq> block))) xs r
      = Some (r \<or> (\<exists>i \<in> set xs. phys i block s \<noteq> block))"
  using assms by (induction xs arbitrary: r) auto

lemma loc_aligned:
  assumes g: "geo_ok s" and v: "v + ftl_banks s \<le> vpages s" and b: "abs_page v s mod ftl_banks s = 0" and i: "i < ftl_banks s"
  shows "loc s (v + i) = (i, phys i (abs_page v s div ppb s) s * pagesperblock s + abs_page v s div ftl_banks s mod pagesperblock s)"
proof -
  note p = geo [OF g]
  have v': "v < vpages s" using v i by simp
  have a: "abs_page v s = v + ppb s * syshyperblocks s" by (rule abs_in_range(1) [OF g v'])
  obtain q where q: "abs_page v s = ftl_banks s * q" using b by auto
  then have e: "v + i + ppb s * syshyperblocks s = ftl_banks s * q + i" using a by simp
  have "(ftl_banks s * q + i) div ftl_banks s = q" "(ftl_banks s * q + i) mod ftl_banks s = i" using i by simp_all
  moreover have "x div ppb s = x div ftl_banks s div pagesperblock s" for x using p(5) by (simp add: div_mult2_eq mult.commute)
  moreover have "abs_page v s div ftl_banks s = q" using q p(2) by simp
  ultimately show ?thesis by (simp add: loc_def Let_def e)
qed

lemma vfl_read_fast:
  assumes r: "runs_on dev cont s" and v: "v + ftl_banks s \<le> vpages s"
  obtains rc bs xs n where "ftl_vfl_read_fast dev v bufs sps True f s = Some (Done (rc, bs, xs), s\<lparr>nand := n\<rparr>)"
    "cont n = cont (nand s)" "\<forall>i \<ge> ftl_banks s. bs i = bufs i"
    "\<forall>i < ftl_banks s. fast_ok (vcont cont s (v + i)) (nibble i rc) (bs i) (xs i)"
proof -
  note R = runs_onD [OF r] and p = geo [OF runs_onD(1) [OF r]]
  have v': "v < vpages s" using v p(2) by simp
  note a = abs_in_range [OF R(1) v']
  let ?a = "abs_page v s" and ?b = "abs_page v s div ppb s"
  have "v + ftl_banks s - 1 < vpages s" using v p(2) by simp
  note b = abs_in_range(1,3) [OF R(1) this]
  have "?a + ftl_banks s - 1 = abs_page (v + ftl_banks s - 1) s" using a(1) b(1) p(2) by simp
  with b(2) a(4) have last: "u32_mod (?a + ftl_banks s - 1) < blocks s * ppb s" by simp
  have ph: "ftl_vfl_get_physical_block i ?b s = Some (phys i ?b s)" if "i \<in> set [0..<ftl_banks s]" for i
    using R(2) a(6,7) that by (simp add: phys_ok_def)
  let ?rem = "\<exists>i \<in> set [0..<ftl_banks s]. phys i ?b s \<noteq> ?b"
  have fm: "foldM (\<lambda>i r. ftl_vfl_get_physical_block i ?b s \<bind> (\<lambda>b. Some (r \<or> b \<noteq> ?b))) [0..<ftl_banks s] False
      = Some (False \<or> ?rem)" by (rule physical_foldM) (rule ph)
  show ?thesis
  proof (cases "?a mod ftl_banks s \<noteq> 0 \<or> ?rem")
    case True
    let ?body = "\<lambda>i (rc, bufs, sps). andthen (ftl_vfl_read dev (v + i) (bufs i) (sps i) True f)
      (\<lambda>(ret, buf, sp). finish (Go (add_result i ret rc, bufs(i := buf), sps(i := sp)) :: (nat \<times> (nat \<Rightarrow> page) \<times> (nat \<Rightarrow> ftl_spare_data_type), nat \<times> (nat \<Rightarrow> page) \<times> (nat \<Rightarrow> ftl_spare_data_type)) turn))"
    let ?P = "\<lambda>k (rc, bs, xs) s'. (\<exists>n. s' = s\<lparr>nand := n\<rparr> \<and> cont n = cont (nand s)) \<and> (\<forall>i \<ge> ftl_banks s. bs i = bufs i)
      \<and> (\<forall>i \<ge> k. nibble i rc = 0) \<and> (\<forall>i < k. fast_ok (vcont cont s (v + i)) (nibble i rc) (bs i) (xs i))"
    have "\<exists>x' s'. for_each [0..<ftl_banks s] ?body (0, bufs, sps) s = Some (Done (Go x'), s') \<and> ?P (length [0..<ftl_banks s]) x' s'"
    proof (rule for_each_runs)
      show "?P 0 (0, bufs, sps) s" by (simp add: nibble_zero exI [of _ "nand s"])
      fix k x s' assume k: "k < length [0..<ftl_banks s]" and P: "?P k x s'"
      obtain rc bs xs where x: "x = (rc, bs, xs)" by (cases x)
      from P x obtain n where n: "s' = s\<lparr>nand := n\<rparr>" "cont n = cont (nand s)" by auto
      have r': "runs_on dev cont s'" "v + k < vpages s'" using r n k v by (simp_all add: nand_layout)
      have vc: "vcont cont s' = vcont cont s" using n by (simp add: vcont_def nand_layout fun_eq_iff)
      from vfl_read [OF r', where buf = "bs k" and sp = "xs k" and f = f] obtain ret b y n' where
        rd: "ftl_vfl_read dev (v + k) (bs k) (xs k) True f s' = Some (Done (ret, b, y), s'\<lparr>nand := n'\<rparr>)" "cont n' = cont (nand s')"
        "case vcont cont s' (v + k) of Some (d, z) \<Rightarrow> ret AND 0x11F = 0 \<and> b = d \<and> y = z | None \<Rightarrow> ret AND 2 \<noteq> 0" .
      have ok: "fast_ok (vcont cont s (v + k)) (nibble k (add_result k ret rc)) b y"
        using rd(3) P x add_result_good [of ret k rc] add_result_erased [of ret k rc]
        unfolding vc fast_ok_def by (auto split: option.splits)
      have oth: "nibble j (add_result k ret rc) = nibble j rc" if "j \<noteq> k" for j using that by (simp add: nibble_add_result)
      have b1: "?body ([0..<ftl_banks s] ! k) x s' = Some (Done (Go (add_result k ret rc, bs(k := b), xs(k := y))), s'\<lparr>nand := n'\<rparr>)"
        using rd(1) k x by (simp add: finish_def)
      have b2: "?P (Suc k) (add_result k ret rc, bs(k := b), xs(k := y)) (s'\<lparr>nand := n'\<rparr>)"
      proof -
        have "\<exists>m. s'\<lparr>nand := n'\<rparr> = s\<lparr>nand := m\<rparr> \<and> cont m = cont (nand s)"
          using n rd(2) by (intro exI [of _ n']) simp
        moreover have "\<forall>i \<ge> ftl_banks s. (bs(k := b)) i = bufs i" using P x k by simp
        moreover have "\<forall>i \<ge> Suc k. nibble i (add_result k ret rc) = 0" using P x by (simp add: oth)
        moreover have "fast_ok (vcont cont s (v + i)) (nibble i (add_result k ret rc)) ((bs(k := b)) i) ((xs(k := y)) i)"
          if i: "i < Suc k" for i
        proof (cases "i = k")
          case True
          then show ?thesis using ok by simp
        next
          case False
          then show ?thesis using P x i oth [OF False] by simp
        qed
        ultimately show ?thesis by simp
      qed
      show "\<exists>x' s''. ?body ([0..<ftl_banks s] ! k) x s' = Some (Done (Go x'), s'') \<and> ?P (Suc k) x' s''"
        by (rule exI, rule exI, rule conjI [OF b1 b2])
    qed
    then obtain x s' where xs': "for_each [0..<ftl_banks s] ?body (0, bufs, sps) s = Some (Done (Go x), s')"
      "?P (length [0..<ftl_banks s]) x s'" by (elim exE conjE) (rule that)
    from xs'(2) have P: "?P (ftl_banks s) x s'" by (simp only: length_upt diff_zero)
    obtain rc bs xs where x: "x = (rc, bs, xs)" by (cases x)
    with P obtain n where n: "s' = s\<lparr>nand := n\<rparr>" "cont n = cont (nand s)" "\<forall>i \<ge> ftl_banks s. bs i = bufs i"
      "\<forall>i < ftl_banks s. fast_ok (vcont cont s (v + i)) (nibble i rc) (bs i) (xs i)" by (simp only: prod.case) blast
    note l = xs'(1) [unfolded x n(1)] n(2-4)
    have ul: "unless_left (for_each [0..<ftl_banks s] ?body (0, bufs, sps)) finish s = finish (rc, bs, xs) (s\<lparr>nand := n\<rparr>)"
      by (rule unless_left_Go) (rule l(1))
    have "ftl_vfl_read_fast dev v bufs sps True f s = Some (Done (rc, bs, xs), s\<lparr>nand := n\<rparr>)"
      unfolding ftl_vfl_read_fast_def Let_def a(5,8,10,11) fm
      using last a(2,3) True ul by (simp add: finish_def)
    from this l(2-4) show ?thesis by (rule that)
  next
    case False
    then have b0: "?a mod ftl_banks s = 0" and nr: "\<not> ?rem" by auto
    let ?p = "u32_mod (?b * pagesperblock s + ?a div ftl_banks s mod pagesperblock s)"
    have lc: "loc s (v + i) = (i, ?p)" if "i < ftl_banks s" for i
    proof -
      have "loc s (v + i) = (i, phys i ?b s * pagesperblock s + ?a div ftl_banks s mod pagesperblock s)"
        by (rule loc_aligned [OF R(1) v b0 that])
      moreover have "phys i ?b s = ?b" using nr that by auto
      moreover have "u32_mod (phys (?a mod ftl_banks s) ?b s * pagesperblock s + ?a div ftl_banks s mod pagesperblock s) = snd (loc s v)"
        by (rule loc_page(2) [OF R(1,2) v'])
      moreover have "phys 0 ?b s = ?b" using nr p(2) by auto
      ultimately show ?thesis using loc_aligned [OF R(1) v b0 p(2)] b0 by simp
    qed
    obtain rc bs xs n where rd: "nand_read_page_fast dev ?p bufs sps True (nand s) = ((rc, bs, xs), n)" by (metis prod_cases3 surj_pair)
    have ok: "cont n = cont (nand s)" "\<forall>i \<ge> ftl_banks s. bs i = bufs i"
      "\<forall>i < ftl_banks s. fast_ok (vcont cont s (v + i)) (nibble i rc) (bs i) (xs i)"
      using workingD(2) [OF R(3), unfolded reads_fast_def, rule_format, where n = "nand s" and p = ?p and bufs = bufs and sps = sps] rd lc
      by (simp_all add: vcont_def fast_ok_def)
    let ?s = "s\<lparr>nand := n\<rparr>"
    let ?fix = "\<lambda>i (rc, bufs, sps). let st = drop_bit (4 * i) rc in
        if st AND 2 \<noteq> 0 \<or> st AND 0xd = 0 then finish (Go (rc, bufs, sps))
        else
          let rc = rc AND (0xffffffff XOR push_bit (4 * i) 0xf) in
          andthen (chip (nand_reset dev i)) (\<lambda>_.
          andthen (chip (nand_read_page dev i ?p (bufs i) (sps i) True)) (\<lambda>(ret, buf, sp).
          andthen (if f \<and> trouble ret then ftl_vfl_schedule_block_for_remap i ?b else finish ()) (\<lambda>_.
          finish (Go (add_result i ret rc, bufs(i := buf), sps(i := sp)) :: (nat \<times> (nat \<Rightarrow> page) \<times> (nat \<Rightarrow> ftl_spare_data_type), nat \<times> (nat \<Rightarrow> page) \<times> (nat \<Rightarrow> ftl_spare_data_type)) turn))))"
    have skip: "?fix i (rc, bs, xs) ?s = Some (Done (Go (rc, bs, xs)), ?s)" if "i < ftl_banks s" for i
    proof -
      have "nibble i rc AND 2 \<noteq> 0 \<or> nibble i rc = 0" using ok(3) that unfolding fast_ok_def by (auto split: option.splits)
      moreover have "drop_bit (4 * i) rc AND 2 = nibble i rc AND 2" "drop_bit (4 * i) rc AND 0xd = nibble i rc AND 0xd"
        by (rule drop_bit_nibble, simp)+
      ultimately have "drop_bit (4 * i) rc AND 2 \<noteq> 0 \<or> drop_bit (4 * i) rc AND 0xd = 0" by auto
      then show ?thesis by (simp only: prod.case Let_def if_True finish_def)
    qed
    have fx: "for_each [0..<ftl_banks s] ?fix (rc, bs, xs) ?s = Some (Done (Go (rc, bs, xs)), ?s)"
      by (rule for_each_skips, rule skip) simp
    have ul: "unless_left (for_each [0..<ftl_banks s] ?fix (rc, bs, xs)) finish ?s = finish (rc, bs, xs) ?s"
      by (rule unless_left_Go) (rule fx)
    have "ftl_vfl_read_fast dev v bufs sps True f s = Some (Done (rc, bs, xs), ?s)"
      unfolding ftl_vfl_read_fast_def Let_def a(5,8,10,11) fm
      using last a(2,3) False rd ul [unfolded Let_def]
      by (simp add: finish_def nand_layout)
    from this ok show ?thesis by (rule that)
  qed
qed

section \<open>Writing\<close>

text \<open>The pages from \<open>v\<close> on, after a write; other pages of the banks are as before.\<close>

definition written :: "'n contents \<Rightarrow> 'n ftl \<Rightarrow> nat \<Rightarrow> nat \<Rightarrow> (nat \<Rightarrow> page) \<Rightarrow> (nat \<Rightarrow> ftl_spare_data_type) \<Rightarrow> 'n \<Rightarrow> bool" where
  "written cont s v count bufs sps n \<longleftrightarrow>
     (\<forall>i < count. cont n (fst (loc s (v + i))) (snd (loc s (v + i))) = Some (bufs i, sps i))
     \<and> (\<forall>b p. (\<forall>i < count. loc s (v + i) \<noteq> (b, p)) \<longrightarrow> cont n b p = cont (nand s) b p)"

lemma locate_page_loc:
  assumes "geo_ok s" "phys_ok s" "v < vpages s"
  shows "locate_page (abs_page v s) s = Some (loc s v)"
proof -
  note l = loc_page [OF assms] and p = geo(5) [OF assms(1)]
  have "abs_page v s div (pagesperblock s * ftl_banks s) = abs_page v s div ppb s" using p by simp
  then show ?thesis using l by (simp add: locate_page_def Let_def prod_eq_iff)
qed

lemma collect_keeps:
  assumes "working dev cont banks pages" and "fst b < banks"
  obtains n where "collect_write dev b s = Some (Done (), s\<lparr>nand := n\<rparr>)" "cont n = cont (nand s)"
proof -
  from write_collect [OF assms, of "nand s"] obtain n where "nand_write_page_collect dev (fst b) (nand s) = (0, n)" "cont n = cont (nand s)" .
  then show ?thesis by (intro that [of n]) (simp_all add: collect_write_def finish_def)
qed

lemma start_writes:
  assumes "working dev cont banks pages" and "fst b < banks" and "cont (nand s) (fst b) (snd b) = None"
  obtains n where "start_write dev b d y s = Some (Done (), s\<lparr>nand := n\<rparr>)"
    "cont n = (cont (nand s))(fst b := (cont (nand s) (fst b))(snd b := Some (d, y)))"
proof -
  from write_start [OF assms, where d = d and y = y] obtain n where "nand_write_page_start dev (fst b) (snd b) d y (nand s) = (0, n)"
    "cont n = (cont (nand s))(fst b := (cont (nand s) (fst b))(snd b := Some (d, y)))" .
  then show ?thesis by (intro that [of n]) (simp_all add: start_write_def finish_def)
qed

lemma vfl_write:
  assumes r: "runs_on dev cont s" and v: "v + count \<le> vpages s" "0 < count"
    and e: "\<forall>i < count. vcont cont s (v + i) = None"
  obtains n where "ftl_vfl_write dev v count bufs sps s = Some (Done 0, s\<lparr>nand := n\<rparr>)" "written cont s v count bufs sps n"
proof -
  note R = runs_onD [OF r] and p = geo [OF runs_onD(1) [OF r]]
  have v': "v < vpages s" using v by simp
  note a = abs_in_range [OF R(1) v']
  let ?a = "abs_page v s"
  have abs: "abs_page (v + i) s = ?a + i" "u32_mod (?a + i) = ?a + i" if "i < count" for i
    using abs_in_range(1,3,4) [OF R(1), of "v + i"] a(1) v that by simp_all
  have "v + count - 1 < vpages s" using v by simp
  note b = abs_in_range(1,3) [OF R(1) this]
  have "?a + count \<le> blocks s * ppb s" using a(1) b v(2) by simp
  with a(4) have lim: "\<not> blocks s * ppb s < u32_mod (?a + count)" using mod_less_eq_dividend le_trans by (metis not_less)
  let ?body = "\<lambda>i started s. do {
        b \<leftarrow> locate_page (u32_mod (?a + i)) s;
        let started = b # started;
        andthen (if ftl_banks s \<le> i then collect_write dev (started ! ftl_banks s) else finish ()) (\<lambda>_.
        andthen (start_write dev b (bufs i) (sps i)) (\<lambda>_.
        finish (Go started :: ((nat \<times> nat) list, nat) turn))) s }"
  let ?P = "\<lambda>k (started :: (nat \<times> nat) list) s'. length started = k \<and> (\<forall>b \<in> set started. fst b < ftl_banks s)
      \<and> (\<exists>n. s' = s\<lparr>nand := n\<rparr> \<and> written cont s v k bufs sps n)"
  have "\<exists>x' s'. for_each [0..<count] ?body [] s = Some (Done (Go x'), s') \<and> ?P (length [0..<count]) x' s'"
  proof (rule for_each_runs)
    show "?P 0 [] s" by (simp add: written_def exI [of _ "nand s"])
    fix k x s' assume k: "k < length [0..<count]" and P: "?P k x s'"
    then obtain n where n: "s' = s\<lparr>nand := n\<rparr>" "written cont s v k bufs sps n" by blast
    let ?l = "loc s (v + k)"
    have vk: "v + k < vpages s" "k < count" using k v by simp_all
    have lo: "locate_page (u32_mod (?a + k)) s' = Some ?l"
      using locate_page_loc [OF R(1,2) vk(1)] abs [OF vk(2)] n(1) by (simp add: nand_layout)
    have lb: "fst ?l < ftl_banks s" by (rule loc_bank [OF R(1)])
    have bnk: "fst ((?l # x) ! j) < ftl_banks s" if "j \<le> length x" for j using P lb that by (cases j) auto
    obtain n1 where n1: "andthen (if ftl_banks s' \<le> k then collect_write dev ((?l # x) ! ftl_banks s') else finish ()) (\<lambda>_.
        andthen (start_write dev ?l (bufs k) (sps k)) (\<lambda>_. finish (Go (?l # x) :: ((nat \<times> nat) list, nat) turn))) s'
        = andthen (start_write dev ?l (bufs k) (sps k)) (\<lambda>_. finish (Go (?l # x) :: ((nat \<times> nat) list, nat) turn)) (s\<lparr>nand := n1\<rparr>)" "cont n1 = cont n"
    proof (cases "ftl_banks s \<le> k")
      case True
      then have "fst ((?l # x) ! ftl_banks s) < ftl_banks s" using P by (intro bnk) simp
      from collect_keeps [OF R(3) this, of s'] obtain n1 where
        "collect_write dev ((?l # x) ! ftl_banks s) s' = Some (Done (), s'\<lparr>nand := n1\<rparr>)" "cont n1 = cont (nand s')" .
      with True n(1) show ?thesis by (intro that [of n1]) (simp_all add: nand_layout)
    next
      case False
      with n(1) show ?thesis by (intro that [of n]) (simp_all add: nand_layout)
    qed
    have "\<forall>i < k. loc s (v + i) \<noteq> ?l" 
    proof (intro allI impI notI)
      fix i assume "i < k" "loc s (v + i) = ?l"
      with loc_inj [OF R(1,2), of "v + i" "v + k"] vk(1) show False by simp
    qed
    then have "cont n (fst ?l) (snd ?l) = cont (nand s) (fst ?l) (snd ?l)" using n(2) by (simp add: written_def)
    also have "\<dots> = None" using e vk(2) by (simp add: vcont_def)
    finally have "cont (nand (s\<lparr>nand := n1\<rparr>)) (fst ?l) (snd ?l) = None" using n1(2) by simp
    from start_writes [OF R(3) lb this, where d = "bufs k" and y = "sps k"] obtain n2 where
      n2: "start_write dev ?l (bufs k) (sps k) (s\<lparr>nand := n1\<rparr>) = Some (Done (), s\<lparr>nand := n2\<rparr>)"
      "cont n2 = (cont n)(fst ?l := (cont n (fst ?l))(snd ?l := Some (bufs k, sps k)))" using n1(2) by auto
    have "?body ([0..<count] ! k) x s' = Some (Done (Go (?l # x)), s\<lparr>nand := n2\<rparr>)"
      using lo n1(1) n2(1) k by (simp add: finish_def Let_def split del: if_split)
    moreover have "written cont s v (Suc k) bufs sps n2"
    proof -
      have "cont n2 (fst (loc s (v + i))) (snd (loc s (v + i))) = Some (bufs i, sps i)" if "i < Suc k" for i
      proof (cases "i = k")
        case False
        then have "i < k" using that by simp
        moreover from this have "loc s (v + i) \<noteq> ?l" using \<open>\<forall>i < k. loc s (v + i) \<noteq> ?l\<close> by blast
        ultimately show ?thesis using n(2) n2(2) by (auto simp: written_def prod_eq_iff)
      qed (simp add: n2(2))
      moreover have "cont n2 b p = cont (nand s) b p" if "\<forall>i < Suc k. loc s (v + i) \<noteq> (b, p)" for b p
        using that n(2) n2(2) by (auto simp: written_def prod_eq_iff less_Suc_eq)
      ultimately show ?thesis by (simp add: written_def)
    qed
    moreover have "length (?l # x) = Suc k" "\<forall>b \<in> set (?l # x). fst b < ftl_banks s" using P lb by auto
    ultimately show "\<exists>x' s''. ?body ([0..<count] ! k) x s' = Some (Done (Go x'), s'') \<and> ?P (Suc k) x' s''" by blast
  qed
  then obtain st n where l: "for_each [0..<count] ?body [] s = Some (Done (Go st), s\<lparr>nand := n\<rparr>)" "length st = count"
    "\<forall>b \<in> set st. fst b < ftl_banks s" "written cont s v count bufs sps n" by auto
  have ul: "unless_left (for_each [0..<count] ?body []) rest s = rest st (s\<lparr>nand := n\<rparr>)" for rest
    by (rule unless_left_Go) (rule l(1))
  let ?fin = "\<lambda>i _. andthen (collect_write dev (st ! i)) (\<lambda>_. finish (Go () :: (unit, nat) turn))"
  let ?is = "rev [0..<min count (ftl_banks s)]"
  have "\<exists>x' s'. for_each ?is ?fin () (s\<lparr>nand := n\<rparr>) = Some (Done (Go x'), s') \<and> (\<exists>m. s' = s\<lparr>nand := m\<rparr> \<and> cont m = cont n)"
  proof (rule for_each_runs [of "\<lambda>_ _ s'. \<exists>m. s' = s\<lparr>nand := m\<rparr> \<and> cont m = cont n"])
    show "\<exists>m. s\<lparr>nand := n\<rparr> = s\<lparr>nand := m\<rparr> \<and> cont m = cont n" by blast
    fix k x s' assume k: "k < length ?is" and P: "\<exists>m. s' = s\<lparr>nand := m\<rparr> \<and> cont m = cont n"
    then obtain m where m: "s' = s\<lparr>nand := m\<rparr>" "cont m = cont n" by blast
    have "?is ! k \<in> set ?is" using k by (rule nth_mem)
    then have "?is ! k < length st" using l(2) by simp
    then have "fst (st ! (?is ! k)) < ftl_banks s" using l(3) by simp
    from collect_keeps [OF R(3) this, of s'] obtain m' where
      "collect_write dev (st ! (?is ! k)) s' = Some (Done (), s'\<lparr>nand := m'\<rparr>)" "cont m' = cont (nand s')" .
    with m show "\<exists>x' s''. ?fin (?is ! k) x s' = Some (Done (Go x'), s'') \<and> (\<exists>m. s'' = s\<lparr>nand := m\<rparr> \<and> cont m = cont n)"
      by (intro exI [of _ "()"] exI [of _ "s\<lparr>nand := m'\<rparr>"]) (auto simp: finish_def)
  qed
  then obtain m where m: "for_each ?is ?fin () (s\<lparr>nand := n\<rparr>) = Some (Done (Go ()), s\<lparr>nand := m\<rparr>)" "cont m = cont n" by auto
  have "ftl_vfl_write dev v count bufs sps s = Some (Done 0, s\<lparr>nand := m\<rparr>)"
    unfolding ftl_vfl_write_def Let_def a(5) using lim a(2) ul [unfolded Let_def] m(1)
    by (simp add: unless_left_def finish_def nand_layout)
  moreover have "written cont s v count bufs sps m" using l(4) m(2) by (simp add: written_def)
  ultimately show ?thesis by (rule that)
qed

lemma written_vcont:
  assumes "written cont s v count bufs sps n" and "geo_ok s" "phys_ok s" "v + count \<le> vpages s" "w < vpages s"
  shows "vcont cont (s\<lparr>nand := n\<rparr>) w = (if v \<le> w \<and> w < v + count then Some (bufs (w - v), sps (w - v)) else vcont cont s w)"
proof (cases "v \<le> w \<and> w < v + count")
  case True
  then have "w = v + (w - v)" "w - v < count" by auto
  with assms(1) True show ?thesis unfolding vcont_nand written_def by (metis (no_types, lifting))
next
  case False
  have "loc s (v + i) \<noteq> loc s w" if "i < count" for i
    using loc_inj [OF assms(2,3), of "v + i" w] assms(4,5) that False by auto
  then have "\<forall>i < count. loc s (v + i) \<noteq> (fst (loc s w), snd (loc s w))" by simp
  with assms(1) False show ?thesis unfolding vcont_nand written_def by (auto simp: vcont_def)
qed

end
