(* ===== verification/FtlPool.thy ===== *)
theory FtlPool
  imports FtlPages
begin

text \<open>
  Erasing virtual blocks, and the pool of free blocks: its ring buffer as a list, from which a block is taken
  and erased, and to which a block is given back.
\<close>

section \<open>The parts of the state\<close>

lemma upd_cxt_fields [simp]:
  shows "fkern (upd_cxt f s) = fkern s" "ftl_mtx (upd_cxt f s) = ftl_mtx s"
    "ftl_initialized (upd_cxt f s) = ftl_initialized s" "nand (upd_cxt f s) = nand s"
    "ftl_nand_type (upd_cxt f s) = ftl_nand_type s" "ftl_banks (upd_cxt f s) = ftl_banks s"
    "ftl_banks_exponent (upd_cxt f s) = ftl_banks_exponent s" "ppb (upd_cxt f s) = ppb s"
    "ppb_exponent (upd_cxt f s) = ppb_exponent s" "syshyperblocks (upd_cxt f s) = syshyperblocks s"
    "ftl_map (upd_cxt f s) = ftl_map s" "ftl_erasectr (upd_cxt f s) = ftl_erasectr s"
    "ftl_erasectr_dirt (upd_cxt f s) = ftl_erasectr_dirt s" "ftl_vfl_cxt (upd_cxt f s) = ftl_vfl_cxt s"
    "ftl_vfl_usn (upd_cxt f s) = ftl_vfl_usn s" "behind_cxt (upd_cxt f s) = behind_cxt s"
    "ftl_bbt (upd_cxt f s) = ftl_bbt s" "ftl_log (upd_cxt f s) = ftl_log s"
    "ftl_troublelog (upd_cxt f s) = ftl_troublelog s" "ftl_buffer (upd_cxt f s) = ftl_buffer s"
    "ftl_sparebuffer (upd_cxt f s) = ftl_sparebuffer s" "ftl_copybuffer (upd_cxt f s) = ftl_copybuffer s"
    "ftl_copyspare (upd_cxt f s) = ftl_copyspare s" "ftl_cxt (upd_cxt f s) = f (ftl_cxt s)"
  by (simp_all add: upd_cxt_def)

lemma upd_log_fields [simp]:
  shows "fkern (upd_log e f s) = fkern s" "ftl_mtx (upd_log e f s) = ftl_mtx s"
    "ftl_initialized (upd_log e f s) = ftl_initialized s" "nand (upd_log e f s) = nand s"
    "ftl_nand_type (upd_log e f s) = ftl_nand_type s" "ftl_banks (upd_log e f s) = ftl_banks s"
    "ftl_banks_exponent (upd_log e f s) = ftl_banks_exponent s" "ppb (upd_log e f s) = ppb s"
    "ppb_exponent (upd_log e f s) = ppb_exponent s" "syshyperblocks (upd_log e f s) = syshyperblocks s"
    "ftl_map (upd_log e f s) = ftl_map s" "ftl_erasectr (upd_log e f s) = ftl_erasectr s"
    "ftl_erasectr_dirt (upd_log e f s) = ftl_erasectr_dirt s" "ftl_vfl_cxt (upd_log e f s) = ftl_vfl_cxt s"
    "ftl_vfl_usn (upd_log e f s) = ftl_vfl_usn s" "ftl_cxt (upd_log e f s) = ftl_cxt s"
    "behind_cxt (upd_log e f s) = behind_cxt s" "ftl_bbt (upd_log e f s) = ftl_bbt s"
    "ftl_troublelog (upd_log e f s) = ftl_troublelog s" "ftl_buffer (upd_log e f s) = ftl_buffer s"
    "ftl_sparebuffer (upd_log e f s) = ftl_sparebuffer s" "ftl_copybuffer (upd_log e f s) = ftl_copybuffer s"
    "ftl_copyspare (upd_log e f s) = ftl_copyspare s" "ftl_log (upd_log e f s) = (ftl_log s)(e := f (ftl_log s e))"
  by (simp_all add: upd_log_def)

lemma set_spare_fields [simp]:
  shows "fkern (set_spare i sp s) = fkern s" "ftl_mtx (set_spare i sp s) = ftl_mtx s"
    "ftl_initialized (set_spare i sp s) = ftl_initialized s" "nand (set_spare i sp s) = nand s"
    "ftl_nand_type (set_spare i sp s) = ftl_nand_type s" "ftl_banks (set_spare i sp s) = ftl_banks s"
    "ftl_banks_exponent (set_spare i sp s) = ftl_banks_exponent s" "ppb (set_spare i sp s) = ppb s"
    "ppb_exponent (set_spare i sp s) = ppb_exponent s" "syshyperblocks (set_spare i sp s) = syshyperblocks s"
    "ftl_map (set_spare i sp s) = ftl_map s" "ftl_erasectr (set_spare i sp s) = ftl_erasectr s"
    "ftl_erasectr_dirt (set_spare i sp s) = ftl_erasectr_dirt s" "ftl_vfl_cxt (set_spare i sp s) = ftl_vfl_cxt s"
    "ftl_vfl_usn (set_spare i sp s) = ftl_vfl_usn s" "ftl_cxt (set_spare i sp s) = ftl_cxt s"
    "behind_cxt (set_spare i sp s) = behind_cxt s" "ftl_bbt (set_spare i sp s) = ftl_bbt s"
    "ftl_log (set_spare i sp s) = ftl_log s" "ftl_troublelog (set_spare i sp s) = ftl_troublelog s"
    "ftl_buffer (set_spare i sp s) = ftl_buffer s" "ftl_copybuffer (set_spare i sp s) = ftl_copybuffer s"
    "ftl_copyspare (set_spare i sp s) = ftl_copyspare s"
    "ftl_sparebuffer (set_spare i sp s) = (ftl_sparebuffer s)(i := sp)"
  by (simp_all add: set_spare_def)

section \<open>The flash as an array of virtual pages\<close>

definition flash :: "'n contents \<Rightarrow> 'n ftl \<Rightarrow> nat \<Rightarrow> (page \<times> ftl_spare_data_type) option" where
  "flash cont s w = (if w < vpages s then vcont cont s w else None)"

text \<open>The pages of the banks that are not virtual pages are as before.\<close>

definition outside :: "'n contents \<Rightarrow> 'n ftl \<Rightarrow> 'n ftl \<Rightarrow> bool" where
  "outside cont s s' \<longleftrightarrow> (\<forall>bank p. (\<forall>w < vpages s. loc s w \<noteq> (bank, p)) \<longrightarrow> cont (nand s') bank p = cont (nand s) bank p)"

lemma same_flash:
  assumes "same_layout s s'" "cont (nand s') = cont (nand s)"
  shows "flash cont s' = flash cont s" "outside cont s s'"
  using assms same_layout [OF assms(1)] by (simp_all add: flash_def vcont_def outside_def fun_eq_iff)

lemma flash_written:
  assumes "same_layout s s'" "written cont s v count bufs sps (nand s')" "geo_ok s" "phys_ok s" "v + count \<le> vpages s"
  shows "flash cont s' = (\<lambda>w. if v \<le> w \<and> w < v + count then Some (bufs (w - v), sps (w - v)) else flash cont s w)"
    "outside cont s s'"
proof -
  note l = same_layout [OF assms(1)]
  have "vcont cont s' w = vcont cont (s\<lparr>nand := nand s'\<rparr>) w" for w by (simp add: vcont_def l nand_layout)
  then show "flash cont s' = (\<lambda>w. if v \<le> w \<and> w < v + count then Some (bufs (w - v), sps (w - v)) else flash cont s w)"
    using written_vcont [OF assms(2-5)] assms(5) by (auto simp: flash_def l fun_eq_iff)
  show "outside cont s s'" using assms(2,5) by (auto simp: outside_def written_def)
qed

section \<open>What the operations below leave alone\<close>

definition quiet :: "'n contents \<Rightarrow> 'n ftl \<Rightarrow> 'n ftl \<Rightarrow> bool" where
  "quiet cont s s' \<longleftrightarrow> same_layout s s' \<and> outside cont s s' \<and> ftl_vfl_cxt s' = ftl_vfl_cxt s \<and> ftl_vfl_usn s' = ftl_vfl_usn s
     \<and> ftl_mtx s' = ftl_mtx s \<and> ftl_initialized s' = ftl_initialized s
     \<and> ftl_map s' = ftl_map s \<and> ftl_log s' = ftl_log s
     \<and> c_usn (ftl_cxt s') = c_usn (ftl_cxt s) \<and> ftl_map_pages (ftl_cxt s') = ftl_map_pages (ftl_cxt s)
     \<and> ftl_erasectr_pages (ftl_cxt s') = ftl_erasectr_pages (ftl_cxt s)
     \<and> ftlctrlblocks (ftl_cxt s') = ftlctrlblocks (ftl_cxt s) \<and> ftlctrlpage (ftl_cxt s') = ftlctrlpage (ftl_cxt s)
     \<and> clean_flag (ftl_cxt s') = clean_flag (ftl_cxt s) \<and> kernel_same (fkern s) (fkern s')"

text \<open>The pool and the counters are as before, too.\<close>

definition same_pool :: "'n ftl \<Rightarrow> 'n ftl \<Rightarrow> bool" where
  "same_pool s s' \<longleftrightarrow> freecount (ftl_cxt s') = freecount (ftl_cxt s)
     \<and> nextfreeidx (ftl_cxt s') = nextfreeidx (ftl_cxt s) \<and> blockpool (ftl_cxt s') = blockpool (ftl_cxt s)"

definition still :: "'n contents \<Rightarrow> 'n ftl \<Rightarrow> 'n ftl \<Rightarrow> bool" where
  "still cont s s' \<longleftrightarrow> quiet cont s s' \<and> same_pool s s' \<and> ftl_erasectr s' = ftl_erasectr s"

lemma same_pool_refl [simp]: "same_pool s s"
  by (simp add: same_pool_def)

lemma same_pool_trans: "same_pool s s' \<Longrightarrow> same_pool s' s'' \<Longrightarrow> same_pool s s''"
  by (simp add: same_pool_def)

lemma outside_refl [simp]: "outside cont s s"
  by (simp add: outside_def)

lemma outside_trans: "same_layout s s' \<Longrightarrow> outside cont s s' \<Longrightarrow> outside cont s' s'' \<Longrightarrow> outside cont s s''"
  by (simp add: outside_def same_layout)

lemma quiet_refl [simp]: "quiet cont s s"
  by (simp add: quiet_def)

lemma quiet_trans: "quiet cont s s' \<Longrightarrow> quiet cont s' s'' \<Longrightarrow> quiet cont s s''"
  unfolding quiet_def by (simp add: same_layout_trans) (blast intro: same_layout_trans outside_trans kernel_same_trans)

lemma still_refl [simp]: "still cont s s"
  by (simp add: still_def)

lemma still_trans: "still cont s s' \<Longrightarrow> still cont s' s'' \<Longrightarrow> still cont s s''"
  unfolding still_def using quiet_trans [of cont s s' s''] same_pool_trans [of s s' s''] by simp

lemma quietD:
  assumes "quiet cont s s'"
  shows "same_layout s s'" "outside cont s s'" "ftl_map s' = ftl_map s" "ftl_log s' = ftl_log s" "ftl_mtx s' = ftl_mtx s"
    "ftl_initialized s' = ftl_initialized s" "kernel_same (fkern s) (fkern s')" "ftlctrlblocks (ftl_cxt s') = ftlctrlblocks (ftl_cxt s)"
    "ftlctrlpage (ftl_cxt s') = ftlctrlpage (ftl_cxt s)" "ftl_vfl_cxt s' = ftl_vfl_cxt s" "ftl_vfl_usn s' = ftl_vfl_usn s"
    "clean_flag (ftl_cxt s') = clean_flag (ftl_cxt s)"
  using assms by (simp_all add: quiet_def)

lemma stillD:
  assumes "still cont s s'"
  shows "quiet cont s s'" "same_pool s s'" "ftl_erasectr s' = ftl_erasectr s"
  using assms by (simp_all add: still_def)

section \<open>Erasing\<close>

text \<open>The contents of the flash after a virtual block was erased.\<close>

definition erased :: "'n contents \<Rightarrow> 'n ftl \<Rightarrow> nat \<Rightarrow> 'n \<Rightarrow> bool" where
  "erased cont s b n \<longleftrightarrow> (\<forall>bank p. cont n bank p =
     (if \<exists>w < vpages s. w div ppb s = b \<and> loc s w = (bank, p) then None else cont (nand s) bank p))"

lemma flash_erased:
  assumes "same_layout s s'" "erased cont s b (nand s')" "geo_ok s" "phys_ok s"
  shows "flash cont s' = (\<lambda>w. if w div ppb s = b then None else flash cont s w)" "outside cont s s'"
proof -
  note l = same_layout [OF assms(1)]
  have "flash cont s' w = (if w div ppb s = b then None else flash cont s w)" for w
  proof (cases "w < vpages s")
    case True
    have "(\<exists>v < vpages s. v div ppb s = b \<and> loc s v = (fst (loc s w), snd (loc s w))) \<longleftrightarrow> w div ppb s = b"
      using loc_inj [OF assms(3,4) _ True] True by auto
    with assms(2) show ?thesis unfolding erased_def by (simp add: flash_def vcont_def l)
  qed (simp add: flash_def l)
  then show "flash cont s' = (\<lambda>w. if w div ppb s = b then None else flash cont s w)" by (rule ext)
  show "outside cont s s'" using assms(2) by (auto simp: outside_def erased_def)
qed

lemma loc_in_block:
  assumes g: "geo_ok s" and r: "r < pagesperblock s" and i: "i < ftl_banks s"
  shows "loc s (b * ppb s + r * ftl_banks s + i) = (i, phys i (b + syshyperblocks s) s * pagesperblock s + r)"
    "(b * ppb s + r * ftl_banks s + i) div ppb s = b"
proof -
  note p = geo [OF g]
  let ?q = "(b + syshyperblocks s) * pagesperblock s + r"
  have a: "b * ppb s + r * ftl_banks s + i + ppb s * syshyperblocks s = ?q * ftl_banks s + i"
    using p(5) by (simp add: algebra_simps)
  have m: "(?q * ftl_banks s + i) mod ftl_banks s = i" "(?q * ftl_banks s + i) div ftl_banks s = ?q" using i by simp_all
  have d: "x div ppb s = x div ftl_banks s div pagesperblock s" for x using p(5) by (simp add: div_mult2_eq mult.commute)
  show "loc s (b * ppb s + r * ftl_banks s + i) = (i, phys i (b + syshyperblocks s) s * pagesperblock s + r)"
    unfolding loc_def Let_def a d m using r by simp
  have "b * ppb s + r * ftl_banks s + i = (b * pagesperblock s + r) * ftl_banks s + i" using p(5) by (simp add: algebra_simps)
  then show "(b * ppb s + r * ftl_banks s + i) div ppb s = b" unfolding d using i r by simp
qed

lemma block_page:
  assumes g: "geo_ok s"
  obtains r i where "w = w div ppb s * ppb s + r * ftl_banks s + i" "r < pagesperblock s" "i < ftl_banks s"
proof -
  note p = geo [OF g]
  let ?x = "w mod ppb s"
  have "?x < pagesperblock s * ftl_banks s" using p(1,5) by (metis mod_less_divisor)
  then have "?x div ftl_banks s < pagesperblock s" by (simp add: less_mult_imp_div_less)
  moreover have "?x mod ftl_banks s < ftl_banks s" using p(2) by simp
  moreover have "w = w div ppb s * ppb s + ?x div ftl_banks s * ftl_banks s + ?x mod ftl_banks s"
    by (simp only: add.assoc div_mult_mod_eq)
  ultimately show ?thesis using that by blast
qed

lemma in_vblock: "b < vblocks s \<Longrightarrow> w div ppb s = b \<Longrightarrow> 0 < ppb s \<Longrightarrow> w < vpages s"
  by (metis div_less_iff_less_mult vpages_def)

lemma page_in_vblock: "q < ppb s \<Longrightarrow> (b * ppb s + q) div ppb s = b"
  by simp

lemma vpage_less: "b < vblocks s \<Longrightarrow> q < ppb s \<Longrightarrow> b * ppb s + q < vpages s"
  by (rule in_vblock [of b]) simp_all

lemma log_success: "\<exists>tl. ftl_vfl_log_success bank v s = s\<lparr>ftl_troublelog := tl\<rparr>"
proof (cases "find (\<lambda>i. t_block (ftl_troublelog s i) = v \<and> t_bank (ftl_troublelog s i) = bank) [0..<5]")
  case None
  then show ?thesis by (intro exI [of _ "ftl_troublelog s"]) (simp add: ftl_vfl_log_success_def)
next
  case (Some i)
  then show ?thesis unfolding ftl_vfl_log_success_def Let_def by (simp only: option.case) blast
qed

lemma u32_mod_add: "u32_mod (8589934592 + x) = u32_mod x"
  using mod_mult_self3 [of 2 4294967296 x] by simp

lemma erase_block_internal:
  assumes r: "runs_on dev cont s" and b: "b < vblocks s"
  shows "ends (ftl_erase_block_internal dev b s)
    (\<lambda>rc s'. rc = 0 \<and> (\<exists>n tl. s' = s\<lparr>nand := n, ftl_troublelog := tl\<rparr> \<and> erased cont s b n))"
proof -
  note R = runs_onD [OF r]
  note p = geo [OF R(1)] and g = R(1) [unfolded geo_ok_def]
  let ?b = "b + syshyperblocks s"
  have blk: "u32_mod (b + blocks s + 2 ^ 33 - userblocks s - 0x17) = ?b" "?b \<noteq> 0" "\<not> blocks s \<le> ?b" "?b < blocks s"
    "syshyperblocks s \<le> ?b"
    using g b u32_mod_add [of "b + syshyperblocks s"] by (simp_all add: vblocks_def)
  let ?body = "\<lambda>i _. andthen (\<lambda>s. if ftl_vfl_check_remap_scheduled i ?b s = 1
                 then andthen ftl_vfl_remap_block (\<lambda>_. finish ()) s else finish () s) (\<lambda>_.
        andthen (modify (ftl_vfl_log_success i ?b)) (\<lambda>_ s.
        andthen (lift (ftl_vfl_get_physical_block i ?b s)) (\<lambda>pblock.
        andthen (for_each [0..<3] (\<lambda>j _ s.
           andthen (chip (nand_block_erase dev i (u32_mod (pblock * pagesperblock s))))
             (\<lambda>rc. finish (if rc = 0 then Leave () else Go ())) s) ()) (\<lambda>t.
        case t of Leave _ \<Rightarrow> finish (Go ()) | Go _ \<Rightarrow> give_up)) s))"
  let ?P = "\<lambda>k (_ :: unit) s'. \<exists>n tl. s' = s\<lparr>nand := n, ftl_troublelog := tl\<rparr> \<and> (\<forall>bank q. cont n bank q =
     (if bank < k \<and> (\<exists>w < vpages s. w div ppb s = b \<and> loc s w = (bank, q)) then None else cont (nand s) bank q))"
  have "ends (for_each [0..<ftl_banks s] ?body () s) (\<lambda>t s'. \<exists>x'. t = Go x' \<and> ?P (length [0..<ftl_banks s]) x' s')"
  proof (rule ends_for_each)
    show "?P 0 () s" by (rule exI [of _ "nand s"], rule exI [of _ "ftl_troublelog s"]) simp
    fix k x s' assume k: "k < length [0..<ftl_banks s]" and P: "?P k x s'"
    then obtain n tl where n: "s' = s\<lparr>nand := n, ftl_troublelog := tl\<rparr>" "\<forall>bank q. cont n bank q =
     (if bank < k \<and> (\<exists>w < vpages s. w div ppb s = b \<and> loc s w = (bank, q)) then None else cont (nand s) bank q)" by blast
    obtain tl1 where s1: "ftl_vfl_log_success k ?b s' = s\<lparr>nand := n, ftl_troublelog := tl1\<rparr>"
      using log_success [of k ?b s'] n(1) by auto
    let ?s1 = "s\<lparr>nand := n, ftl_troublelog := tl1\<rparr>"
    have lay: "same_layout s s'" "same_layout s ?s1" by (simp_all add: n(1) same_layout_def)
    have kb: "k < ftl_banks s" using k by simp
    have "0x333 \<le> scheduledstart (ftl_vfl_cxt s k)" using R(2) kb by (simp add: phys_ok_def)
    then have sc: "ftl_vfl_check_remap_scheduled k ?b s' = 0"
      using same_layout(12) [OF lay(1)] by (auto simp: ftl_vfl_check_remap_scheduled_def Let_def)
    have ph: "ftl_vfl_get_physical_block k ?b ?s1 = Some (phys k ?b s)" "phys k ?b s < 0x20000"
      using R(2) kb blk same_layout_physical [OF lay(2)] by (simp_all add: phys_ok_def)
    let ?p = "phys k ?b s * pagesperblock s"
    have "pagesperblock s \<le> ppb s" using p(2) unfolding p(5) by simp
    with p(4) have "pagesperblock s \<le> 512" by simp
    with ph(2) have "?p \<le> 0x20000 * 512" by (intro mult_le_mono) auto
    then have pm: "u32_mod ?p = ?p" by simp
    from erase_page [OF R(3) kb, of ?p n] obtain n' where n': "nand_block_erase dev k ?p n = (0, n')"
      "cont n' = (\<lambda>c q. if c = k \<and> ?p \<le> q \<and> q < ?p + pagesperblock s then None else cont n c q)" by auto
    have rng: "?p \<le> q \<and> q < ?p + pagesperblock s \<longleftrightarrow> (\<exists>w < vpages s. w div ppb s = b \<and> loc s w = (k, q))" for q
    proof
      assume q: "?p \<le> q \<and> q < ?p + pagesperblock s"
      define i where "i = q - ?p"
      from q have "q = ?p + i" "i < pagesperblock s" by (auto simp: i_def)
      with loc_in_block [OF R(1) this(2) kb, of b] have "loc s (b * ppb s + i * ftl_banks s + k) = (k, q)"
        "(b * ppb s + i * ftl_banks s + k) div ppb s = b" by simp_all
      moreover from this(2) b p(1) have "b * ppb s + i * ftl_banks s + k < vpages s" by (intro in_vblock)
      ultimately show "\<exists>w < vpages s. w div ppb s = b \<and> loc s w = (k, q)" by blast
    next
      assume "\<exists>w < vpages s. w div ppb s = b \<and> loc s w = (k, q)"
      then obtain w where w: "w div ppb s = b" "loc s w = (k, q)" by blast
      from block_page [OF R(1), of w] obtain r i where ri: "w = b * ppb s + r * ftl_banks s + i" "r < pagesperblock s" "i < ftl_banks s"
        unfolding w(1) .
      from loc_in_block(1) [OF R(1) ri(2,3), of b] w(2) ri(1) have "i = k" "phys i ?b s * pagesperblock s + r = q" by auto
      with ri(2) show "?p \<le> q \<and> q < ?p + pagesperblock s" by simp
    qed
    have ers: "chip (nand_block_erase dev k (u32_mod (phys k ?b s * pagesperblock ?s1))) ?s1
        = Some (Done 0, s\<lparr>nand := n', ftl_troublelog := tl1\<rparr>)"
      using n'(1) pm by (simp add: chip_def)
    have "?P (Suc k) () (s\<lparr>nand := n', ftl_troublelog := tl1\<rparr>)"
      by (rule exI [of _ n'], rule exI [of _ tl1]) (auto simp: n'(2) n(2) rng less_Suc_eq)
    moreover have "?body k x s' = Some (Done (Go ()), s\<lparr>nand := n', ftl_troublelog := tl1\<rparr>)"
      using sc ph(1) ers s1 by (simp add: andthen_def finish_def lift_def modify_def upt_rec [of 0 3])
    ultimately show "ends (?body ([0..<ftl_banks s] ! k) x s') (\<lambda>t s'. \<exists>x'. t = Go x' \<and> ?P (Suc k) x' s')"
      using k by (intro ends_go [where x = "()"]) simp_all
  qed
  moreover have "erased cont s b n" if "\<forall>bank q. cont n bank q =
     (if bank < ftl_banks s \<and> (\<exists>w < vpages s. w div ppb s = b \<and> loc s w = (bank, q)) then None else cont (nand s) bank q)" for n
    using that loc_bank [OF R(1)] unfolding erased_def by (metis fst_conv)
  ultimately have "ends (unless_left (for_each [0..<ftl_banks s] ?body ()) (\<lambda>_. finish 0) s)
      (\<lambda>rc s'. rc = 0 \<and> (\<exists>n tl. s' = s\<lparr>nand := n, ftl_troublelog := tl\<rparr> \<and> erased cont s b n))"
    by (intro ends_unless_left) (erule ends_weaken, simp, blast)
  then show ?thesis using blk by (simp add: ftl_erase_block_internal_def Let_def)
qed

end
