(* ===== verification/FtlBlocks.thy ===== *)
theory FtlBlocks
  imports FtlPool "HOL-Library.Multiset"
begin

text \<open>
  The roles of the virtual blocks: each one holds a logical block, is the scattered block of a log entry, is a
  control block, or is free. The free ones stand in a ring buffer of 20 places, the pool.
\<close>

lemma foldM_runs:
  assumes "P 0 x" and "\<And>n x. n < length xs \<Longrightarrow> P n x \<Longrightarrow> \<exists>x'. f (xs ! n) x = Some x' \<and> P (Suc n) x'"
  shows "\<exists>x'. foldM f xs x = Some x' \<and> P (length xs) x'"
  using assms
proof (induction xs arbitrary: P x)
  case (Cons y ys)
  from Cons.prems(2) [of 0 x] Cons.prems(1) obtain x1 where b: "f y x = Some x1" "P (Suc 0) x1" by auto
  have "\<exists>x'. foldM f ys x1 = Some x' \<and> P (Suc (length ys)) x'"
  proof (rule Cons.IH [of "\<lambda>n. P (Suc n)"])
    show "P (Suc 0) x1" by (rule b(2))
    show "\<exists>x'. f (ys ! n) x = Some x' \<and> P (Suc (Suc n)) x'" if "n < length ys" "P (Suc n) x" for n x
      using Cons.prems(2) [of "Suc n" x] that by auto
  qed
  with b show ?case by auto
qed simp

section \<open>Roles\<close>

definition pool :: "'n ftl \<Rightarrow> nat list" where
  "pool s = (let c = ftl_cxt s in map (\<lambda>i. blockpool c (pool_idx (nextfreeidx c + i))) [0..<freecount c])"

definition active :: "'n ftl \<Rightarrow> nat list" where
  "active s = filter (\<lambda>e. scatteredvblock (ftl_log s e) \<noteq> 0xFFFF) [0..<0x11]"

definition roles :: "'n ftl \<Rightarrow> nat list" where
  "roles s = map (ftl_map s) [0..<userblocks s] @ map (\<lambda>e. scatteredvblock (ftl_log s e)) (active s)
     @ map (ftlctrlblocks (ftl_cxt s)) [0..<3] @ pool s"

text \<open>Every virtual block has one role; those of \<open>ex\<close> are in the hands of the code that runs.\<close>

definition blocks_ok :: "'n ftl \<Rightarrow> nat list \<Rightarrow> bool" where
  "blocks_ok s ex \<longleftrightarrow> mset (roles s @ ex) = mset [0..<vblocks s] \<and> nextfreeidx (ftl_cxt s) < 0x14
     \<and> (\<forall>b. ftl_erasectr s b < 65536)"

lemma length_pool [simp]: "length (pool s) = freecount (ftl_cxt s)"
  by (simp add: pool_def Let_def)

lemma pool_nth: "i < freecount (ftl_cxt s) \<Longrightarrow> pool s ! i = blockpool (ftl_cxt s) (pool_idx (nextfreeidx (ftl_cxt s) + i))"
  by (simp add: pool_def Let_def)

lemma active_less: "e \<in> set (active s) \<Longrightarrow> e < 0x11"
  by (simp add: active_def)

lemma length_active: "length (active s) \<le> 0x11"
  unfolding active_def using length_filter_le by (metis diff_zero length_upt)

lemma blocks_okD:
  assumes "blocks_ok s ex"
  shows "distinct (roles s @ ex)" "set (roles s @ ex) = {0..<vblocks s}" "freecount (ftl_cxt s) + length (active s) + length ex = 20"
    "nextfreeidx (ftl_cxt s) < 0x14" "ftl_erasectr s b < 65536"
proof -
  have m: "mset (roles s @ ex) = mset [0..<vblocks s]" using assms by (simp add: blocks_ok_def)
  then show "distinct (roles s @ ex)" using distinct_upt mset_eq_imp_distinct_iff by metis
  show "set (roles s @ ex) = {0..<vblocks s}" using mset_eq_setD [OF m] by simp
  have "length (roles s @ ex) = length [0..<vblocks s]" by (rule mset_eq_length [OF m])
  then show "freecount (ftl_cxt s) + length (active s) + length ex = 20" by (simp add: roles_def vblocks_def)
  show "nextfreeidx (ftl_cxt s) < 0x14" "ftl_erasectr s b < 65536" using assms by (simp_all add: blocks_ok_def)
qed

lemma blocks_okI:
  assumes "mset (roles s' @ ex') = mset (roles s @ ex)" "blocks_ok s ex" "vblocks s' = vblocks s"
    "nextfreeidx (ftl_cxt s') < 0x14" "\<And>b. ftl_erasectr s' b < 65536"
  shows "blocks_ok s' ex'"
  using assms unfolding blocks_ok_def by metis

lemma blocks_ok_free: "blocks_ok s ex \<Longrightarrow> 3 \<le> freecount (ftl_cxt s) + length ex" "blocks_ok s ex \<Longrightarrow> freecount (ftl_cxt s) \<le> 20"
  using blocks_okD(3) [of s ex] length_active [of s] by simp_all

lemma same_pool: "same_pool s s' \<Longrightarrow> pool s' = pool s" "same_pool s s' \<Longrightarrow> freecount (ftl_cxt s') = freecount (ftl_cxt s)"
  by (simp_all add: pool_def same_pool_def Let_def)

lemma quiet_roles:
  assumes "quiet cont s s'"
  shows "active s' = active s" "pool s' = pool s \<Longrightarrow> roles s' = roles s" "vblocks s' = vblocks s"
  using quietD [OF assms] same_layout [OF quietD(1) [OF assms]] by (simp_all add: roles_def active_def)

lemma blocks_ok_quiet:
  assumes "quiet cont s s'" "same_pool s s'" "\<forall>b. ftl_erasectr s' b < 65536" "blocks_ok s ex"
  shows "blocks_ok s' ex"
  using assms quiet_roles [OF assms(1)] same_pool [OF assms(2)] by (simp add: blocks_ok_def same_pool_def)

lemma blocks_ok_still: "still cont s s' \<Longrightarrow> blocks_ok s ex \<Longrightarrow> blocks_ok s' ex"
  by (rule blocks_ok_quiet) (auto simp: still_def blocks_ok_def)

lemma pool_idx_less: "n < 0x14 \<Longrightarrow> i < 0x14 \<Longrightarrow> pool_idx (n + i) < 0x14"
  by (auto simp: pool_idx_def)

lemma pool_idx_inj: "n < 0x14 \<Longrightarrow> i < 0x14 \<Longrightarrow> j < 0x14 \<Longrightarrow> pool_idx (n + i) = pool_idx (n + j) \<Longrightarrow> i = j"
  by (auto simp: pool_idx_def split: if_splits)

section \<open>The best block of the pool\<close>

lemma pool_small:
  assumes "blocks_ok s ex" "geo_ok s" "i < freecount (ftl_cxt s)"
  shows "pool s ! i < vblocks s" "vblocks s \<le> 0x2000"
proof -
  have "pool s ! i \<in> set (pool s)" using assms(3) by simp
  then have "pool s ! i \<in> set (roles s @ ex)" by (simp add: roles_def)
  then show "pool s ! i < vblocks s" unfolding blocks_okD(2) [OF assms(1)] by simp
  show "vblocks s \<le> 0x2000" using assms(2) by (simp add: geo_ok_def vblocks_def)
qed

lemma pool_not_all_zero:
  assumes "blocks_ok s ex" "2 \<le> freecount (ftl_cxt s)"
  shows "\<exists>k < freecount (ftl_cxt s). pool s ! k \<noteq> 0"
proof -
  have "distinct (pool s)" using blocks_okD(1) [OF assms(1)] by (simp add: roles_def)
  with assms(2) have "pool s ! 0 \<noteq> pool s ! 1" by (simp add: nth_eq_iff_index_eq)
  then have "pool s ! 0 \<noteq> 0 \<or> pool s ! 1 \<noteq> 0" by auto
  moreover have "0 < freecount (ftl_cxt s)" "1 < freecount (ftl_cxt s)" using assms(2) by simp_all
  ultimately show ?thesis by blast
qed

lemma best_pool_block:
  assumes b: "blocks_ok s ex" and g: "geo_ok s" and c: "2 \<le> freecount (ftl_cxt s)"
  obtains w k where "best_pool_block s = Some (w, pool_idx (nextfreeidx (ftl_cxt s) + k))" "k < freecount (ftl_cxt s)"
proof -
  let ?c = "ftl_cxt s"
  let ?f = "\<lambda>i (erasectr, bestidx). let c = ?c; idx = pool_idx (nextfreeidx c + i) in do {
       check (idx < 0x14);
       if blockpool c idx = 0 then Some (erasectr, bestidx)
       else do {
         check (blockpool c idx < 0x2000);
         Some (if ftl_erasectr s (blockpool c idx) < erasectr then (ftl_erasectr s (blockpool c idx), idx)
               else (erasectr, bestidx)) } }"
  let ?P = "\<lambda>n (w, idx). if \<exists>k < n. pool s ! k \<noteq> 0 then \<exists>k < n. idx = pool_idx (nextfreeidx ?c + k)
     else idx = 0xFFFFFFFF \<and> w = (0xFFFFFFFF :: nat)"
  have "\<exists>x'. foldM ?f [0..<freecount ?c] (0xFFFFFFFF, 0xFFFFFFFF) = Some x' \<and> ?P (length [0..<freecount ?c]) x'"
  proof (rule foldM_runs)
    fix n x assume n: "n < length [0..<freecount ?c]" and P: "?P n x"
    obtain w idx where x: "x = (w, idx)" by (cases x)
    let ?i = "pool_idx (nextfreeidx ?c + n)"
    have p: "pool s ! n = blockpool ?c ?i" "?i < 0x14" using n blocks_okD(4) [OF b] blocks_ok_free(2) [OF b]
      by (simp_all add: pool_nth pool_idx_less)
    have s2: "blockpool ?c ?i < 0x2000" using pool_small [OF b g, of n] n p by simp
    have ctr: "ftl_erasectr s (blockpool ?c ?i) < 0xFFFFFFFF" using blocks_okD(5) [OF b, of "blockpool ?c ?i"] by simp
    show "\<exists>x'. ?f ([0..<freecount ?c] ! n) x = Some x' \<and> ?P (Suc n) x'"
    proof (cases "blockpool ?c ?i = 0")
      case True
      then have "(\<exists>k < Suc n. pool s ! k \<noteq> 0) \<longleftrightarrow> (\<exists>k < n. pool s ! k \<noteq> 0)" using p by (auto simp: less_Suc_eq)
      with True P x p n show ?thesis by (auto split: if_splits intro: less_SucI)
    next
      case False
      then have "\<exists>k < Suc n. pool s ! k \<noteq> 0" using p by auto
      moreover have "\<exists>k < Suc n. (if ftl_erasectr s (blockpool ?c ?i) < w then ?i else idx) = pool_idx (nextfreeidx ?c + k)"
        using P x ctr by (auto split: if_splits intro: less_SucI)
      ultimately show ?thesis using False p s2 x n by (simp add: Let_def split: if_split_asm)
    qed
  qed simp
  moreover have "\<exists>k < freecount ?c. pool s ! k \<noteq> 0" by (rule pool_not_all_zero [OF b c])
  ultimately show ?thesis using that by (auto simp: best_pool_block_def split: if_splits)
qed

section \<open>Taking a block\<close>

lemma erase_block:
  assumes r: "runs_on dev cont s" and b: "b < vblocks s"
  shows "ends (ftl_erase_block dev b s) (\<lambda>rc s'. rc = 0 \<and> quiet cont s s' \<and> same_pool s s'
     \<and> nextblockusn (ftl_cxt s') = nextblockusn (ftl_cxt s)
     \<and> flash cont s' = (\<lambda>w. if w div ppb s = b then None else flash cont s w)
     \<and> ((\<forall>x. ftl_erasectr s x < 65536) \<longrightarrow> (\<forall>x. ftl_erasectr s' x < 65536)))"
proof -
  note R = runs_onD [OF r]
  have "b < 0x2000" using R(1) b by (simp add: geo_ok_def vblocks_def)
  let ?s1 = "s\<lparr>ftl_erasectr := (ftl_erasectr s)(b := u16_mod (ftl_erasectr s b + 1))\<rparr>"
  let ?s2 = "if ftl_erasectr_dirt ?s1 (b div 1024) = 100 then upd_cxt (\<lambda>c. c\<lparr>erasedirty := 1\<rparr>) ?s1
     else ?s1\<lparr>ftl_erasectr_dirt := (ftl_erasectr_dirt ?s1)(b div 1024 := (ftl_erasectr_dirt ?s1 (b div 1024) + 1) mod 256)\<rparr>"
  have lay: "same_layout s ?s2" by (simp add: same_layout_def upd_cxt_def)
  note l = same_layout [OF lay]
  have r2: "runs_on dev cont ?s2" using runs_on_layout [OF lay] r by simp
  have b2: "b < vblocks ?s2" using b l by simp
  have fl: "flash cont ?s2 = flash cont s" by (rule same_flash(1) [OF lay]) (simp add: upd_cxt_def)
  have e: "ends (ftl_erase_block_internal dev b ?s2)
    (\<lambda>rc s'. rc = 0 \<and> (\<exists>n tl. s' = ?s2\<lparr>nand := n, ftl_troublelog := tl\<rparr> \<and> erased cont ?s2 b n))"
    by (rule erase_block_internal [OF r2 b2])
  have run: "ftl_erase_block dev b s = ftl_erase_block_internal dev b ?s2"
    using \<open>b < 0x2000\<close> by (simp add: ftl_erase_block_def)
  show ?thesis unfolding run
  proof (rule ends_weaken [OF e], elim conjE exE, intro conjI)
    fix rc s' n tl assume rc: "rc = 0" and s': "s' = ?s2\<lparr>nand := n, ftl_troublelog := tl\<rparr>" and er: "erased cont ?s2 b n"
    have lay2: "same_layout ?s2 s'" by (simp add: s' same_layout_def)
    have er': "erased cont ?s2 b (nand s')" using er s' by simp
    note R2 = runs_onD [OF r2]
    have o: "outside cont s ?s2" by (rule same_flash(2) [OF lay]) (simp add: upd_cxt_def)
    note F = flash_erased [OF lay2 er' R2(1,2)]
    show "rc = 0" by (rule rc)
    show "flash cont s' = (\<lambda>w. if w div ppb s = b then None else flash cont s w)" unfolding F(1) fl l ..
    show "quiet cont s s'"
      using same_layout_trans [OF lay lay2] outside_trans [OF lay o F(2)] by (simp add: quiet_def s' upd_cxt_def)
    show "same_pool s s'" "nextblockusn (ftl_cxt s') = nextblockusn (ftl_cxt s)"
      by (simp_all add: same_pool_def s' upd_cxt_def)
    show "(\<forall>x. ftl_erasectr s x < 65536) \<longrightarrow> (\<forall>x. ftl_erasectr s' x < 65536)" by (simp add: s' upd_cxt_def)
  qed
qed

definition swap_front :: "nat \<Rightarrow> ftl_cxt_type \<Rightarrow> ftl_cxt_type" where
  "swap_front idx c = (if idx = nextfreeidx c then c
     else c\<lparr>blockpool := (blockpool c)(idx := blockpool c (nextfreeidx c), nextfreeidx c := blockpool c idx)\<rparr>)"

definition drop_front :: "ftl_cxt_type \<Rightarrow> ftl_cxt_type" where
  "drop_front c = c\<lparr>nextfreeidx := (if u16_mod (nextfreeidx c + 1) = 0x14 then 0 else u16_mod (nextfreeidx c + 1)),
     freecount := u16_mod (freecount c + 65535)\<rparr>"

lemma swap_front_fields [simp]:
  shows "freecount (swap_front idx c) = freecount c" "nextfreeidx (swap_front idx c) = nextfreeidx c"
    "nextblockusn (swap_front idx c) = nextblockusn c"
  by (simp_all add: swap_front_def)

lemma pool_swap_front:
  assumes "nextfreeidx (ftl_cxt s) < 0x14" "freecount (ftl_cxt s) \<le> 0x14" "k < freecount (ftl_cxt s)"
  shows "pool (upd_cxt (swap_front (pool_idx (nextfreeidx (ftl_cxt s) + k))) s) = (pool s)[0 := pool s ! k, k := pool s ! 0]"
    (is "pool ?s = ?xs")
proof (rule nth_equalityI)
  let ?c = "ftl_cxt s"
  show "length (pool ?s) = length ?xs" by simp
  fix i assume "i < length (pool ?s)"
  then have i: "i < freecount ?c" by simp
  have z: "pool_idx (nextfreeidx ?c + 0) = nextfreeidx ?c" using assms(1) by (simp add: pool_idx_def)
  have inj: "pool_idx (nextfreeidx ?c + a) = pool_idx (nextfreeidx ?c + b) \<longleftrightarrow> a = b"
    if "a < freecount ?c" "b < freecount ?c" for a b
    using pool_idx_inj [OF assms(1), of a b] that assms(2) by auto
  have "0 < freecount ?c" using assms(3) by simp
  note inj0 = inj [OF _ this, unfolded z]
  have "pool ?s ! i = blockpool (ftl_cxt ?s) (pool_idx (nextfreeidx ?c + i))" using i by (simp add: pool_nth)
  also have "\<dots> = ?xs ! i"
    using i assms(3) \<open>0 < freecount ?c\<close> inj0 [OF i] inj0 [OF assms(3)] inj [OF i assms(3)] z
    by (auto simp: upd_cxt_def swap_front_def pool_nth nth_list_update)
  finally show "pool ?s ! i = ?xs ! i" .
qed

lemma pool_drop_front:
  assumes "nextfreeidx (ftl_cxt s) < 0x14" "freecount (ftl_cxt s) \<le> 0x14" "0 < freecount (ftl_cxt s)"
  shows "pool s = pool s ! 0 # pool (upd_cxt drop_front s)" "freecount (ftl_cxt (upd_cxt drop_front s)) = freecount (ftl_cxt s) - 1"
    "nextfreeidx (ftl_cxt (upd_cxt drop_front s)) < 0x14"
proof -
  let ?c = "ftl_cxt s" and ?d = "ftl_cxt (upd_cxt drop_front s)"
  have "u16_mod (freecount ?c + 65535) = freecount ?c - 1"
  proof -
    obtain m where m: "freecount ?c = Suc m" using assms(3) gr0_implies_Suc by blast
    then have "freecount ?c + 65535 = m + 65536" by simp
    then have "u16_mod (freecount ?c + 65535) = u16_mod m" by simp
    with m assms(2) show ?thesis by simp
  qed
  then show fc: "freecount ?d = freecount ?c - 1" by (simp add: upd_cxt_def drop_front_def)
  show n: "nextfreeidx ?d < 0x14" using assms(1) by (simp add: upd_cxt_def drop_front_def)
  have bp: "blockpool ?d = blockpool ?c" by (simp add: upd_cxt_def drop_front_def)
  have idx: "pool_idx (nextfreeidx ?d + i) = pool_idx (nextfreeidx ?c + Suc i)" if "Suc i < 0x14" for i
    using assms(1) that by (auto simp: upd_cxt_def drop_front_def pool_idx_def)
  show "pool s = pool s ! 0 # pool (upd_cxt drop_front s)"
  proof (rule nth_equalityI)
    show "length (pool s) = length (pool s ! 0 # pool (upd_cxt drop_front s))" using assms(3) fc by simp
    fix i assume "i < length (pool s)"
    then show "pool s ! i = (pool s ! 0 # pool (upd_cxt drop_front s)) ! i"
      using assms(2) by (cases i) (simp_all add: pool_nth fc [simplified] bp [simplified] idx [simplified])
  qed
qed

text \<open>The code runs on with a block of the pool that is erased.\<close>

definition took :: "'n contents \<Rightarrow> 'n ftl \<Rightarrow> nat list \<Rightarrow> nat \<Rightarrow> 'n ftl \<Rightarrow> bool" where
  "took cont s ex b s' \<longleftrightarrow> quiet cont s s' \<and> b \<in> set (pool s) \<and> mset (pool s) = add_mset b (mset (pool s'))
     \<and> blocks_ok s' (b # ex) \<and> nextblockusn (ftl_cxt s') = nextblockusn (ftl_cxt s)
     \<and> flash cont s' = (\<lambda>w. if w div ppb s = b then None else flash cont s w)"

lemma allocate_pool_block:
  assumes r: "runs_on dev cont s" and b: "blocks_ok s ex" and c: "2 \<le> freecount (ftl_cxt s)"
  shows "ends (ftl_allocate_pool_block dev s) (took cont s ex)"
proof -
  note R = runs_onD [OF r] and B = blocks_okD [OF b] and le = blocks_ok_free(2) [OF b]
  let ?c = "ftl_cxt s"
  from best_pool_block [OF b R(1) c] obtain w k where
    bp: "best_pool_block s = Some (w, pool_idx (nextfreeidx ?c + k))" and k: "k < freecount ?c" .
  let ?idx = "pool_idx (nextfreeidx ?c + k)"
  let ?b = "pool s ! k" and ?s1 = "upd_cxt (swap_front ?idx) s"
  have blk: "blockpool ?c ?idx = ?b" using k by (simp add: pool_nth)
  have small: "?b < vblocks s" "vblocks s \<le> 0x2000" by (rule pool_small [OF b R(1) k])+
  have idx: "?idx < 0x14" using k le B(4) by (simp add: pool_idx_less)
  have swap: "?s1 = (if ?idx = nextfreeidx ?c then s
     else upd_cxt (\<lambda>c. c\<lparr>blockpool := (blockpool c)(?idx := blockpool c (nextfreeidx c), nextfreeidx c := ?b)\<rparr>) s)"
    using blk by (simp add: upd_cxt_def swap_front_def)
  have p1: "pool ?s1 = (pool s)[0 := ?b, k := pool s ! 0]" by (rule pool_swap_front [OF B(4) le k])
  have m1: "mset (pool ?s1) = mset (pool s)" unfolding p1 using k by (intro mset_swap) simp_all
  have h1: "pool ?s1 ! 0 = ?b" unfolding p1 using k by (cases k) (simp_all add: nth_list_update)
  have f1: "freecount (ftl_cxt ?s1) = freecount ?c" "nextfreeidx (ftl_cxt ?s1) = nextfreeidx ?c"
    by (simp_all add: upd_cxt_def swap_front_def)
  have lay: "same_layout s ?s1" by (simp add: same_layout_def upd_cxt_def)
  have q1: "quiet cont s ?s1"
    using lay same_flash(2) [OF lay] by (simp add: quiet_def upd_cxt_def swap_front_def)
  have fl1: "flash cont ?s1 = flash cont s" by (rule same_flash(1) [OF lay]) (simp add: upd_cxt_def)
  have r1: "runs_on dev cont ?s1" using runs_on_layout [OF lay] r by simp
  have run: "ftl_allocate_pool_block dev s = andthen (ftl_erase_block dev ?b) (\<lambda>rc.
      if rc \<noteq> 0 then finish 0xFFFFFFFF else andthen (modify (upd_cxt drop_front)) (\<lambda>_. finish ?b)) ?s1"
    using bp small idx blk same_layout(8) [OF lay] unfolding ftl_allocate_pool_block_def Let_def swap drop_front_def [abs_def] vblocks_def
    by (cases "?idx = nextfreeidx ?c") (simp_all cong: if_cong)
  show ?thesis unfolding run
  proof (rule ends_seq, rule erase_block [OF r1], goal_cases, use small same_layout [OF lay] in simp, elim conjE)
    fix rc s2 assume rc: "rc = 0" and q2: "quiet cont ?s1 s2" and sp2: "same_pool ?s1 s2"
      and usn: "nextblockusn (ftl_cxt s2) = nextblockusn (ftl_cxt ?s1)"
      and fl2: "flash cont s2 = (\<lambda>w. if w div ppb ?s1 = ?b then None else flash cont ?s1 w)"
      and ctr: "(\<forall>x. ftl_erasectr ?s1 x < 65536) \<longrightarrow> (\<forall>x. ftl_erasectr s2 x < 65536)"
    let ?s3 = "upd_cxt drop_front s2"
    have n2: "nextfreeidx (ftl_cxt s2) < 0x14" "freecount (ftl_cxt s2) \<le> 0x14" "0 < freecount (ftl_cxt s2)"
      using sp2 f1 B(4) le k by (simp_all add: same_pool_def)
    note D = pool_drop_front [OF n2]
    have lay2: "same_layout s2 ?s3" by (simp add: same_layout_def upd_cxt_def)
    have q3: "quiet cont s2 ?s3" using lay2 same_flash(2) [OF lay2] by (simp add: quiet_def upd_cxt_def drop_front_def)
    have q: "quiet cont s ?s3" by (rule quiet_trans [OF quiet_trans [OF q1 q2] q3])
    have e2: "pool s2 = ?b # pool ?s3" using D(1) h1 same_pool(1) [OF sp2] by simp
    have m: "mset (pool s) = add_mset ?b (mset (pool ?s3))"
      using arg_cong [OF e2, of mset] m1 same_pool(1) [OF sp2] by simp
    have "mset (roles ?s3 @ (?b # ex)) = mset (roles s @ ex)"
      using quietD [OF q] same_layout [OF quietD(1) [OF q]] quiet_roles(1) [OF q] m by (simp add: roles_def)
    moreover have "\<forall>x. ftl_erasectr ?s3 x < 65536" using ctr B(5) by (simp add: upd_cxt_def)
    ultimately have ok: "blocks_ok ?s3 (?b # ex)"
      using b quiet_roles(3) [OF q] D(3) by (intro blocks_okI [OF _ b]) (simp_all only:)
    have "flash cont ?s3 = flash cont s2" by (rule same_flash(1) [OF lay2]) (simp add: upd_cxt_def)
    then have "flash cont ?s3 = (\<lambda>w. if w div ppb s = ?b then None else flash cont s w)"
      unfolding fl2 fl1 same_layout(6) [OF lay] .
    with q m ok usn k have "took cont s ex ?b ?s3"
      unfolding took_def by (simp add: upd_cxt_def drop_front_def swap_front_def)
    then show "ends ((if rc \<noteq> 0 then finish 0xFFFFFFFF else andthen (modify (upd_cxt drop_front)) (\<lambda>_. finish ?b)) s2) (took cont s ex)"
      using rc by simp
  qed
qed

section \<open>Giving a block back\<close>

definition add_free :: "nat \<Rightarrow> 'n ftl \<Rightarrow> 'n ftl" where
  "add_free b s = upd_cxt (\<lambda>c. c\<lparr>freecount := u16_mod (freecount c + 1),
     blockpool := (blockpool c)(pool_idx (nextfreeidx c + freecount c) := b)\<rparr>) s"

lemma pool_add_free:
  assumes "nextfreeidx (ftl_cxt s) < 0x14" "freecount (ftl_cxt s) < 0x14"
  shows "pool (add_free b s) = pool s @ [b]" "freecount (ftl_cxt (add_free b s)) = freecount (ftl_cxt s) + 1"
proof -
  let ?c = "ftl_cxt s"
  show fc: "freecount (ftl_cxt (add_free b s)) = freecount ?c + 1" using assms(2) by (simp add: add_free_def upd_cxt_def)
  have nx: "nextfreeidx (ftl_cxt (add_free b s)) = nextfreeidx ?c" by (simp add: add_free_def upd_cxt_def)
  have bp: "blockpool (ftl_cxt (add_free b s)) = (blockpool ?c)(pool_idx (nextfreeidx ?c + freecount ?c) := b)"
    by (simp add: add_free_def upd_cxt_def)
  have "blockpool (ftl_cxt (add_free b s)) (pool_idx (nextfreeidx ?c + i)) = blockpool ?c (pool_idx (nextfreeidx ?c + i))"
    if "i < freecount ?c" for i
    using pool_idx_inj [OF assms(1), of i "freecount ?c"] that assms(2) bp by auto
  then show "pool (add_free b s) = pool s @ [b]"
    by (simp add: pool_def Let_def fc nx) (simp add: bp)
qed

lemma release_pool_block:
  assumes "blocks_ok s (b # ex)" "geo_ok s"
  shows "ftl_release_pool_block b s = Some (Done (), add_free b s)" "mset (roles (add_free b s) @ ex) = mset (roles s @ b # ex)"
    "freecount (ftl_cxt s) < 0x14"
proof -
  note B = blocks_okD [OF assms(1)]
  show f: "freecount (ftl_cxt s) < 0x14" using B(3) by simp
  have "b \<in> set (roles s @ b # ex)" by simp
  then have small: "b < vblocks s" unfolding B(2) by simp
  then have "b < 65536" using assms(2) by (simp add: vblocks_def geo_ok_def)
  moreover have "pool_idx (nextfreeidx (ftl_cxt s) + freecount (ftl_cxt s)) < 0x14" using B(4) f by (rule pool_idx_less)
  moreover have "u16_mod b = b" using calculation(1) by simp
  ultimately show "ftl_release_pool_block b s = Some (Done (), add_free b s)"
    using small by (simp add: ftl_release_pool_block_def add_free_def vblocks_def modify_def upd_cxt_def)
  show "mset (roles (add_free b s) @ ex) = mset (roles s @ b # ex)"
    using pool_add_free(1) [OF B(4) f, of b] by (simp add: roles_def active_def) (simp add: add_free_def upd_cxt_def)
qed

end
