(* ===== verification/FtlView.thy ===== *)
theory FtlView
  imports FtlBlocks
begin

text \<open>
  What the FTL promises: an array of sectors. \<open>view\<close> reads it off the map, the log and the flash; the
  invariant \<open>ftl_ok\<close> says what the code keeps of its data. \<open>ftl_read\<close> returns the view.
\<close>

section \<open>The invariant\<close>

text \<open>A log entry. Some pages of a logical block are in the scattered block, in the order in which they were written.\<close>

definition log_ok :: "'n contents \<Rightarrow> 'n ftl \<Rightarrow> ftl_log_type \<Rightarrow> bool" where
  "log_ok cont s l \<longleftrightarrow> logicalvblock l < userblocks s \<and> pagesused l \<le> ppb s
     \<and> (\<forall>p < ppb s. pageoffsets l p = 0xFFFF \<or> pageoffsets l p < pagesused l)
     \<and> pagescurrent l = card {p. p < ppb s \<and> pageoffsets l p \<noteq> 0xFFFF}
     \<and> (\<forall>q < ppb s. pagesused l \<le> q \<longrightarrow> flash cont s (scatteredvblock l * ppb s + q) = None)
     \<and> (issequential l = 1 \<longrightarrow> (\<forall>p < pagescurrent l. pageoffsets l p = p))"

definition logs_ok :: "'n contents \<Rightarrow> 'n ftl \<Rightarrow> bool" where
  "logs_ok cont s \<longleftrightarrow> (\<forall>e \<in> set (active s). log_ok cont s (ftl_log s e))
     \<and> inj_on (\<lambda>e. logicalvblock (ftl_log s e)) (set (active s))"

lemma log_ok_fields:
  assumes "log_ok cont s l"
  shows "logicalvblock l < userblocks s" "pagesused l \<le> ppb s"
    "p < ppb s \<Longrightarrow> pageoffsets l p = 0xFFFF \<or> pageoffsets l p < pagesused l"
    "pagescurrent l = card {p. p < ppb s \<and> pageoffsets l p \<noteq> 0xFFFF}"
    "q < ppb s \<Longrightarrow> pagesused l \<le> q \<Longrightarrow> flash cont s (scatteredvblock l * ppb s + q) = None"
    "issequential l = 1 \<Longrightarrow> p < pagescurrent l \<Longrightarrow> pageoffsets l p = p"
  using assms unfolding log_ok_def by blast+

lemma log_okI:
  assumes "logicalvblock l < userblocks s" "pagesused l \<le> ppb s"
    "\<And>p. p < ppb s \<Longrightarrow> pageoffsets l p = 0xFFFF \<or> pageoffsets l p < pagesused l"
    "pagescurrent l = card {p. p < ppb s \<and> pageoffsets l p \<noteq> 0xFFFF}"
    "\<And>q. q < ppb s \<Longrightarrow> pagesused l \<le> q \<Longrightarrow> flash cont s (scatteredvblock l * ppb s + q) = None"
    "\<And>p. issequential l = 1 \<Longrightarrow> p < pagescurrent l \<Longrightarrow> pageoffsets l p = p"
  shows "log_ok cont s l"
  using assms unfolding log_ok_def by blast

text \<open>In a sequential entry the first pages of the logical block are where they would be in the block itself.\<close>

lemma log_ok_sequential:
  assumes l: "log_ok cont s l" and seq: "issequential l = 1" and g: "geo_ok s" and p: "p < ppb s"
  shows "pageoffsets l p = (if p < pagescurrent l then p else 0xFFFF)"
proof -
  note L = log_ok_fields [OF l]
  let ?A = "{p. p < ppb s \<and> pageoffsets l p \<noteq> 0xFFFF}"
  have "card ?A \<le> card {..<ppb s}" by (rule card_mono) auto
  then have c: "pagescurrent l \<le> ppb s" using L(4) by simp
  have "{..<pagescurrent l} \<subseteq> ?A"
  proof
    fix q assume "q \<in> {..<pagescurrent l}"
    then have "q < ppb s" "pageoffsets l q = q" using c L(6) [OF seq] by auto
    moreover have "ppb s \<le> 512" by (rule geo(4) [OF g])
    ultimately show "q \<in> ?A" by simp
  qed
  then have "{..<pagescurrent l} = ?A" using L(4) by (intro card_subset_eq) simp_all
  then show ?thesis using L(6) [OF seq, of p] p by auto
qed

text \<open>No page is marked as bad.\<close>

definition tidy :: "'n contents \<Rightarrow> 'n ftl \<Rightarrow> bool" where
  "tidy cont s \<longleftrightarrow> (\<forall>w d y. flash cont s w = Some (d, y) \<longrightarrow> sp_eccmark y = 0xFF)"

text \<open>The FTL at rest, and with its mutex free for the caller.\<close>

definition ftl_fit :: "'n nand_driver \<Rightarrow> 'n contents \<Rightarrow> 'n ftl \<Rightarrow> nat list \<Rightarrow> bool" where
  "ftl_fit dev cont s ex \<longleftrightarrow> runs_on dev cont s \<and> blocks_ok s ex \<and> logs_ok cont s \<and> tidy cont s \<and> ftl_initialized s"

lemma ftl_fitD:
  assumes "ftl_fit dev cont s ex"
  shows "runs_on dev cont s" "geo_ok s" "phys_ok s" "blocks_ok s ex" "logs_ok cont s" "tidy cont s" "ftl_initialized s"
  using assms runs_onD [of dev cont s] by (simp_all add: ftl_fit_def)

definition ftl_ok :: "'n nand_driver \<Rightarrow> 'n contents \<Rightarrow> 'n ftl \<Rightarrow> nat list \<Rightarrow> bool" where
  "ftl_ok dev cont s ex \<longleftrightarrow> runs_on dev cont s \<and> blocks_ok s ex \<and> logs_ok cont s \<and> tidy cont s
     \<and> ftl_initialized s \<and> can_take (ftl_mtx s) (fkern s)"

lemma ftl_okD:
  assumes "ftl_ok dev cont s ex"
  shows "runs_on dev cont s" "geo_ok s" "phys_ok s" "blocks_ok s ex" "logs_ok cont s" "tidy cont s" "ftl_initialized s"
    "can_take (ftl_mtx s) (fkern s)"
  using assms runs_onD [of dev cont s] by (simp_all add: ftl_ok_def)

lemma ftl_ok_fit: "ftl_ok dev cont s ex \<Longrightarrow> ftl_fit dev cont s ex"
  by (simp add: ftl_ok_def ftl_fit_def)

lemma log_okD:
  assumes "logs_ok cont s" "e < 0x11" "scatteredvblock (ftl_log s e) \<noteq> 0xFFFF"
  shows "log_ok cont s (ftl_log s e)"
  using assms by (simp add: logs_ok_def active_def)

section \<open>The view\<close>

definition view :: "'n contents \<Rightarrow> 'n ftl \<Rightarrow> nat \<Rightarrow> page option" where
  "view cont s sec = (if sec < userblocks s * ppb s
     then map_option fst (flash cont s (sector_page (sec div ppb s) (sec mod ppb s) s)) else None)"

lemma role_less:
  assumes "blocks_ok s ex"
  shows "b < userblocks s \<Longrightarrow> ftl_map s b < vblocks s" "e \<in> set (active s) \<Longrightarrow> scatteredvblock (ftl_log s e) < vblocks s"
    "i < 3 \<Longrightarrow> ftlctrlblocks (ftl_cxt s) i < vblocks s" "x \<in> set (pool s) \<Longrightarrow> x < vblocks s" "x \<in> set ex \<Longrightarrow> x < vblocks s"
  using blocks_okD(2) [OF assms] by (auto simp: roles_def)

lemma get_log_entry_Some:
  assumes "ftl_get_log_entry b s = Some e"
  shows "e < 0x11" "scatteredvblock (ftl_log s e) \<noteq> 0xFFFF" "logicalvblock (ftl_log s e) = b" "e \<in> set (active s)"
  using assms by (auto simp: ftl_get_log_entry_def find_Some_iff active_def)

lemma get_log_entry_None:
  "ftl_get_log_entry b s = None \<Longrightarrow> e < 0x11 \<Longrightarrow> scatteredvblock (ftl_log s e) \<noteq> 0xFFFF \<Longrightarrow> logicalvblock (ftl_log s e) \<noteq> b"
  by (auto simp: ftl_get_log_entry_def find_None_iff)

lemma get_log_entry_unique:
  assumes "logs_ok cont s" "e < 0x11" "scatteredvblock (ftl_log s e) \<noteq> 0xFFFF"
  shows "ftl_get_log_entry (logicalvblock (ftl_log s e)) s = Some e"
proof (cases "ftl_get_log_entry (logicalvblock (ftl_log s e)) s")
  case None
  from get_log_entry_None [OF this assms(2,3)] show ?thesis by simp
next
  case (Some f)
  from get_log_entry_Some [OF Some] have "f \<in> set (active s)" "logicalvblock (ftl_log s f) = logicalvblock (ftl_log s e)" by simp_all
  moreover have "e \<in> set (active s)" using assms(2,3) by (simp add: active_def)
  ultimately have "f = e" using assms(1) by (auto simp: logs_ok_def dest: inj_onD)
  with Some show ?thesis by simp
qed

text \<open>The block that a sector is in.\<close>

lemma sector_page_block:
  assumes "logs_ok cont s" "p < ppb s"
  shows "sector_page b p s div ppb s = ftl_map s b
    \<or> (\<exists>e. ftl_get_log_entry b s = Some e \<and> sector_page b p s div ppb s = scatteredvblock (ftl_log s e))"
proof (cases "ftl_get_log_entry b s")
  case None
  then show ?thesis using assms(2) by (simp add: sector_page_def)
next
  case (Some e)
  note E = get_log_entry_Some [OF Some]
  note L = log_ok_fields [OF log_okD [OF assms(1) E(1,2)]]
  have "pageoffsets (ftl_log s e) p = 0xFFFF \<or> pageoffsets (ftl_log s e) p < ppb s"
    using L(3) [OF assms(2)] L(2) by linarith
  then show ?thesis using Some assms(2) by (auto simp: sector_page_def Let_def)
qed

lemma sector_page_less:
  assumes "blocks_ok s ex" "logs_ok cont s" "b < userblocks s" "p < ppb s"
  shows "sector_page b p s < vpages s" "sector_page b p s div ppb s < vblocks s"
proof -
  show "sector_page b p s div ppb s < vblocks s"
    using sector_page_block [OF assms(2,4), of b] role_less(1,2) [OF assms(1)] assms(3) get_log_entry_Some(4) [of b s] by auto
  then show "sector_page b p s < vpages s" by (rule in_vblock [OF _ refl]) (use assms(4) in simp)
qed

lemma sector_split:
  assumes "sec < userblocks s * ppb s"
  shows "sec div ppb s < userblocks s" "sec mod ppb s < ppb s"
proof -
  have "0 < ppb s" using assms by (cases "ppb s") auto
  then show "sec div ppb s < userblocks s" "sec mod ppb s < ppb s" using assms by (simp_all add: div_less_iff_less_mult)
qed

text \<open>A block is in use if the view rests on it.\<close>

definition in_use :: "'n ftl \<Rightarrow> nat set" where
  "in_use s = ftl_map s ` {0..<userblocks s} \<union> (\<lambda>e. scatteredvblock (ftl_log s e)) ` set (active s)"

lemma in_use_free:
  assumes "blocks_ok s ex" "x \<in> set ex \<union> set (pool s) \<union> ftlctrlblocks (ftl_cxt s) ` {0..<3}"
  shows "x \<notin> in_use s"
  using blocks_okD(1) [OF assms(1)] assms(2) by (auto simp: roles_def in_use_def)

lemma sector_in_use:
  assumes "logs_ok cont s" "b < userblocks s" "p < ppb s"
  shows "sector_page b p s div ppb s \<in> in_use s"
  using sector_page_block [OF assms(1,3), of b] assms(2) get_log_entry_Some(4) [of b s] by (auto simp: in_use_def)

lemma view_cong:
  assumes "logs_ok cont s" "same_layout s s'" "ftl_map s' = ftl_map s" "ftl_log s' = ftl_log s"
    and "\<And>w. w div ppb s \<in> in_use s \<Longrightarrow> flash cont s' w = flash cont s w"
  shows "view cont s' = view cont s"
proof
  fix sec
  note l = same_layout [OF assms(2)]
  have "sector_page b p s' = sector_page b p s" for b p
    using assms(3,4) l(6) by (simp add: sector_page_def ftl_get_log_entry_def Let_def split: option.split)
  then show "view cont s' sec = view cont s sec"
    using assms(5) sector_in_use [OF assms(1) sector_split(1,2)] by (simp add: view_def l(6,8))
qed

lemma logs_ok_cong:
  assumes "logs_ok cont s" "same_layout s s'" "ftl_log s' = ftl_log s"
    and "\<And>w. w div ppb s \<in> in_use s \<Longrightarrow> flash cont s' w = flash cont s w"
  shows "logs_ok cont s'"
proof -
  note l = same_layout [OF assms(2)]
  have a: "active s' = active s" by (simp add: active_def assms(3))
  have "log_ok cont s' (ftl_log s e)" if e: "e \<in> set (active s)" for e
  proof -
    have "flash cont s' (scatteredvblock (ftl_log s e) * ppb s + q) = flash cont s (scatteredvblock (ftl_log s e) * ppb s + q)"
      if "q < ppb s" for q
      by (rule assms(4)) (use e that in \<open>auto simp: in_use_def\<close>)
    moreover have "log_ok cont s (ftl_log s e)" using assms(1) e by (simp add: logs_ok_def)
    note L = log_ok_fields [OF this]
    ultimately have "flash cont s' (scatteredvblock (ftl_log s e) * ppb s' + q) = None" if "q < ppb s'" "pagesused (ftl_log s e) \<le> q" for q
      using L(5) that unfolding l(6) by simp
    with L show ?thesis by (intro log_okI) (simp_all only: l(6,8))
  qed
  moreover have "inj_on (\<lambda>e. logicalvblock (ftl_log s e)) (set (active s))" using assms(1) by (simp add: logs_ok_def)
  ultimately show ?thesis unfolding logs_ok_def a assms(3) by blast
qed

text \<open>Code that writes to blocks that are not in use keeps the invariant and the view.\<close>

lemma ftl_ok_quiet:
  assumes i: "ftl_ok dev cont s ex" and q: "quiet cont s s'" and b: "blocks_ok s' ex'" and t: "tidy cont s'"
    and "\<And>w. w div ppb s \<in> in_use s \<Longrightarrow> flash cont s' w = flash cont s w"
  shows "ftl_ok dev cont s' ex'" "view cont s' = view cont s"
proof -
  note I = ftl_okD [OF i] and Q = quietD [OF q]
  show "view cont s' = view cont s" by (rule view_cong [OF I(5) Q(1,3,4) assms(5)])
  have "logs_ok cont s'" by (rule logs_ok_cong [OF I(5) Q(1,4) assms(5)])
  then show "ftl_ok dev cont s' ex'"
    using I b t Q runs_on_layout [OF Q(1)] kernel_same_can_take [OF Q(7)] by (simp add: ftl_ok_def)
qed

lemma tidy_erased: "tidy cont s \<Longrightarrow> flash cont s' = (\<lambda>w. if P w then None else flash cont s w) \<Longrightarrow> tidy cont s'"
  by (auto simp: tidy_def)

lemma ftl_ok_still:
  assumes "ftl_ok dev cont s ex" "still cont s s'" "flash cont s' = flash cont s"
  shows "ftl_ok dev cont s' ex" "view cont s' = view cont s"
  using ftl_ok_quiet [OF assms(1) stillD(1) [OF assms(2)] blocks_ok_still [OF assms(2) ftl_okD(4) [OF assms(1)]]]
    ftl_okD(6) [OF assms(1)] assms(3) by (simp_all add: tidy_def)

lemma ftl_ok_took:
  assumes i: "ftl_ok dev cont s ex" and t: "took cont s ex b s'"
  shows "ftl_ok dev cont s' (b # ex)" "view cont s' = view cont s"
proof -
  have fl: "flash cont s' = (\<lambda>w. if w div ppb s = b then None else flash cont s w)" using t by (simp add: took_def)
  have b: "b \<notin> in_use s" by (rule in_use_free [OF ftl_okD(4) [OF i]]) (use t in \<open>simp add: took_def\<close>)
  have same: "flash cont s' w = flash cont s w" if "w div ppb s \<in> in_use s" for w using b that by (auto simp: fl)
  have q: "quiet cont s s'" "blocks_ok s' (b # ex)" using t by (simp_all add: took_def)
  note T = tidy_erased [OF ftl_okD(6) [OF i] fl]
  show "ftl_ok dev cont s' (b # ex)" by (rule ftl_ok_quiet(1) [OF i q T same])
  show "view cont s' = view cont s" by (rule ftl_ok_quiet(2) [OF i q T same])
qed

end
