(* ===== verification/FtlRead.thy ===== *)
theory FtlRead
  imports FtlView
begin

text \<open>\<open>ftl_read\<close> fills the buffer with the view, page by page or, in fast reads, one page of every bank at a time.\<close>

lemma fast_fold:
  assumes "\<forall>j < k. (ret :: nat) AND push_bit (4 * j) 2 \<noteq> 0 \<or> ret AND push_bit (4 * j) 0xd = 0 \<and> sp_eccmark (sps j) = 0xFF"
  shows "fold (\<lambda>j (error, buffer).
      if ret AND push_bit (4 * j) 2 \<noteq> 0 then (error, buffer(i + j := page_of 0))
      else if ret AND push_bit (4 * j) 0xd \<noteq> 0 \<or> sp_eccmark (sps j) \<noteq> 0xFF then (neg 3, buffer(i + j := page_of 0))
      else (error, buffer)) [0..<k] (e, buffer)
    = (e, \<lambda>m. if i \<le> m \<and> m < i + k \<and> ret AND push_bit (4 * (m - i)) 2 \<noteq> 0 then page_of 0 else buffer m)"
  using assms
proof (induction k)
  case (Suc k)
  then show ?case by (auto simp: fun_eq_iff less_Suc_eq)
qed (auto simp: fun_eq_iff)

text \<open>States in which the same is stored.\<close>

lemma sector_page_cong:
  "ftl_map s' = ftl_map s \<Longrightarrow> ftl_log s' = ftl_log s \<Longrightarrow> ppb s' = ppb s \<Longrightarrow> sector_page b p s' = sector_page b p s"
  "ftl_log s' = ftl_log s \<Longrightarrow> ftl_get_log_entry b s' = ftl_get_log_entry b s"
  by (simp_all add: sector_page_def ftl_get_log_entry_def Let_def split: option.split)

definition reads_as :: "'n contents \<Rightarrow> 'n ftl \<Rightarrow> nat \<Rightarrow> nat \<Rightarrow> (nat \<Rightarrow> page) \<Rightarrow> bool" where
  "reads_as cont s sector n buf \<longleftrightarrow> (\<forall>j < n. \<forall>d. view cont s (sector + j) = Some d \<longrightarrow> buf j = d)"

text \<open>What a read leaves behind.\<close>

definition after_read :: "'n contents \<Rightarrow> 'n ftl \<Rightarrow> 'n ftl \<Rightarrow> bool" where
  "after_read cont s s' \<longleftrightarrow> (\<exists>n sps. s' = s\<lparr>nand := n, ftl_sparebuffer := sps\<rparr> \<and> cont n = cont (nand s))"

lemma after_read:
  assumes "after_read cont s s'"
  shows "same_layout s s'" "cont (nand s') = cont (nand s)" "ftl_map s' = ftl_map s" "ftl_log s' = ftl_log s" "fkern s' = fkern s"
    "flash cont s' = flash cont s"
proof -
  from assms obtain n sps where "s' = s\<lparr>nand := n, ftl_sparebuffer := sps\<rparr>" "cont n = cont (nand s)" by (auto simp: after_read_def)
  then show "same_layout s s'" "cont (nand s') = cont (nand s)" "ftl_map s' = ftl_map s" "ftl_log s' = ftl_log s" "fkern s' = fkern s"
    by (simp_all add: same_layout_def)
  then show "flash cont s' = flash cont s" by (simp add: same_flash)
qed

lemma after_read_step: "after_read cont s s' \<Longrightarrow> cont n = cont (nand s') \<Longrightarrow> after_read cont s (s'\<lparr>nand := n, ftl_sparebuffer := sps\<rparr>)"
  unfolding after_read_def by (elim exE conjE, rule exI [of _ n], rule exI [of _ sps]) simp

lemma flash_view:
  assumes "ftl_fit dev cont s ex" "sec < userblocks s * ppb s"
  shows "vcont cont s (sector_page (sec div ppb s) (sec mod ppb s) s) = flash cont s (sector_page (sec div ppb s) (sec mod ppb s) s)"
    "view cont s sec = map_option fst (flash cont s (sector_page (sec div ppb s) (sec mod ppb s) s))"
  using assms(2) sector_page_less(1) [OF ftl_fitD(4,5) [OF assms(1)] sector_split [OF assms(2)]]
  by (simp_all add: flash_def view_def)

lemma slow_read:
  assumes i: "ftl_fit dev cont s ex" and a: "after_read cont s s'" and sec: "sec < userblocks s * ppb s"
  obtains rc b x n where
    "ftl_vfl_read dev (sector_page (sec div ppb s) (sec mod ppb s) s) buf sp True True s' = Some (Done (rc, b, x), s'\<lparr>nand := n\<rparr>)"
    "cont n = cont (nand s')"
    "view cont s sec = None \<longrightarrow> rc AND 2 \<noteq> 0"
    "\<forall>d. view cont s sec = Some d \<longrightarrow> rc AND 0x11F = 0 \<and> b = d \<and> sp_eccmark x = 0xFF"
proof -
  note I = ftl_fitD [OF i] and A = after_read [OF a]
  let ?v = "sector_page (sec div ppb s) (sec mod ppb s) s"
  have r': "runs_on dev cont s'" using runs_on_layout [OF A(1)] I(1) by simp
  have v: "?v < vpages s" by (rule sector_page_less(1) [OF I(4,5) sector_split [OF sec]])
  have v': "?v < vpages s'" using v same_layout(4) [OF A(1)] by simp
  from vfl_read [OF r' v', where buf = buf and sp = sp and f = True] obtain rc b x n where
    rd: "ftl_vfl_read dev ?v buf sp True True s' = Some (Done (rc, b, x), s'\<lparr>nand := n\<rparr>)" "cont n = cont (nand s')"
    "case vcont cont s' ?v of Some (d, y) \<Rightarrow> rc AND 0x11F = 0 \<and> b = d \<and> x = y | None \<Rightarrow> rc AND 2 \<noteq> 0" .
  have vc: "vcont cont s' ?v = flash cont s ?v"
    using A(6) v same_layout(4) [OF A(1)] by (simp add: flash_def fun_eq_iff) (metis)
  show ?thesis
  proof (rule that [OF rd(1,2)])
    show "view cont s sec = None \<longrightarrow> rc AND 2 \<noteq> 0" using rd(3) flash_view(2) [OF i sec] by (auto simp: vc)
    show "\<forall>d. view cont s sec = Some d \<longrightarrow> rc AND 0x11F = 0 \<and> b = d \<and> sp_eccmark x = 0xFF"
    proof (intro allI impI)
      fix d assume "view cont s sec = Some d"
      then have "map_option fst (flash cont s ?v) = Some d" using flash_view(2) [OF i sec] by simp
      then obtain y where y: "flash cont s ?v = Some (d, y)" by (cases "flash cont s ?v") auto
      with rd(3) vc have "rc AND 0x11F = 0" "b = d" "x = y" by simp_all
      with y I(6) show "rc AND 0x11F = 0 \<and> b = d \<and> sp_eccmark x = 0xFF" by (auto simp: tidy_def)
    qed
  qed
qed

text \<open>The pages of a row of banks belong to one block.\<close>

lemma aligned_sectors:
  assumes "geo_ok s" "(sec mod ppb s) mod ftl_banks s = 0" "j < ftl_banks s"
  shows "(sec + j) div ppb s = sec div ppb s" "(sec + j) mod ppb s = sec mod ppb s + j"
    "sec mod ppb s + ftl_banks s \<le> ppb s"
proof -
  note p = geo [OF assms(1)]
  obtain q where q: "sec mod ppb s = ftl_banks s * q" using assms(2) by auto
  have "ftl_banks s * q < ftl_banks s * pagesperblock s" using q p(1,5) by (metis mod_less_divisor mult.commute)
  then have "q < pagesperblock s" by simp
  then have "ftl_banks s * Suc q \<le> ftl_banks s * pagesperblock s" by (intro mult_le_mono2) simp
  then show le: "sec mod ppb s + ftl_banks s \<le> ppb s" using q p(5) by (simp add: mult.commute)
  have "sec + j = sec div ppb s * ppb s + (sec mod ppb s + j)" by (simp add: div_mult_mod_eq [symmetric] del: div_mult_mod_eq)
  moreover have "sec mod ppb s + j < ppb s" using le assms(3) by simp
  ultimately show "(sec + j) div ppb s = sec div ppb s" "(sec + j) mod ppb s = sec mod ppb s + j"
    by (metis div_mult_self3 div_less add_0 p(1) less_numeral_extra(3) add.commute, metis mod_mult_self3 mod_less)
qed

lemma fast_read:
  assumes i: "ftl_fit dev cont s ex" and a: "after_read cont s s'" and sec: "sec + ftl_banks s \<le> userblocks s * ppb s"
    and al: "(sec mod ppb s) mod ftl_banks s = 0" and e: "ftl_get_log_entry (sec div ppb s) s = None"
  obtains rc bs xs n where
    "ftl_vfl_read_fast dev (sector_page (sec div ppb s) (sec mod ppb s) s) bufs sps True True s' = Some (Done (rc, bs, xs), s'\<lparr>nand := n\<rparr>)"
    "cont n = cont (nand s')" "\<forall>j \<ge> ftl_banks s. bs j = bufs j"
    "\<forall>j < ftl_banks s. rc AND push_bit (4 * j) 2 \<noteq> 0 \<or> rc AND push_bit (4 * j) 0xd = 0 \<and> sp_eccmark (xs j) = 0xFF"
    "\<forall>j < ftl_banks s. \<forall>d. view cont s (sec + j) = Some d \<longrightarrow> rc AND push_bit (4 * j) 2 = 0 \<and> bs j = d"
proof -
  note I = ftl_fitD [OF i] and A = after_read [OF a] and p = geo [OF ftl_fitD(2) [OF i]]
  note l = same_layout [OF A(1)]
  let ?b = "sec div ppb s"
  let ?v = "sector_page ?b (sec mod ppb s) s"
  have r': "runs_on dev cont s'" using runs_on_layout [OF A(1)] I(1) by simp
  have v: "sector_page ?b (sec mod ppb s + j) s = ?v + j" for j using e by (simp add: sector_page_def)
  have pg: "vcont cont s' (?v + j) = flash cont s (?v + j)" "?v + j < vpages s"
    "view cont s (sec + j) = map_option fst (flash cont s (?v + j))" if j: "j < ftl_banks s" for j
  proof -
    note al' = aligned_sectors [OF I(2) al j]
    have sj: "sec + j < userblocks s * ppb s" using sec j by simp
    show less: "?v + j < vpages s"
      using sector_page_less(1) [OF I(4,5) sector_split [OF sj]] unfolding al'(1,2) v .
    then show "vcont cont s' (?v + j) = flash cont s (?v + j)"
      using A(6) l(4) by (simp add: flash_def fun_eq_iff) (metis)
    show "view cont s (sec + j) = map_option fst (flash cont s (?v + j))"
      using flash_view(2) [OF i sj] unfolding al'(1,2) v .
  qed
  have "?v + (ftl_banks s - 1) < vpages s" by (rule pg(2)) (use p(2) in simp)
  then have v': "?v + ftl_banks s' \<le> vpages s'" using p(2) unfolding l(4,7) by simp
  from vfl_read_fast [OF r' v', where bufs = bufs and sps = sps and f = True] obtain rc bs xs n where
    rd: "ftl_vfl_read_fast dev ?v bufs sps True True s' = Some (Done (rc, bs, xs), s'\<lparr>nand := n\<rparr>)" "cont n = cont (nand s')"
    "\<forall>j \<ge> ftl_banks s. bs j = bufs j" "\<forall>j < ftl_banks s. fast_ok (vcont cont s' (?v + j)) (nibble j rc) (bs j) (xs j)"
    unfolding l(7) .
  have two: "rc AND push_bit (4 * j) 2 = 0 \<longleftrightarrow> nibble j rc AND 2 = 0" "rc AND push_bit (4 * j) 0xd = 0 \<longleftrightarrow> nibble j rc AND 0xd = 0" for j
    by (rule push_bit_nibble, simp)+
  have ok: "fast_ok (flash cont s (?v + j)) (nibble j rc) (bs j) (xs j)" if "j < ftl_banks s" for j
    using rd(4) pg(1) that by simp
  have mark: "sp_eccmark y = 0xFF" if "flash cont s w = Some (d, y)" for w d y using I(6) that by (auto simp: tidy_def)
  show ?thesis
  proof (rule that [OF rd(1-3)])
    show "\<forall>j < ftl_banks s. rc AND push_bit (4 * j) 2 \<noteq> 0 \<or> rc AND push_bit (4 * j) 0xd = 0 \<and> sp_eccmark (xs j) = 0xFF"
    proof (intro allI impI)
      fix j assume "j < ftl_banks s"
      from ok [OF this] mark show "rc AND push_bit (4 * j) 2 \<noteq> 0 \<or> rc AND push_bit (4 * j) 0xd = 0 \<and> sp_eccmark (xs j) = 0xFF"
        unfolding two fast_ok_def by (auto split: option.splits)
    qed
    show "\<forall>j < ftl_banks s. \<forall>d. view cont s (sec + j) = Some d \<longrightarrow> rc AND push_bit (4 * j) 2 = 0 \<and> bs j = d"
    proof (intro allI impI)
      fix j d assume j: "j < ftl_banks s" and d: "view cont s (sec + j) = Some d"
      from d pg(3) [OF j] obtain y where "flash cont s (?v + j) = Some (d, y)" by auto
      with ok [OF j] show "rc AND push_bit (4 * j) 2 = 0 \<and> bs j = d" unfolding two fast_ok_def by simp
    qed
  qed
qed

definition read_so_far :: "'n contents \<Rightarrow> 'n ftl \<Rightarrow> nat \<Rightarrow> nat \<Rightarrow> (nat \<Rightarrow> page) \<Rightarrow> nat \<times> nat \<times> (nat \<Rightarrow> page) \<Rightarrow> 'n ftl \<Rightarrow> bool" where
  "read_so_far cont s sector cnt buffer x s' \<longleftrightarrow> (case x of (i, error, buf) \<Rightarrow> i \<le> cnt \<and> error = 0 \<and> after_read cont s s'
     \<and> reads_as cont s sector i buf \<and> (\<forall>j \<ge> i. buf j = buffer j))"

lemma read_turn_step:
  assumes ok: "ftl_fit dev cont s ex" and rg: "sector + cnt \<le> userblocks s * ppb s" and P: "read_so_far cont s sector cnt buffer x s'"
  shows "ends (read_turn dev sector cnt x s') (\<lambda>t s''. case t of
      Leave r \<Rightarrow> fst r = 0 \<and> after_read cont s s'' \<and> reads_as cont s sector cnt (snd r) \<and> (\<forall>j \<ge> cnt. snd r j = buffer j)
    | Go x' \<Rightarrow> read_so_far cont s sector cnt buffer x' s'' \<and> cnt - fst x' < cnt - fst x)"
proof -
  obtain i error buf where x: "x = (i, error, buf)" by (cases x)
  from P x have i: "i \<le> cnt" and e0: "error = 0" and a: "after_read cont s s'" and ra: "reads_as cont s sector i buf"
    and tl: "\<forall>j \<ge> i. buf j = buffer j" by (simp_all add: read_so_far_def)
  note I = ftl_fitD [OF ok] and A = after_read [OF a] and p = geo [OF ftl_fitD(2) [OF ok]]
  note l = same_layout [OF A(1)]
  show ?thesis
  proof (cases "cnt \<le> i")
    case True
    with i have "i = cnt" by simp
    with a ra tl e0 show ?thesis by (simp add: read_turn_def x)
  next
    case False
    let ?sec = "sector + i"
    have sec: "?sec < userblocks s * ppb s" using rg False by simp
    have "userblocks s * ppb s \<le> 0x2000 * 512" using I(2) p(4) by (intro mult_le_mono) (simp_all add: geo_ok_def)
    then have u: "u32_mod ?sec = ?sec" using sec by simp
    note sp = sector_split [OF sec]
    have small: "?sec div ppb s < 0x2000" using sp(1) I(2) by (simp add: geo_ok_def)
    let ?v = "sector_page (?sec div ppb s) (?sec mod ppb s) s"
    have v: "sector_page (?sec div ppb s) (?sec mod ppb s) s' = ?v" by (rule sector_page_cong(1) [OF A(3,4) l(6)])
    have ge: "ftl_get_log_entry (?sec div ppb s) s' = ftl_get_log_entry (?sec div ppb s) s" by (rule sector_page_cong(2) [OF A(4)])
    have andmod: "?sec mod ppb s AND (ftl_banks s - 1) = ?sec mod ppb s mod ftl_banks s"
      using I(2) and_minus_one [of "?sec mod ppb s" "ftl_banks_exponent s"] by (simp add: geo_ok_def)
    let ?fast = "i + ftl_banks s \<le> cnt \<and> ?sec mod ppb s mod ftl_banks s = 0 \<and> ftl_get_log_entry (?sec div ppb s) s = None"
    show ?thesis
    proof (cases ?fast)
      case True
      have rg': "?sec + ftl_banks s \<le> userblocks s * ppb s" using True rg by simp
      have fa: "?sec mod ppb s mod ftl_banks s = 0" "ftl_get_log_entry (?sec div ppb s) s = None" using True by simp_all
      from fast_read [OF ok a rg' fa, where bufs = "\<lambda>j. buf (i + j)" and sps = "ftl_sparebuffer s'"]
      obtain rc bs xs n where
        rd: "ftl_vfl_read_fast dev ?v (\<lambda>j. buf (i + j)) (ftl_sparebuffer s') True True s' = Some (Done (rc, bs, xs), s'\<lparr>nand := n\<rparr>)"
        "cont n = cont (nand s')" "\<forall>j \<ge> ftl_banks s. bs j = buf (i + j)"
        and good: "\<forall>j < ftl_banks s. rc AND push_bit (4 * j) 2 \<noteq> 0 \<or> rc AND push_bit (4 * j) 0xd = 0 \<and> sp_eccmark (xs j) = 0xFF"
        and data: "\<forall>j < ftl_banks s. \<forall>d. view cont s (?sec + j) = Some d \<longrightarrow> rc AND push_bit (4 * j) 2 = 0 \<and> bs j = d" .
      let ?buf = "\<lambda>k. if i \<le> k then bs (k - i) else buf k"
      let ?out = "\<lambda>m. if i \<le> m \<and> m < i + ftl_banks s \<and> rc AND push_bit (4 * (m - i)) 2 \<noteq> 0 then page_of 0 else ?buf m"
      let ?s2 = "s'\<lparr>nand := n, ftl_sparebuffer := xs\<rparr>"
      have at: "andthen (ftl_vfl_read_fast dev ?v (\<lambda>j. buf (i + j)) (ftl_sparebuffer s') True True) g s' = g (rc, bs, xs) (s'\<lparr>nand := n\<rparr>)" for g
        by (rule andthen_Done) (rule rd(1))
      have bk: "ftl_banks (s'\<lparr>nand := n, ftl_sparebuffer := xs\<rparr>) = ftl_banks s" using l(7) by simp
      have fc: "i + ftl_banks s \<le> cnt \<and> ?sec mod ppb s AND (ftl_banks s - 1) = 0 \<and> ftl_get_log_entry (?sec div ppb s) s = None"
        using True andmod by simp
      have run: "read_turn dev sector cnt x s' = Some (Done (Go (i + ftl_banks s, 0, ?out)), ?s2)"
        unfolding read_turn_def x prod.case u l(6,7) v ge Let_def if_not_P [OF False] andthen_require
          if_P [OF small] if_P [OF fc] at
        unfolding prod.case bk e0 fast_fold [OF good] by (simp add: finish_def)
      have "reads_as cont s sector (i + ftl_banks s) ?out"
        unfolding reads_as_def
      proof (intro allI impI)
        fix j d assume j: "j < i + ftl_banks s" and d: "view cont s (sector + j) = Some d"
        show "?out j = d"
        proof (cases "j < i")
          case True
          with ra d show ?thesis by (simp add: reads_as_def)
        next
          case False
          then have "j = i + (j - i)" "j - i < ftl_banks s" using j by simp_all
          with data d have "rc AND push_bit (4 * (j - i)) 2 = 0 \<and> bs (j - i) = d" by (metis add.assoc)
          with False show ?thesis by simp
        qed
      qed
      moreover have "\<forall>j \<ge> i + ftl_banks s. ?out j = buffer j" using rd(3) tl by auto
      moreover have "after_read cont s ?s2" by (rule after_read_step [OF a rd(2)])
      moreover have "cnt - (i + ftl_banks s) < cnt - i" using True p(2) by linarith
      ultimately show ?thesis unfolding run using True by (simp add: read_so_far_def x)
    next
      case slow: False
      from slow_read [OF ok a sec, where buf = "buf i" and sp = "ftl_sparebuffer s' 0"] obtain rc b y n where
        rd: "ftl_vfl_read dev ?v (buf i) (ftl_sparebuffer s' 0) True True s' = Some (Done (rc, b, y), s'\<lparr>nand := n\<rparr>)"
        "cont n = cont (nand s')"
        and none: "view cont s ?sec = None \<longrightarrow> rc AND 2 \<noteq> 0"
        and some: "\<forall>d. view cont s ?sec = Some d \<longrightarrow> rc AND 0x11F = 0 \<and> b = d \<and> sp_eccmark y = 0xFF" .
      have some': "rc AND 2 = 0 \<and> rc AND 0x11D = 0 \<and> b = d \<and> sp_eccmark y = 0xFF" if "view cont s ?sec = Some d" for d
        using some that no_error_bits [of rc] by simp
      let ?b = "if rc AND 2 \<noteq> 0 then page_of 0 else b"
      let ?s2 = "s'\<lparr>nand := n, ftl_sparebuffer := (ftl_sparebuffer s')(0 := y)\<rparr>"
      have ok': "rc AND 2 \<noteq> 0 \<or> \<not> (rc AND 0x11D \<noteq> 0 \<or> sp_eccmark y \<noteq> 0xFF)"
        using none some' by (cases "view cont s ?sec") auto
      have res: "(if rc AND 2 \<noteq> 0 then (error, page_of 0)
           else if rc AND 0x11D \<noteq> 0 \<or> sp_eccmark y \<noteq> 0xFF then (neg 4, page_of 0) else (error, b)) = (0, ?b)"
        using ok' e0 by auto
      have sl: "\<not> (i + ftl_banks s \<le> cnt \<and> ?sec mod ppb s AND (ftl_banks s - 1) = 0 \<and> ftl_get_log_entry (?sec div ppb s) s = None)"
        using slow andmod by simp
      have at: "andthen (ftl_vfl_read dev ?v (buf i) (ftl_sparebuffer s' 0) True True) g s' = g (rc, b, y) (s'\<lparr>nand := n\<rparr>)" for g
        by (rule andthen_Done) (rule rd(1))
      have run: "read_turn dev sector cnt x s' = Some (Done (Go (i + 1, 0, buf(i := ?b))), ?s2)"
        unfolding read_turn_def x prod.case u l(6,7) v ge Let_def if_not_P [OF False] andthen_require
          if_P [OF small] if_not_P [OF sl] at
        unfolding res by (simp add: finish_def set_spare_def)
      have "reads_as cont s sector (i + 1) (buf(i := ?b))"
        using ra some' by (auto simp: reads_as_def less_Suc_eq)
      moreover have "\<forall>j \<ge> i + 1. (buf(i := ?b)) j = buffer j" using tl by simp
      moreover have "after_read cont s ?s2" by (rule after_read_step [OF a rd(2)])
      ultimately show ?thesis unfolding run using False by (simp add: read_so_far_def x)
    qed
  qed
qed

section \<open>The whole read\<close>

lemma ftl_fit_fkern:
  assumes i: "ftl_fit dev cont s ex"
  shows "ftl_fit dev cont (s\<lparr>fkern := k\<rparr>) ex" "view cont (s\<lparr>fkern := k\<rparr>) = view cont s" "flash cont (s\<lparr>fkern := k\<rparr>) = flash cont s"
proof -
  note I = ftl_fitD [OF i]
  have l: "same_layout s (s\<lparr>fkern := k\<rparr>)" by (simp add: same_layout_def)
  show f: "flash cont (s\<lparr>fkern := k\<rparr>) = flash cont s" by (rule same_flash(1) [OF l]) simp
  show "view cont (s\<lparr>fkern := k\<rparr>) = view cont s" by (rule view_cong [OF I(5) l]) (simp_all add: f)
  have "logs_ok cont (s\<lparr>fkern := k\<rparr>)" by (rule logs_ok_cong [OF I(5) l]) (simp_all add: f)
  moreover have "blocks_ok (s\<lparr>fkern := k\<rparr>) ex"
    using I(4) by (simp add: blocks_ok_def roles_def active_def pool_def vblocks_def Let_def)
  ultimately show "ftl_fit dev cont (s\<lparr>fkern := k\<rparr>) ex"
    using I runs_on_layout [OF l] by (simp add: ftl_fit_def tidy_def f)
qed

definition read_only :: "'n contents \<Rightarrow> 'n ftl \<Rightarrow> 'n ftl \<Rightarrow> bool" where
  "read_only cont s s' \<longleftrightarrow> (\<exists>n sps k. s' = s\<lparr>nand := n, ftl_sparebuffer := sps, fkern := k\<rparr> \<and> cont n = cont (nand s) \<and> kernel_same (fkern s) k)"

lemma read_onlyI: "cont n = cont (nand s) \<Longrightarrow> kernel_same (fkern s) k \<Longrightarrow> read_only cont s (s\<lparr>nand := n, ftl_sparebuffer := sps, fkern := k\<rparr>)"
  unfolding read_only_def by blast

lemma read_only:
  assumes "read_only cont s s'"
  shows "still cont s s'" "flash cont s' = flash cont s" "ftl_cxt s' = ftl_cxt s" "ftl_copybuffer s' = ftl_copybuffer s"
proof -
  from assms obtain n sps k where s': "s' = s\<lparr>nand := n, ftl_sparebuffer := sps, fkern := k\<rparr>" "cont n = cont (nand s)" "kernel_same (fkern s) k"
    by (auto simp: read_only_def)
  then have l: "same_layout s s'" by (simp add: same_layout_def)
  show "ftl_cxt s' = ftl_cxt s" "ftl_copybuffer s' = ftl_copybuffer s" by (simp_all add: s')
  have c: "cont (nand s') = cont (nand s)" using s' by simp
  show "flash cont s' = flash cont s" by (rule same_flash(1) [OF l c])
  have "outside cont s s'" by (rule same_flash(2) [OF l c])
  then show "still cont s s'" using l s' by (simp add: still_def quiet_def same_pool_def)
qed

lemma ftl_read_view:
  assumes ok: "ftl_ok dev cont s ex" and rg: "sector + cnt \<le> userblocks s * ppb s" and al: "addr mod 16 = 0"
  shows "ends (ftl_read dev sector cnt addr buffer s) (\<lambda>r s'. fst r = 0 \<and> reads_as cont s sector cnt (snd r)
     \<and> (\<forall>j \<ge> cnt. snd r j = buffer j) \<and> read_only cont s s')"
proof -
  note I = ftl_okD [OF ok] and p = geo [OF ftl_okD(2) [OF ok]]
  have "userblocks s * ppb s \<le> 0x2000 * 512" using I(2) p(4) by (intro mult_le_mono) (simp_all add: geo_ok_def)
  then have u: "u32_mod (userblocks s * ppb s) = userblocks s * ppb s" "u32_mod (sector + cnt) = sector + cnt"
    using rg by simp_all
  let ?t = "taken (ftl_mtx s) (fkern s)"
  let ?s = "s\<lparr>fkern := ?t\<rparr>"
  note T = ftl_fit_fkern [OF ftl_ok_fit [OF ok]]
  let ?Q = "\<lambda>r s'. fst r = 0 \<and> reads_as cont s sector cnt (snd r) \<and> (\<forall>j \<ge> cnt. snd r j = buffer j) \<and> read_only cont s s'"
  have loop: "ends (forever (read_turn dev sector cnt) (0, 0, buffer) ?s) (\<lambda>r s1. fst r = 0 \<and> reads_as cont s sector cnt (snd r)
     \<and> (\<forall>j \<ge> cnt. snd r j = buffer j) \<and> after_read cont ?s s1)"
  proof (rule ends_forever [where P = "read_so_far cont ?s sector cnt buffer" and m = "\<lambda>x _. cnt - fst x"])
    show "read_so_far cont ?s sector cnt buffer (0, 0, buffer) ?s"
      unfolding read_so_far_def after_read_def reads_as_def by (simp add: exI [of _ "nand s"] exI [of _ "ftl_sparebuffer s"])
    fix x s' assume P: "read_so_far cont ?s sector cnt buffer x s'"
    have rg': "sector + cnt \<le> userblocks ?s * ppb ?s" using rg by simp
    show "ends (read_turn dev sector cnt x s') (\<lambda>t s'. case t of
        Leave r \<Rightarrow> fst r = 0 \<and> reads_as cont s sector cnt (snd r) \<and> (\<forall>j \<ge> cnt. snd r j = buffer j) \<and> after_read cont ?s s'
      | Go x' \<Rightarrow> read_so_far cont ?s sector cnt buffer x' s' \<and> cnt - fst x' < cnt - fst x)"
      by (rule ends_weaken [OF read_turn_step [OF T(1) rg' P]]) (auto simp: reads_as_def T(2) split: turn.splits)
  qed
  have "ends (ftl_locked (\<lambda>s. if \<not> ftl_initialized s then finish (neg 1, buffer) s
     else forever (read_turn dev sector cnt) (0, 0, buffer) s) s) ?Q"
    unfolding ftl_locked_def
  proof (rule ends_with_mutex)
    show "can_take (ftl_mtx s) (fkern s)" by (rule I(8))
    show "ends ((\<lambda>s. if \<not> ftl_initialized s then finish (neg 1, buffer) s else forever (read_turn dev sector cnt) (0, 0, buffer) s) ?s)
       (\<lambda>r s1. kernel_same ?t (fkern s1) \<and> (\<forall>k. kernel_same (fkern s) k \<longrightarrow> ?Q r (s1\<lparr>fkern := k\<rparr>)))"
      using I(7) by (simp, intro ends_weaken [OF loop]) (auto simp: after_read_def intro: read_onlyI)
  qed
  moreover have "?Q (0, buffer) s" if "cnt = 0"
    using that unfolding read_only_def reads_as_def
    by (simp add: exI [of _ "nand s"] exI [of _ "ftl_sparebuffer s"] exI [of _ "fkern s"])
  ultimately show ?thesis using I(7) al u rg by (simp add: ftl_read_def CACHEALIGN_SIZE_def)
qed

end
