(* ===== verification/FtlCopy.thy ===== *)
theory FtlCopy
  imports FtlRead
begin

text \<open>Copying within the flash: pages and blocks are copied to blocks that are not in use.\<close>

section \<open>Updates that nothing rests on\<close>

definition same_store :: "'n ftl \<Rightarrow> 'n ftl \<Rightarrow> bool" where
  "same_store s u \<longleftrightarrow> ftl_nand_type u = ftl_nand_type s \<and> ftl_banks u = ftl_banks s \<and> ftl_banks_exponent u = ftl_banks_exponent s
     \<and> ppb u = ppb s \<and> ppb_exponent u = ppb_exponent s \<and> syshyperblocks u = syshyperblocks s \<and> ftl_vfl_cxt u = ftl_vfl_cxt s
     \<and> ftl_vfl_usn u = ftl_vfl_usn s \<and> ftl_mtx u = ftl_mtx s \<and> ftl_initialized u = ftl_initialized s \<and> fkern u = fkern s
     \<and> nand u = nand s \<and> ftl_map u = ftl_map s \<and> ftl_log u = ftl_log s \<and> ftl_erasectr u = ftl_erasectr s
     \<and> c_usn (ftl_cxt u) = c_usn (ftl_cxt s) \<and> ftl_map_pages (ftl_cxt u) = ftl_map_pages (ftl_cxt s)
     \<and> ftl_erasectr_pages (ftl_cxt u) = ftl_erasectr_pages (ftl_cxt s) \<and> ftlctrlblocks (ftl_cxt u) = ftlctrlblocks (ftl_cxt s)
     \<and> ftlctrlpage (ftl_cxt u) = ftlctrlpage (ftl_cxt s) \<and> clean_flag (ftl_cxt u) = clean_flag (ftl_cxt s)
     \<and> freecount (ftl_cxt u) = freecount (ftl_cxt s) \<and> nextfreeidx (ftl_cxt u) = nextfreeidx (ftl_cxt s)
     \<and> blockpool (ftl_cxt u) = blockpool (ftl_cxt s)"

lemma same_store:
  assumes "same_store s u"
  shows "flash cont u = flash cont s" "quiet cont s0 u = quiet cont s0 s" "still cont s0 u = still cont s0 s"
    "pool u = pool s" "active u = active s" "blocks_ok u ex = blocks_ok s ex" "runs_on dev cont u = runs_on dev cont s"
    "view cont u = view cont s" "logs_ok cont u = logs_ok cont s" "tidy cont u = tidy cont s"
    "ftl_ok dev cont u ex = ftl_ok dev cont s ex"
proof -
  note a = assms [unfolded same_store_def]
  have l: "same_layout s u" "same_layout u s" using a by (simp_all add: same_layout_def)
  note L = same_layout [OF l(1)]
  show f: "flash cont u = flash cont s" by (rule same_flash(1) [OF l(1)]) (use a in simp)
  have o: "outside cont s0 u = outside cont s0 s" for s0 using a by (simp add: outside_def)
  have "same_layout s0 u = same_layout s0 s" for s0 using same_layout_trans l by metis
  then show "quiet cont s0 u = quiet cont s0 s" "still cont s0 u = still cont s0 s"
    using a by (simp_all add: quiet_def still_def same_pool_def o)
  show p: "pool u = pool s" "active u = active s" using a by (simp_all add: pool_def active_def Let_def)
  show b: "blocks_ok u ex = blocks_ok s ex" using a p by (simp add: blocks_ok_def roles_def vblocks_def)
  show r: "runs_on dev cont u = runs_on dev cont s" by (rule runs_on_layout [OF l(1)])
  have "sector_page bb pp u = sector_page bb pp s" for bb pp by (rule sector_page_cong(1)) (use a in simp_all)
  then show "view cont u = view cont s" by (simp add: view_def fun_eq_iff f L(6,8))
  have "log_ok cont u = log_ok cont s" by (simp add: log_ok_def fun_eq_iff f L(6,8))
  then show lo: "logs_ok cont u = logs_ok cont s" using a p by (simp add: logs_ok_def)
  show t: "tidy cont u = tidy cont s" by (simp add: tidy_def f)
  show "ftl_ok dev cont u ex = ftl_ok dev cont s ex" using a by (simp add: ftl_ok_def b r lo t)
qed

lemma same_store_updates:
  "same_store s (s\<lparr>ftl_copybuffer := a\<rparr>)" "same_store s (s\<lparr>ftl_copyspare := b\<rparr>)" "same_store s (s\<lparr>ftl_sparebuffer := b\<rparr>)"
  "same_store s (s\<lparr>ftl_buffer := c\<rparr>)" "same_store s (set_spare i d s)" "same_store s (next_usn s)" "same_store s (count_swap s)"
  "same_store s (less_swaps s)"
  by (simp_all add: same_store_def next_usn_def count_swap_def less_swaps_def)

lemmas buffer_updates [simp] =
  same_store [OF same_store_updates(1)] same_store [OF same_store_updates(2)] same_store [OF same_store_updates(3)]
  same_store [OF same_store_updates(4)] same_store [OF same_store_updates(5)] same_store [OF same_store_updates(6)]
  same_store [OF same_store_updates(7)] same_store [OF same_store_updates(8)]

lemma bookkeeping [simp]:
  "ftl_nand_type (next_usn s) = ftl_nand_type s" "ppb (next_usn s) = ppb s" "ftl_log (next_usn s) = ftl_log s"
  "ftl_map (next_usn s) = ftl_map s" "ftl_banks (next_usn s) = ftl_banks s"
  "ftl_nand_type (count_swap s) = ftl_nand_type s" "ppb (count_swap s) = ppb s" "ftl_log (count_swap s) = ftl_log s"
  "freecount (ftl_cxt (next_usn s)) = freecount (ftl_cxt s)" "freecount (ftl_cxt (count_swap s)) = freecount (ftl_cxt s)"
  "ftl_copybuffer (next_usn s) = ftl_copybuffer s" "ftl_copyspare (next_usn s) = ftl_copyspare s" "ftl_sparebuffer (next_usn s) = ftl_sparebuffer s"
  by (simp_all add: next_usn_def count_swap_def)

lemma user_spare_mark [simp]: "sp_eccmark (user_spare lpn usn f False) = 0xFF"
  by (simp add: user_spare_def spare_ff_def)

section \<open>Writing to a block\<close>

lemma vpages_small:
  assumes "geo_ok s" "w < vpages s"
  shows "w < 4294967296" "u32_mod w = w"
proof -
  have "vpages s \<le> 0x2000 * 512" unfolding vpages_def
    using assms(1) geo(4) [OF assms(1)] by (intro mult_le_mono) (simp_all add: geo_ok_def vblocks_def)
  then show "w < 4294967296" "u32_mod w = w" using assms(2) by simp_all
qed

lemma block_bounds:
  assumes "b < vblocks s" "q + k \<le> ppb s"
  shows "b * ppb s + q + k \<le> vpages s"
proof -
  have "(b + 1) * ppb s \<le> vblocks s * ppb s" using assms(1) by (intro mult_le_mono1) simp
  then show ?thesis using assms(2) by (simp add: vpages_def)
qed

lemma write_pages:
  assumes r: "runs_on dev cont s" and b: "b < vblocks s" and q: "q + k \<le> ppb s" "0 < k"
    and e: "\<forall>i < k. flash cont s (b * ppb s + q + i) = None"
  obtains n where "ftl_vfl_write dev (b * ppb s + q) k bufs sps s = Some (Done 0, s\<lparr>nand := n\<rparr>)"
    "still cont s (s\<lparr>nand := n\<rparr>)"
    "flash cont (s\<lparr>nand := n\<rparr>) = (\<lambda>w. if b * ppb s + q \<le> w \<and> w < b * ppb s + q + k
       then Some (bufs (w - (b * ppb s + q)), sps (w - (b * ppb s + q))) else flash cont s w)"
proof -
  note R = runs_onD [OF r]
  have lim: "b * ppb s + q + k \<le> vpages s" by (rule block_bounds [OF b q(1)])
  have "\<forall>i < k. vcont cont s (b * ppb s + q + i) = None" using e lim by (simp add: flash_def)
  from vfl_write [OF r lim q(2) this, where bufs = bufs and sps = sps] obtain n where
    n: "ftl_vfl_write dev (b * ppb s + q) k bufs sps s = Some (Done 0, s\<lparr>nand := n\<rparr>)" "written cont s (b * ppb s + q) k bufs sps n" .
  have l: "same_layout s (s\<lparr>nand := n\<rparr>)" by simp
  have w: "written cont s (b * ppb s + q) k bufs sps (nand (s\<lparr>nand := n\<rparr>))" using n(2) by simp
  note F = flash_written [OF l w R(1,2) lim]
  have "still cont s (s\<lparr>nand := n\<rparr>)" using F(2) by (simp add: still_def quiet_def same_pool_def)
  from n(1) this F(1) show ?thesis by (rule that)
qed

section \<open>A whole block\<close>

lemma filter_multiples: "0 < c \<Longrightarrow> filter (\<lambda>i. i mod c = 0) [0..<c * m] = map ((*) c) [0..<m]"
proof (induction m)
  case (Suc m)
  have "filter (\<lambda>i. i mod c = 0) [c * m..<c * Suc m] = [c * m]"
  proof -
    have "[c * m..<c * Suc m] = c * m # [Suc (c * m)..<c * Suc m]" using Suc.prems by (simp add: upt_rec)
    moreover have "i mod c \<noteq> 0" if "i \<in> set [Suc (c * m)..<c * Suc m]" for i
    proof
      assume "i mod c = 0"
      then obtain k where "i = c * k" by auto
      from that have "c * m < i" by (simp add: Suc_le_eq)
      moreover from that have "i < c * Suc m" by (simp del: mult_Suc_right)
      ultimately show False using \<open>i = c * k\<close> by (metis less_Suc_eq_le mult_less_cancel1 not_less)
    qed
    then have "filter (\<lambda>i. i mod c = 0) [Suc (c * m)..<c * Suc m] = []" by (simp only: filter_empty_conv) blast
    ultimately show ?thesis by simp
  qed
  moreover have "[0..<c * Suc m] = [0..<c * m] @ [c * m..<c * Suc m]" using upt_add_eq_append [of 0 "c * m" c] by (simp add: add.commute)
  ultimately show ?case using Suc by simp
qed simp

text \<open>
  The first \<open>m\<close> pages of block \<open>dst\<close> were written, page \<open>q\<close> with data that satisfy \<open>P q\<close>;
  the others are erased.
\<close>

definition laid :: "'n contents \<Rightarrow> 'n ftl \<Rightarrow> (nat \<Rightarrow> page \<Rightarrow> bool) \<Rightarrow> nat \<Rightarrow> nat \<Rightarrow> 'n ftl \<Rightarrow> bool" where
  "laid cont s P dst m s' \<longleftrightarrow> still cont s s' \<and> tidy cont s' \<and> (\<forall>w. w div ppb s \<noteq> dst \<longrightarrow> flash cont s' w = flash cont s w)
     \<and> (\<forall>q < m. \<exists>d. map_option fst (flash cont s' (dst * ppb s + q)) = Some d \<and> P q d)
     \<and> (\<forall>q < ppb s. m \<le> q \<longrightarrow> flash cont s' (dst * ppb s + q) = None)"

lemma laidD:
  assumes "laid cont s P dst m s'"
  shows "still cont s s'" "tidy cont s'" "w div ppb s \<noteq> dst \<Longrightarrow> flash cont s' w = flash cont s w"
    "q < m \<Longrightarrow> \<exists>d. map_option fst (flash cont s' (dst * ppb s + q)) = Some d \<and> P q d"
    "q < ppb s \<Longrightarrow> m \<le> q \<Longrightarrow> flash cont s' (dst * ppb s + q) = None"
  using assms by (simp_all add: laid_def)

lemma laid_start:
  "tidy cont s \<Longrightarrow> \<forall>q < ppb s. flash cont s (dst * ppb s + q) = None \<Longrightarrow> laid cont s P dst 0 s"
  by (simp add: laid_def)

lemma laid_ok:
  assumes "ftl_ok dev cont s ex" "laid cont s P dst m s'" "dst \<in> set ex"
  shows "ftl_ok dev cont s' ex" "view cont s' = view cont s"
proof -
  note C = laidD [OF assms(2)]
  have "dst \<notin> in_use s" by (rule in_use_free [OF ftl_okD(4) [OF assms(1)]]) (use assms(3) in simp)
  then have f: "flash cont s' w = flash cont s w" if "w div ppb s \<in> in_use s" for w using C(3) [of w] that by (cases "w div ppb s = dst") simp_all
  have b: "blocks_ok s' ex" by (rule blocks_ok_still [OF C(1) ftl_okD(4) [OF assms(1)]])
  show "ftl_ok dev cont s' ex" by (rule ftl_ok_quiet(1) [OF assms(1) stillD(1) [OF C(1)] b C(2) f])
  show "view cont s' = view cont s" by (rule ftl_ok_quiet(2) [OF assms(1) stillD(1) [OF C(1)] b C(2) f])
qed

lemma laid_still:
  assumes "laid cont s P dst m s1" "still cont s1 s2" "flash cont s2 = flash cont s1"
  shows "laid cont s P dst m s2"
  using assms still_trans [of cont s s1 s2] by (simp add: laid_def tidy_def)

text \<open>The next pages are written to the block.\<close>

lemma laid_more:
  assumes ok: "ftl_ok dev cont s ex" and c: "laid cont s P dst m s'" and dst: "dst < vblocks s" and k: "m + k \<le> ppb s" "0 < k"
    and data: "\<forall>j < k. P (m + j) (bufs j)" and marks: "\<forall>j < k. sp_eccmark (sps j) = 0xFF"
  obtains n where "ftl_vfl_write dev (u32_mod (dst * ppb s + m)) k bufs sps s' = Some (Done 0, s'\<lparr>nand := n\<rparr>)"
    "laid cont s P dst (m + k) (s'\<lparr>nand := n\<rparr>)"
proof -
  note C = laidD [OF c] and I = ftl_okD [OF ok] and Q = quietD [OF stillD(1) [OF laidD(1) [OF c]]]
  note l = same_layout [OF Q(1)] and p = geo [OF I(2)]
  have r': "runs_on dev cont s'" using runs_on_layout [OF Q(1)] I(1) by simp
  have e: "\<forall>i < k. flash cont s' (dst * ppb s' + m + i) = None" using C(5) k unfolding l(6) by (simp add: add.assoc)
  from write_pages [OF r', of dst m k bufs sps] dst k e obtain n where
    n: "ftl_vfl_write dev (dst * ppb s + m) k bufs sps s' = Some (Done 0, s'\<lparr>nand := n\<rparr>)" "still cont s' (s'\<lparr>nand := n\<rparr>)"
    "flash cont (s'\<lparr>nand := n\<rparr>) = (\<lambda>w. if dst * ppb s + m \<le> w \<and> w < dst * ppb s + m + k
       then Some (bufs (w - (dst * ppb s + m)), sps (w - (dst * ppb s + m))) else flash cont s' w)"
    unfolding l(5,6) by blast
  have u: "u32_mod (dst * ppb s + m) = dst * ppb s + m"
    using vpages_small(2) [OF I(2)] vpage_less [OF dst, of m] k by simp
  have inb: "w div ppb s = dst" if "dst * ppb s + m \<le> w" "w < dst * ppb s + m + k" for w
  proof -
    have "w = dst * ppb s + (w - dst * ppb s)" "w - dst * ppb s < ppb s" using that k by simp_all
    then show ?thesis by (metis page_in_vblock)
  qed
  have "laid cont s P dst (m + k) (s'\<lparr>nand := n\<rparr>)"
    unfolding laid_def
  proof (intro conjI allI impI)
    show "still cont s (s'\<lparr>nand := n\<rparr>)" by (rule still_trans [OF C(1) n(2)])
    show "tidy cont (s'\<lparr>nand := n\<rparr>)" using C(2) marks unfolding tidy_def n(3) by (auto split: if_splits)
    show "flash cont (s'\<lparr>nand := n\<rparr>) w = flash cont s w" if "w div ppb s \<noteq> dst" for w
      using C(3) [OF that] inb that unfolding n(3) by auto
    show "\<exists>d. map_option fst (flash cont (s'\<lparr>nand := n\<rparr>) (dst * ppb s + q)) = Some d \<and> P q d" if q: "q < m + k" for q
    proof (cases "q < m")
      case True
      then show ?thesis using C(4) [OF True] unfolding n(3) by simp
    next
      case False
      then have "q = m + (q - m)" "q - m < k" using q by simp_all
      with data False have "P q (bufs (q - m))" by metis
      then show ?thesis using False q unfolding n(3) by simp
    qed
    show "flash cont (s'\<lparr>nand := n\<rparr>) (dst * ppb s + q) = None" if "q < ppb s" "m + k \<le> q" for q
      using C(5) that unfolding n(3) by simp
  qed
  with n(1) show ?thesis by (intro that [of n]) (simp_all add: u)
qed

text \<open>The first \<open>m\<close> pages of block \<open>dst\<close> hold the view of logical block \<open>src\<close>.\<close>

definition copied :: "'n contents \<Rightarrow> 'n ftl \<Rightarrow> nat \<Rightarrow> nat \<Rightarrow> nat \<Rightarrow> 'n ftl \<Rightarrow> bool" where
  "copied cont s src dst m s' \<longleftrightarrow> laid cont s (\<lambda>q d. view cont s (src * ppb s + q) \<in> {None, Some d}) dst m s'"

lemma copiedD:
  assumes "copied cont s src dst m s'"
  shows "still cont s s'" "tidy cont s'" "w div ppb s \<noteq> dst \<Longrightarrow> flash cont s' w = flash cont s w"
    "q < m \<Longrightarrow> view cont s (src * ppb s + q) = Some d \<Longrightarrow> map_option fst (flash cont s' (dst * ppb s + q)) = Some d"
    "q < ppb s \<Longrightarrow> m \<le> q \<Longrightarrow> flash cont s' (dst * ppb s + q) = None"
proof -
  note L = laidD [OF assms [unfolded copied_def]]
  show "still cont s s'" "tidy cont s'" "w div ppb s \<noteq> dst \<Longrightarrow> flash cont s' w = flash cont s w"
    "q < ppb s \<Longrightarrow> m \<le> q \<Longrightarrow> flash cont s' (dst * ppb s + q) = None" by (fact L(1-3,5))+
  show "q < m \<Longrightarrow> view cont s (src * ppb s + q) = Some d \<Longrightarrow> map_option fst (flash cont s' (dst * ppb s + q)) = Some d"
    using L(4) [of q] by auto
qed

lemmas copied_ok = laid_ok [where cont = cont and s = s and P = "\<lambda>q d. view cont s (src * ppb s + q) \<in> {None, Some d}" for cont s src, folded copied_def]

text \<open>A part of the view was read and is written to the block.\<close>

lemma copied_more:
  assumes ok: "ftl_ok dev cont s ex" and c: "copied cont s src dst m s'" and dst: "dst < vblocks s" and k: "m + k \<le> ppb s" "0 < k"
    and data: "reads_as cont s (src * ppb s + m) k bufs" and marks: "\<forall>j < k. sp_eccmark (sps j) = 0xFF"
  obtains n where "ftl_vfl_write dev (u32_mod (dst * ppb s + m)) k bufs sps s' = Some (Done 0, s'\<lparr>nand := n\<rparr>)"
    "copied cont s src dst (m + k) (s'\<lparr>nand := n\<rparr>)"
proof -
  have "\<forall>j < k. view cont s (src * ppb s + (m + j)) \<in> {None, Some (bufs j)}"
  proof (intro allI impI)
    fix j assume "j < k"
    with data show "view cont s (src * ppb s + (m + j)) \<in> {None, Some (bufs j)}"
      by (cases "view cont s (src * ppb s + (m + j))") (auto simp: reads_as_def add.assoc)
  qed
  from laid_more [OF ok c [unfolded copied_def] dst k this marks] that show ?thesis unfolding copied_def by blast
qed

lemma read_copy:
  assumes ok: "ftl_ok dev cont s ex" and rg: "sector + cnt \<le> userblocks s * ppb s"
  shows "ends (read_copy dev sector cnt 0 s) (\<lambda>rc s'. rc = 0 \<and> still cont s s' \<and> flash cont s' = flash cont s
     \<and> reads_as cont s sector cnt (ftl_copybuffer s') \<and> ftl_cxt s' = ftl_cxt s)"
proof -
  note R = ftl_read_view [OF ok rg, of 0 "\<lambda>k. ftl_copybuffer s (0 + k)"]
  show ?thesis unfolding read_copy_def
    by (rule ends_seq, rule R) (auto simp: read_only)
qed

text \<open>The spare data of the first \<open>n\<close> copies say that the pages are good.\<close>

definition marked :: "'n ftl \<Rightarrow> nat \<Rightarrow> 'n ftl \<Rightarrow> bool" where
  "marked s n s' \<longleftrightarrow> (\<exists>sp. s' = s\<lparr>ftl_copyspare := sp\<rparr> \<and> (\<forall>j < n. sp_eccmark (sp j) = 0xFF))"

lemma marked_zero: "marked s 0 s"
  unfolding marked_def by (rule exI [of _ "ftl_copyspare s"]) simp

lemma marked_next:
  assumes "marked s k s1" "sp_eccmark y = 0xFF"
  shows "marked s (Suc k) (s1\<lparr>ftl_copyspare := (ftl_copyspare s1)(k := y)\<rparr>)"
proof -
  from assms(1) obtain sp where "s1 = s\<lparr>ftl_copyspare := sp\<rparr>" "\<forall>j < k. sp_eccmark (sp j) = 0xFF" by (auto simp: marked_def)
  then show ?thesis unfolding marked_def by (intro exI [of _ "sp(k := y)"]) (simp add: assms(2) less_Suc_eq)
qed

lemma mark_copies: "ends (for_each [0..<n] (mark_copy dev source i 0) () s) (\<lambda>_ s'. marked s n s')"
proof -
  have "ends (for_each [0..<n] (mark_copy dev source i 0) () s) (\<lambda>t s'. \<exists>x. t = Go x \<and> marked s (length [0..<n]) s')"
  proof (rule ends_for_each)
    show "marked s 0 s" by (rule marked_zero)
    fix k x s1 assume k: "k < length [0..<n]" and m: "marked s k s1"
    show "ends (mark_copy dev source i 0 ([0..<n] ! k) x s1) (\<lambda>t s'. \<exists>x'. t = Go x' \<and> marked s (Suc k) s')"
      using k marked_next [OF m] by (simp add: mark_copy_def)
  qed
  then show ?thesis by (rule ends_weaken) auto
qed

lemmas copied_still = laid_still [where cont = cont and s = s and P = "\<lambda>q d. view cont s (src * ppb s + q) \<in> {None, Some d}" for cont s src, folded copied_def]

lemma logical_small:
  assumes "geo_ok s" "b < userblocks s" "q + k \<le> ppb s" "0 < k"
  shows "u32_mod (b * ppb s + q) = b * ppb s + q" "b * ppb s + q + k \<le> userblocks s * ppb s"
proof -
  have "b * ppb s + q < vpages s" by (rule vpage_less) (use assms in \<open>simp_all add: vblocks_def\<close>)
  then show "u32_mod (b * ppb s + q) = b * ppb s + q" by (rule vpages_small(2) [OF assms(1)])
  have "(b + 1) * ppb s \<le> userblocks s * ppb s" using assms(2) by (intro mult_le_mono1) simp
  then show "b * ppb s + q + k \<le> userblocks s * ppb s" using assms(3) by simp
qed

lemma copy_batch:
  assumes ok: "ftl_ok dev cont s ex" and src: "src < userblocks s" and dst: "dst \<in> set ex"
    and c: "copied cont s src dst m s1" and m: "m + 4 \<le> ppb s"
  shows "ends (copy_batch dev src dst m x s1) (\<lambda>t s'. t = Go () \<and> copied cont s src dst (m + 4) s')"
proof -
  note I = ftl_okD [OF ok] and C = copied_ok [OF ok c dst]
  note l = same_layout [OF quietD(1) [OF stillD(1) [OF copiedD(1) [OF c]]]]
  note small = logical_small [OF I(2) src m] 
  have rg: "src * ppb s + m + 4 \<le> userblocks s1 * ppb s1" and u: "u32_mod (src * ppb s + m) = src * ppb s + m"
    using small unfolding l(6,8) by simp_all
  show ?thesis unfolding copy_batch_def FTL_COPYBUF_SIZE_def l(6) u
  proof (rule ends_seq, rule read_copy [OF C(1) rg], elim conjE)
    fix rc :: nat and s2 assume rc: "rc = 0" and st: "still cont s1 s2" and fl: "flash cont s2 = flash cont s1"
      and ra: "reads_as cont s1 (src * ppb s + m) 4 (ftl_copybuffer s2)"
    have c2: "copied cont s src dst m s2" by (rule copied_still [OF c st fl])
    show "ends (andthen (modify (\<lambda>s. s\<lparr>ftl_copyspare := (\<lambda>_. spare_ff)\<rparr>)) (\<lambda>_.
        andthen (for_each [0..<4] (mark_copy dev src m rc) ()) (\<lambda>_ s.
        andthen (ftl_vfl_write dev (u32_mod (dst * ppb s + m)) 4 (ftl_copybuffer s) (ftl_copyspare s))
          (\<lambda>rc. finish (if rc \<noteq> 0 then Leave () else Go ())) s)) s2) (\<lambda>t s'. t = Go () \<and> copied cont s src dst (m + 4) s')"
      unfolding rc andthen_modify
    proof (rule ends_seq, rule mark_copies)
      fix t s3 assume "marked (s2\<lparr>ftl_copyspare := (\<lambda>_. spare_ff)\<rparr>) 4 s3"
      then obtain sp where s3: "s3 = s2\<lparr>ftl_copyspare := sp\<rparr>" and sp: "\<forall>j < 4. sp_eccmark (sp j) = 0xFF" by (auto simp: marked_def)
      have c3: "copied cont s src dst m s3" unfolding s3 by (rule copied_still [OF c2]) simp_all
      have data: "reads_as cont s (src * ppb s + m) 4 (ftl_copybuffer s3)" "\<forall>j < 4. sp_eccmark (ftl_copyspare s3 j) = 0xFF"
        using ra sp unfolding s3 reads_as_def C(2) by simp_all
      from copied_more [OF ok c3 role_less(5) [OF I(4) dst] m _ data] obtain n where
        "ftl_vfl_write dev (u32_mod (dst * ppb s + m)) 4 (ftl_copybuffer s3) (ftl_copyspare s3) s3 = Some (Done 0, s3\<lparr>nand := n\<rparr>)"
        "copied cont s src dst (m + 4) (s3\<lparr>nand := n\<rparr>)" by (metis zero_less_numeral)
      moreover have "ppb s3 = ppb s" using same_layout(6) [OF quietD(1) [OF stillD(1) [OF copiedD(1) [OF c3]]]] .
      ultimately show "ends (andthen (ftl_vfl_write dev (u32_mod (dst * ppb s3 + m)) 4 (ftl_copybuffer s3) (ftl_copyspare s3))
          (\<lambda>rc. finish (if rc \<noteq> 0 then Leave () else Go ())) s3) (\<lambda>t s'. t = Go () \<and> copied cont s src dst (m + 4) s')"
        by (simp add: ends_andthen)
    qed
  qed
qed

lemma copy_block:
  assumes ok: "ftl_ok dev cont s ex" and src: "src < userblocks s" and dst: "dst \<in> set ex"
    and e: "\<forall>q < ppb s. flash cont s (dst * ppb s + q) = None"
  shows "ends (ftl_copy_block dev src dst s) (\<lambda>rc s'. rc = 0 \<and> copied cont s src dst (ppb s) s')"
proof -
  note I = ftl_okD [OF ok] and p = geo [OF ftl_okD(2) [OF ok]]
  obtain k where "ppb s = 32 * k" using p(7) by blast
  then have "ppb s = 4 * (8 * k)" by simp
  then obtain m where m: "ppb s = 4 * m" by blast
  let ?is = "filter (\<lambda>i. i mod FTL_COPYBUF_SIZE = 0) [0..<ppb s]"
  have is': "?is = map ((*) 4) [0..<m]" using filter_multiples [of 4 m] by (simp add: m FTL_COPYBUF_SIZE_def)
  have len: "4 * length ?is = ppb s" unfolding is' by (simp add: m)
  have "ends (for_each ?is (copy_batch dev src dst) () (next_usn s)) (\<lambda>t s'. \<exists>x. t = Go x \<and> copied cont s src dst (4 * length ?is) s')"
  proof (rule ends_for_each [where P = "\<lambda>n _ s'. copied cont s src dst (4 * n) s'"])
    show "copied cont s src dst (4 * 0) (next_usn s)" using e I(6) by (simp add: copied_def laid_def)
    fix n x s1 assume n: "n < length ?is" and c: "copied cont s src dst (4 * n) s1"
    have i: "?is ! n = 4 * n" and lim: "4 * n + 4 \<le> ppb s" using n unfolding is' by (simp_all add: m)
    show "ends (copy_batch dev src dst (?is ! n) x s1) (\<lambda>t s'. \<exists>x'. t = Go x' \<and> copied cont s src dst (4 * Suc n) s')"
      unfolding i by (rule ends_weaken [OF copy_batch [OF ok src dst c lim]]) (auto simp: add.commute)
  qed
  then show ?thesis unfolding ftl_copy_block_def andthen_modify
    by (simp only: bookkeeping ends_andthen, elim ends_weaken) (auto simp: len)
qed

end
