(* ===== verification/FtlCommit.thy ===== *)
theory FtlCommit
  imports FtlCopy
begin

text \<open>
  How blocks change their roles, and the operations that get rid of a scattered block: its logical block is
  put together in one block, or its current pages in a new scattered block.
\<close>

section \<open>What the control data rest on\<close>

definition calm :: "'n contents \<Rightarrow> 'n ftl \<Rightarrow> 'n ftl \<Rightarrow> bool" where
  "calm cont s s' \<longleftrightarrow> same_layout s s' \<and> outside cont s s' \<and> ftl_vfl_cxt s' = ftl_vfl_cxt s \<and> ftl_vfl_usn s' = ftl_vfl_usn s
     \<and> ftl_mtx s' = ftl_mtx s \<and> kernel_same (fkern s) (fkern s')
     \<and> c_usn (ftl_cxt s') = c_usn (ftl_cxt s) \<and> ftlctrlblocks (ftl_cxt s') = ftlctrlblocks (ftl_cxt s)
     \<and> ftlctrlpage (ftl_cxt s') = ftlctrlpage (ftl_cxt s) \<and> clean_flag (ftl_cxt s') = clean_flag (ftl_cxt s)
     \<and> (\<forall>w. w div ppb s \<in> ftlctrlblocks (ftl_cxt s) ` {0..<3} \<longrightarrow> flash cont s' w = flash cont s w)"

lemma calm_refl [simp]: "calm cont s s"
  by (simp add: calm_def)

lemma calm_trans: "calm cont s s' \<Longrightarrow> calm cont s' s'' \<Longrightarrow> calm cont s s''"
  unfolding calm_def using same_layout_trans [of s s' s''] outside_trans [of s s' cont s''] kernel_same_trans [of "fkern s" "fkern s'" "fkern s''"]
    same_layout(6) [of s s'] by simp

lemma calm_quiet:
  assumes "quiet cont s s'" "blocks_ok s ex" "\<And>w. w div ppb s \<notin> set ex \<union> set (pool s) \<union> in_use s \<Longrightarrow> flash cont s' w = flash cont s w"
  shows "calm cont s s'"
proof -
  have "x \<notin> set ex \<union> set (pool s) \<union> in_use s" if "x \<in> ftlctrlblocks (ftl_cxt s) ` {0..<3}" for x
    using blocks_okD(1) [OF assms(2)] that in_use_free [OF assms(2), of x] by (auto simp: roles_def)
  with assms(1,3) show ?thesis by (simp add: quiet_def calm_def)
qed

lemma calm_took:
  assumes "blocks_ok s ex" "took cont s ex b s'"
  shows "calm cont s s'"
  using assms(2) by (intro calm_quiet [OF _ assms(1)]) (auto simp: took_def)

lemma calm_laid:
  assumes "blocks_ok s ex" "laid cont s P b m s'" "b \<in> set ex"
  shows "calm cont s s'"
  using assms(2,3) by (intro calm_quiet [OF stillD(1) [OF laidD(1) [OF assms(2)]] assms(1)]) (auto simp: laid_def)

lemmas calm_copied = calm_laid [where cont = cont and s = s and P = "\<lambda>q d. view cont s (src * ppb s + q) \<in> {None, Some d}" for cont s src,
  folded copied_def]

section \<open>Changes of roles\<close>

lemma roles_differ:
  assumes "blocks_ok s ex"
  shows "b < userblocks s \<Longrightarrow> e \<in> set (active s) \<Longrightarrow> ftl_map s b \<noteq> scatteredvblock (ftl_log s e)"
    "e \<in> set (active s) \<Longrightarrow> i \<in> set (active s) \<Longrightarrow> scatteredvblock (ftl_log s i) = scatteredvblock (ftl_log s e) \<Longrightarrow> i = e"
    "e \<in> set (active s) \<Longrightarrow> scatteredvblock (ftl_log s e) \<notin> ftlctrlblocks (ftl_cxt s) ` {0..<3}"
    "b < userblocks s \<Longrightarrow> ftl_map s b \<notin> ftlctrlblocks (ftl_cxt s) ` {0..<3}"
    "b < userblocks s \<Longrightarrow> c < userblocks s \<Longrightarrow> ftl_map s b = ftl_map s c \<Longrightarrow> b = c"
proof -
  let ?M = "map (ftl_map s) [0..<userblocks s]" and ?A = "map (\<lambda>e. scatteredvblock (ftl_log s e)) (active s)"
    and ?C = "map (ftlctrlblocks (ftl_cxt s)) [0..<3]"
  have d: "distinct ?M" "distinct ?A" "set ?M \<inter> set ?A = {}" "set ?M \<inter> set ?C = {}" "set ?A \<inter> set ?C = {}"
    using blocks_okD(1) [OF assms] unfolding roles_def distinct_append set_append by blast+
  have in_M: "ftl_map s b \<in> set ?M" if "b < userblocks s" for b using that by simp
  have in_A: "scatteredvblock (ftl_log s e) \<in> set ?A" if "e \<in> set (active s)" for e using that by simp
  have C: "ftlctrlblocks (ftl_cxt s) ` {0..<3} = set ?C" by simp
  show "b < userblocks s \<Longrightarrow> e \<in> set (active s) \<Longrightarrow> ftl_map s b \<noteq> scatteredvblock (ftl_log s e)" using in_M in_A d(3) by fastforce
  show "e \<in> set (active s) \<Longrightarrow> i \<in> set (active s) \<Longrightarrow> scatteredvblock (ftl_log s i) = scatteredvblock (ftl_log s e) \<Longrightarrow> i = e"
    using d(2) unfolding distinct_map by (auto dest: inj_onD)
  show "e \<in> set (active s) \<Longrightarrow> scatteredvblock (ftl_log s e) \<notin> ftlctrlblocks (ftl_cxt s) ` {0..<3}"
    unfolding C using in_A d(5) by blast
  show "b < userblocks s \<Longrightarrow> ftl_map s b \<notin> ftlctrlblocks (ftl_cxt s) ` {0..<3}" unfolding C using in_M d(4) by blast
  show "b < userblocks s \<Longrightarrow> c < userblocks s \<Longrightarrow> ftl_map s b = ftl_map s c \<Longrightarrow> b = c"
    using d(1) unfolding distinct_map by (auto dest: inj_onD)
qed

lemma mset_map_remove:
  "distinct xs \<Longrightarrow> x \<in> set xs \<Longrightarrow> mset (map f xs) = add_mset (f x) (mset (map f (filter (\<lambda>y. y \<noteq> x) xs)))"
proof (induction xs)
  case (Cons y ys)
  then show ?case
  proof (cases "x = y")
    case True
    then have "filter (\<lambda>z. z \<noteq> x) ys = ys" using Cons.prems by (auto simp: filter_id_conv)
    then show ?thesis using True by simp
  qed auto
qed simp

definition drop_entry :: "nat \<Rightarrow> 'n ftl \<Rightarrow> 'n ftl" where
  "drop_entry e = upd_log e (\<lambda>l. l\<lparr>scatteredvblock := 0xFFFF\<rparr>)"

definition set_map :: "nat \<Rightarrow> nat \<Rightarrow> 'n ftl \<Rightarrow> 'n ftl" where
  "set_map b v s = s\<lparr>ftl_map := (ftl_map s)(b := v)\<rparr>"

lemma drop_entry_fields [simp]:
  "ftl_log (drop_entry e s) = (ftl_log s)(e := (ftl_log s e)\<lparr>scatteredvblock := 0xFFFF\<rparr>)" "ftl_map (drop_entry e s) = ftl_map s"
  "ftl_cxt (drop_entry e s) = ftl_cxt s" "ppb (drop_entry e s) = ppb s" "ftl_nand_type (drop_entry e s) = ftl_nand_type s"
  "ftl_erasectr (drop_entry e s) = ftl_erasectr s" "nand (drop_entry e s) = nand s" "fkern (drop_entry e s) = fkern s"
  "ftl_mtx (drop_entry e s) = ftl_mtx s" "ftl_initialized (drop_entry e s) = ftl_initialized s" "same_layout s (drop_entry e s)"
  "ftl_vfl_cxt (drop_entry e s) = ftl_vfl_cxt s" "ftl_vfl_usn (drop_entry e s) = ftl_vfl_usn s"
  by (simp_all add: drop_entry_def same_layout_def)

lemma set_map_fields [simp]:
  "ftl_log (set_map b v s) = ftl_log s" "ftl_map (set_map b v s) = (ftl_map s)(b := v)"
  "ftl_cxt (set_map b v s) = ftl_cxt s" "ppb (set_map b v s) = ppb s" "ftl_nand_type (set_map b v s) = ftl_nand_type s"
  "ftl_erasectr (set_map b v s) = ftl_erasectr s" "nand (set_map b v s) = nand s" "fkern (set_map b v s) = fkern s"
  "ftl_mtx (set_map b v s) = ftl_mtx s" "ftl_initialized (set_map b v s) = ftl_initialized s" "same_layout s (set_map b v s)"
  "ftl_vfl_cxt (set_map b v s) = ftl_vfl_cxt s" "ftl_vfl_usn (set_map b v s) = ftl_vfl_usn s"
  by (simp_all add: set_map_def same_layout_def)

lemma add_free_fields [simp]:
  "ftl_log (add_free b s) = ftl_log s" "ftl_map (add_free b s) = ftl_map s" "ppb (add_free b s) = ppb s"
  "ftl_nand_type (add_free b s) = ftl_nand_type s" "ftl_erasectr (add_free b s) = ftl_erasectr s" "nand (add_free b s) = nand s"
  "fkern (add_free b s) = fkern s" "ftl_mtx (add_free b s) = ftl_mtx s" "ftl_initialized (add_free b s) = ftl_initialized s"
  "nextfreeidx (ftl_cxt (add_free b s)) = nextfreeidx (ftl_cxt s)" "ftlctrlblocks (ftl_cxt (add_free b s)) = ftlctrlblocks (ftl_cxt s)"
  "c_usn (ftl_cxt (add_free b s)) = c_usn (ftl_cxt s)" "ftlctrlpage (ftl_cxt (add_free b s)) = ftlctrlpage (ftl_cxt s)"
  "clean_flag (ftl_cxt (add_free b s)) = clean_flag (ftl_cxt s)"
  "same_layout s (add_free b s)"
  "ftl_vfl_cxt (add_free b s) = ftl_vfl_cxt s" "ftl_vfl_usn (add_free b s) = ftl_vfl_usn s"
  by (simp_all add: add_free_def same_layout_def)

lemma flash_roles [simp]: "flash cont (drop_entry e s) = flash cont s" "flash cont (set_map b v s) = flash cont s"
  "flash cont (add_free b s) = flash cont s"
  by (simp_all add: same_flash)

lemma calm_roles [simp]: "calm cont s (drop_entry e s)" "calm cont s (set_map b v s)" "calm cont s (add_free b s)"
  by (simp_all add: calm_def same_flash(2))

lemma active_drop_entry: "active (drop_entry e s) = filter (\<lambda>i. i \<noteq> e) (active s)"
  by (auto simp: active_def intro!: filter_cong)

lemma ftl_ok_drop_entry:
  assumes i: "ftl_ok dev cont s ex" and e: "e \<in> set (active s)"
  shows "ftl_ok dev cont (drop_entry e s) (scatteredvblock (ftl_log s e) # ex)"
proof -
  note I = ftl_okD [OF i]
  let ?s = "drop_entry e s"
  have d: "distinct (active s)" by (simp add: active_def)
  have ap: "filter (\<lambda>i. i \<noteq> e) (active s) = active ?s" by (simp add: active_drop_entry)
  have "map (\<lambda>i. scatteredvblock (ftl_log ?s i)) (active ?s) = map (\<lambda>i. scatteredvblock (ftl_log s i)) (active ?s)"
    by (rule map_cong) (auto simp: active_drop_entry)
  then have "mset (map (\<lambda>i. scatteredvblock (ftl_log s i)) (active s))
      = add_mset (scatteredvblock (ftl_log s e)) (mset (map (\<lambda>i. scatteredvblock (ftl_log ?s i)) (active ?s)))"
    using mset_map_remove [OF d e, of "\<lambda>i. scatteredvblock (ftl_log s i)"] unfolding ap by (simp only:)
  moreover have "pool ?s = pool s" by (simp add: pool_def Let_def)
  ultimately have m: "mset (roles ?s @ scatteredvblock (ftl_log s e) # ex) = mset (roles s @ ex)"
    by (simp add: roles_def del: mset_map)
  have "vblocks ?s = vblocks s" by (simp add: vblocks_def)
  then have b: "blocks_ok ?s (scatteredvblock (ftl_log s e) # ex)"
    using blocks_okI [OF m I(4)] blocks_okD(4,5) [OF I(4)] by simp
  have "log_ok cont ?s = log_ok cont s" by (simp add: log_ok_def fun_eq_iff)
  then have "logs_ok cont ?s" using I(5) unfolding logs_ok_def active_drop_entry by (auto simp: inj_on_def)
  moreover have "runs_on dev cont ?s" using I(1) runs_on_layout [of s ?s] by simp
  ultimately show ?thesis using I b by (simp add: ftl_ok_def tidy_def)
qed

lemma ftl_ok_set_map:
  assumes i: "ftl_ok dev cont s (v # ex)" and b: "b < userblocks s"
  shows "ftl_ok dev cont (set_map b v s) (ftl_map s b # ex)"
proof -
  note I = ftl_okD [OF i]
  let ?s = "set_map b v s" and ?xs = "[0..<userblocks s]"
  have "map ((ftl_map s)(b := v)) (filter (\<lambda>y. y \<noteq> b) ?xs) = map (ftl_map s) (filter (\<lambda>y. y \<noteq> b) ?xs)" by simp
  then have m1: "add_mset (ftl_map s b) (mset (map (ftl_map ?s) ?xs)) = add_mset v (mset (map (ftl_map s) ?xs))"
    using mset_map_remove [of ?xs b "ftl_map s"] mset_map_remove [of ?xs b "ftl_map ?s"] b by (simp del: mset_map)
  have p: "pool ?s = pool s" "active ?s = active s" by (simp_all add: pool_def active_def Let_def)
  have "add_mset (ftl_map s b) (mset (roles ?s)) = add_mset v (mset (roles s))"
    using m1 unfolding roles_def mset_append p by (simp del: mset_map flip: union_mset_add_mset_left)
  then have m: "mset (roles ?s @ ftl_map s b # ex) = mset (roles s @ v # ex)" by simp
  have "vblocks ?s = vblocks s" by (simp add: vblocks_def)
  then have bo: "blocks_ok ?s (ftl_map s b # ex)" using blocks_okI [OF m I(4)] blocks_okD(4,5) [OF I(4)] by simp
  have "log_ok cont ?s = log_ok cont s" by (simp add: log_ok_def fun_eq_iff)
  then have "logs_ok cont ?s" using I(5) by (simp add: logs_ok_def p)
  moreover have "runs_on dev cont ?s" using I(1) runs_on_layout [of s ?s] by simp
  ultimately show ?thesis using I bo by (simp add: ftl_ok_def tidy_def)
qed

lemma ftl_ok_add_free:
  assumes i: "ftl_ok dev cont s (b # ex)"
  shows "ftl_ok dev cont (add_free b s) ex" "view cont (add_free b s) = view cont s"
    "freecount (ftl_cxt (add_free b s)) = freecount (ftl_cxt s) + 1"
proof -
  note I = ftl_okD [OF i] and B = blocks_okD [OF ftl_okD(4) [OF i]]
  note R = release_pool_block [OF I(4,2)]
  let ?s = "add_free b s"
  have l: "same_layout s ?s" by simp
  show "view cont ?s = view cont s" by (rule view_cong [OF I(5) l]) simp_all
  show "freecount (ftl_cxt ?s) = freecount (ftl_cxt s) + 1" by (rule pool_add_free(2) [OF B(4) R(3)])
  have "blocks_ok ?s ex" by (rule blocks_okI [OF R(2) I(4)]) (use B(4,5) in \<open>simp_all add: vblocks_def\<close>)
  moreover have "logs_ok cont ?s" by (rule logs_ok_cong [OF I(5) l]) simp_all
  moreover have "runs_on dev cont ?s" using I(1) runs_on_layout [OF l] by simp
  ultimately show "ftl_ok dev cont ?s ex" using I by (simp add: ftl_ok_def tidy_def)
qed

text \<open>The execution of a release, whatever the roles are.\<close>

lemma release_runs:
  assumes "geo_ok s" "b < vblocks s" "nextfreeidx (ftl_cxt s) < 0x14" "freecount (ftl_cxt s) < 0x14"
  shows "ftl_release_pool_block b s = Some (Done (), add_free b s)"
proof -
  have "u16_mod b = b" using assms(1,2) by (simp add: vblocks_def geo_ok_def)
  then show ?thesis using assms(2) pool_idx_less [OF assms(3,4)]
    by (simp add: ftl_release_pool_block_def add_free_def vblocks_def modify_def upd_cxt_def)
qed

section \<open>A logical block in a new place\<close>

text \<open>An entry is dropped and its logical block mapped to \<open>v\<close>: the view of the others is as before.\<close>

lemma get_log_entry_drop:
  assumes "logs_ok cont s" "e \<in> set (active s)"
  shows "ftl_get_log_entry b (drop_entry e s) = (if b = logicalvblock (ftl_log s e) then None else ftl_get_log_entry b s)"
proof (cases "b = logicalvblock (ftl_log s e)")
  case True
  have "i = e" if "i < 0x11" "scatteredvblock (ftl_log s i) \<noteq> 0xFFFF" "logicalvblock (ftl_log s i) = b" for i
    using assms that True by (auto simp: logs_ok_def active_def dest: inj_onD)
  with True show ?thesis by (auto simp: ftl_get_log_entry_def find_None_iff)
next
  case False
  then show ?thesis unfolding ftl_get_log_entry_def by (auto intro!: find_cong)
qed

lemma map_leI: "(\<And>x y. f x = Some y \<Longrightarrow> g x = Some y) \<Longrightarrow> f \<subseteq>\<^sub>m g"
  by (auto simp: map_le_def)

lemma map_leD: "f \<subseteq>\<^sub>m g \<Longrightarrow> f x = Some y \<Longrightarrow> g x = Some y"
  by (auto simp: map_le_def dom_def)

lemma view_moved:
  assumes lo: "logs_ok cont s" and e: "e \<in> set (active s)" and lvb: "lvb = logicalvblock (ftl_log s e)"
    and new: "\<And>q. q < ppb s \<Longrightarrow> view cont s (lvb * ppb s + q) \<noteq> None \<Longrightarrow>
      map_option fst (flash cont s (v * ppb s + q)) = view cont s (lvb * ppb s + q)"
  shows "view cont s \<subseteq>\<^sub>m view cont (set_map lvb v (drop_entry e s))" (is "_ \<subseteq>\<^sub>m view cont ?s")
proof (rule map_leI)
  fix sec d assume d: "view cont s sec = Some d"
  then have sec: "sec < userblocks s * ppb s" by (simp add: view_def split: if_splits)
  note sp = sector_split [OF sec]
  have ge: "ftl_get_log_entry b ?s = (if b = lvb then None else ftl_get_log_entry b s)" for b
    using get_log_entry_drop [OF lo e, of b] by (simp add: ftl_get_log_entry_def lvb)
  have vw: "view cont ?s sec = map_option fst (flash cont s (sector_page (sec div ppb s) (sec mod ppb s) ?s))"
    using sec by (simp add: view_def)
  show "view cont ?s sec = Some d"
  proof (cases "sec div ppb s = lvb")
    case True
    then have "sec = lvb * ppb s + sec mod ppb s" by (metis div_mult_mod_eq)
    with new [OF sp(2)] d have "map_option fst (flash cont s (v * ppb s + sec mod ppb s)) = Some d" by simp
    moreover have "sector_page (sec div ppb s) (sec mod ppb s) ?s = v * ppb s + sec mod ppb s"
      using True by (simp add: sector_page_def ge)
    ultimately show ?thesis unfolding vw by simp
  next
    case False
    have "i \<noteq> e" if "ftl_get_log_entry (sec div ppb s) s = Some i" for i
      using get_log_entry_Some(3) [OF that] False lvb by auto
    then have "sector_page (sec div ppb s) (sec mod ppb s) ?s = sector_page (sec div ppb s) (sec mod ppb s) s"
      using False by (simp add: sector_page_def ge Let_def split: option.split)
    with d sec show ?thesis unfolding vw by (simp add: view_def)
  qed
qed

section \<open>Commiting an entry\<close>

text \<open>An entry is gone, its logical block is in one place.\<close>

definition gone :: "'n nand_driver \<Rightarrow> 'n contents \<Rightarrow> nat \<Rightarrow> 'n ftl \<Rightarrow> nat list \<Rightarrow> 'n ftl \<Rightarrow> bool" where
  "gone dev cont e s ex s' \<longleftrightarrow> ftl_ok dev cont s' ex \<and> view cont s \<subseteq>\<^sub>m view cont s' \<and> calm cont s s'
     \<and> freecount (ftl_cxt s') = freecount (ftl_cxt s) + 1
     \<and> active s' = filter (\<lambda>i. i \<noteq> e) (active s) \<and> (\<forall>i. i \<noteq> e \<longrightarrow> ftl_log s' i = ftl_log s i)"

text \<open>The last steps of a commit, in the order of the code and in the order of the roles.\<close>

lemma commit_roles:
  "set_map lvb v (add_free a (drop_entry e (add_free x s))) = add_free a (add_free x (set_map lvb v (drop_entry e s)))"
  by (simp add: set_map_def add_free_def drop_entry_def upd_cxt_def upd_log_def)

lemma entry_logical:
  assumes "ftl_ok dev cont s ex" "e \<in> set (active s)"
  shows "logicalvblock (ftl_log s e) < userblocks s" "logicalvblock (ftl_log s e) < 0x2000"
proof -
  note I = ftl_okD [OF assms(1)]
  have "log_ok cont s (ftl_log s e)" using I(5) assms(2) by (simp add: logs_ok_def)
  from log_ok_fields(1) [OF this] show "logicalvblock (ftl_log s e) < userblocks s" .
  then show "logicalvblock (ftl_log s e) < 0x2000" using I(2) by (simp add: geo_ok_def)
qed

lemma replace_entry:
  assumes ok: "ftl_ok dev cont s (v # ex)" and e: "e \<in> set (active s)" and lvb: "lvb = logicalvblock (ftl_log s e)"
    and new: "\<And>q. q < ppb s \<Longrightarrow> view cont s (lvb * ppb s + q) \<noteq> None \<Longrightarrow>
      map_option fst (flash cont s (v * ppb s + q)) = view cont s (lvb * ppb s + q)"
  defines "s' \<equiv> add_free (ftl_map s lvb) (add_free (scatteredvblock (ftl_log s e)) (set_map lvb v (drop_entry e s)))"
  shows "ftl_ok dev cont s' ex" "view cont s \<subseteq>\<^sub>m view cont s'" "calm cont s s'"
    "freecount (ftl_cxt s') = freecount (ftl_cxt s) + 2" "active s' = filter (\<lambda>i. i \<noteq> e) (active s)"
    "ftl_log s' = (ftl_log s)(e := (ftl_log s e)\<lparr>scatteredvblock := 0xFFFF\<rparr>)"
proof -
  let ?x = "scatteredvblock (ftl_log s e)" and ?a = "ftl_map s lvb"
  let ?s1 = "drop_entry e s" and ?s2 = "set_map lvb v (drop_entry e s)"
  have lu: "lvb < userblocks s" using entry_logical(1) [OF ok e] lvb by simp
  have "ftl_ok dev cont ?s1 (?x # v # ex)" by (rule ftl_ok_drop_entry [OF ok e])
  then have o1: "ftl_ok dev cont ?s1 (v # ?x # ex)" by (simp add: ftl_ok_def blocks_ok_def add_mset_commute)
  have "ftl_ok dev cont ?s2 (?a # ?x # ex)" using ftl_ok_set_map [OF o1, of lvb] lu by simp
  then have o2: "ftl_ok dev cont ?s2 (?x # ?a # ex)" by (simp add: ftl_ok_def blocks_ok_def add_mset_commute)
  note o3 = ftl_ok_add_free [OF o2]
  note o4 = ftl_ok_add_free [OF o3(1)]
  show "ftl_ok dev cont s' ex" unfolding s'_def by (rule o4(1))
  show "view cont s \<subseteq>\<^sub>m view cont s'" unfolding s'_def o4(2) o3(2)
    by (rule view_moved [OF ftl_okD(5) [OF ok] e lvb new])
  show "calm cont s s'" unfolding s'_def
    by (rule calm_trans, rule calm_roles(1), rule calm_trans, rule calm_roles(2), rule calm_trans, rule calm_roles(3), rule calm_roles(3))
  show "freecount (ftl_cxt s') = freecount (ftl_cxt s) + 2" unfolding s'_def o4(3) o3(3) by simp
  show "active s' = filter (\<lambda>i. i \<noteq> e) (active s)"
    using active_drop_entry [of e s] unfolding s'_def by (simp add: active_def)
  show "ftl_log s' = (ftl_log s)(e := (ftl_log s e)\<lparr>scatteredvblock := 0xFFFF\<rparr>)" unfolding s'_def by simp
qed

lemma tookD:
  assumes "took cont s ex b s'"
  shows "quiet cont s s'" "b \<in> set (pool s)" "blocks_ok s' (b # ex)" "flash cont s' = (\<lambda>w. if w div ppb s = b then None else flash cont s w)"
    "nextblockusn (ftl_cxt s') = nextblockusn (ftl_cxt s)"
  using assms by (simp_all add: took_def)

lemma took_freecount: "took cont s ex b s' \<Longrightarrow> freecount (ftl_cxt s) = freecount (ftl_cxt s') + 1"
  unfolding took_def by (metis length_pool size_add_mset size_mset Suc_eq_plus1)

text \<open>A new block holds the view of a logical block.\<close>

definition fresh_copy :: "'n nand_driver \<Rightarrow> 'n contents \<Rightarrow> nat list \<Rightarrow> nat \<Rightarrow> 'n ftl \<Rightarrow> nat \<Rightarrow> 'n ftl \<Rightarrow> bool" where
  "fresh_copy dev cont ex lvb s b s' \<longleftrightarrow> ftl_ok dev cont s' (b # ex) \<and> view cont s' = view cont s \<and> calm cont s s' \<and> ftl_log s' = ftl_log s
     \<and> freecount (ftl_cxt s) = freecount (ftl_cxt s') + 1
     \<and> (\<forall>q < ppb s'. view cont s' (lvb * ppb s' + q) \<noteq> None \<longrightarrow>
          map_option fst (flash cont s' (b * ppb s' + q)) = view cont s' (lvb * ppb s' + q))"

lemma block_small:
  assumes "geo_ok s" "b < vblocks s"
  shows "b \<noteq> 0xFFFFFFFF" "b \<noteq> 0xFFFF" "u16_mod b = b"
  using assms by (simp_all add: geo_ok_def vblocks_def)

lemma still_freecount: "still cont s s' \<Longrightarrow> freecount (ftl_cxt s') = freecount (ftl_cxt s)"
  by (rule same_pool(2) [OF stillD(2)])

lemma take_and_copy:
  assumes ok: "ftl_ok dev cont s ex" and t: "took cont s ex b s1" and lvb: "lvb < userblocks s"
  shows "ends (ftl_copy_block dev lvb b s1) (\<lambda>rc s'. rc = 0 \<and> fresh_copy dev cont ex lvb s b s')"
proof -
  note I = ftl_okD [OF ok] and T = tookD [OF t] and O = ftl_ok_took [OF ok t]
  note l = same_layout [OF quietD(1) [OF T(1)]]
  have er: "\<forall>q < ppb s1. flash cont s1 (b * ppb s1 + q) = None" unfolding T(4) l(6) by simp
  have lv: "lvb < userblocks s1" using lvb l(8) by simp
  have bex: "b \<in> set (b # ex)" by simp
  show ?thesis
  proof (rule ends_weaken [OF copy_block [OF O(1) lv bex er]], elim conjE, intro conjI)
    fix rc :: nat and s' assume "rc = 0" and c: "copied cont s1 lvb b (ppb s1) s'"
    then show "rc = 0" by simp
    note C = copied_ok [OF O(1) c bex] and D = copiedD [OF c]
    note l' = same_layout [OF quietD(1) [OF stillD(1) [OF D(1)]]]
    have "calm cont s s'" by (rule calm_trans [OF calm_took [OF I(4) t] calm_copied [OF T(3) c bex]])
    moreover have "freecount (ftl_cxt s) = freecount (ftl_cxt s') + 1"
      using took_freecount [OF t] still_freecount [OF D(1)] by simp
    moreover have "map_option fst (flash cont s' (b * ppb s' + q)) = view cont s' (lvb * ppb s' + q)"
      if "q < ppb s'" "view cont s' (lvb * ppb s' + q) \<noteq> None" for q
      using D(4) [of q] that unfolding C(2) l'(6) by auto
    ultimately show "fresh_copy dev cont ex lvb s b s'"
      unfolding fresh_copy_def using C(1) C(2) O(2) quietD(4) [OF stillD(1) [OF D(1)]] quietD(4) [OF T(1)] by simp
  qed
qed

lemma commit_try:
  assumes ok: "ftl_ok dev cont s ex" and e: "e \<in> set (active s)" and fr: "2 \<le> freecount (ftl_cxt s)"
  shows "ends (commit_try dev e i x s) (\<lambda>t s'. \<exists>b. t = Leave (Some b) \<and> fresh_copy dev cont ex (logicalvblock (ftl_log s e)) s b s')"
  unfolding commit_try_def
proof (rule ends_seq, rule allocate_pool_block [OF ftl_okD(1,4) [OF ok] fr])
  fix b s1 assume t: "took cont s ex b s1"
  note B = block_small [OF ftl_okD(2) [OF ok] role_less(4) [OF ftl_okD(4) [OF ok] tookD(2) [OF t]]]
  have log: "ftl_log s1 = ftl_log s" by (rule quietD(4) [OF tookD(1) [OF t]])
  show "ends ((if b = 0xFFFFFFFF then finish (Leave None) else (\<lambda>s.
     andthen (ftl_copy_block dev (logicalvblock (ftl_log s e)) b) (\<lambda>error.
     if error = 0 then finish (Leave (Some b)) else andthen (ftl_release_pool_block b) (\<lambda>_. finish (Go ()))) s)) s1)
     (\<lambda>t s'. \<exists>b. t = Leave (Some b) \<and> fresh_copy dev cont ex (logicalvblock (ftl_log s e)) s b s')"
    unfolding if_not_P [OF B(1)] log
    by (rule ends_seq, rule take_and_copy [OF ok t entry_logical(1) [OF ok e]]) simp
qed

lemma fresh_copyD:
  assumes "fresh_copy dev cont ex lvb s b s'"
  shows "ftl_ok dev cont s' (b # ex)" "view cont s' = view cont s" "calm cont s s'" "ftl_log s' = ftl_log s"
    "freecount (ftl_cxt s) = freecount (ftl_cxt s') + 1"
    "q < ppb s' \<Longrightarrow> view cont s' (lvb * ppb s' + q) \<noteq> None \<Longrightarrow>
      map_option fst (flash cont s' (b * ppb s' + q)) = view cont s' (lvb * ppb s' + q)"
  using assms by (simp_all add: fresh_copy_def)

lemma set_map_eta: "(\<lambda>s. s\<lparr>ftl_map := (ftl_map s)(b := v)\<rparr>) = set_map b v"
  by (simp add: fun_eq_iff set_map_def)

text \<open>An entry in use leaves room for two more blocks in the pool.\<close>

lemma pool_room:
  assumes "blocks_ok s (b # ex)" "e \<in> set (active s)"
  shows "freecount (ftl_cxt s) + 1 < 0x14"
proof -
  show ?thesis using blocks_okD(3) [OF assms(1)] assms(2) by (cases "active s") simp_all
qed

lemma commit_tail:
  assumes ok: "ftl_ok dev cont s (b # ex)" and e: "e \<in> set (active s)" and lvb: "lvb = logicalvblock (ftl_log s e)"
  shows "andthen (ftl_release_pool_block (scatteredvblock (ftl_log s e))) (\<lambda>_.
       andthen (modify (upd_log e (\<lambda>l. l\<lparr>scatteredvblock := 0xFFFF\<rparr>))) (\<lambda>_.
       andthen (require (\<lambda>_. lvb < 0x2000)) (\<lambda>_ s.
       andthen (ftl_release_pool_block (ftl_map s lvb)) (\<lambda>_.
       andthen (modify (\<lambda>s. s\<lparr>ftl_map := (ftl_map s)(lvb := b)\<rparr>)) (\<lambda>_. finish 0)) s))) s
    = Some (Done 0, add_free (ftl_map s lvb) (add_free (scatteredvblock (ftl_log s e)) (set_map lvb b (drop_entry e s))))"
proof -
  note I = ftl_okD [OF ok] and room = pool_room [OF ftl_okD(4) [OF ok] e]
  have nf: "nextfreeidx (ftl_cxt s) < 0x14" by (rule blocks_okD(4) [OF I(4)])
  let ?x = "scatteredvblock (ftl_log s e)" and ?a = "ftl_map s lvb"
  have r1: "ftl_release_pool_block ?x s = Some (Done (), add_free ?x s)"
    by (rule release_runs [OF I(2) role_less(2) [OF I(4) e] nf]) (use room in simp)
  let ?s2 = "drop_entry e (add_free ?x s)"
  have l2: "same_layout s ?s2" by (rule same_layout_trans [of _ "add_free ?x s"]) simp_all
  have g2: "geo_ok ?s2" using I(2) same_layout(1) [OF l2] by simp
  have fa: "freecount (ftl_cxt (add_free ?x s)) = freecount (ftl_cxt s) + 1" by (rule pool_add_free(2) [OF nf]) (use room in simp)
  have av: "?a < vblocks s" by (rule role_less(1) [OF I(4)]) (use entry_logical(1) [OF ok e] lvb in simp)
  have r2: "ftl_release_pool_block ?a ?s2 = Some (Done (), add_free ?a ?s2)"
    by (rule release_runs [OF g2]) (use av nf fa room same_layout(5) [OF l2] in simp_all)
  have l: "lvb < 0x2000" using entry_logical(2) [OF ok e] lvb by simp
  have m: "ftl_map ?s2 lvb = ?a" by simp
  show ?thesis
    unfolding drop_entry_def [symmetric] set_map_eta commit_roles [symmetric]
    unfolding andthen_def [of "ftl_release_pool_block ?x"] r1 bind.simps prod.case answer.case andthen_modify andthen_require
      if_P [OF l] m andthen_def [of "ftl_release_pool_block ?a"] r2 finish_def ..
qed

lemma commit_scattered:
  assumes ok: "ftl_ok dev cont s ex" and e: "e \<in> set (active s)" and fr: "2 \<le> freecount (ftl_cxt s)"
  shows "ends (ftl_commit_scattered dev e s) (\<lambda>rc s'. rc = 0 \<and> gone dev cont e s ex s')"
proof -
  let ?lvb = "logicalvblock (ftl_log s e)"
  have loop: "ends (for_each [0..<4] (commit_try dev e) () s) (\<lambda>t s'. \<exists>b. t = Leave (Some b) \<and> fresh_copy dev cont ex ?lvb s b s')"
    unfolding upt_rec [of 0 4] by (simp add: ends_andthen) (rule ends_weaken [OF commit_try [OF ok e fr]], auto)
  show ?thesis unfolding ftl_commit_scattered_def
  proof (rule ends_seq, rule loop, elim exE conjE)
    fix t s1 b assume t: "t = Leave (Some b)" and c: "fresh_copy dev cont ex ?lvb s b s1"
    note C = fresh_copyD [OF c] and I = ftl_okD [OF fresh_copyD(1) [OF c]]
    have e1: "e \<in> set (active s1)" using e C(4) by (simp add: active_def)
    have lve: "?lvb = logicalvblock (ftl_log s1 e)" using C(4) by simp
    note R = replace_entry [OF C(1) e1 lve C(6)]
    have "b < vblocks s1" by (rule role_less(5) [OF I(4)]) simp
    note b = block_small(3) [OF I(2) this]
    let ?s' = "add_free (ftl_map s1 ?lvb) (add_free (scatteredvblock (ftl_log s1 e)) (set_map ?lvb b (drop_entry e s1)))"
    have "gone dev cont e s ex ?s'"
      using R C(2,5) calm_trans [OF C(3) R(3)] by (simp add: gone_def C(4)) (simp add: active_def C(4))
    then show "ends ((case t of Go _ \<Rightarrow> finish 1 | Leave b \<Rightarrow> (case b of None \<Rightarrow> finish 1 | Some block \<Rightarrow> (\<lambda>s.
       let lvb = logicalvblock (ftl_log s e) in
       andthen (ftl_release_pool_block (scatteredvblock (ftl_log s e))) (\<lambda>_.
       andthen (modify (upd_log e (\<lambda>l. l\<lparr>scatteredvblock := 0xFFFF\<rparr>))) (\<lambda>_.
       andthen (require (\<lambda>_. lvb < 0x2000)) (\<lambda>_ s.
       andthen (ftl_release_pool_block (ftl_map s lvb)) (\<lambda>_.
       andthen (modify (\<lambda>s. s\<lparr>ftl_map := (ftl_map s)(lvb := u16_mod block)\<rparr>)) (\<lambda>_.
       finish 0)) s))) s))) s1) (\<lambda>rc s'. rc = 0 \<and> gone dev cont e s ex s')"
      unfolding t turn.case option.case Let_def b lve [symmetric] commit_tail [OF C(1) e1 lve] by simp
  qed
qed

section \<open>Pages for a scattered block\<close>

lemma sector_page_log:
  assumes "\<And>i. scatteredvblock (ftl_log s' i) = scatteredvblock (ftl_log s i)" "\<And>i. logicalvblock (ftl_log s' i) = logicalvblock (ftl_log s i)"
    "\<And>i. pageoffsets (ftl_log s' i) = pageoffsets (ftl_log s i)" "ftl_map s' = ftl_map s" "ppb s' = ppb s"
  shows "sector_page b p s' = sector_page b p s"
  using assms by (simp add: sector_page_def ftl_get_log_entry_def Let_def split: option.split)

text \<open>
  Pages were written behind the used ones of an entry, and the entry counts them. Nothing refers to them yet.
\<close>

lemma appended:
  assumes ok: "ftl_ok dev cont s ex" and e: "e \<in> set (active s)" and k: "pagesused (ftl_log s e) + k \<le> ppb s"
    and st: "still cont s s1" and marks: "\<forall>j < k. sp_eccmark (sps j) = 0xFF"
    and fl: "flash cont s1 = (\<lambda>w. let v = scatteredvblock (ftl_log s e) * ppb s + pagesused (ftl_log s e) in
      if v \<le> w \<and> w < v + k then Some (bufs (w - v), sps (w - v)) else flash cont s w)"
  defines "s2 \<equiv> upd_log e (\<lambda>l. l\<lparr>pagesused := pagesused l + k\<rparr>) s1"
  shows "ftl_ok dev cont s2 ex" "view cont s2 = view cont s" "calm cont s s2" "active s2 = active s"
proof -
  note I = ftl_okD [OF ok] and Q = quietD [OF stillD(1) [OF st]]
  let ?l = "ftl_log s e" and ?b = "scatteredvblock (ftl_log s e)"
  have lo: "log_ok cont s ?l" using I(5) e by (simp add: logs_ok_def)
  note L = log_ok_fields [OF lo]
  have lay: "same_layout s1 s2" by (simp add: s2_def same_layout_def)
  have lay2: "same_layout s s2" by (rule same_layout_trans [OF Q(1) lay])
  note l2 = same_layout [OF lay2]
  have log2: "ftl_log s2 = (ftl_log s)(e := ?l\<lparr>pagesused := pagesused ?l + k\<rparr>)" by (simp add: s2_def Q(4))
  have fl2: "flash cont s2 = flash cont s1" by (rule same_flash(1) [OF lay]) (simp add: s2_def)
  have map2: "ftl_map s2 = ftl_map s" by (simp add: s2_def Q(3))
  show act: "active s2 = active s" unfolding active_def log2 by (rule filter_cong) auto
  have roles2: "roles s2 = roles s"
    using same_pool(1) [OF stillD(2) [OF st]] act map2 l2(8) Q(4,8)
    by (simp add: roles_def log2 s2_def pool_def Let_def cong: map_cong)
  have sce: "?b \<in> in_use s" using e by (simp add: in_use_def)
  have in_b: "w div ppb s = ?b" if "?b * ppb s + pagesused ?l \<le> w" "w < ?b * ppb s + pagesused ?l + k" for w
  proof -
    have "w = ?b * ppb s + (w - ?b * ppb s)" "w - ?b * ppb s < ppb s" using that k by simp_all
    then show ?thesis by (metis page_in_vblock)
  qed
  have same: "flash cont s2 w = flash cont s w" if "w div ppb s \<noteq> ?b" for w
    using in_b [of w] that unfolding fl2 fl Let_def by auto
  have same_b: "flash cont s2 (?b * ppb s + q) = flash cont s (?b * ppb s + q)" if "q < pagesused ?l \<or> pagesused ?l + k \<le> q" for q
    using that unfolding fl2 fl Let_def by auto
  note D = roles_differ [OF I(4)]
  have off: "flash cont s2 (sector_page b p s) = flash cont s (sector_page b p s)" if b: "b < userblocks s" and p: "p < ppb s" for b p
  proof (cases "sector_page b p s div ppb s = ?b")
    case False
    then show ?thesis by (rule same)
  next
    case True
    have nm: "ftl_map s b \<noteq> ?b" by (rule D(1) [OF b e])
    with sector_page_block [OF I(5) p, of b] True obtain i where i: "ftl_get_log_entry b s = Some i" "scatteredvblock (ftl_log s i) = ?b"
      by auto
    note G = get_log_entry_Some [OF i(1)]
    have ie: "i = e" by (rule D(2) [OF e G(4) i(2)])
    have po: "pageoffsets ?l p \<noteq> 0xFFFF"
      using True nm i(1) p unfolding sector_page_def by (auto simp: Let_def ie)
    then have "pageoffsets ?l p < pagesused ?l" using L(3) [OF p] by simp
    moreover have "sector_page b p s = ?b * ppb s + pageoffsets ?l p"
      using po i(1) G(2) by (simp add: sector_page_def ie Let_def)
    ultimately show ?thesis using same_b by simp
  qed
  have sp2: "sector_page b p s2 = sector_page b p s" for b p
    by (rule sector_page_log) (simp_all add: log2 map2 l2(6))
  show "view cont s2 = view cont s"
  proof
    fix sec
    show "view cont s2 sec = view cont s sec"
      using off [OF sector_split] by (simp add: view_def l2(6,8) sp2)
  qed
  have ba: "?b \<notin> ftlctrlblocks (ftl_cxt s) ` {0..<3}" by (rule D(3) [OF e])
  show "calm cont s s2"
    unfolding calm_def
  proof (intro conjI allI impI)
    have "outside cont s s2" using Q(2) by (simp add: outside_def s2_def)
    then show "outside cont s s2" .
    show "same_layout s s2" by (rule lay2)
    show "flash cont s2 w = flash cont s w" if "w div ppb s \<in> ftlctrlblocks (ftl_cxt s) ` {0..<3}" for w
      using that ba by (intro same notI) (simp only:)
  qed (use stillD(1) [OF st] in \<open>simp_all add: quiet_def s2_def\<close>)
  have "blocks_ok s2 ex"
    using blocks_ok_still [OF st I(4)] l2(5) roles2 I(4) by (simp add: blocks_ok_def s2_def)
  moreover have "tidy cont s2" using I(6) marks unfolding tidy_def fl2 fl Let_def by (auto split: if_splits)
  moreover have "logs_ok cont s2"
  proof -
    have "log_ok cont s2 (ftl_log s2 i)" if i: "i \<in> set (active s)" for i
    proof (cases "i = e")
      case True
      show ?thesis unfolding True log2 fun_upd_same
      proof (rule log_okI, goal_cases)
        case (3 p)
        then show ?case using L(3) [of p] by (simp add: l2(6)) linarith
      next
        case (5 q)
        then show ?case using L(5) [of q] same_b [of q] by (simp add: l2(6))
      next
        case (6 p)
        then show ?case using L(6) [of p] by simp
      qed (use L(1,4) k in \<open>simp_all add: l2(6,8)\<close>)
    next
      case False
      have li: "log_ok cont s (ftl_log s i)" using I(5) i by (simp add: logs_ok_def)
      note Li = log_ok_fields [OF li]
      have nb: "scatteredvblock (ftl_log s i) \<noteq> ?b" using D(2) [OF e i] False by blast
      have "flash cont s2 (scatteredvblock (ftl_log s i) * ppb s + q) = flash cont s (scatteredvblock (ftl_log s i) * ppb s + q)"
        if "q < ppb s" for q by (rule same) (use nb page_in_vblock [OF that] in simp)
      moreover have "ftl_log s2 i = ftl_log s i" using False by (simp add: log2)
      ultimately show ?thesis using Li by (intro log_okI) (simp_all only: l2(6,8))
    qed
    moreover have "inj_on (\<lambda>i. logicalvblock (ftl_log s2 i)) (set (active s))"
    proof -
      have "inj_on (\<lambda>i. logicalvblock (ftl_log s i)) (set (active s))" using I(5) unfolding logs_ok_def by (rule conjunct2)
      moreover have "logicalvblock (ftl_log s2 i) = logicalvblock (ftl_log s i)" for i by (simp add: log2)
      ultimately show ?thesis by simp
    qed
    ultimately show ?thesis by (simp add: logs_ok_def act)
  qed
  ultimately show "ftl_ok dev cont s2 ex"
    using I(1,7,8) runs_on_layout [OF lay2] Q(5,6) kernel_same_can_take [OF Q(7)] by (simp add: ftl_ok_def s2_def)
qed

end
