(* ===== verification/FtlFill.thy ===== *)
theory FtlFill
  imports FtlCommit
begin

text \<open>
  A scattered block that was written in sequence is filled up and takes the place of its logical block;
  the current pages of another one are written to a new scattered block.
\<close>

lemma upd_log_cong: "f (ftl_log s e) = g (ftl_log s e) \<Longrightarrow> upd_log e f s = upd_log e g s"
  by (simp add: upd_log_def)

lemma ends_after_modify: "ends (g () (f s)) Q \<Longrightarrow> ends (andthen (modify f) g s) Q"
  by simp

section \<open>Filling a block up\<close>

definition readied :: "'n contents \<Rightarrow> 'n ftl \<Rightarrow> nat \<Rightarrow> 'n ftl \<Rightarrow> bool" where
  "readied cont s k s' \<longleftrightarrow> still cont s s' \<and> flash cont s' = flash cont s \<and> ftl_copybuffer s' = ftl_copybuffer s
     \<and> (\<forall>j < k. sp_eccmark (ftl_copyspare s' j) = 0xFF)"

lemma mark_fills: "ends (for_each [0..<k] (mark_fill lpn used 0) () s) (\<lambda>_ s'. readied cont s k s')"
proof -
  have "ends (for_each [0..<k] (mark_fill lpn used 0) () s) (\<lambda>t s'. \<exists>x. t = Go x \<and> readied cont s (length [0..<k]) s')"
  proof (rule ends_for_each)
    show "readied cont s 0 s" by (simp add: readied_def)
    fix n x s1 assume n: "n < length [0..<k]" and r: "readied cont s n s1"
    then show "ends (mark_fill lpn used 0 ([0..<k] ! n) x s1) (\<lambda>t s'. \<exists>x'. t = Go x' \<and> readied cont s (Suc n) s')"
      by (auto simp: mark_fill_def readied_def less_Suc_eq)
  qed
  then show ?thesis by (rule ends_weaken) auto
qed

definition filling :: "'n nand_driver \<Rightarrow> 'n contents \<Rightarrow> nat list \<Rightarrow> nat \<Rightarrow> 'n ftl \<Rightarrow> nat \<Rightarrow> 'n ftl \<Rightarrow> bool" where
  "filling dev cont ex e s u s' \<longleftrightarrow> ftl_ok dev cont s' ex \<and> view cont s' = view cont s \<and> calm cont s s' \<and> active s' = active s
     \<and> freecount (ftl_cxt s') = freecount (ftl_cxt s) \<and> ftl_log s' = (ftl_log s)(e := (ftl_log s e)\<lparr>pagesused := u\<rparr>)
     \<and> pagescurrent (ftl_log s e) \<le> u \<and> u \<le> ppb s
     \<and> (\<forall>q < u. view cont s (logicalvblock (ftl_log s e) * ppb s + q) \<noteq> None \<longrightarrow>
          map_option fst (flash cont s' (scatteredvblock (ftl_log s e) * ppb s + q)) = view cont s (logicalvblock (ftl_log s e) * ppb s + q))"

lemma filling_start:
  assumes ok: "ftl_ok dev cont s ex" and e: "e \<in> set (active s)" and seq: "issequential (ftl_log s e) = 1"
    and all: "pagescurrent (ftl_log s e) = pagesused (ftl_log s e)"
  shows "filling dev cont ex e s (pagesused (ftl_log s e)) s"
proof -
  note I = ftl_okD [OF ok]
  let ?l = "ftl_log s e"
  have lo: "log_ok cont s ?l" using I(5) e by (simp add: logs_ok_def)
  note L = log_ok_fields [OF lo]
  have "view cont s (logicalvblock ?l * ppb s + q) = map_option fst (flash cont s (scatteredvblock ?l * ppb s + q))"
    if q: "q < pagesused ?l" for q
  proof -
    have qp: "q < ppb s" using q L(2) by simp
    have ge: "ftl_get_log_entry (logicalvblock ?l) s = Some e"
      by (rule get_log_entry_unique [OF I(5)]) (use e in \<open>simp_all add: active_def\<close>)
    have po: "pageoffsets ?l q = q" using log_ok_sequential [OF lo seq I(2) qp] q all by simp
    have "q \<noteq> 0xFFFF" using qp geo(4) [OF I(2)] by simp
    then have "sector_page (logicalvblock ?l) q s = scatteredvblock ?l * ppb s + q"
      using get_log_entry_Some(2) [OF ge] by (simp add: sector_page_def ge Let_def po)
    moreover have "logicalvblock ?l * ppb s + q < userblocks s * ppb s" using logical_small(2) [OF I(2) L(1), of q 1] qp by simp
    ultimately show ?thesis using qp by (simp add: view_def)
  qed
  with ok all L(2) show ?thesis by (simp add: filling_def)
qed

lemma filling_step:
  assumes f: "filling dev cont ex e s u s'" and e: "e \<in> set (active s)" and seq: "issequential (ftl_log s e) = 1"
  shows "ends (fill_batch dev e x s') (\<lambda>t s''. if ppb s \<le> u then t = Leave True \<and> filling dev cont ex e s u s''
    else \<exists>v > u. t = Go () \<and> filling dev cont ex e s v s'')"
proof -
  note F = f [unfolded filling_def]
  have ok: "ftl_ok dev cont s' ex" and view: "view cont s' = view cont s" and calm: "calm cont s s'" and act: "active s' = active s"
    and log: "ftl_log s' = (ftl_log s)(e := (ftl_log s e)\<lparr>pagesused := u\<rparr>)" and u: "pagescurrent (ftl_log s e) \<le> u" "u \<le> ppb s"
    using F by blast+
  note I = ftl_okD [OF ok]
  have lay: "same_layout s s'" using calm by (simp add: calm_def)
  note l = same_layout [OF lay]
  let ?l = "ftl_log s e" and ?b = "scatteredvblock (ftl_log s e)" and ?lvb = "logicalvblock (ftl_log s e)"
  have e': "e \<in> set (active s')" using e act by simp
  have lo: "log_ok cont s' (ftl_log s' e)" using I(5) e' by (simp add: logs_ok_def)
  note L = log_ok_fields [OF lo]
  have flds: "scatteredvblock (ftl_log s' e) = ?b" "logicalvblock (ftl_log s' e) = ?lvb" "pagesused (ftl_log s' e) = u"
    "pageoffsets (ftl_log s' e) = pageoffsets ?l" by (simp_all add: log)
  show ?thesis
  proof (cases "ppb s \<le> u")
    case True
    then show ?thesis using f by (simp add: fill_batch_def l(6) flds)
  next
    case False
    define k where "k = min FTL_COPYBUF_SIZE (ppb s - u)"
    have k: "0 < k" "u + k \<le> ppb s" using False by (auto simp: k_def FTL_COPYBUF_SIZE_def)
    have off: "pageoffsets ?l (u + i) = 0xFFFF" if "i < k" for i
      using log_ok_sequential [OF lo _ I(2), of "u + i"] seq that k(2) u(1) by (simp add: log l(6))
    then have no: "\<not> (\<exists>i \<in> set [0..<k]. pageoffsets ?l (u + i) \<noteq> 0xFFFF)" by simp
    have lvb: "?lvb < userblocks s" using L(1) flds(2) l(8) by simp
    have g: "geo_ok s" using I(2) l(1) by simp
    note sm = logical_small [OF g lvb k(2,1)]
    have bs: "?b < vblocks s" using role_less(2) [OF I(4) e'] flds(1) l(5) by simp
    have ub: "u32_mod (?b * ppb s + u) = ?b * ppb s + u"
      by (rule vpages_small(2) [OF g vpage_less [OF bs]]) (use k in simp)
    have rg: "?lvb * ppb s + u + k \<le> userblocks s' * ppb s'" using sm(2) l(6,8) by simp
    have run: "fill_batch dev e x s' = andthen (read_copy dev (?lvb * ppb s + u) k 0) (\<lambda>rc.
          andthen (modify (\<lambda>s. s\<lparr>ftl_copyspare := (\<lambda>_. spare_ff)\<rparr>)) (\<lambda>_.
          andthen (for_each [0..<k] (mark_fill (?lvb * ppb s + u) u rc) ()) (\<lambda>_ s2.
          andthen (ftl_vfl_write dev (?b * ppb s + u) k (ftl_copybuffer s2) (ftl_copyspare s2)) (\<lambda>rc.
          if rc \<noteq> 0 then finish (Leave False)
          else andthen (modify (upd_log e (\<lambda>l. l\<lparr>pagesused := u16_mod (pagesused l + k)\<rparr>))) (\<lambda>_. finish (Go ()))) s2))) s'"
      unfolding fill_batch_def Let_def flds l(6) k_def [symmetric] if_not_P [OF False] if_not_P [OF no] sm(1) ub ..
    show ?thesis unfolding run if_not_P [OF False]
    proof (rule ends_seq, rule read_copy [OF ok rg], elim conjE)
      fix rc :: nat and s1 assume rc: "rc = 0" and st1: "still cont s' s1" and fl1: "flash cont s1 = flash cont s'"
        and ra: "reads_as cont s' (?lvb * ppb s + u) k (ftl_copybuffer s1)"
      show "ends (andthen (modify (\<lambda>s. s\<lparr>ftl_copyspare := (\<lambda>_. spare_ff)\<rparr>)) (\<lambda>_.
          andthen (for_each [0..<k] (mark_fill (?lvb * ppb s + u) u rc) ()) (\<lambda>_ s2.
          andthen (ftl_vfl_write dev (?b * ppb s + u) k (ftl_copybuffer s2) (ftl_copyspare s2)) (\<lambda>rc.
          if rc \<noteq> 0 then finish (Leave False)
          else andthen (modify (upd_log e (\<lambda>l. l\<lparr>pagesused := u16_mod (pagesused l + k)\<rparr>))) (\<lambda>_. finish (Go ()))) s2)) s1)
        (\<lambda>t s''. \<exists>v > u. t = Go () \<and> filling dev cont ex e s v s'')"
        unfolding rc
      proof (rule ends_after_modify, rule ends_seq, rule mark_fills [where cont = cont])
        fix t :: "(unit, unit) turn" and s2 assume "readied cont (s1\<lparr>ftl_copyspare := (\<lambda>_. spare_ff)\<rparr>) k s2"
        then have r2: "still cont (s1\<lparr>ftl_copyspare := (\<lambda>_. spare_ff)\<rparr>) s2" "flash cont s2 = flash cont s1"
          "ftl_copybuffer s2 = ftl_copybuffer s1" "\<forall>j < k. sp_eccmark (ftl_copyspare s2 j) = 0xFF" by (simp_all add: readied_def)
        have st2: "still cont s' s2" by (rule still_trans [OF _ r2(1)]) (simp add: st1)
        note Q = quietD [OF stillD(1) [OF st2]]
        note l2 = same_layout [OF Q(1)]
        have fl2: "flash cont s2 = flash cont s'" using r2(2) fl1 by simp
        have run2: "runs_on dev cont s2" using runs_on_layout [OF Q(1)] I(1) by simp
        have er: "\<forall>i < k. flash cont s2 (?b * ppb s2 + u + i) = None"
          using L(5) k unfolding fl2 l2(6) l(6) flds by (simp add: add.assoc)
        from write_pages [OF run2 _ _ k(1) er, of "ftl_copybuffer s2" "ftl_copyspare s2"] bs k(2)
        obtain n where n: "ftl_vfl_write dev (?b * ppb s + u) k (ftl_copybuffer s2) (ftl_copyspare s2) s2 = Some (Done 0, s2\<lparr>nand := n\<rparr>)"
          "still cont s2 (s2\<lparr>nand := n\<rparr>)" and fln: "flash cont (s2\<lparr>nand := n\<rparr>) = (\<lambda>w. if ?b * ppb s + u \<le> w \<and> w < ?b * ppb s + u + k
            then Some (ftl_copybuffer s2 (w - (?b * ppb s + u)), ftl_copyspare s2 (w - (?b * ppb s + u))) else flash cont s' w)"
          unfolding l2(5,6) l(5,6) fl2 by blast
        let ?s3 = "s2\<lparr>nand := n\<rparr>"
        let ?s4 = "upd_log e (\<lambda>l. l\<lparr>pagesused := u16_mod (pagesused l + k)\<rparr>) ?s3"
        have "u + k < 65536" using k(2) geo(4) [OF g] by simp
        then have s4: "?s4 = upd_log e (\<lambda>l. l\<lparr>pagesused := pagesused l + k\<rparr>) ?s3"
          by (intro upd_log_cong) (simp add: Q(4) flds(3))
        have st3: "still cont s' ?s3" by (rule still_trans [OF st2 n(2)])
        have ku: "pagesused (ftl_log s' e) + k \<le> ppb s'" using k(2) flds(3) l(6) by simp
        note A = appended [OF ok e' ku st3 r2(4), where bufs = "ftl_copybuffer s2", unfolded flds l(6) Let_def, OF fln, folded s4]
        have fl4: "flash cont ?s4 = flash cont ?s3" by (rule same_flash) (simp_all add: same_layout_def)
        have new: "map_option fst (flash cont ?s4 (?b * ppb s + q)) = view cont s (?lvb * ppb s + q)"
          if q: "q < u + k" and v: "view cont s (?lvb * ppb s + q) \<noteq> None" for q
        proof (cases "q < u")
          case True
          with F v show ?thesis unfolding fl4 fln by simp
        next
          case False
          then have "q = u + (q - u)" "q - u < k" using q by simp_all
          with ra v view have "Some (ftl_copybuffer s1 (q - u)) = view cont s (?lvb * ppb s + q)"
            unfolding reads_as_def by (metis add.assoc option.exhaust)
          then show ?thesis unfolding fl4 fln r2(3) using False q by simp
        qed
        have "filling dev cont ex e s (u + k) ?s4"
          unfolding filling_def
        proof (intro conjI allI impI)
          show "ftl_log ?s4 = (ftl_log s)(e := ?l\<lparr>pagesused := u + k\<rparr>)" using Q(4) by (simp add: s4 log)
          show "calm cont s ?s4" by (rule calm_trans [OF calm A(3)])
          show "freecount (ftl_cxt ?s4) = freecount (ftl_cxt s)"
            using F still_freecount [OF st3] by simp
        qed (use A view act u k new in simp_all)
        then show "ends (andthen (ftl_vfl_write dev (?b * ppb s + u) k (ftl_copybuffer s2) (ftl_copyspare s2)) (\<lambda>rc.
          if rc \<noteq> 0 then finish (Leave False)
          else andthen (modify (upd_log e (\<lambda>l. l\<lparr>pagesused := u16_mod (pagesused l + k)\<rparr>))) (\<lambda>_. finish (Go ()))) s2)
          (\<lambda>t s''. \<exists>v > u. t = Go () \<and> filling dev cont ex e s v s'')"
          using n(1) k(1) by (auto simp: ends_andthen intro: exI [of _ "u + k"])
      qed
    qed
  qed
qed

lemma fill_all:
  assumes ok: "ftl_ok dev cont s ex" and e: "e \<in> set (active s)" and seq: "issequential (ftl_log s e) = 1"
    and all: "pagescurrent (ftl_log s e) = pagesused (ftl_log s e)"
  shows "ends (forever (fill_batch dev e) () s) (\<lambda>r s'. r = True \<and> filling dev cont ex e s (ppb s) s')"
proof (rule ends_forever [where P = "\<lambda>_ s'. \<exists>u. filling dev cont ex e s u s'" and m = "\<lambda>_ s'. ppb s - pagesused (ftl_log s' e)"])
  show "\<exists>u. filling dev cont ex e s u s" using filling_start [OF ok e seq all] by blast
  fix x s' assume "\<exists>u. filling dev cont ex e s u s'"
  then obtain u where f: "filling dev cont ex e s u s'" ..
  have u: "u \<le> ppb s" "pagesused (ftl_log s' e) = u" using f by (simp_all add: filling_def)
  have lt: "ppb s - pagesused (ftl_log s'' e) < ppb s - u" if "filling dev cont ex e s v s''" "u < v" for v s''
    using that by (simp add: filling_def) linarith
  show "ends (fill_batch dev e x s') (\<lambda>t s''. case t of Leave r \<Rightarrow> r = True \<and> filling dev cont ex e s (ppb s) s''
     | Go x' \<Rightarrow> (\<exists>u. filling dev cont ex e s u s'') \<and> ppb s - pagesused (ftl_log s'' e) < ppb s - pagesused (ftl_log s' e))"
    by (rule ends_weaken [OF filling_step [OF f e seq]]) (use u lt in \<open>auto split: if_splits\<close>)
qed

lemma sequential_roles:
  "drop_entry e (set_map lvb v (add_free a s)) = add_free a (set_map lvb v (drop_entry e s))"
  by (simp add: set_map_def add_free_def drop_entry_def upd_cxt_def upd_log_def)

lemma commit_sequential:
  assumes ok: "ftl_ok dev cont s ex" and e: "e \<in> set (active s)" and seq: "issequential (ftl_log s e) = 1"
    and all: "pagescurrent (ftl_log s e) = pagesused (ftl_log s e)"
  shows "ends (ftl_commit_sequential dev e s) (\<lambda>rc s'. rc = 0 \<and> gone dev cont e s ex s')"
proof -
  have "\<not> (issequential (ftl_log s e) \<noteq> 1 \<or> pagescurrent (ftl_log s e) \<noteq> pagesused (ftl_log s e))" using seq all by simp
  note start = if_not_P [OF this]
  let ?b = "scatteredvblock (ftl_log s e)" and ?lvb = "logicalvblock (ftl_log s e)"
  show ?thesis unfolding ftl_commit_sequential_def start
  proof (rule ends_seq, rule fill_all [OF ok e seq all], elim conjE)
    fix r s1 assume r: "r = True" and f: "filling dev cont ex e s (ppb s) s1"
    note F = f [unfolded filling_def]
    have ok1: "ftl_ok dev cont s1 ex" and v1: "view cont s1 = view cont s" and c1: "calm cont s s1" and a1: "active s1 = active s"
      and log: "ftl_log s1 = (ftl_log s)(e := (ftl_log s e)\<lparr>pagesused := ppb s\<rparr>)" and fc: "freecount (ftl_cxt s1) = freecount (ftl_cxt s)"
      using F by blast+
    note I = ftl_okD [OF ok1]
    have e1: "e \<in> set (active s1)" using e a1 by simp
    have ppb: "ppb s1 = ppb s" by (rule same_layout(6)) (use c1 in \<open>simp add: calm_def\<close>)
    have lb: "logicalvblock (ftl_log s1 e) = ?lvb" "scatteredvblock (ftl_log s1 e) = ?b" by (simp_all add: log)
    note lvb = entry_logical [OF ok1 e1, unfolded lb]
    let ?a = "ftl_map s1 ?lvb"
    let ?s' = "add_free ?a (set_map ?lvb ?b (drop_entry e s1))"
    have room: "freecount (ftl_cxt s1) < 0x14" using blocks_okD(3) [OF I(4)] e1 by (cases "active s1") simp_all
    have rel: "ftl_release_pool_block ?a s1 = Some (Done (), add_free ?a s1)"
      by (rule release_runs [OF I(2) role_less(1) [OF I(4) lvb(1)] blocks_okD(4) [OF I(4)] room])
    have run: "andthen (require (\<lambda>_. ?lvb < 0x2000)) (\<lambda>_ s. andthen (ftl_release_pool_block (ftl_map s ?lvb)) (\<lambda>_.
         andthen (modify (\<lambda>s. s\<lparr>ftl_map := (ftl_map s)(?lvb := scatteredvblock (ftl_log s e))\<rparr>)) (\<lambda>_.
         andthen (modify (upd_log e (\<lambda>l. l\<lparr>scatteredvblock := 0xFFFF\<rparr>))) (\<lambda>_. finish 0))) s) s1 = Some (Done 0, ?s')"
      unfolding drop_entry_def [symmetric] sequential_roles [symmetric] andthen_require if_P [OF lvb(2)]
        andthen_def [of "ftl_release_pool_block ?a"] rel bind.simps prod.case answer.case andthen_modify finish_def
      by (simp add: set_map_def lb)
    have o1: "ftl_ok dev cont (drop_entry e s1) (?b # ex)" using ftl_ok_drop_entry [OF ok1 e1] lb(2) by simp
    have o2: "ftl_ok dev cont (set_map ?lvb ?b (drop_entry e s1)) (?a # ex)" using ftl_ok_set_map [OF o1, of ?lvb] lvb(1) by simp
    note o3 = ftl_ok_add_free [OF o2]
    have new: "map_option fst (flash cont s1 (?b * ppb s1 + q)) = view cont s1 (?lvb * ppb s1 + q)"
      if "q < ppb s1" "view cont s1 (?lvb * ppb s1 + q) \<noteq> None" for q
      using F that unfolding ppb v1 by blast
    have vw: "view cont s \<subseteq>\<^sub>m view cont ?s'"
      using view_moved [OF I(5) e1 lb(1) [symmetric] new] unfolding o3(2) v1 .
    have "calm cont s ?s'"
      by (rule calm_trans [OF c1], rule calm_trans, rule calm_roles(1), rule calm_trans, rule calm_roles(2), rule calm_roles(3))
    then have "gone dev cont e s ex ?s'"
      using o3(1,3) vw fc active_drop_entry [of e s1] a1 by (simp add: gone_def log) (simp add: active_def)
    then show "ends ((\<lambda>filled s. if filled then let lvb = logicalvblock (ftl_log s e) in
         andthen (require (\<lambda>_. lvb < 0x2000)) (\<lambda>_ s. andthen (ftl_release_pool_block (ftl_map s lvb)) (\<lambda>_.
         andthen (modify (\<lambda>s. s\<lparr>ftl_map := (ftl_map s)(lvb := scatteredvblock (ftl_log s e))\<rparr>)) (\<lambda>_.
         andthen (modify (upd_log e (\<lambda>l. l\<lparr>scatteredvblock := 0xFFFF\<rparr>))) (\<lambda>_. finish 0))) s) s
       else ftl_commit_scattered dev e s) r s1) (\<lambda>rc s'. rc = 0 \<and> gone dev cont e s ex s')"
      unfolding r if_P [OF TrueI] Let_def lb(1) run by simp
  qed
qed

end
