(* ===== verification/FtlCompact.thy ===== *)
theory FtlCompact
  imports FtlFill
begin

text \<open>A scattered block with few current pages is compacted: these pages are copied to a new scattered block.\<close>

section \<open>Copying a page\<close>

lemma copy_page:
  assumes r: "runs_on dev cont s" and t: "tidy cont s" and src: "src < vpages s" and b: "b < vblocks s" and q: "q < ppb s"
    and e: "flash cont s (b * ppb s + q) = None"
  shows "ends (ftl_copy_page dev src (b * ppb s + q) lpn type s) (\<lambda>rc s'. rc = 0 \<and> still cont s s'
     \<and> (\<exists>d y. flash cont s' = (flash cont s)(b * ppb s + q \<mapsto> (d, y)) \<and> sp_eccmark y = 0xFF
          \<and> (\<forall>d'. map_option fst (flash cont s src) = Some d' \<longrightarrow> d = d')))"
proof -
  from vfl_read [OF r src, where buf = "ftl_copybuffer s 0" and sp = "ftl_copyspare s 0" and f = True] obtain rc x y n where
    rd: "ftl_vfl_read dev src (ftl_copybuffer s 0) (ftl_copyspare s 0) True True s = Some (Done (rc, x, y), s\<lparr>nand := n\<rparr>)"
    "cont n = cont (nand s)"
    "case vcont cont s src of Some (d, z) \<Rightarrow> rc AND 0x11F = 0 \<and> x = d \<and> y = z | None \<Rightarrow> rc AND 2 \<noteq> 0" .
  have vc: "vcont cont s src = flash cont s src" using src by (simp add: flash_def)
  let ?rc = "rc AND 0x11F"
  have two: "?rc AND 2 = rc AND 2" by (simp add: and.assoc)
  have good: "(?rc AND 2 = 0 \<and> ?rc \<noteq> 0) = False" using rd(3) two by (auto split: option.splits)
  let ?s1 = "next_usn (s\<lparr>nand := n\<rparr>)"
  let ?d = "if ?rc AND 2 \<noteq> 0 then page_of 0 else x"
  let ?y = "user_spare lpn (nextblockusn (ftl_cxt ?s1)) (type = 1 \<and> (b * ppb s + q) mod ppb ?s1 = ppb ?s1 - 1) False"
  let ?s2 = "?s1\<lparr>ftl_copybuffer := (ftl_copybuffer ?s1)(0 := ?d), ftl_copyspare := (ftl_copyspare ?s1)(0 := ?y)\<rparr>"
  have lay: "same_layout s (s\<lparr>nand := n\<rparr>)" by simp
  have st1: "still cont s (s\<lparr>nand := n\<rparr>)" using same_flash(2) [OF lay] rd(2) by (simp add: still_def quiet_def same_pool_def)
  have st2: "still cont s ?s2" using st1 by simp
  have fl2: "flash cont ?s2 = flash cont s" using same_flash(1) [OF lay] rd(2) by simp
  note Q = quietD [OF stillD(1) [OF st2]]
  note l2 = same_layout [OF Q(1)]
  have r2: "runs_on dev cont ?s2" using runs_on_layout [OF Q(1)] r by simp
  have er: "\<forall>i < 1. flash cont ?s2 (b * ppb ?s2 + q + i) = None" unfolding fl2 l2(6) using e by simp
  have bq: "b < vblocks ?s2" "q + 1 \<le> ppb ?s2" "0 < (1 :: nat)" using b q unfolding l2(5,6) by simp_all
  from write_pages [OF r2 bq er, where bufs = "ftl_copybuffer ?s2" and sps = "ftl_copyspare ?s2"] obtain m where
    w: "ftl_vfl_write dev (b * ppb s + q) 1 (ftl_copybuffer ?s2) (ftl_copyspare ?s2) ?s2 = Some (Done 0, ?s2\<lparr>nand := m\<rparr>)"
    "still cont ?s2 (?s2\<lparr>nand := m\<rparr>)" and
    fl: "flash cont (?s2\<lparr>nand := m\<rparr>) = (\<lambda>w. if b * ppb s + q \<le> w \<and> w < b * ppb s + q + 1
       then Some (ftl_copybuffer ?s2 (w - (b * ppb s + q)), ftl_copyspare ?s2 (w - (b * ppb s + q))) else flash cont s w)"
    unfolding fl2 l2(6) .
  have run: "ftl_copy_page dev src (b * ppb s + q) lpn type s = Some (Done 0, ?s2\<lparr>nand := m\<rparr>)"
    unfolding ftl_copy_page_def andthen_def [of "ftl_vfl_read dev src (ftl_copybuffer s 0) (ftl_copyspare s 0) True True"]
      rd(1) bind.simps prod.case answer.case Let_def good by (rule w(1))
  have "flash cont (?s2\<lparr>nand := m\<rparr>) = (flash cont s)(b * ppb s + q \<mapsto> (?d, ?y))"
    unfolding fl by (rule ext) auto
  moreover have "?d = d'" if "map_option fst (flash cont s src) = Some d'" for d'
    using that rd(3) no_error_bits(2) [of rc] two unfolding vc by (auto split: option.splits)
  ultimately show ?thesis unfolding run ends_Some using still_trans [OF st2 w(2)] user_spare_mark by blast
qed

section \<open>The current pages in a row\<close>

definition packed :: "(nat \<Rightarrow> nat) \<Rightarrow> nat \<Rightarrow> nat" where
  "packed offs n = card {p. p < n \<and> offs p \<noteq> 0xFFFF}"

lemma packed_Suc: "packed offs (Suc n) = (if offs n \<noteq> 0xFFFF then packed offs n + 1 else packed offs n)"
proof -
  have "{p. p < Suc n \<and> offs p \<noteq> 0xFFFF} = (if offs n \<noteq> 0xFFFF then insert n {p. p < n \<and> offs p \<noteq> 0xFFFF}
      else {p. p < n \<and> offs p \<noteq> 0xFFFF})" by (auto simp: less_Suc_eq)
  then show ?thesis by (simp add: packed_def)
qed

lemma packed_zero [simp]: "packed offs 0 = 0"
  by (simp add: packed_def)

lemma packed_le: "packed offs n \<le> n"
  by (induction n) (simp_all add: packed_Suc)

lemma packed_mono: "m \<le> n \<Longrightarrow> packed offs m \<le> packed offs n"
  by (induction n) (auto simp: packed_Suc le_Suc_eq)

lemma packed_less: "p < n \<Longrightarrow> offs p \<noteq> 0xFFFF \<Longrightarrow> packed offs p < packed offs n"
  using packed_mono [of "Suc p" n offs] by (simp add: packed_Suc)

text \<open>If no page moves, the current pages are the first ones.\<close>

lemma packed_fixed:
  assumes "\<forall>p < n. offs p \<noteq> 0xFFFF \<longrightarrow> packed offs p = p" and "p < packed offs n"
  shows "offs p \<noteq> 0xFFFF"
proof -
  have "offs p \<noteq> 0xFFFF" if "m \<le> n" "p < packed offs m" for m
    using that
  proof (induction m)
    case (Suc m)
    show ?case
    proof (cases "p < packed offs m")
      case True
      then show ?thesis using Suc by simp
    next
      case False
      with Suc.prems(2) have m: "offs m \<noteq> 0xFFFF" "p = packed offs m" by (auto simp: packed_Suc split: if_splits)
      then have "p = m" using assms(1) Suc.prems(1) by simp
      with m show ?thesis by simp
    qed
  qed simp
  with assms(2) show ?thesis by blast
qed

text \<open>The entry \<open>l0\<close> after its first \<open>n\<close> pages were copied to block \<open>b\<close>.\<close>

definition repacked :: "ftl_log_type \<Rightarrow> nat \<Rightarrow> nat \<Rightarrow> ftl_log_type \<Rightarrow> bool" where
  "repacked l0 b n l \<longleftrightarrow> scatteredvblock l = b \<and> logicalvblock l = logicalvblock l0 \<and> l_usn l = l_usn l0
     \<and> pagesused l = packed (pageoffsets l0) n \<and> pagescurrent l = packed (pageoffsets l0) n
     \<and> (\<forall>p. pageoffsets l p = (if p < n \<and> pageoffsets l0 p \<noteq> 0xFFFF then packed (pageoffsets l0) p else pageoffsets l0 p))
     \<and> (issequential l = 1 \<longrightarrow> (\<forall>p < n. pageoffsets l0 p \<noteq> 0xFFFF \<longrightarrow> packed (pageoffsets l0) p = p))"

lemma repacked_start: "repacked l0 b 0 (l0\<lparr>pagesused := 0, pagescurrent := 0, issequential := 1, scatteredvblock := b\<rparr>)"
  by (simp add: repacked_def)

lemma repacked_skip: "repacked l0 b n l \<Longrightarrow> pageoffsets l0 n = 0xFFFF \<Longrightarrow> repacked l0 b (Suc n) l"
  by (auto simp: repacked_def packed_Suc less_Suc_eq)

lemma repacked_next:
  assumes "repacked l0 b n l" "pageoffsets l0 n \<noteq> 0xFFFF" "n < 512"
  shows "repacked l0 b (Suc n) (ftl_check_still_sequential n (l\<lparr>pageoffsets := (pageoffsets l)(n := pagesused l),
    pagesused := u16_mod (pagesused l + 1), pagescurrent := u16_mod (pagescurrent l + 1)\<rparr>))"
proof -
  have "packed (pageoffsets l0) n < 512" using packed_le [of "pageoffsets l0" n] assms(3) by simp
  with assms(1,2) show ?thesis
    by (auto simp: repacked_def packed_Suc ftl_check_still_sequential_def less_Suc_eq)
qed

section \<open>The copying loop\<close>

lemma log_layout [simp]: "same_layout s (s\<lparr>ftl_log := x\<rparr>)" "same_layout (s\<lparr>ftl_log := x\<rparr>) s"
  by (simp_all add: same_layout_def)

lemma flash_log [simp]: "flash cont (s\<lparr>ftl_log := x\<rparr>) = flash cont s"
  by (rule same_flash(1)) simp_all

lemma still_log: "still cont s s' \<Longrightarrow> still cont (s\<lparr>ftl_log := x\<rparr>) (s'\<lparr>ftl_log := x\<rparr>)"
  using same_layout(3,4) [OF log_layout(1) [where s = s and x = x]] same_layout_trans [of "s\<lparr>ftl_log := x\<rparr>" s "s'"] same_layout_trans [of "s\<lparr>ftl_log := x\<rparr>" s' "s'\<lparr>ftl_log := x\<rparr>"]
  by (simp add: still_def quiet_def same_pool_def outside_def)

definition compacting :: "'n contents \<Rightarrow> 'n ftl \<Rightarrow> nat \<Rightarrow> nat \<Rightarrow> nat \<Rightarrow> 'n ftl \<Rightarrow> bool" where
  "compacting cont s e b n s' \<longleftrightarrow> (let l0 = ftl_log s e in
     (\<exists>l. ftl_log s' = (ftl_log s)(e := l) \<and> repacked l0 b n l)
     \<and> still cont s (s'\<lparr>ftl_log := ftl_log s\<rparr>) \<and> tidy cont s' \<and> (\<forall>w. w div ppb s \<noteq> b \<longrightarrow> flash cont s' w = flash cont s w)
     \<and> (\<forall>p < n. pageoffsets l0 p \<noteq> 0xFFFF \<longrightarrow> (\<forall>d. map_option fst (flash cont s (scatteredvblock l0 * ppb s + pageoffsets l0 p)) = Some d
          \<longrightarrow> map_option fst (flash cont s' (b * ppb s + packed (pageoffsets l0) p)) = Some d))
     \<and> (\<forall>q < ppb s. packed (pageoffsets l0) n \<le> q \<longrightarrow> flash cont s' (b * ppb s + q) = None))"

lemma compacting_step:
  assumes ok: "ftl_ok dev cont s (b # ex)" and e: "e \<in> set (active s)" and c: "compacting cont s e b n s'" and n: "n < ppb s"
  shows "ends (compact_page dev e (ftl_log s e) b n x s') (\<lambda>t s''. t = Go () \<and> compacting cont s e b (Suc n) s'')"
proof -
  note I = ftl_okD [OF ok]
  let ?l0 = "ftl_log s e"
  let ?offs = "pageoffsets ?l0" and ?x = "scatteredvblock ?l0"
  from c obtain l where log: "ftl_log s' = (ftl_log s)(e := l)" and rp: "repacked ?l0 b n l"
    and st: "still cont s (s'\<lparr>ftl_log := ftl_log s\<rparr>)" and td: "tidy cont s'"
    and oth: "\<forall>w. w div ppb s \<noteq> b \<longrightarrow> flash cont s' w = flash cont s w"
    and cp: "\<forall>p < n. ?offs p \<noteq> 0xFFFF \<longrightarrow> (\<forall>d. map_option fst (flash cont s (?x * ppb s + ?offs p)) = Some d
          \<longrightarrow> map_option fst (flash cont s' (b * ppb s + packed ?offs p)) = Some d)"
    and er: "\<forall>q < ppb s. packed ?offs n \<le> q \<longrightarrow> flash cont s' (b * ppb s + q) = None"
    by (auto simp: compacting_def Let_def)
  have lay: "same_layout s s'" by (rule same_layout_trans [OF quietD(1) [OF stillD(1) [OF st]]]) simp
  note l' = same_layout [OF lay]
  have n512: "n < 512" using n geo(4) [OF I(2)] by simp
  have le: "ftl_log s' e = l" by (simp add: log)
  have off: "pageoffsets l n = ?offs n" using rp by (simp add: repacked_def)
  show ?thesis
  proof (cases "?offs n = 0xFFFF")
    case True
    have "compacting cont s e b (Suc n) s'"
      using log repacked_skip [OF rp True] st td oth cp er True by (auto simp: compacting_def Let_def packed_Suc less_Suc_eq)
    then show ?thesis using True off by (simp add: compact_page_def le)
  next
    case False
    have lo: "log_ok cont s ?l0" using I(5) e by (simp add: logs_ok_def)
    note L = log_ok_fields [OF lo]
    have on: "?offs n < ppb s" using L(3) [OF n] False L(2) by simp
    have xv: "?x < vblocks s" by (rule role_less(2) [OF I(4) e])
    have bv: "b < vblocks s" by (rule role_less(5) [OF I(4)]) simp
    have xb: "?x \<noteq> b" using blocks_okD(1) [OF I(4)] e by (auto simp: roles_def)
    have sv: "?x * ppb s + ?offs n < vpages s" by (rule vpage_less [OF xv on])
    have pn: "packed ?offs n < ppb s" using packed_le [of ?offs n] n by simp
    have u: "pagesused l = packed ?offs n" using rp by (simp add: repacked_def)
    have r': "runs_on dev cont s'" using runs_on_layout [OF lay] I(1) by simp
    have s'v: "?x * ppb s + ?offs n < vpages s'" using sv l'(4) by simp
    have bv': "b < vblocks s'" "packed ?offs n < ppb s'" using bv pn l'(5,6) by simp_all
    have er': "flash cont s' (b * ppb s' + packed ?offs n) = None" using er pn l'(6) by simp
    have um: "u32_mod (?x * ppb s + ?offs n) = ?x * ppb s + ?offs n" "u32_mod (b * ppb s + packed ?offs n) = b * ppb s + packed ?offs n"
      by (rule vpages_small(2) [OF I(2) sv], rule vpages_small(2) [OF I(2) vpage_less [OF bv pn]])
    let ?upd = "\<lambda>l. ftl_check_still_sequential n (l\<lparr>pageoffsets := (pageoffsets l)(n := pagesused l),
            pagesused := u16_mod (pagesused l + 1), pagescurrent := u16_mod (pagescurrent l + 1)\<rparr>)"
    have run: "compact_page dev e ?l0 b n x s' = andthen (ftl_copy_page dev (?x * ppb s + ?offs n) (b * ppb s' + packed ?offs n)
        (u32_mod (logicalvblock l * ppb s' + n)) (issequential l)) (\<lambda>rc.
        if rc \<noteq> 0 then finish (Leave ()) else andthen (modify (upd_log e ?upd)) (\<lambda>_. finish (Go ()))) s'"
      using False unfolding compact_page_def Let_def le off l'(6) u um by simp
    show ?thesis unfolding run
    proof (rule ends_seq, rule copy_page [OF r' td s'v bv' er'], elim conjE exE)
      fix rc :: nat and s'' d y assume rc: "rc = 0" and st2: "still cont s' s''"
        and fl: "flash cont s'' = (flash cont s')(b * ppb s' + packed ?offs n \<mapsto> (d, y))" and y: "sp_eccmark y = 0xFF"
        and d: "\<forall>d'. map_option fst (flash cont s' (?x * ppb s + ?offs n)) = Some d' \<longrightarrow> d = d'"
      note fl = fl [unfolded l'(6)]
      have log2: "ftl_log s'' = (ftl_log s)(e := l)" using quietD(4) [OF stillD(1) [OF st2]] log by simp
      let ?s3 = "upd_log e ?upd s''"
      have fl3: "flash cont ?s3 = flash cont s''" by (rule same_flash(1)) (simp_all add: same_layout_def)
      have td3: "tidy cont ?s3" using td y unfolding tidy_def fl3 fl by auto
      have log3: "ftl_log ?s3 = (ftl_log s)(e := ?upd l)" by (simp add: log2)
      have s3: "?s3\<lparr>ftl_log := ftl_log s\<rparr> = s''\<lparr>ftl_log := ftl_log s\<rparr>" by (simp add: upd_log_def)
      have st3: "still cont s (?s3\<lparr>ftl_log := ftl_log s\<rparr>)" unfolding s3
        using still_trans [OF st still_log [OF st2, of "ftl_log s"]] .
      have src: "flash cont s' (?x * ppb s + ?offs n) = flash cont s (?x * ppb s + ?offs n)"
        using oth page_in_vblock [OF on] xb by simp
      have inb: "(b * ppb s + packed ?offs n) div ppb s = b" by (rule page_in_vblock [OF pn])
      have "compacting cont s e b (Suc n) ?s3"
        unfolding compacting_def Let_def
      proof (intro conjI allI impI)
        show "\<exists>l. ftl_log ?s3 = (ftl_log s)(e := l) \<and> repacked ?l0 b (Suc n) l"
          using log3 repacked_next [OF rp False n512] by blast
        show "still cont s (?s3\<lparr>ftl_log := ftl_log s\<rparr>)" by (rule st3)
        show "tidy cont ?s3" by (rule td3)
        show "flash cont ?s3 w = flash cont s w" if "w div ppb s \<noteq> b" for w
          using that oth inb unfolding fl3 fl by auto
        show "map_option fst (flash cont ?s3 (b * ppb s + packed ?offs p)) = Some d'"
          if p: "p < Suc n" "?offs p \<noteq> 0xFFFF" "map_option fst (flash cont s (?x * ppb s + ?offs p)) = Some d'" for p d'
        proof (cases "p = n")
          case True
          then show ?thesis using p(3) d src unfolding fl3 fl by simp
        next
          case False
          then have "packed ?offs p < packed ?offs n" using p(1,2) packed_less [of p n] by simp
          then show ?thesis using cp p False unfolding fl3 fl by simp
        qed
        show "flash cont ?s3 (b * ppb s + q) = None" if "q < ppb s" "packed ?offs (Suc n) \<le> q" for q
          using er that False unfolding fl3 fl by (simp add: packed_Suc)
      qed
      then show "ends ((if rc \<noteq> 0 then finish (Leave ()) else andthen (modify (upd_log e ?upd)) (\<lambda>_. finish (Go ()))) s'')
          (\<lambda>t s''. t = Go () \<and> compacting cont s e b (Suc n) s'')" using rc by simp
    qed
  qed
qed

section \<open>The new scattered block\<close>

lemma exchange_mset:
  assumes "add_mset x A' = add_mset b A"
  shows "M + (A' + R) + add_mset x E = M + (A + R) + add_mset b E"
proof -
  have "M + (A' + R) + add_mset x E = M + (add_mset x A' + R) + E" by simp
  also have "\<dots> = M + (A + R) + add_mset b E" unfolding assms by simp
  finally show ?thesis .
qed

lemma compacting_done:
  assumes ok: "ftl_ok dev cont s (b # ex)" and e: "e \<in> set (active s)" and c: "compacting cont s e b (ppb s) s'"
  shows "ftl_ok dev cont s' (scatteredvblock (ftl_log s e) # ex)" "view cont s \<subseteq>\<^sub>m view cont s'" "calm cont s s'"
    "active s' = active s" "freecount (ftl_cxt s') = freecount (ftl_cxt s)"
proof -
  note I = ftl_okD [OF ok] and D = roles_differ [OF ftl_okD(4) [OF ok]]
  let ?l0 = "ftl_log s e"
  let ?offs = "pageoffsets ?l0" and ?x = "scatteredvblock ?l0"
  from c obtain l where log: "ftl_log s' = (ftl_log s)(e := l)" and rp: "repacked ?l0 b (ppb s) l"
    and st: "still cont s (s'\<lparr>ftl_log := ftl_log s\<rparr>)" and td: "tidy cont s'"
    and oth: "\<forall>w. w div ppb s \<noteq> b \<longrightarrow> flash cont s' w = flash cont s w"
    and cp: "\<forall>p < ppb s. ?offs p \<noteq> 0xFFFF \<longrightarrow> (\<forall>d. map_option fst (flash cont s (?x * ppb s + ?offs p)) = Some d
          \<longrightarrow> map_option fst (flash cont s' (b * ppb s + packed ?offs p)) = Some d)"
    and er: "\<forall>q < ppb s. packed ?offs (ppb s) \<le> q \<longrightarrow> flash cont s' (b * ppb s + q) = None"
    by (auto simp: compacting_def Let_def)
  have lay: "same_layout s s'" by (rule same_layout_trans [OF quietD(1) [OF stillD(1) [OF st]]]) simp
  note l' = same_layout [OF lay]
  have bv: "b < vblocks s" by (rule role_less(5) [OF I(4)]) simp
  note bs = block_small [OF I(2) bv]
  have lo: "log_ok cont s ?l0" using I(5) e by (simp add: logs_ok_def)
  note L = log_ok_fields [OF lo]
  have scl: "scatteredvblock l = b" "logicalvblock l = logicalvblock ?l0" "pagesused l = packed ?offs (ppb s)"
    "pagescurrent l = packed ?offs (ppb s)" using rp by (simp_all add: repacked_def)
  have offl: "pageoffsets l p = (if ?offs p \<noteq> 0xFFFF then packed ?offs p else 0xFFFF)" if "p < ppb s" for p
    using rp that by (simp add: repacked_def)
  have small: "packed ?offs p \<noteq> 0xFFFF" if "p \<le> ppb s" for p
    using packed_le [of ?offs p] that geo(4) [OF I(2)] by simp
  have offl': "pageoffsets l p \<noteq> 0xFFFF \<longleftrightarrow> ?offs p \<noteq> 0xFFFF" if "p < ppb s" for p
    using offl [OF that] small [of p] that by simp
  have pu: "packed ?offs (ppb s) = card {p. p < ppb s \<and> ?offs p \<noteq> 0xFFFF}" by (simp add: packed_def)
  have Q: "ftl_map s' = ftl_map s" "ftlctrlblocks (ftl_cxt s') = ftlctrlblocks (ftl_cxt s)" "ftl_mtx s' = ftl_mtx s"
    "ftl_initialized s' = ftl_initialized s" "kernel_same (fkern s) (fkern s')" "outside cont s s'"
    "same_pool s s'" "ftl_erasectr s' = ftl_erasectr s"
    using quietD [OF stillD(1) [OF st]] stillD(2,3) [OF st] by (simp_all add: same_pool_def outside_def)
  show act: "active s' = active s"
    unfolding active_def log using e bs(2) scl(1) by (intro filter_cong) (auto simp: active_def)
  show fc: "freecount (ftl_cxt s') = freecount (ftl_cxt s)" by (rule same_pool(2) [OF Q(7)])
  let ?f = "\<lambda>i. scatteredvblock (ftl_log s i)" and ?f' = "\<lambda>i. scatteredvblock (ftl_log s' i)"
  have d: "distinct (active s)" by (simp add: active_def)
  have fe: "?f' e = b" by (simp add: log scl(1))
  have "map ?f' (filter (\<lambda>i. i \<noteq> e) (active s)) = map ?f (filter (\<lambda>i. i \<noteq> e) (active s))" by (simp add: log)
  then have "add_mset ?x (mset (map ?f' (active s))) = add_mset b (mset (map ?f (active s)))"
    unfolding mset_map_remove [OF d e, of ?f] mset_map_remove [OF d e, of ?f'] fe by (simp only: add_mset_commute)
  then have m: "mset (roles s' @ ?x # ex) = mset (roles s @ b # ex)"
    unfolding roles_def act Q(1,2) l'(8) mset_append same_pool(1) [OF Q(7)] mset.simps(2) by (rule exchange_mset)
  have blk: "blocks_ok s' (?x # ex)"
    by (rule blocks_okI [OF m I(4) l'(5)]) (use blocks_okD(4,5) [OF I(4)] Q(7,8) in \<open>simp_all add: same_pool_def\<close>)
  have bc: "b \<notin> ftlctrlblocks (ftl_cxt s) ` {0..<3}" "b \<notin> in_use s"
    using blocks_okD(1) [OF I(4)] in_use_free [OF I(4), of b] by (auto simp: roles_def)
  show "calm cont s s'"
    unfolding calm_def
  proof (intro conjI allI impI)
    show "flash cont s' w = flash cont s w" if "w div ppb s \<in> ftlctrlblocks (ftl_cxt s) ` {0..<3}" for w
      using oth bc(1) that by metis
  qed (use stillD(1) [OF st] lay Q(6) in \<open>simp_all add: quiet_def\<close>)
  have lok: "logs_ok cont s'"
  proof -
    have "log_ok cont s' (ftl_log s' i)" if i: "i \<in> set (active s)" for i
    proof (cases "i = e")
      case True
      have "log_ok cont s' l"
      proof (rule log_okI)
        show "logicalvblock l < userblocks s'" using L(1) scl l'(8) by simp
        show "pagesused l \<le> ppb s'" using scl packed_le l'(6) by simp
        show "pageoffsets l p = 0xFFFF \<or> pageoffsets l p < pagesused l" if "p < ppb s'" for p
          using offl [of p] that packed_less [of p "ppb s" ?offs] by (simp add: scl l'(6))
        show "pagescurrent l = card {p. p < ppb s' \<and> pageoffsets l p \<noteq> 0xFFFF}"
          unfolding scl pu l'(6) by (rule arg_cong [where f = card]) (use offl' in auto)
        show "flash cont s' (scatteredvblock l * ppb s' + q) = None" if "q < ppb s'" "pagesused l \<le> q" for q
          using er that by (simp add: scl l'(6))
        show "pageoffsets l p = p" if seq: "issequential l = 1" and p: "p < pagescurrent l" for p
        proof -
          have fixd: "\<forall>p < ppb s. ?offs p \<noteq> 0xFFFF \<longrightarrow> packed ?offs p = p" using rp seq by (simp add: repacked_def)
          have pp: "p < ppb s" using p packed_le [of ?offs "ppb s"] by (simp add: scl)
          with packed_fixed [OF fixd] p fixd show ?thesis by (simp add: offl scl)
        qed
      qed
      then show ?thesis by (simp add: True log)
    next
      case False
      have li: "log_ok cont s (ftl_log s i)" using I(5) i by (simp add: logs_ok_def)
      note Li = log_ok_fields [OF li]
      have nb: "scatteredvblock (ftl_log s i) \<noteq> b" using bc(2) i by (auto simp: in_use_def)
      have "flash cont s' (scatteredvblock (ftl_log s i) * ppb s + q) = flash cont s (scatteredvblock (ftl_log s i) * ppb s + q)"
        if "q < ppb s" for q using oth nb page_in_vblock [OF that] by simp
      moreover have "ftl_log s' i = ftl_log s i" using False by (simp add: log)
      ultimately show ?thesis using Li by (intro log_okI) (simp_all only: l'(6,8))
    qed
    moreover have "inj_on (\<lambda>i. logicalvblock (ftl_log s' i)) (set (active s))"
    proof -
      have "inj_on (\<lambda>i. logicalvblock (ftl_log s i)) (set (active s))" using I(5) unfolding logs_ok_def by (rule conjunct2)
      moreover have "logicalvblock (ftl_log s' i) = logicalvblock (ftl_log s i)" for i by (simp add: log scl)
      ultimately show ?thesis by simp
    qed
    ultimately show ?thesis by (simp add: logs_ok_def act)
  qed
  show "ftl_ok dev cont s' (?x # ex)"
    using I(1,7,8) runs_on_layout [OF lay] Q(3,4) kernel_same_can_take [OF Q(5)] blk lok td by (simp add: ftl_ok_def)
  show "view cont s \<subseteq>\<^sub>m view cont s'"
  proof (rule map_leI)
    fix sec d assume d: "view cont s sec = Some d"
    then have sec: "sec < userblocks s * ppb s" by (simp add: view_def split: if_splits)
    note sp = sector_split [OF sec]
    let ?p = "sec mod ppb s" and ?lb = "sec div ppb s"
    have ge: "ftl_get_log_entry ?lb s' = ftl_get_log_entry ?lb s"
      unfolding ftl_get_log_entry_def log using get_log_entry_Some(2) bs(2) scl e
      by (intro find_cong) (auto simp: active_def)
    have dd: "map_option fst (flash cont s (sector_page ?lb ?p s)) = Some d" using d sec by (simp add: view_def)
    have "map_option fst (flash cont s' (sector_page ?lb ?p s')) = Some d"
    proof (cases "ftl_get_log_entry ?lb s = Some e \<and> ?offs ?p \<noteq> 0xFFFF")
      case True
      note G = get_log_entry_Some [of ?lb s e]
      have "sector_page ?lb ?p s = ?x * ppb s + ?offs ?p" using True G(2) by (simp add: sector_page_def Let_def)
      moreover have "sector_page ?lb ?p s' = b * ppb s + packed ?offs ?p"
        using True offl [OF sp(2)] small [of ?p] sp(2) bs(2) by (simp add: sector_page_def ge Let_def log scl l'(6))
      ultimately show ?thesis using cp True sp(2) dd by simp
    next
      case False
      have "sector_page ?lb ?p s' = sector_page ?lb ?p s"
        using False offl' [OF sp(2)] unfolding sector_page_def ge Q(1) l'(6) by (auto simp: log Let_def split: option.split)
      moreover have "sector_page ?lb ?p s div ppb s \<noteq> b"
        using sector_in_use [OF I(5) sp] bc(2) by metis
      ultimately show ?thesis using oth dd by simp
    qed
    then show "view cont s' sec = Some d" using sec by (simp add: view_def l'(6,8))
  qed
qed

text \<open>The entry is still there, with its current pages only.\<close>

definition shrunk :: "'n nand_driver \<Rightarrow> 'n contents \<Rightarrow> nat \<Rightarrow> 'n ftl \<Rightarrow> nat list \<Rightarrow> 'n ftl \<Rightarrow> bool" where
  "shrunk dev cont e s ex s' \<longleftrightarrow> ftl_ok dev cont s' ex \<and> view cont s \<subseteq>\<^sub>m view cont s' \<and> calm cont s s'
     \<and> freecount (ftl_cxt s') = freecount (ftl_cxt s) \<and> active s' = active s \<and> (\<forall>i. i \<noteq> e \<longrightarrow> ftl_log s' i = ftl_log s i)
     \<and> logicalvblock (ftl_log s' e) = logicalvblock (ftl_log s e) \<and> l_usn (ftl_log s' e) = l_usn (ftl_log s e)
     \<and> pagesused (ftl_log s' e) = pagescurrent (ftl_log s e) \<and> pagescurrent (ftl_log s' e) = pagescurrent (ftl_log s e)"

lemma compact_pages:
  assumes ok: "ftl_ok dev cont s (b # ex)" and e: "e \<in> set (active s)"
    and er: "\<forall>q < ppb s. flash cont s (b * ppb s + q) = None"
  shows "ends (compact_pages dev e (ftl_log s e) b (upd_log e (\<lambda>l. l\<lparr>pagesused := 0, pagescurrent := 0, issequential := 1,
      scatteredvblock := b\<rparr>) s)) (\<lambda>t s'. t = Go () \<and> compacting cont s e b (ppb s) s')"
proof -
  let ?s = "upd_log e (\<lambda>l. l\<lparr>pagesused := 0, pagescurrent := 0, issequential := 1, scatteredvblock := b\<rparr>) s"
  have fl: "flash cont ?s = flash cont s" by (rule same_flash(1)) (simp_all add: same_layout_def)
  have st: "?s\<lparr>ftl_log := ftl_log s\<rparr> = s" by (simp add: upd_log_def)
  have td: "tidy cont ?s" using ftl_okD(6) [OF ok] unfolding tidy_def fl .
  have "compacting cont s e b 0 ?s"
    unfolding compacting_def Let_def st fl
    using repacked_start [of "ftl_log s e" b] er td by auto
  then have "ends (for_each [0..<ppb s] (compact_page dev e (ftl_log s e) b) () ?s)
      (\<lambda>t s'. \<exists>x. t = Go x \<and> compacting cont s e b (length [0..<ppb s]) s')"
  proof (rule ends_for_each [where P = "\<lambda>n _. compacting cont s e b n"])
    fix n x s' assume n: "n < length [0..<ppb s]" and c: "compacting cont s e b n s'"
    have "ends (compact_page dev e (ftl_log s e) b n x s') (\<lambda>t s''. t = Go () \<and> compacting cont s e b (Suc n) s'')"
      by (rule compacting_step [OF ok e c]) (use n in simp)
    then show "ends (compact_page dev e (ftl_log s e) b ([0..<ppb s] ! n) x s') (\<lambda>t s''. \<exists>x'. t = Go x' \<and> compacting cont s e b (Suc n) s'')"
      using n by (simp add: ends_def)
  qed
  then show ?thesis unfolding compact_pages_def by (simp only: upd_log_fields) (erule ends_weaken, auto)
qed

lemma compact_scattered:
  assumes ok: "ftl_ok dev cont s ex" and e: "e \<in> set (active s)" and fr: "2 \<le> freecount (ftl_cxt s)"
    and cur: "0 < pagescurrent (ftl_log s e)"
  shows "ends (ftl_compact_scattered dev e s) (\<lambda>rc s'. rc = 0 \<and> shrunk dev cont e s ex s')"
proof -
  note I = ftl_okD [OF ok]
  let ?l0 = "ftl_log s e"
  have attempt: "ends (compact_try dev e ?l0 0 () s) (\<lambda>t s'. t = Leave 0 \<and> shrunk dev cont e s ex s')"
    unfolding compact_try_def
  proof (rule ends_seq, rule allocate_pool_block [OF I(1,4) fr])
    fix b s1 assume t: "took cont s ex b s1"
    note T = tookD [OF t] and O = ftl_ok_took [OF ok t] and Q = quietD [OF tookD(1) [OF t]]
    note J = ftl_okD [OF O(1)] and l1 = same_layout [OF Q(1)]
    have bv: "b < vblocks s" by (rule role_less(4) [OF I(4) T(2)])
    note B = block_small [OF I(2) bv]
    have log1: "ftl_log s1 = ftl_log s" by (rule Q(4))
    have e1: "e \<in> set (active s1)" using e by (simp add: active_def log1)
    have er: "\<forall>q < ppb s1. flash cont s1 (b * ppb s1 + q) = None" unfolding T(4) l1(6) by simp
    note P = compact_pages [OF O(1) e1 er, unfolded log1]
    have "log_ok cont s ?l0" using I(5) e by (simp add: logs_ok_def)
    then have pc: "pagescurrent ?l0 = packed (pageoffsets ?l0) (ppb s)" by (simp add: log_ok_fields(4) packed_def)
    show "ends ((if b = 0xFFFFFFFF then finish (Leave 1) else
     andthen (modify (upd_log e (\<lambda>l. l\<lparr>pagesused := 0, pagescurrent := 0, issequential := 1, scatteredvblock := u16_mod b\<rparr>))) (\<lambda>_.
     andthen (compact_pages dev e ?l0 b) (\<lambda>t s.
     if t = Go () \<and> pagescurrent ?l0 = pagescurrent (ftl_log s e)
     then andthen (ftl_release_pool_block (scatteredvblock ?l0)) (\<lambda>_. finish (Leave 0)) s
     else andthen (modify (upd_log e (\<lambda>_. ?l0))) (\<lambda>_. finish (Go ())) s))) s1) (\<lambda>t s'. t = Leave 0 \<and> shrunk dev cont e s ex s')"
      unfolding if_not_P [OF B(1)] B(3)
    proof (rule ends_after_modify, rule ends_seq, rule P, elim conjE)
      fix t s2 assume tg: "t = Go ()" and c: "compacting cont s1 e b (ppb s1) s2"
      note C = compacting_done [OF O(1) e1 c]
      from c obtain l where log2: "ftl_log s2 = (ftl_log s)(e := l)" and rp: "repacked ?l0 b (ppb s) l"
        by (auto simp: compacting_def Let_def log1 l1(6))
      have pl: "pagescurrent l = pagescurrent ?l0" "pagesused l = pagescurrent ?l0" "logicalvblock l = logicalvblock ?l0" "l_usn l = l_usn ?l0"
        using rp pc by (simp_all add: repacked_def)
      note K = C(1) [unfolded log1]
      note F = ftl_ok_add_free [OF K] and R = release_pool_block [OF ftl_okD(4,2) [OF K]]
      have "calm cont s (add_free (scatteredvblock ?l0) s2)"
        by (rule calm_trans [OF calm_took [OF I(4) t]], rule calm_trans [OF C(3) calm_roles(3)])
      moreover have "freecount (ftl_cxt (add_free (scatteredvblock ?l0) s2)) = freecount (ftl_cxt s)"
        using F(3) C(5) took_freecount [OF t] by simp
      moreover have "active (add_free (scatteredvblock ?l0) s2) = active s"
        using C(4) by (simp add: active_def log1)
      ultimately have "shrunk dev cont e s ex (add_free (scatteredvblock ?l0) s2)"
        using F(1,2) C(2) O(2) pl by (simp add: shrunk_def log2)
      then show "ends ((if t = Go () \<and> pagescurrent ?l0 = pagescurrent (ftl_log s2 e)
         then andthen (ftl_release_pool_block (scatteredvblock ?l0)) (\<lambda>_. finish (Leave 0)) s2
         else andthen (modify (upd_log e (\<lambda>_. ?l0))) (\<lambda>_. finish (Go ())) s2)) (\<lambda>t s'. t = Leave 0 \<and> shrunk dev cont e s ex s')"
        using tg pl(1) R(1) by (simp add: log2 ends_andthen)
    qed
  qed
  have "for_each [0..<4] (compact_try dev e ?l0) () = for_each (0 # [1..<4]) (compact_try dev e ?l0) ()" by (simp add: upt_rec [of 0 4])
  then show ?thesis using cur unfolding ftl_compact_scattered_def unless_left_def
    by (simp add: ends_andthen) (rule ends_weaken [OF attempt], auto)
qed

end
