(* ===== verification/FtlEntry.thy ===== *)
theory FtlEntry
  imports FtlCompact
begin

text \<open>The entries of the log: which one is removed, how, and how an entry for a logical block is made.\<close>

section \<open>Between two operations\<close>

text \<open>An entry as the operations leave it: it has current pages, and room for more.\<close>

definition entry_ok :: "nat \<Rightarrow> ftl_log_type \<Rightarrow> bool" where
  "entry_ok n l \<longleftrightarrow> 0 < pagescurrent l \<and> pagesused l < n \<and> l_usn l < 2 ^ 32
     \<and> (issequential l = 1 \<longrightarrow> pagescurrent l = pagesused l)"

definition steady :: "'n nand_driver \<Rightarrow> 'n contents \<Rightarrow> 'n ftl \<Rightarrow> bool" where
  "steady dev cont s \<longleftrightarrow> ftl_ok dev cont s [] \<and> (\<forall>e \<in> set (active s). entry_ok (ppb s) (ftl_log s e))"

lemma same_store_calm:
  assumes "same_store s u"
  shows "calm cont s0 u = calm cont s0 s"
proof -
  note a = assms [unfolded same_store_def]
  have l: "same_layout s u" "same_layout u s" using a by (simp_all add: same_layout_def)
  have "same_layout s0 u = same_layout s0 s" using same_layout_trans l by metis
  moreover have "outside cont s0 u = outside cont s0 s" using a by (simp add: outside_def)
  ultimately show ?thesis using a by (simp add: calm_def same_store(1) [OF assms])
qed

lemmas calm_updates [simp] =
  same_store_calm [OF same_store_updates(1)] same_store_calm [OF same_store_updates(2)] same_store_calm [OF same_store_updates(3)]
  same_store_calm [OF same_store_updates(4)] same_store_calm [OF same_store_updates(5)] same_store_calm [OF same_store_updates(6)]
  same_store_calm [OF same_store_updates(7)] same_store_calm [OF same_store_updates(8)]

section \<open>Removing an entry\<close>

text \<open>What is left of the entries after \<open>e\<close> was removed or compacted.\<close>

definition removed :: "'n nand_driver \<Rightarrow> 'n contents \<Rightarrow> nat \<Rightarrow> 'n ftl \<Rightarrow> nat list \<Rightarrow> 'n ftl \<Rightarrow> bool" where
  "removed dev cont e s ex s' \<longleftrightarrow> gone dev cont e s ex s' \<or> shrunk dev cont e s ex s'"

lemma gone_same_store: "same_store s u \<Longrightarrow> gone dev cont e u ex s' \<Longrightarrow> gone dev cont e s ex s'"
proof -
  assume a: "same_store s u" and g: "gone dev cont e u ex s'"
  have "calm cont s u" using same_store_calm [OF a, of cont s] by simp
  with g a show ?thesis using calm_trans [of cont s u s'] same_store(5,8) [OF a] by (simp add: gone_def same_store_def)
qed

lemma shrunk_same_store: "same_store s u \<Longrightarrow> shrunk dev cont e u ex s' \<Longrightarrow> shrunk dev cont e s ex s'"
proof -
  assume a: "same_store s u" and g: "shrunk dev cont e u ex s'"
  have "calm cont s u" using same_store_calm [OF a, of cont s] by simp
  with g a show ?thesis using calm_trans [of cont s u s'] same_store(5,8) [OF a] by (simp add: shrunk_def same_store_def)
qed

lemma commit_entry:
  assumes ok: "ftl_ok dev cont s ex" and e: "e \<in> set (active s)" and fr: "2 \<le> freecount (ftl_cxt s)"
    and seq: "issequential (ftl_log s e) = 1 \<longrightarrow> pagescurrent (ftl_log s e) = pagesused (ftl_log s e)"
  shows "ends (commit_entry dev e s) (\<lambda>rc s'. rc = 0 \<and> gone dev cont e s ex s')"
  using commit_sequential [OF ok e] commit_scattered [OF ok e fr] seq by (simp add: commit_entry_def)

lemma remove_entry:
  assumes ok: "ftl_ok dev cont s ex" and e: "e \<in> set (active s)" and fr: "2 \<le> freecount (ftl_cxt s)"
    and seq: "issequential (ftl_log s e) = 1 \<longrightarrow> pagescurrent (ftl_log s e) = pagesused (ftl_log s e)"
    and cur: "0 < pagescurrent (ftl_log s e)"
  shows "ends (ftl_remove_scattered_block dev (Some e) s) (\<lambda>rc s'. rc = 0 \<and>
    (gone dev cont e s ex s' \<or> pagescurrent (ftl_log s e) < ppb s div 2 \<and> shrunk dev cont e s ex s'))"
proof -
  let ?s = "count_swap s"
  have ok': "ftl_ok dev cont ?s ex" "e \<in> set (active ?s)" "2 \<le> freecount (ftl_cxt ?s)" using ok e fr by simp_all
  note ss = same_store_updates(7) [of s]
  show ?thesis
  proof (cases "pagescurrent (ftl_log s e) < ppb s div 2")
    case True
    have "ends (ftl_compact_scattered dev e ?s) (\<lambda>rc s'. rc = 0 \<and> shrunk dev cont e ?s ex s')"
      by (rule compact_scattered [OF ok']) (use cur in simp)
    then show ?thesis using True unfolding ftl_remove_scattered_block_def
      by (simp, elim ends_weaken) (auto intro: shrunk_same_store [OF ss])
  next
    case False
    have "ends (commit_entry dev e ?s) (\<lambda>rc s'. rc = 0 \<and> gone dev cont e ?s ex s')"
      by (rule commit_entry [OF ok']) (use seq in simp)
    then show ?thesis using False unfolding ftl_remove_scattered_block_def
      by (simp, elim ends_weaken) (auto intro: gone_same_store [OF ss])
  qed
qed

lemma oldest_entry:
  assumes a: "active s \<noteq> []" and ok: "\<And>e. e \<in> set (active s) \<Longrightarrow> 0 < pagesused (ftl_log s e) \<and> 0 < pagescurrent (ftl_log s e) \<and> l_usn (ftl_log s e) < 2 ^ 32"
  obtains e where "oldest_entry s = Go (Some e)" "e \<in> set (active s)"
proof -
  let ?f = "\<lambda>i (age, used, entry). let l = ftl_log s i in
            if scatteredvblock l \<noteq> 0xFFFF \<and> (l_usn l < age \<or> l_usn l = age \<and> used < pagescurrent l)
            then (l_usn l, pagescurrent l, Some i) else (age, used, entry)"
  have ne: "\<not> (\<exists>i \<in> set [0..<0x11]. scatteredvblock (ftl_log s i) \<noteq> 0xFFFF
           \<and> (pagesused (ftl_log s i) = 0 \<or> pagescurrent (ftl_log s i) = 0))"
    using ok by (auto simp: active_def)
  have inv: "(case fold ?f xs (0xFFFFFFFF, 0, None) of (age, used, entry) \<Rightarrow>
     if \<exists>i \<in> set xs. scatteredvblock (ftl_log s i) \<noteq> 0xFFFF then \<exists>e \<in> set xs. entry = Some e \<and> scatteredvblock (ftl_log s e) \<noteq> 0xFFFF
     else age = 0xFFFFFFFF \<and> used = 0 \<and> entry = None)" if "set xs \<subseteq> {0..<0x11}" for xs
    using that
  proof (induction xs rule: rev_induct)
    case (snoc x xs)
    then have IH: "(case fold ?f xs (0xFFFFFFFF, 0, None) of (age, used, entry) \<Rightarrow>
     if \<exists>i \<in> set xs. scatteredvblock (ftl_log s i) \<noteq> 0xFFFF then \<exists>e \<in> set xs. entry = Some e \<and> scatteredvblock (ftl_log s e) \<noteq> 0xFFFF
     else age = 0xFFFFFFFF \<and> used = 0 \<and> entry = None)" by simp
    obtain age used entry where f: "fold ?f xs (0xFFFFFFFF, 0, None) = (age, used, entry)" by (rule prod_cases3)
    have xok: "l_usn (ftl_log s x) \<le> 0xFFFFFFFF \<and> 0 < pagescurrent (ftl_log s x)" if "scatteredvblock (ftl_log s x) \<noteq> 0xFFFF"
      using ok [of x] snoc.prems that by (simp add: active_def)
    show ?case
    proof (cases "scatteredvblock (ftl_log s x) = 0xFFFF")
      case True
      then show ?thesis using IH f by (auto split: if_splits)
    next
      case False
      note X = xok [OF False]
      show ?thesis
      proof (cases "\<exists>i \<in> set xs. scatteredvblock (ftl_log s i) \<noteq> 0xFFFF")
        case True
        with IH f obtain e where "e \<in> set xs" "entry = Some e" "scatteredvblock (ftl_log s e) \<noteq> 0xFFFF" by auto
        with False f show ?thesis by (auto simp: Let_def)
      next
        case no: False
        with IH f have "age = 0xFFFFFFFF" "used = 0" by auto
        with False f X have "fold ?f (xs @ [x]) (0xFFFFFFFF, 0, None) = (l_usn (ftl_log s x), pagescurrent (ftl_log s x), Some x)"
          by (simp add: Let_def) linarith
        with False show ?thesis by simp
      qed
    qed
  qed simp
  have "\<exists>i \<in> set [0..<0x11]. scatteredvblock (ftl_log s i) \<noteq> 0xFFFF"
    using a by (auto simp: active_def filter_empty_conv)
  with inv [of "[0..<0x11]"] obtain age used e where "fold ?f [0..<0x11] (0xFFFFFFFF, 0, None) = (age, used, Some e)"
    "e < 0x11" "scatteredvblock (ftl_log s e) \<noteq> 0xFFFF" by (auto split: prod.splits)
  moreover from this have "e \<in> set (active s)" by (simp add: active_def)
  ultimately show ?thesis using ne by (intro that [of e]) (simp_all add: oldest_entry_def del: set_upt)
qed

lemma entry_used:
  assumes "ftl_ok dev cont s ex" "e \<in> set (active s)" "0 < pagescurrent (ftl_log s e)"
  shows "0 < pagesused (ftl_log s e)"
proof -
  have lo: "log_ok cont s (ftl_log s e)" using ftl_okD(5) [OF assms(1)] assms(2) by (simp add: logs_ok_def)
  note L = log_ok_fields [OF lo]
  have "{p. p < ppb s \<and> pageoffsets (ftl_log s e) p \<noteq> 0xFFFF} \<noteq> {}" using assms(3) L(4) by (metis card.empty less_irrefl)
  then obtain p where "p < ppb s" "pageoffsets (ftl_log s e) p \<noteq> 0xFFFF" by blast
  with L(3) show ?thesis by force
qed

lemma steadyD:
  assumes "steady dev cont s"
  shows "ftl_ok dev cont s []" "e \<in> set (active s) \<Longrightarrow> entry_ok (ppb s) (ftl_log s e)"
  using assms by (simp_all add: steady_def)

lemma steady_free: "steady dev cont s \<Longrightarrow> 3 \<le> freecount (ftl_cxt s)"
  using blocks_ok_free(1) [OF ftl_okD(4) [OF steadyD(1)], of dev cont s] by simp

lemma steady_gone:
  assumes "steady dev cont s" "gone dev cont e s [] s'"
  shows "steady dev cont s'"
proof -
  have "ppb s' = ppb s" using assms(2) by (intro same_layout(6)) (simp add: gone_def calm_def)
  with assms show ?thesis by (simp add: steady_def gone_def)
qed

lemma remove_oldest:
  assumes st: "steady dev cont s" and a: "active s \<noteq> []"
  shows "ends (ftl_remove_scattered_block dev None s) (\<lambda>rc s'. rc = 0 \<and> (\<exists>e \<in> set (active s). gone dev cont e s [] s'))"
proof -
  note S = steadyD [OF st]
  have ok: "0 < pagesused (ftl_log s e) \<and> 0 < pagescurrent (ftl_log s e) \<and> l_usn (ftl_log s e) < 2 ^ 32" if "e \<in> set (active s)" for e
    using S(2) [OF that] entry_used [OF S(1) that] by (simp add: entry_ok_def)
  from oldest_entry [OF a ok] obtain e where e: "oldest_entry s = Go (Some e)" "e \<in> set (active s)" .
  let ?s = "count_swap s"
  have ok': "ftl_ok dev cont ?s []" "e \<in> set (active ?s)" "2 \<le> freecount (ftl_cxt ?s)" using S(1) e steady_free [OF st] by simp_all
  have "ends (commit_entry dev e ?s) (\<lambda>rc s'. rc = 0 \<and> gone dev cont e ?s [] s')"
    by (rule commit_entry [OF ok']) (use S(2) [OF e(2)] in \<open>simp add: entry_ok_def\<close>)
  then show ?thesis unfolding ftl_remove_scattered_block_def
    by (simp add: e(1), elim ends_weaken) (use e(2) gone_same_store [OF same_store_updates(7) [of s]] in blast)
qed

section \<open>Making an entry\<close>

text \<open>An empty entry for a logical block, on a new scattered block.\<close>

definition fresh_log :: "nat \<Rightarrow> nat \<Rightarrow> ftl_log_type \<Rightarrow> bool" where
  "fresh_log v block l \<longleftrightarrow> scatteredvblock l = v \<and> logicalvblock l = block \<and> pagesused l = 0 \<and> pagescurrent l = 0
     \<and> issequential l = 1 \<and> pageoffsets l = (\<lambda>_. 0xFFFF) \<and> l_usn l < 2 ^ 32"

lemma enter:
  assumes ok: "ftl_ok dev cont s (v # ex)" and e: "e < 0x11" "scatteredvblock (ftl_log s e) = 0xFFFF" and b: "block < userblocks s"
    and n: "ftl_get_log_entry block s = None" and fr: "fresh_log v block l" and er: "\<forall>q < ppb s. flash cont s (v * ppb s + q) = None"
  defines "s' \<equiv> s\<lparr>ftl_log := (ftl_log s)(e := l)\<rparr>"
  shows "ftl_ok dev cont s' ex" "view cont s' = view cont s" "calm cont s s'" "set (active s') = insert e (set (active s))"
proof -
  note I = ftl_okD [OF ok]
  have lay: "same_layout s s'" by (simp add: s'_def)
  note l' = same_layout [OF lay]
  have fl: "flash cont s' = flash cont s" by (simp add: s'_def)
  have vv: "v < vblocks s" by (rule role_less(5) [OF I(4)]) simp
  note V = block_small [OF I(2) vv]
  have L: "scatteredvblock l = v" "logicalvblock l = block" "pagesused l = 0" "pagescurrent l = 0" "pageoffsets l p = 0xFFFF" for p
    using fr by (simp_all add: fresh_log_def)
  have log: "ftl_log s' = (ftl_log s)(e := l)" by (simp add: s'_def)
  have ea: "e \<notin> set (active s)" using e(2) by (simp add: active_def)
  show act: "set (active s') = insert e (set (active s))" using e V(2) by (auto simp: active_def log L)
  have rest: "filter (\<lambda>i. i \<noteq> e) (active s') = active s" using e by (auto simp: active_def log intro!: filter_cong)
  show "calm cont s s'" unfolding calm_def fl using lay same_flash(2) [OF lay] by (simp add: s'_def)
  let ?f = "\<lambda>i. scatteredvblock (ftl_log s i)" and ?f' = "\<lambda>i. scatteredvblock (ftl_log s' i)"
  have d: "distinct (active s')" by (simp add: active_def)
  have ea': "e \<in> set (active s')" using act by simp
  have fe: "?f' e = v" by (simp add: log L)
  have me: "map ?f' (active s) = map ?f (active s)" using ea by (auto simp: log)
  have "mset (map ?f' (active s')) = add_mset v (mset (map ?f (active s)))"
    unfolding mset_map_remove [OF d ea', of ?f'] rest fe me ..
  moreover have "pool s' = pool s" by (simp add: s'_def pool_def Let_def)
  ultimately have m: "mset (roles s' @ ex) = mset (roles s @ v # ex)"
    unfolding roles_def mset_append by (simp add: s'_def del: mset_map)
  have blk: "blocks_ok s' ex" by (rule blocks_okI [OF m I(4) l'(5)]) (use blocks_okD(4,5) [OF I(4)] in \<open>simp_all add: s'_def\<close>)
  have lok: "logs_ok cont s'"
  proof -
    have "log_ok cont s' (ftl_log s' i)" if i: "i \<in> set (active s')" for i
    proof (cases "i = e")
      case True
      have "log_ok cont s' l" by (rule log_okI) (use b er in \<open>simp_all add: L l'(6,8) fl\<close>)
      then show ?thesis by (simp add: True log)
    next
      case False
      then have "log_ok cont s (ftl_log s i)" using I(5) i act by (simp add: logs_ok_def)
      note Li = log_ok_fields [OF this]
      have "ftl_log s' i = ftl_log s i" using False by (simp add: log)
      then show ?thesis using Li by (intro log_okI) (simp_all only: l'(6,8) fl)
    qed
    moreover have "inj_on (\<lambda>i. logicalvblock (ftl_log s' i)) (set (active s'))"
    proof -
      have "inj_on (\<lambda>i. logicalvblock (ftl_log s i)) (set (active s))" using I(5) unfolding logs_ok_def by (rule conjunct2)
      moreover have "logicalvblock (ftl_log s i) \<noteq> block" if "i \<in> set (active s)" for i
        using get_log_entry_None [OF n] that by (simp add: active_def)
      ultimately show ?thesis unfolding act using ea by (auto simp: inj_on_def log L)
    qed
    ultimately show ?thesis by (simp add: logs_ok_def)
  qed
  show "ftl_ok dev cont s' ex"
    using I(1,6-8) runs_on_layout [OF lay] blk lok by (simp add: ftl_ok_def tidy_def fl) (simp add: s'_def)
  have "sector_page b p s' = sector_page b p s" for b p
  proof (cases "b = block")
    case True
    have "ftl_get_log_entry block s' = Some e"
      using get_log_entry_unique [OF lok e(1)] V(2) by (simp add: log L)
    then show ?thesis using True n by (simp add: sector_page_def log L Let_def l'(6)) (simp add: s'_def)
  next
    case False
    have "ftl_get_log_entry b s' = ftl_get_log_entry b s"
      unfolding ftl_get_log_entry_def log using False e(2) by (intro find_cong) (auto simp: L)
    moreover have "i \<noteq> e" if "ftl_get_log_entry b s = Some i" for i using get_log_entry_Some(2) [OF that] e(2) by auto
    ultimately show ?thesis by (auto simp: sector_page_def log Let_def l'(6) split: option.split) (simp_all add: s'_def)
  qed
  then show "view cont s' = view cont s" by (simp add: view_def fun_eq_iff l'(6,8) fl)
qed

text \<open>An entry that the code works on: it may be empty.\<close>

definition entry_fit :: "nat \<Rightarrow> ftl_log_type \<Rightarrow> bool" where
  "entry_fit n l \<longleftrightarrow> pagesused l < n \<and> l_usn l < 2 ^ 32 \<and> (issequential l = 1 \<longrightarrow> pagescurrent l = pagesused l)"

definition opened :: "'n nand_driver \<Rightarrow> 'n contents \<Rightarrow> nat \<Rightarrow> nat \<Rightarrow> 'n ftl \<Rightarrow> bool" where
  "opened dev cont block e s \<longleftrightarrow> ftl_ok dev cont s [] \<and> e \<in> set (active s) \<and> logicalvblock (ftl_log s e) = block
     \<and> entry_fit (ppb s) (ftl_log s e) \<and> (\<forall>i \<in> set (active s). i \<noteq> e \<longrightarrow> entry_ok (ppb s) (ftl_log s i))"

lemma nextusn_small: "u32_mod (n + 0xFFFFFFFF) < 2 ^ 32"
  by simp

lemma touch_entry_log: "touch_entry e s = s\<lparr>ftl_log := (ftl_log s)(e := (ftl_log s e)\<lparr>l_usn := u32_mod (nextblockusn (ftl_cxt s) + 0xFFFFFFFF)\<rparr>)\<rparr>"
  by (simp add: touch_entry_def upd_log_def)

text \<open>A change of the age of an entry.\<close>

lemma same_log:
  assumes ok: "ftl_ok dev cont s ex" and l: "ftl_log s' = (ftl_log s)(e := (ftl_log s e)\<lparr>l_usn := u\<rparr>)" and s': "s' = s\<lparr>ftl_log := ftl_log s'\<rparr>"
  shows "ftl_ok dev cont s' ex" "view cont s' = view cont s" "calm cont s s'" "active s' = active s"
proof -
  note I = ftl_okD [OF ok]
  have lay: "same_layout s s'" by (subst s') simp
  note l' = same_layout [OF lay]
  have fl: "flash cont s' = flash cont s" by (subst s') simp
  have flds: "nand s' = nand s" "ftl_map s' = ftl_map s" "ftl_cxt s' = ftl_cxt s" "ftl_erasectr s' = ftl_erasectr s" "fkern s' = fkern s"
    "ftl_mtx s' = ftl_mtx s" "ftl_initialized s' = ftl_initialized s" "ftl_vfl_cxt s' = ftl_vfl_cxt s" "ftl_vfl_usn s' = ftl_vfl_usn s"
    by (subst s', simp)+
  have logs: "scatteredvblock (ftl_log s' i) = scatteredvblock (ftl_log s i)" "logicalvblock (ftl_log s' i) = logicalvblock (ftl_log s i)"
    "pageoffsets (ftl_log s' i) = pageoffsets (ftl_log s i)" "pagesused (ftl_log s' i) = pagesused (ftl_log s i)"
    "pagescurrent (ftl_log s' i) = pagescurrent (ftl_log s i)" "issequential (ftl_log s' i) = issequential (ftl_log s i)" for i
    by (simp_all add: l)
  show act: "active s' = active s" unfolding active_def logs ..
  show "calm cont s s'" using lay same_flash(2) [OF lay] by (simp add: calm_def fl flds)
  have "sector_page b p s' = sector_page b p s" for b p by (rule sector_page_log) (simp_all add: logs flds l'(6))
  then show "view cont s' = view cont s" by (simp add: view_def fun_eq_iff l'(6,8) fl)
  have "roles s' = roles s" "vblocks s' = vblocks s" by (simp_all add: roles_def act logs flds l'(5,8) pool_def)
  then have "blocks_ok s' ex" using I(4) by (simp add: blocks_ok_def flds)
  moreover have "log_ok cont s' (ftl_log s' i) = log_ok cont s (ftl_log s i)" for i by (simp add: log_ok_def logs l'(6,8) fl)
  then have "logs_ok cont s'" using I(5) unfolding logs_ok_def act logs by blast
  ultimately show "ftl_ok dev cont s' ex"
    using I(1,6-8) runs_on_layout [OF lay] by (simp add: ftl_ok_def tidy_def fl flds)
qed

lemma allocate_log_entry:
  assumes st: "steady dev cont s" and b: "block < userblocks s"
  shows "ends (ftl_allocate_log_entry dev block s) (\<lambda>r s'. \<exists>e. r = Some e \<and> opened dev cont block e s'
    \<and> view cont s \<subseteq>\<^sub>m view cont s' \<and> calm cont s s')"
proof (cases "ftl_get_log_entry block s")
  case (Some e)
  note G = get_log_entry_Some [OF Some] and S = steadyD [OF st]
  let ?s = "touch_entry e s"
  have l: "ftl_log ?s = (ftl_log s)(e := (ftl_log s e)\<lparr>l_usn := u32_mod (nextblockusn (ftl_cxt s) + 0xFFFFFFFF)\<rparr>)" "?s = s\<lparr>ftl_log := ftl_log ?s\<rparr>"
    by (simp_all add: touch_entry_log)
  note T = same_log [OF S(1) l]
  have ppb: "ppb ?s = ppb s" by (simp add: touch_entry_log)
  have "opened dev cont block e ?s"
    using T(1,4) G(3,4) S(2) by (auto simp: opened_def entry_fit_def entry_ok_def l(1) ppb)
  with Some T show ?thesis by (simp add: ftl_allocate_log_entry_def)
next
  case None
  note S = steadyD [OF st]
  have used: "\<not> (scatteredvblock (ftl_log s i) \<noteq> 0xFFFF \<and> pagesused (ftl_log s i) = 0)" if "i < 0x11" for i
  proof
    assume a: "scatteredvblock (ftl_log s i) \<noteq> 0xFFFF \<and> pagesused (ftl_log s i) = 0"
    then have i: "i \<in> set (active s)" using that by (simp add: active_def)
    from S(2) [OF i] entry_used [OF S(1) i] a show False by (simp add: entry_ok_def)
  qed
  then have f: "find (\<lambda>i. scatteredvblock (ftl_log s i) \<noteq> 0xFFFF \<and> pagesused (ftl_log s i) = 0) [0..<0x11] = None"
    by (auto simp: find_None_iff)
  have fc: "\<not> freecount (ftl_cxt s) < 3" using steady_free [OF st] by simp
  let ?room = "\<lambda>s1. steady dev cont s1 \<and> view cont s \<subseteq>\<^sub>m view cont s1 \<and> calm cont s s1 \<and> 4 \<le> freecount (ftl_cxt s1)
     \<and> ftl_get_log_entry block s1 = None"
  have "ends ((if freecount (ftl_cxt s) = 3 then ftl_remove_scattered_block dev None else finish 0) s) (\<lambda>rc s1. rc = 0 \<and> ?room s1)"
  proof (cases "freecount (ftl_cxt s) = 3")
    case True
    then have "active s \<noteq> []" using blocks_okD(3) [OF ftl_okD(4) [OF S(1)]] by auto
    from remove_oldest [OF st this] show ?thesis unfolding if_P [OF True]
    proof (rule ends_weaken, elim conjE bexE, intro conjI)
      fix rc s1 e assume "rc = 0" and e: "e \<in> set (active s)" and g: "gone dev cont e s [] s1"
      then show "rc = 0" "steady dev cont s1" "view cont s \<subseteq>\<^sub>m view cont s1" "calm cont s s1" "4 \<le> freecount (ftl_cxt s1)"
        using steady_gone [OF st g] True by (simp_all add: gone_def)
      have act: "active s1 = filter (\<lambda>i. i \<noteq> e) (active s)" and log: "i \<noteq> e \<Longrightarrow> ftl_log s1 i = ftl_log s i" for i
        using g by (simp_all add: gone_def)
      have "\<not> (scatteredvblock (ftl_log s1 i) \<noteq> 0xFFFF \<and> logicalvblock (ftl_log s1 i) = block)" if "i < 0x11" for i
      proof
        assume a: "scatteredvblock (ftl_log s1 i) \<noteq> 0xFFFF \<and> logicalvblock (ftl_log s1 i) = block"
        then have "i \<in> set (active s1)" using that by (simp add: active_def)
        then have "i \<noteq> e" by (simp add: act)
        with a log get_log_entry_None [OF None that] show False by simp
      qed
      then show "ftl_get_log_entry block s1 = None" by (auto simp: ftl_get_log_entry_def find_None_iff)
    qed
  next
    case False
    then show ?thesis using st None fc by simp
  qed
  note R = this
  have run: "ftl_allocate_log_entry dev block s = andthen (if freecount (ftl_cxt s) = 3 then ftl_remove_scattered_block dev None else finish 0) (\<lambda>rc s.
      if rc \<noteq> 0 then finish None s
      else
        andthen (lift (find (\<lambda>i. scatteredvblock (ftl_log s i) = 0xFFFF) [0..<0x11])) (\<lambda>e.
        andthen (ftl_allocate_pool_block dev) (\<lambda>block'.
        andthen (modify (upd_log e (\<lambda>l. l\<lparr>scatteredvblock := u16_mod block'\<rparr>))) (\<lambda>_.
        if u16_mod block' = 0xFFFF then finish None else init_entry block e))) s) s"
    unfolding ftl_allocate_log_entry_def None f option.case if_not_P [OF fc] ..
  show ?thesis unfolding run
  proof (rule ends_seq, rule R, elim conjE)
    fix rc :: nat and s1 assume rc: "rc = 0" and st1: "steady dev cont s1" and v1: "view cont s \<subseteq>\<^sub>m view cont s1" and c1: "calm cont s s1"
      and fr1: "4 \<le> freecount (ftl_cxt s1)" and n1: "ftl_get_log_entry block s1 = None"
    note S1 = steadyD [OF st1]
    note I1 = ftl_okD [OF S1(1)]
    have lay1: "same_layout s s1" using c1 by (simp add: calm_def)
    have "\<exists>i < 0x11. scatteredvblock (ftl_log s1 i) = 0xFFFF"
    proof (rule ccontr)
      assume "\<not> ?thesis"
      then have "filter (\<lambda>i. scatteredvblock (ftl_log s1 i) \<noteq> 0xFFFF) [0..<0x11] = [0..<0x11]" by (intro filter_True) auto
      then have "length (active s1) = 0x11" by (simp add: active_def)
      then show False using blocks_okD(3) [OF I1(4)] fr1 by simp
    qed
    then obtain e where fe: "find (\<lambda>i. scatteredvblock (ftl_log s1 i) = 0xFFFF) [0..<0x11] = Some e"
      by (cases "find (\<lambda>i. scatteredvblock (ftl_log s1 i) = 0xFFFF) [0..<0x11]") (auto simp: find_None_iff)
    then have e: "e < 0x11" "scatteredvblock (ftl_log s1 e) = 0xFFFF" by (auto simp: find_Some_iff)
    have "2 \<le> freecount (ftl_cxt s1)" using fr1 by simp
    note A = allocate_pool_block [OF I1(1,4) this]
    have "ends (andthen (ftl_allocate_pool_block dev) (\<lambda>block'.
        andthen (modify (upd_log e (\<lambda>l. l\<lparr>scatteredvblock := u16_mod block'\<rparr>))) (\<lambda>_.
        if u16_mod block' = 0xFFFF then finish None else init_entry block e)) s1) (\<lambda>r s'. \<exists>e. r = Some e \<and> opened dev cont block e s'
        \<and> view cont s \<subseteq>\<^sub>m view cont s' \<and> calm cont s s')"
    proof (rule ends_seq, rule A)
      fix v s2 assume t: "took cont s1 [] v s2"
      note T = tookD [OF t] and O = ftl_ok_took [OF S1(1) t] and Q = quietD [OF tookD(1) [OF t]]
      note l2 = same_layout [OF Q(1)]
      have vv: "v < vblocks s1" by (rule role_less(4) [OF I1(4) T(2)])
      note V = block_small [OF I1(2) vv]
      have lay2: "same_layout s s2" by (rule same_layout_trans [OF lay1 Q(1)])
      have e2: "scatteredvblock (ftl_log s2 e) = 0xFFFF" using e(2) Q(4) by simp
      have b2: "block < userblocks s2" using b same_layout(8) [OF lay2] by simp
      have n2: "ftl_get_log_entry block s2 = None" using n1 Q(4) by (simp add: ftl_get_log_entry_def)
      have er: "\<forall>q < ppb s2. flash cont s2 (v * ppb s2 + q) = None" unfolding T(4) l2(6) by simp
      have "block < 65536" using b ftl_okD(2) [OF S(1)] by (simp add: geo_ok_def)
      then have bm: "u16_mod block = block" by simp
      let ?l = "(ftl_init_log_entry ((ftl_log s2 e)\<lparr>scatteredvblock := v\<rparr>))\<lparr>logicalvblock := block,
         l_usn := u32_mod (nextblockusn (ftl_cxt s2) + 0xFFFFFFFF)\<rparr>"
      let ?s' = "s2\<lparr>ftl_log := (ftl_log s2)(e := ?l)\<rparr>"
      have fresh: "fresh_log v block ?l" by (simp add: fresh_log_def ftl_init_log_entry_def)
      note E = enter [OF O(1) e(1) e2 b2 n2 fresh er]
      have run: "andthen (modify (upd_log e (\<lambda>l. l\<lparr>scatteredvblock := u16_mod v\<rparr>))) (\<lambda>_.
        if u16_mod v = 0xFFFF then finish None else init_entry block e) s2 = Some (Done (Some e), ?s')"
        using V bm by (simp add: init_entry_def touch_entry_def upd_log_def finish_def)
      have "entry_fit (ppb ?s') (ftl_log ?s' e)"
        using fresh geo(1) [OF ftl_okD(2) [OF O(1)]] by (simp add: fresh_log_def entry_fit_def)
      moreover have "entry_ok (ppb ?s') (ftl_log ?s' i)" if "i \<in> set (active ?s')" "i \<noteq> e" for i
        using that S1(2) [of i] quiet_roles(1) [OF T(1)] l2(6) Q(4) unfolding E(4) by auto
      ultimately have "opened dev cont block e ?s'" using E(1,4) fresh by (simp add: opened_def fresh_log_def)
      moreover have "calm cont s ?s'" by (rule calm_trans [OF c1 calm_trans [OF calm_took [OF I1(4) t] E(3)]])
      moreover have "view cont s \<subseteq>\<^sub>m view cont ?s'" using v1 O(2) E(2) by simp
      ultimately show "ends (andthen (modify (upd_log e (\<lambda>l. l\<lparr>scatteredvblock := u16_mod v\<rparr>))) (\<lambda>_.
        if u16_mod v = 0xFFFF then finish None else init_entry block e) s2) (\<lambda>r s'. \<exists>e. r = Some e \<and> opened dev cont block e s'
        \<and> view cont s \<subseteq>\<^sub>m view cont s' \<and> calm cont s s')" unfolding run by simp
    qed
    then show "ends (if rc \<noteq> 0 then finish None s1 else
        andthen (lift (find (\<lambda>i. scatteredvblock (ftl_log s1 i) = 0xFFFF) [0..<0x11])) (\<lambda>e.
        andthen (ftl_allocate_pool_block dev) (\<lambda>block'.
        andthen (modify (upd_log e (\<lambda>l. l\<lparr>scatteredvblock := u16_mod block'\<rparr>))) (\<lambda>_.
        if u16_mod block' = 0xFFFF then finish None else init_entry block e))) s1) (\<lambda>r s'. \<exists>e. r = Some e \<and> opened dev cont block e s'
        \<and> view cont s \<subseteq>\<^sub>m view cont s' \<and> calm cont s s')"
      using rc fe by (simp split del: if_split)
  qed
qed

end
