(* ===== verification/FtlAppend.thy ===== *)
theory FtlAppend
  imports FtlEntry
begin

text \<open>
  \<open>ftl_write\<close> sends sectors to the scattered block of their logical block: what the view is after that.
\<close>

section \<open>Sectors that are written\<close>

text \<open>An array of sectors after \<open>k\<close> sectors from \<open>sector\<close> on were written.\<close>

definition overlay :: "nat \<Rightarrow> nat \<Rightarrow> (nat \<Rightarrow> page) \<Rightarrow> (nat \<Rightarrow> page option) \<Rightarrow> nat \<Rightarrow> page option" where
  "overlay sector k bufs v sec = (if sector \<le> sec \<and> sec < sector + k then Some (bufs (sec - sector)) else v sec)"

lemma overlay_none [simp]: "overlay sector 0 bufs v = v"
  by (rule ext) (auto simp: overlay_def)

lemma overlay_mono: "v \<subseteq>\<^sub>m w \<Longrightarrow> overlay sector k bufs v \<subseteq>\<^sub>m overlay sector k bufs w"
  by (intro map_leI) (auto simp: overlay_def dest: map_leD split: if_splits)

lemma overlay_more:
  assumes "overlay sector i bufs v \<subseteq>\<^sub>m w" "overlay (sector + i) n (\<lambda>k. bufs (i + k)) w \<subseteq>\<^sub>m w'"
  shows "overlay sector (i + n) bufs v \<subseteq>\<^sub>m w'"
proof (rule map_leI)
  fix sec d assume d: "overlay sector (i + n) bufs v sec = Some d"
  show "w' sec = Some d"
  proof (cases "sector + i \<le> sec \<and> sec < sector + i + n")
    case True
    then have "overlay (sector + i) n (\<lambda>k. bufs (i + k)) w sec = Some d" using d by (simp add: overlay_def)
    then show ?thesis by (rule map_leD [OF assms(2)])
  next
    case False
    then have "overlay sector i bufs v sec = Some d" using d by (auto simp: overlay_def split: if_splits)
    from map_leD [OF assms(1) this] have "overlay (sector + i) n (\<lambda>k. bufs (i + k)) w sec = Some d"
      using False by (auto simp: overlay_def)
    then show ?thesis by (rule map_leD [OF assms(2)])
  qed
qed

lemma map_le_through: "f \<subseteq>\<^sub>m g \<Longrightarrow> g \<subseteq>\<^sub>m h \<Longrightarrow> f \<subseteq>\<^sub>m h"
  by (rule map_le_trans)

section \<open>The pages of an entry are noted\<close>

lemma card_more:
  assumes "finite {p. p < n \<and> f p \<noteq> (c :: nat)}" "q < n" "x \<noteq> c"
  shows "card {p. p < n \<and> (f(q := x)) p \<noteq> c} = (if f q = c then card {p. p < n \<and> f p \<noteq> c} + 1 else card {p. p < n \<and> f p \<noteq> c})"
proof (cases "f q = c")
  case True
  then have "{p. p < n \<and> (f(q := x)) p \<noteq> c} = insert q {p. p < n \<and> f p \<noteq> c}" using assms(2,3) by auto
  then show ?thesis using True assms(1) by simp
next
  case False
  then have "{p. p < n \<and> (f(q := x)) p \<noteq> c} = {p. p < n \<and> f p \<noteq> c}" using assms(2,3) by auto
  then show ?thesis using False by simp
qed

text \<open>The offsets after \<open>j\<close> pages were noted; \<open>used\<close> is the number of pages used before.\<close>

definition offsets_after :: "nat \<Rightarrow> nat \<Rightarrow> nat \<Rightarrow> (nat \<Rightarrow> nat) \<Rightarrow> nat \<Rightarrow> nat" where
  "offsets_after page used j offs p = (if page \<le> p \<and> p < page + j then used + (p - page) else offs p)"

definition noted :: "nat \<Rightarrow> nat \<Rightarrow> nat \<Rightarrow> nat \<Rightarrow> ftl_log_type \<Rightarrow> ftl_log_type \<Rightarrow> bool" where
  "noted n page used j l l' \<longleftrightarrow> scatteredvblock l' = scatteredvblock l \<and> logicalvblock l' = logicalvblock l \<and> l_usn l' = l_usn l
     \<and> pagesused l' = pagesused l \<and> pageoffsets l' = offsets_after page used j (pageoffsets l)
     \<and> pagescurrent l' = card {p. p < n \<and> offsets_after page used j (pageoffsets l) p \<noteq> 0xFFFF}
     \<and> (issequential l' = 1 \<longrightarrow> issequential l = 1 \<and> (0 < j \<longrightarrow> page = used \<and> pagescurrent l' = used + j))"

lemma offsets_after_Suc: "offsets_after page used (Suc j) offs = (offsets_after page used j offs)(page + j := used + j)"
  by (auto simp: offsets_after_def fun_eq_iff less_Suc_eq)

lemma noted_step:
  assumes k: "noted n page used j l l'" and j: "page + j < n" "used + j < n" and n: "n \<le> 512"
    and off: "pagesused l' - cnt + j = used + j"
  shows "noted n page used (Suc j) l (let
     current = (if pageoffsets l' (page + j) = 0xFFFF then u16_mod (pagescurrent l' + 1) else pagescurrent l');
     offset = pagesused l' - cnt + j in
     l'\<lparr>pagescurrent := current, pageoffsets := (pageoffsets l')(page + j := u16_mod offset),
       issequential := (if offset + 1 \<noteq> current \<or> u16_mod offset \<noteq> page + j then 0 else issequential l')\<rparr>)"
proof -
  let ?o = "offsets_after page used j (pageoffsets l)"
  have po: "pageoffsets l' = ?o" and pc: "pagescurrent l' = card {p. p < n \<and> ?o p \<noteq> 0xFFFF}" using k by (simp_all add: noted_def)
  have "card {p. p < n \<and> ?o p \<noteq> 0xFFFF} \<le> card {..<n}" by (rule card_mono) auto
  then have "pagescurrent l' + 1 < 65536" using pc n by simp
  then have cur: "(if pageoffsets l' (page + j) = 0xFFFF then u16_mod (pagescurrent l' + 1) else pagescurrent l')
      = card {p. p < n \<and> (?o(page + j := used + j)) p \<noteq> 0xFFFF}"
    using card_more [where n = n and f = ?o and c = "0xFFFF" and q = "page + j" and x = "used + j"] j n po pc by simp
  have u: "u16_mod (used + j) = used + j" using j n by simp
  define c where "c = card {p. p < n \<and> (?o(page + j := used + j)) p \<noteq> 0xFFFF}"
  have "issequential l' = 1 \<Longrightarrow> issequential l = 1" using k by (simp add: noted_def)
  moreover have "used + j = page + j \<Longrightarrow> page = used" by simp
  ultimately show ?thesis using k unfolding Let_def cur off u c_def [symmetric] unfolding noted_def offsets_after_Suc c_def [symmetric] po
    by auto
qed

lemma note_pages:
  assumes cnt: "cnt \<le> pagesused l" "page + cnt \<le> n" "pagesused l \<le> n" "n \<le> 512"
    and cur: "pagescurrent l = card {p. p < n \<and> pageoffsets l p \<noteq> 0xFFFF}"
  shows "noted n page (pagesused l - cnt) cnt l (note_pages page cnt l)"
proof -
  define f where "f = (\<lambda>j (l :: ftl_log_type). let
     current = (if pageoffsets l (page + j) = 0xFFFF then u16_mod (pagescurrent l + 1) else pagescurrent l);
     offset = pagesused l - cnt + j in
     l\<lparr>pagescurrent := current, pageoffsets := (pageoffsets l)(page + j := u16_mod offset),
       issequential := (if offset + 1 \<noteq> current \<or> u16_mod offset \<noteq> page + j then 0 else issequential l)\<rparr>)"
  have "j \<le> cnt \<Longrightarrow> noted n page (pagesused l - cnt) j l (fold f [0..<j] l)" for j
  proof (induction j)
    case 0
    have "offsets_after page used 0 offs = offs" for used offs by (simp add: offsets_after_def fun_eq_iff)
    then show ?case using cur by (simp add: noted_def)
  next
    case (Suc j)
    have IH: "noted n page (pagesused l - cnt) j l (fold f [0..<j] l)" by (rule Suc.IH) (use Suc.prems in simp)
    have pu: "pagesused (fold f [0..<j] l) = pagesused l" using IH by (simp add: noted_def)
    have "noted n page (pagesused l - cnt) (Suc j) l (f j (fold f [0..<j] l))"
      unfolding f_def by (rule noted_step [OF IH [unfolded f_def]]) (use Suc.prems cnt pu [unfolded f_def] in simp_all)
    then show ?case by simp
  qed
  then show ?thesis unfolding note_pages_def f_def by simp
qed

text \<open>The view shows the pages that were noted.\<close>

lemma sector_in_block:
  assumes "page + j \<le> (n :: nat)" "b * n + page \<le> sec" "sec < b * n + page + j"
  shows "sec div n = b" "sec mod n = page + (sec - (b * n + page))"
proof -
  define d where "d = page + (sec - (b * n + page))"
  have "sec = b * n + d" "d < n" using assms by (simp_all add: d_def)
  then have "sec div n = b" "sec mod n = d" by simp_all
  then show "sec div n = b" "sec mod n = page + (sec - (b * n + page))" by (simp_all only: d_def)
qed

lemma ftl_ok_noted:
  assumes ok: "ftl_ok dev cont s ex" and e: "e \<in> set (active s)" and k: "noted (ppb s) page used j (ftl_log s e) l'"
    and j: "used + j = pagesused (ftl_log s e)" "page + j \<le> ppb s"
    and seq: "issequential (ftl_log s e) = 1 \<longrightarrow> pagescurrent (ftl_log s e) = used"
  defines "s' \<equiv> s\<lparr>ftl_log := (ftl_log s)(e := l')\<rparr>"
  shows "ftl_ok dev cont s' ex" "calm cont s s'" "active s' = active s"
    "view cont s' sec = (let v = logicalvblock (ftl_log s e) * ppb s + page in if v \<le> sec \<and> sec < v + j
       then map_option fst (flash cont s (scatteredvblock (ftl_log s e) * ppb s + used + (sec - v))) else view cont s sec)"
proof -
  note I = ftl_okD [OF ok]
  let ?l = "ftl_log s e" and ?offs = "pageoffsets (ftl_log s e)"
  have lo: "log_ok cont s ?l" using I(5) e by (simp add: logs_ok_def)
  note L = log_ok_fields [OF lo]
  have ppb: "ppb s \<le> 512" by (rule geo(4) [OF I(2)])
  have lay: "same_layout s s'" by (simp add: s'_def)
  note l' = same_layout [OF lay]
  have fl: "flash cont s' = flash cont s" by (simp add: s'_def)
  have log: "ftl_log s' = (ftl_log s)(e := l')" and map: "ftl_map s' = ftl_map s" by (simp_all add: s'_def)
  note K = k [unfolded noted_def]
  have sc: "scatteredvblock (ftl_log s' i) = scatteredvblock (ftl_log s i)" "logicalvblock (ftl_log s' i) = logicalvblock (ftl_log s i)" for i
    using K by (simp_all add: log)
  have po: "pageoffsets l' p = (if page \<le> p \<and> p < page + j then used + (p - page) else ?offs p)" for p
    using K by (simp add: offsets_after_def)
  show act: "active s' = active s" unfolding active_def sc ..
  show "calm cont s s'" using lay same_flash(2) [OF lay] by (simp add: calm_def fl) (simp add: s'_def)
  have "roles s' = roles s" "vblocks s' = vblocks s" using l'(5,8) by (simp_all add: roles_def act sc map) (simp add: s'_def pool_def)
  then have blk: "blocks_ok s' ex" using I(4) by (simp add: blocks_ok_def) (simp add: s'_def)
  have lok: "logs_ok cont s'"
  proof -
    have "log_ok cont s' (ftl_log s' i)" if i: "i \<in> set (active s)" for i
    proof (cases "i = e")
      case True
      have "log_ok cont s' l'"
      proof (rule log_okI)
        show "logicalvblock l' < userblocks s'" "pagesused l' \<le> ppb s'" using K L(1,2) l'(6,8) by simp_all
        show "pageoffsets l' p = 0xFFFF \<or> pageoffsets l' p < pagesused l'" if "p < ppb s'" for p
          using L(3) [of p] that K j(1) unfolding po l'(6) by auto
        show "pagescurrent l' = card {p. p < ppb s' \<and> pageoffsets l' p \<noteq> 0xFFFF}" using K by (simp add: l'(6))
        show "flash cont s' (scatteredvblock l' * ppb s' + q) = None" if "q < ppb s'" "pagesused l' \<le> q" for q
          using L(5) [of q] that K unfolding fl l'(6) by simp
        show "pageoffsets l' p = p" if s: "issequential l' = 1" and p: "p < pagescurrent l'" for p
        proof (cases "0 < j")
          case True
          with s K have sl: "issequential ?l = 1" "page = used" "pagescurrent l' = used + j" by blast+
          then show ?thesis using p seq L(6) [of p] unfolding po by auto
        next
          case False
          then have eq: "pageoffsets l' = ?offs" by (simp add: po fun_eq_iff)
          have "pagescurrent l' = card {p. p < ppb s \<and> pageoffsets l' p \<noteq> 0xFFFF}" using K by simp
          then have "pagescurrent l' = pagescurrent ?l" using L(4) unfolding eq by (simp only:)
          then show ?thesis using L(6) [of p] K s p unfolding eq by simp
        qed
      qed
      then show ?thesis by (simp add: True log)
    next
      case False
      then have "log_ok cont s (ftl_log s i)" using I(5) i by (simp add: logs_ok_def)
      note Li = log_ok_fields [OF this]
      have "ftl_log s' i = ftl_log s i" using False by (simp add: log)
      then show ?thesis using Li by (intro log_okI) (simp_all only: l'(6,8) fl)
    qed
    moreover have "inj_on (\<lambda>i. logicalvblock (ftl_log s i)) (set (active s))" using I(5) unfolding logs_ok_def by (rule conjunct2)
    ultimately show ?thesis unfolding logs_ok_def act sc by blast
  qed
  show "ftl_ok dev cont s' ex"
    using I(1,6-8) runs_on_layout [OF lay] blk lok by (simp add: ftl_ok_def tidy_def fl) (simp add: s'_def)
  have ge: "ftl_get_log_entry b s' = ftl_get_log_entry b s" for b by (simp add: ftl_get_log_entry_def sc)
  have ee: "ftl_get_log_entry (logicalvblock ?l) s = Some e"
    by (rule get_log_entry_unique [OF I(5)]) (use e in \<open>simp_all add: active_def\<close>)
  have sp: "sector_page b p s' = (if b = logicalvblock ?l \<and> page \<le> p \<and> p < page + j
      then scatteredvblock ?l * ppb s + used + (p - page) else sector_page b p s)" if p: "p < ppb s" for b p
  proof (cases "ftl_get_log_entry b s = Some e")
    case True
    note G = get_log_entry_Some [OF True]
    have a: "scatteredvblock ?l * ppb s + (used + p) - page = scatteredvblock ?l * ppb s + used + p - page" by (simp add: add.assoc)
    have "used + (p - page) \<noteq> 0xFFFF" if "page \<le> p" "p < page + j" using that L(2) j(1) ppb by simp
    moreover have "scatteredvblock l' = scatteredvblock ?l" using K by simp
    ultimately show ?thesis using True G(2,3) a by (simp add: sector_page_def ge sc log po Let_def map l'(6))
  next
    case False
    then have "b \<noteq> logicalvblock ?l" using ee by auto
    then show ?thesis using False by (auto simp: sector_page_def ge map l'(6) Let_def log split: option.split)
  qed
  have lv: "logicalvblock ?l * ppb s + ppb s \<le> userblocks s * ppb s"
    using mult_le_mono1 [of "logicalvblock ?l + 1" "userblocks s" "ppb s"] L(1) by simp
  show "view cont s' sec = (let v = logicalvblock ?l * ppb s + page in if v \<le> sec \<and> sec < v + j
       then map_option fst (flash cont s (scatteredvblock ?l * ppb s + used + (sec - v))) else view cont s sec)"
  proof (cases "logicalvblock ?l * ppb s + page \<le> sec \<and> sec < logicalvblock ?l * ppb s + page + j")
    case True
    define d where "d = sec - (logicalvblock ?l * ppb s + page)"
    have d: "sec = logicalvblock ?l * ppb s + page + d" "d < j" using True by (auto simp: d_def)
    note S = sector_in_block [OF j(2) conjunct1 [OF True] conjunct2 [OF True], folded d_def]
    have "sec < userblocks s * ppb s" using True lv j(2) by simp
    moreover from this have "sec mod ppb s < ppb s" by (rule sector_split(2))
    ultimately have "view cont s' sec = map_option fst (flash cont s (scatteredvblock ?l * ppb s + used + d))"
      unfolding view_def l'(6,8) fl by (simp add: sp S d(2))
    then show ?thesis using True by (simp add: Let_def d_def)
  next
    case False
    then have nn: "\<not> (sec div ppb s = logicalvblock ?l \<and> page \<le> sec mod ppb s \<and> sec mod ppb s < page + j)"
      by (metis div_mult_mod_eq add.assoc add_le_cancel_left nat_add_left_cancel_less)
    have "sector_page (sec div ppb s) (sec mod ppb s) s' = sector_page (sec div ppb s) (sec mod ppb s) s"
      if "sec < userblocks s * ppb s" using sp [OF sector_split(2) [OF that], of "sec div ppb s"] unfolding if_not_P [OF nn] .
    then have "view cont s' sec = view cont s sec" unfolding view_def l'(6,8) fl by simp
    then show ?thesis unfolding Let_def if_not_P [OF False] .
  qed
qed

section \<open>Pages for the scattered block\<close>

text \<open>The spare data of the pages that are written say that they are good.\<close>

lemma mark_scattereds:
  "ends (for_each [0..<k] (mark_scattered e lpn used) () s) (\<lambda>_ s'. still cont s s' \<and> flash cont s' = flash cont s
     \<and> (\<forall>j < k. sp_eccmark (ftl_sparebuffer s' j) = 0xFF))"
proof -
  let ?P = "\<lambda>n s'. still cont s s' \<and> flash cont s' = flash cont s \<and> (\<forall>j < n. sp_eccmark (ftl_sparebuffer s' j) = 0xFF)"
  have "ends (for_each [0..<k] (mark_scattered e lpn used) () s) (\<lambda>t s'. \<exists>x. t = Go x \<and> ?P (length [0..<k]) s')"
  proof (rule ends_for_each)
    show "?P 0 s" by simp
    fix n x s1 assume n: "n < length [0..<k]" and r: "?P n s1"
    then show "ends (mark_scattered e lpn used ([0..<k] ! n) x s1) (\<lambda>t s'. \<exists>x'. t = Go x' \<and> ?P (Suc n) s')"
      by (auto simp: mark_scattered_def less_Suc_eq set_spare_def)
  qed
  then show ?thesis by (rule ends_weaken) auto
qed

text \<open>How many pages are written in one go.\<close>

definition batch :: "nat \<Rightarrow> nat \<Rightarrow> nat \<Rightarrow> nat \<Rightarrow> nat" where
  "batch n page used left = min (min (min FTL_WRITESPARE_SIZE left) (n - used)) (n - page)"

lemma batch_bounds:
  assumes "page < n" "used < n" "0 < left"
  shows "0 < batch n page used left" "used + batch n page used left \<le> n" "page + batch n page used left \<le> n" "batch n page used left \<le> left"
  using assms by (auto simp: batch_def FTL_WRITESPARE_SIZE_def)

definition scattered :: "'n nand_driver \<Rightarrow> 'n contents \<Rightarrow> nat \<Rightarrow> nat \<Rightarrow> nat \<Rightarrow> (nat \<Rightarrow> page) \<Rightarrow> 'n ftl \<Rightarrow> 'n ftl \<Rightarrow> bool" where
  "scattered dev cont e sector k bufs s s' \<longleftrightarrow> ftl_ok dev cont s' [] \<and> view cont s' = overlay sector k bufs (view cont s)
     \<and> calm cont s s' \<and> active s' = active s \<and> (\<forall>i. i \<noteq> e \<longrightarrow> ftl_log s' i = ftl_log s i)
     \<and> logicalvblock (ftl_log s' e) = logicalvblock (ftl_log s e) \<and> l_usn (ftl_log s' e) = l_usn (ftl_log s e)
     \<and> pagesused (ftl_log s' e) \<le> ppb s \<and> 0 < pagescurrent (ftl_log s' e)
     \<and> (issequential (ftl_log s' e) = 1 \<longrightarrow> pagescurrent (ftl_log s' e) = pagesused (ftl_log s' e))"

lemma write_scattered:
  assumes ok: "ftl_ok dev cont s []" and e: "e \<in> set (active s)" and fit: "entry_fit (ppb s) (ftl_log s e)" and page: "page < ppb s"
    and left: "0 < left" and lpn: "lpn = logicalvblock (ftl_log s e) * ppb s + page"
  defines "k \<equiv> batch (ppb s) page (pagesused (ftl_log s e)) left"
  shows "ends (write_scattered dev e page lpn left bufs s) (\<lambda>n s'. n = k \<and> scattered dev cont e lpn k bufs s s')"
proof -
  note I = ftl_okD [OF ok]
  let ?l = "ftl_log s e" and ?b = "scatteredvblock (ftl_log s e)" and ?u = "pagesused (ftl_log s e)"
  have u: "?u < ppb s" and seq: "issequential ?l = 1 \<longrightarrow> pagescurrent ?l = ?u" using fit by (simp_all add: entry_fit_def)
  note k = batch_bounds [OF page u left, folded k_def]
  have lo: "log_ok cont s ?l" using I(5) e by (simp add: logs_ok_def)
  note L = log_ok_fields [OF lo]
  have bs: "?b < vblocks s" by (rule role_less(2) [OF I(4) e])
  have ub: "u32_mod (?b * ppb s + ?u) = ?b * ppb s + ?u" by (rule vpages_small(2) [OF I(2) vpage_less [OF bs u]])
  have run: "write_scattered dev e page lpn left bufs s = andthen (for_each [0..<k] (mark_scattered e lpn ?u) ()) (\<lambda>_ s.
      let abspage = u32_mod (scatteredvblock (ftl_log s e) * ppb s + ?u) in
      andthen (modify (upd_log e (\<lambda>l. l\<lparr>pagesused := u16_mod (pagesused l + k)\<rparr>))) (\<lambda>_ s.
      andthen (ftl_vfl_write dev abspage k bufs (ftl_sparebuffer s)) (\<lambda>rc.
      if rc \<noteq> 0 then give_up
      else andthen (modify (upd_log e (note_pages page k))) (\<lambda>_. finish k)) s) s) s"
    unfolding write_scattered_def Let_def k_def batch_def ..
  show ?thesis unfolding run
  proof (rule ends_seq, rule mark_scattereds [where cont = cont], elim conjE)
    fix t :: "(unit, unit) turn" and s1
    assume st1: "still cont s s1" and fl1: "flash cont s1 = flash cont s" and marks: "\<forall>j < k. sp_eccmark (ftl_sparebuffer s1 j) = 0xFF"
    note Q = quietD [OF stillD(1) [OF st1]]
    note l1 = same_layout [OF Q(1)]
    let ?upd = "upd_log e (\<lambda>l. l\<lparr>pagesused := u16_mod (pagesused l + k)\<rparr>)"
    let ?s2 = "?upd s1"
    have um: "u16_mod (?u + k) = ?u + k" using k(2) geo(4) [OF I(2)] by simp
    then have s2: "?upd x = upd_log e (\<lambda>l. l\<lparr>pagesused := pagesused l + k\<rparr>) x" if "ftl_log x = ftl_log s" for x
      by (intro upd_log_cong) (simp add: that)
    have lay2: "same_layout s1 ?s2" by (simp add: same_layout_def)
    have run2: "runs_on dev cont ?s2" using runs_on_layout [OF lay2] runs_on_layout [OF Q(1)] I(1) by simp
    have fl2: "flash cont ?s2 = flash cont s" using same_flash(1) [OF lay2] fl1 by simp
    note l2 = same_layout [OF lay2]
    have er: "\<forall>i < k. flash cont ?s2 (?b * ppb ?s2 + ?u + i) = None"
      using L(5) k unfolding fl2 l2(6) l1(6) by (simp add: add.assoc)
    from write_pages [OF run2 _ _ k(1) er, of bufs "ftl_sparebuffer ?s2"] bs k(2)
    obtain n where n: "ftl_vfl_write dev (?b * ppb s + ?u) k bufs (ftl_sparebuffer ?s2) ?s2 = Some (Done 0, ?s2\<lparr>nand := n\<rparr>)"
      "still cont ?s2 (?s2\<lparr>nand := n\<rparr>)" and fln: "flash cont (?s2\<lparr>nand := n\<rparr>) = (\<lambda>w. if ?b * ppb s + ?u \<le> w \<and> w < ?b * ppb s + ?u + k
        then Some (bufs (w - (?b * ppb s + ?u)), ftl_sparebuffer ?s2 (w - (?b * ppb s + ?u))) else flash cont s w)"
      unfolding l2(5,6) l1(5,6) fl2 by blast
    let ?s3 = "s1\<lparr>nand := n\<rparr>"
    have s3: "?s2\<lparr>nand := n\<rparr> = ?upd ?s3" by (simp add: upd_log_def)
    have lay3: "same_layout ?s3 (?upd ?s3)" by (simp add: same_layout_def)
    have fl3: "flash cont ?s3 = flash cont (?upd ?s3)" using same_flash(1) [OF lay3] by simp
    have sp: "ftl_sparebuffer ?s2 = ftl_sparebuffer s1" by simp
    have "outside cont s1 ?s3"
    proof (rule outside_trans [OF lay2 same_flash(2) [OF lay2] outside_trans [OF _ quietD(2) [OF stillD(1) [OF n(2)]] same_flash(2)]])
      show "same_layout (?s2\<lparr>nand := n\<rparr>) ?s3" by (simp add: same_layout_def)
    qed simp_all
    then have "still cont s1 ?s3"
      by (simp add: still_def quiet_def same_layout_def same_pool_def)
    then have st3: "still cont s ?s3" by (rule still_trans [OF st1])
    note A = appended [OF ok e k(2) st3 marks, where bufs = bufs, unfolded Let_def fl3, OF fln [unfolded s3 sp],
      folded s2 [of ?s3, simplified, OF Q(4)]]
    show "ends (let abspage = u32_mod (scatteredvblock (ftl_log s1 e) * ppb s1 + ?u) in
      andthen (modify ?upd) (\<lambda>_ s.
      andthen (ftl_vfl_write dev abspage k bufs (ftl_sparebuffer s)) (\<lambda>rc.
      if rc \<noteq> 0 then give_up
      else andthen (modify (upd_log e (note_pages page k))) (\<lambda>_. finish k)) s) s1) (\<lambda>n s'. n = k \<and> scattered dev cont e lpn k bufs s s')"
    proof -
      let ?s4 = "?upd ?s3" and ?l4 = "?l\<lparr>pagesused := ?u + k\<rparr>"
      have l4: "ftl_log ?s4 e = ?l4" by (simp add: Q(4) um)
      have ppb4: "ppb ?s4 = ppb s" using l1(6) by simp
      let ?l5 = "note_pages page k ?l4"
      have nt: "noted (ppb ?s4) page ?u k (ftl_log ?s4 e) ?l5"
        unfolding l4(1) ppb4 using note_pages [of k ?l4 page "ppb s"] k L(4) geo(4) [OF I(2)] by simp
      have e4: "e \<in> set (active ?s4)" unfolding A(4) by (rule e)
      note N = ftl_ok_noted [OF A(1) e4 nt, unfolded l4(1) ppb4]
      let ?s5 = "upd_log e (note_pages page k) ?s4"
      have s5: "?s5 = ?s4\<lparr>ftl_log := (ftl_log ?s4)(e := ?l5)\<rparr>" unfolding upd_log_def [of e "note_pages page k"] l4(1) ..
      have fl4: "flash cont ?s4 = (\<lambda>w. if ?b * ppb s + ?u \<le> w \<and> w < ?b * ppb s + ?u + k
        then Some (bufs (w - (?b * ppb s + ?u)), ftl_sparebuffer s1 (w - (?b * ppb s + ?u))) else flash cont s w)"
        using fln unfolding s3 sp .
      have sq: "issequential ?l4 = 1 \<longrightarrow> pagescurrent ?l4 = ?u" using seq by simp
      have lb: "logicalvblock ?l4 = logicalvblock ?l" "scatteredvblock ?l4 = ?b" "pagesused ?l4 = ?u + k" by simp_all
      note N' = N [unfolded lb, OF refl k(3) sq, folded s5]
      have vw: "view cont ?s5 = overlay lpn k bufs (view cont s)"
      proof
        fix sec
        have "flash cont ?s4 (?b * ppb s + ?u + d) = Some (bufs d, ftl_sparebuffer s1 d)" if "d < k" for d
          using that unfolding fl4 by simp
        from this [of "sec - lpn"] have "flash cont ?s4 (?b * ppb s + ?u + (sec - lpn)) = Some (bufs (sec - lpn), ftl_sparebuffer s1 (sec - lpn))"
          if "lpn \<le> sec" "sec < lpn + k" using that by linarith
        then show "view cont ?s5 sec = overlay lpn k bufs (view cont s) sec"
          using N'(4) [of sec] unfolding overlay_def Let_def lpn [symmetric] A(2) by simp
      qed
      note K = nt [unfolded noted_def l4(1) lb]
      have l5: "ftl_log ?s5 e = ?l5" and li: "i \<noteq> e \<Longrightarrow> ftl_log ?s5 i = ftl_log s i" for i using Q(4) unfolding s5 by simp_all
      have off: "offsets_after page ?u k (pageoffsets ?l4) page = ?u" using k(1) by (simp add: offsets_after_def)
      have "page \<in> {p. p < ppb s \<and> offsets_after page ?u k (pageoffsets ?l4) p \<noteq> 0xFFFF}"
        using page u geo(4) [OF I(2)] off by simp
      then have "0 < card {p. p < ppb s \<and> offsets_after page ?u k (pageoffsets ?l4) p \<noteq> 0xFFFF}"
        by (intro card_gt_0_iff [THEN iffD2] conjI) auto
      then have cur: "0 < pagescurrent ?l5" using K unfolding ppb4 by simp
      have pu: "pagesused ?l5 = ?u + k" and ll: "logicalvblock ?l5 = logicalvblock ?l" "l_usn ?l5 = l_usn ?l"
        using K by simp_all
      have "scattered dev cont e lpn k bufs s ?s5"
        unfolding scattered_def l5
      proof (intro conjI allI)
        show "ftl_ok dev cont ?s5 []" by (rule N'(1))
        show "calm cont s ?s5" by (rule calm_trans [OF A(3) N'(2)])
        show "active ?s5 = active s" using N'(3) A(4) by simp
        show "i \<noteq> e \<longrightarrow> ftl_log ?s5 i = ftl_log s i" for i using li by blast
        show "issequential ?l5 = 1 \<longrightarrow> pagescurrent ?l5 = pagesused ?l5" unfolding pu using K k(1) by blast
      qed (use vw k cur pu ll in simp_all)
      moreover have "ends (andthen (ftl_vfl_write dev (?b * ppb s + ?u) k bufs (ftl_sparebuffer ?s2)) (\<lambda>rc.
        if rc \<noteq> 0 then give_up else andthen (modify (upd_log e (note_pages page k))) (\<lambda>_. finish k)) ?s2)
        (\<lambda>n s'. n = k \<and> s' = ?s5)"
        unfolding ends_andthen n(1) s3 by simp
      moreover have "scatteredvblock (ftl_log ?s2 e) = ?b" "ppb ?s2 = ppb s" using Q(4) l1(6) by simp_all
      ultimately show ?thesis unfolding Let_def andthen_modify l1(6) Q(4) ub by (elim ends_weaken) simp
    qed
  qed
qed

end
