(* ===== verification/FtlWhole.thy ===== *)
theory FtlWhole
  imports FtlAppend
begin

text \<open>\<open>ftl_write\<close> gives a whole logical block a block of its own; the log entry is dropped.\<close>

section \<open>The pages of the block\<close>

lemma whole_batch:
  assumes ok: "ftl_ok dev cont s ex" and dst: "dst \<in> set ex" and c: "laid cont s (\<lambda>q d. d = bufs q) dst m s1" and m: "m + 32 \<le> ppb s"
  shows "ends (whole_batch dev dst lpn bufs m x s1) (\<lambda>t s'. t = Go () \<and> laid cont s (\<lambda>q d. d = bufs q) dst (m + 32) s')"
proof -
  let ?P = "\<lambda>q d. d = bufs q"
  let ?sp = "\<lambda>k. user_spare (lpn + m + k) (nextblockusn (ftl_cxt s1)) (m = ppb s1 - 1) False"
  let ?s2 = "s1\<lparr>ftl_sparebuffer := ?sp\<rparr>"
  have c2: "laid cont s ?P dst m ?s2" by (rule laid_still [OF c]) simp_all
  have data: "\<forall>j < 32. ?P (m + j) (bufs (m + j))" "\<forall>j < 32. sp_eccmark (?sp j) = 0xFF" by simp_all
  from laid_more [OF ok c2 role_less(5) [OF ftl_okD(4) [OF ok] dst] m _ data] obtain n where
    n: "ftl_vfl_write dev (u32_mod (dst * ppb s + m)) 32 (\<lambda>k. bufs (m + k)) ?sp ?s2 = Some (Done 0, ?s2\<lparr>nand := n\<rparr>)"
      "laid cont s ?P dst (m + 32) (?s2\<lparr>nand := n\<rparr>)" by (metis zero_less_numeral)
  have "ppb s1 = ppb s" by (rule same_layout(6) [OF quietD(1) [OF stillD(1) [OF laidD(1) [OF c]]]])
  then show ?thesis unfolding whole_batch_def FTL_WRITESPARE_SIZE_def using n by (simp add: ends_andthen)
qed

lemma write_whole_block:
  assumes ok: "ftl_ok dev cont s ex" and dst: "dst \<in> set ex" and e: "\<forall>q < ppb s. flash cont s (dst * ppb s + q) = None"
  shows "ends (write_whole_block dev dst lpn bufs s) (\<lambda>_ s'. laid cont s (\<lambda>q d. d = bufs q) dst (ppb s) s')"
proof -
  note I = ftl_okD [OF ok] and p = geo [OF ftl_okD(2) [OF ok]]
  let ?P = "\<lambda>q d. d = bufs q"
  obtain m where m: "ppb s = 32 * m" using p(7) by blast
  let ?is = "filter (\<lambda>j. j mod FTL_WRITESPARE_SIZE = 0) [0..<ppb s]"
  have is': "?is = map ((*) 32) [0..<m]" using filter_multiples [of 32 m] by (simp add: m FTL_WRITESPARE_SIZE_def)
  have len: "32 * length ?is = ppb s" unfolding is' by (simp add: m)
  show ?thesis unfolding write_whole_block_def
  proof (rule ends_loop [where P = "\<lambda>n _ s'. laid cont s ?P dst (32 * n) s'"])
    show "laid cont s ?P dst (32 * 0) s" using laid_start [OF I(6) e] by simp
    fix n x s1 assume n: "n < length ?is" and c: "laid cont s ?P dst (32 * n) s1"
    have i: "?is ! n = 32 * n" and lim: "32 * n + 32 \<le> ppb s" using n unfolding is' by (simp_all add: m)
    show "ends (whole_batch dev dst lpn bufs (?is ! n) x s1) (\<lambda>t s'. \<exists>x'. t = Go x' \<and> laid cont s ?P dst (32 * Suc n) s')"
      unfolding i by (rule ends_weaken [OF whole_batch [OF ok dst c lim]]) (auto simp: add.commute)
  qed (simp add: len)
qed

section \<open>The change of roles\<close>

lemma view_drop_other:
  assumes "logs_ok cont s" "e \<in> set (active s)" "sec div ppb s \<noteq> logicalvblock (ftl_log s e)"
  shows "view cont (drop_entry e s) sec = view cont s sec"
proof -
  let ?s = "drop_entry e s"
  have ge: "ftl_get_log_entry (sec div ppb s) ?s = ftl_get_log_entry (sec div ppb s) s"
    using get_log_entry_drop [OF assms(1,2)] assms(3) by simp
  moreover have "i \<noteq> e" if "ftl_get_log_entry (sec div ppb s) s = Some i" for i
    using get_log_entry_Some(3) [OF that] assms(3) by auto
  ultimately have "sector_page (sec div ppb s) (sec mod ppb s) ?s = sector_page (sec div ppb s) (sec mod ppb s) s"
    unfolding sector_page_def ge by (auto simp: Let_def split: option.split)
  then show ?thesis using same_layout(8) [of s ?s] by (simp add: view_def)
qed

lemma view_set_map:
  assumes "logs_ok cont s" "b < userblocks s" "ftl_get_log_entry b s = None"
  shows "view cont (set_map b v s) sec = (if sec div ppb s = b
    then map_option fst (flash cont s (v * ppb s + sec mod ppb s)) else view cont s sec)"
proof -
  let ?s = "set_map b v s"
  have ge: "ftl_get_log_entry c ?s = ftl_get_log_entry c s" for c by (simp add: ftl_get_log_entry_def)
  have u: "userblocks ?s = userblocks s" by (rule same_layout(8)) simp
  show ?thesis
  proof (cases "sec div ppb s = b")
    case True
    have "sec < userblocks s * ppb s \<or> ppb s = 0" using True assms(2)
      by (metis bot_nat_0.not_eq_extremum div_less_iff_less_mult)
    then show ?thesis
    proof
      assume "sec < userblocks s * ppb s"
      then show ?thesis using True assms(3) by (simp add: view_def u sector_page_def ge)
    next
      assume "ppb s = 0"
      then show ?thesis using True by (simp add: view_def u flash_def vpages_def)
    qed
  next
    case False
    then have "sector_page (sec div ppb s) (sec mod ppb s) ?s = sector_page (sec div ppb s) (sec mod ppb s) s"
      unfolding sector_page_def ge by (auto simp: Let_def split: option.split)
    then show ?thesis using False by (simp add: view_def u)
  qed
qed

text \<open>The block that the pages go to: the entry's own, if it is erased, or a new one.\<close>

lemma fresh_place:
  assumes ok: "ftl_ok dev cont s [x]" and er: "u = 0 \<longrightarrow> (\<forall>q < ppb s. flash cont s (x * ppb s + q) = None)"
  shows "ends ((if u \<noteq> 0 then andthen (ftl_release_pool_block x) (\<lambda>_. ftl_allocate_pool_block dev) else finish x) s)
    (\<lambda>v s'. ftl_ok dev cont s' [v] \<and> (\<forall>q < ppb s'. flash cont s' (v * ppb s' + q) = None) \<and> view cont s' = view cont s
       \<and> calm cont s s' \<and> ftl_log s' = ftl_log s)"
proof (cases "u = 0")
  case True
  then show ?thesis using ok er by simp
next
  case False
  note I = ftl_okD [OF ok]
  note R = release_pool_block [OF I(4,2)] and F = ftl_ok_add_free [OF ok]
  note J = ftl_okD [OF F(1)]
  have fr: "2 \<le> freecount (ftl_cxt (add_free x s))" using blocks_ok_free(1) [OF J(4)] by simp
  have "ends (andthen (ftl_release_pool_block x) (\<lambda>_. ftl_allocate_pool_block dev) s)
    (\<lambda>v s'. ftl_ok dev cont s' [v] \<and> (\<forall>q < ppb s'. flash cont s' (v * ppb s' + q) = None) \<and> view cont s' = view cont s
       \<and> calm cont s s' \<and> ftl_log s' = ftl_log s)"
    unfolding ends_andthen R(1) ends_Some
  proof (rule ends_weaken [OF allocate_pool_block [OF J(1,4) fr]])
    fix v s' assume t: "took cont (add_free x s) [] v s'"
    note T = tookD [OF t] and O = ftl_ok_took [OF F(1) t]
    note l = same_layout [OF quietD(1) [OF T(1)]]
    have "calm cont s s'" by (rule calm_trans [OF calm_roles(3) calm_took [OF J(4) t]])
    then show "ftl_ok dev cont s' [v] \<and> (\<forall>q < ppb s'. flash cont s' (v * ppb s' + q) = None) \<and> view cont s' = view cont s
       \<and> calm cont s s' \<and> ftl_log s' = ftl_log s"
      using O F(2) quietD(4) [OF T(1)] unfolding T(4) l(6) by simp
  qed
  then show ?thesis using False by simp
qed

lemma map_in_roles:
  "set_map b v (add_free a s) = add_free a (set_map b v s)"
  by (simp add: set_map_def add_free_def upd_cxt_def)

lemma in_block_iff: "0 < (n :: nat) \<Longrightarrow> sec div n = b \<longleftrightarrow> b * n \<le> sec \<and> sec < b * n + n"
proof
  assume n: "0 < n" and "sec div n = b"
  then have "b * n + sec mod n = sec" "sec mod n < n" by auto
  then show "b * n \<le> sec \<and> sec < b * n + n" by linarith
next
  assume "b * n \<le> sec \<and> sec < b * n + n"
  then show "sec div n = b" by (intro div_nat_eqI) (simp_all add: mult.commute)
qed

text \<open>The last steps: the block takes the place of the one that the map names.\<close>

lemma replace_map:
  assumes ok: "ftl_ok dev cont s [v]" and b: "b < userblocks s" and n: "ftl_get_log_entry b s = None"
    and data: "\<forall>q < ppb s. map_option fst (flash cont s (v * ppb s + q)) = Some (bufs q)"
  shows "ends (andthen (require (\<lambda>_. b < 0x2000)) (\<lambda>_ s.
      andthen (ftl_release_pool_block (ftl_map s b)) (\<lambda>_.
      andthen (modify (\<lambda>s. s\<lparr>ftl_map := (ftl_map s)(b := u16_mod v)\<rparr>)) (\<lambda>_.
      finish (Go ()))) s) s) (\<lambda>t s'. t = Go () \<and> ftl_ok dev cont s' [] \<and> calm cont s s' \<and> ftl_log s' = ftl_log s
        \<and> view cont s' = overlay (b * ppb s) (ppb s) bufs (view cont s))"
proof -
  note I = ftl_okD [OF ok]
  let ?a = "ftl_map s b" and ?s' = "add_free (ftl_map s b) (set_map b v s)"
  have b2: "b < 0x2000" using b I(2) by (simp add: geo_ok_def)
  have v: "u16_mod v = v" by (rule block_small(3) [OF I(2)]) (rule role_less(5) [OF I(4)], simp)
  have room: "freecount (ftl_cxt s) < 0x14" using blocks_okD(3) [OF I(4)] by simp
  have rel: "ftl_release_pool_block ?a s = Some (Done (), add_free ?a s)"
    by (rule release_runs [OF I(2) role_less(1) [OF I(4) b] blocks_okD(4) [OF I(4)] room])
  have run: "andthen (require (\<lambda>_. b < 0x2000)) (\<lambda>_ s. andthen (ftl_release_pool_block (ftl_map s b)) (\<lambda>_.
      andthen (modify (\<lambda>s. s\<lparr>ftl_map := (ftl_map s)(b := u16_mod v)\<rparr>)) (\<lambda>_. finish (Go ()))) s) s = Some (Done (Go ()), ?s')"
    unfolding v set_map_eta andthen_require if_P [OF b2] andthen_def [of "ftl_release_pool_block ?a"] rel bind.simps prod.case answer.case
      andthen_modify finish_def map_in_roles ..
  note F = ftl_ok_add_free [OF ftl_ok_set_map [OF ok b]]
  have "view cont ?s' = overlay (b * ppb s) (ppb s) bufs (view cont s)"
  proof
    fix sec
    have p: "0 < ppb s" by (rule geo(1) [OF I(2)])
    note iff = in_block_iff [OF p, of sec b]
    show "view cont ?s' sec = overlay (b * ppb s) (ppb s) bufs (view cont s) sec"
    proof (cases "sec div ppb s = b")
      case True
      define d where "d = sec - b * ppb s"
      from True iff have "b * ppb s \<le> sec \<and> sec < b * ppb s + ppb s" by blast
      then have d: "sec = b * ppb s + d" "d < ppb s" by (auto simp: d_def)
      then have "sec mod ppb s = d" by simp
      then show ?thesis unfolding F(2) view_set_map [OF I(5) b n] overlay_def using True data d by simp
    next
      case False
      then show ?thesis by (simp only: F(2) view_set_map [OF I(5) b n] overlay_def iff [symmetric] if_False)
    qed
  qed
  moreover have "calm cont s ?s'" by (rule calm_trans [OF calm_roles(2,3)])
  ultimately show ?thesis unfolding run using F(1) by simp
qed

lemma write_full:
  assumes op: "opened dev cont block e s"
  shows "ends (write_full dev e block lpn bufs s) (\<lambda>t s'. t = Go () \<and> steady dev cont s' \<and> calm cont s s'
    \<and> overlay (block * ppb s) (ppb s) bufs (view cont s) \<subseteq>\<^sub>m view cont s' \<and> pagesused (ftl_log s' e) < ppb s)"
proof -
  have ok: "ftl_ok dev cont s []" and e: "e \<in> set (active s)" and lb: "logicalvblock (ftl_log s e) = block"
    and fit: "entry_fit (ppb s) (ftl_log s e)" and others: "\<forall>i \<in> set (active s). i \<noteq> e \<longrightarrow> entry_ok (ppb s) (ftl_log s i)"
    using op by (simp_all add: opened_def)
  note I = ftl_okD [OF ok]
  let ?x = "scatteredvblock (ftl_log s e)" and ?s1 = "drop_entry e s"
  have ok1: "ftl_ok dev cont ?s1 [?x]" by (rule ftl_ok_drop_entry [OF ok e])
  have lo: "log_ok cont s (ftl_log s e)" using I(5) e by (simp add: logs_ok_def)
  have er: "pagesused (ftl_log ?s1 e) = 0 \<longrightarrow> (\<forall>q < ppb ?s1. flash cont ?s1 (?x * ppb ?s1 + q) = None)" using log_ok_fields(5) [OF lo] by simp
  have bu: "block < userblocks s" using entry_logical(1) [OF ok e] lb by simp
  show ?thesis unfolding write_full_def Let_def drop_entry_def [symmetric]
  proof (rule ends_after_modify, rule ends_seq, rule fresh_place [OF ok1 er], elim conjE)
    fix v s2 assume ok2: "ftl_ok dev cont s2 [v]" and er2: "\<forall>q < ppb s2. flash cont s2 (v * ppb s2 + q) = None"
      and v2: "view cont s2 = view cont ?s1" and c2: "calm cont ?s1 s2" and l2: "ftl_log s2 = ftl_log ?s1"
    have vne: "v \<noteq> 0xFFFFFFFF" by (rule block_small(1) [OF ftl_okD(2) [OF ok2]]) (rule role_less(5) [OF ftl_okD(4) [OF ok2]], simp)
    have okn: "ftl_ok dev cont (next_usn s2) [v]" and vin: "v \<in> set [v]" using ok2 by simp_all
    have ern: "\<forall>q < ppb (next_usn s2). flash cont (next_usn s2) (v * ppb (next_usn s2) + q) = None" using er2 by simp
    show "ends ((if v = 0xFFFFFFFF then finish (Leave (neg 6)) else
      andthen (modify next_usn) (\<lambda>_.
      andthen (write_whole_block dev v lpn bufs) (\<lambda>_.
      andthen (require (\<lambda>_. block < 0x2000)) (\<lambda>_ s.
      andthen (ftl_release_pool_block (ftl_map s block)) (\<lambda>_.
      andthen (modify (\<lambda>s. s\<lparr>ftl_map := (ftl_map s)(block := u16_mod v)\<rparr>)) (\<lambda>_.
      finish (Go ()))) s)))) s2) (\<lambda>t s'. t = Go () \<and> steady dev cont s' \<and> calm cont s s'
        \<and> overlay (block * ppb s) (ppb s) bufs (view cont s) \<subseteq>\<^sub>m view cont s' \<and> pagesused (ftl_log s' e) < ppb s)"
      unfolding if_not_P [OF vne]
    proof (rule ends_after_modify, rule ends_seq, rule write_whole_block [OF okn vin ern])
      fix r :: unit and s3 assume c: "laid cont (next_usn s2) (\<lambda>q d. d = bufs q) v (ppb (next_usn s2)) s3"
      note O3 = laid_ok [OF okn c vin] and C3 = calm_laid [OF ftl_okD(4) [OF okn] c vin] and L = laidD [OF c]
      note Q = quietD [OF stillD(1) [OF L(1)]]
      have cs3: "calm cont s s3" by (rule calm_trans [OF calm_trans [OF calm_roles(1) c2] calm_trans [OF _ C3]]) simp
      have lay: "same_layout s s3" using cs3 by (simp add: calm_def)
      note l' = same_layout [OF lay]
      have l3: "ftl_log s3 = ftl_log ?s1" using Q(4) l2 by simp
      have n3: "ftl_get_log_entry block s3 = None"
        using get_log_entry_drop [OF I(5) e, of block] lb unfolding ftl_get_log_entry_def l3 by simp
      have b3: "block < userblocks s3" using bu l'(8) by simp
      have "ppb (next_usn s2) = ppb s3" using same_layout(6) [OF Q(1)] by simp
      then have data: "\<forall>q < ppb s3. map_option fst (flash cont s3 (v * ppb s3 + q)) = Some (bufs q)" using L(4) by simp
      have out: "overlay (block * ppb s) (ppb s) bufs (view cont s) = overlay (block * ppb s) (ppb s) bufs (view cont ?s1)"
      proof
        fix sec
        have "sec div ppb s = block \<Longrightarrow> block * ppb s \<le> sec \<and> sec < block * ppb s + ppb s"
          using in_block_iff [OF geo(1) [OF I(2)]] by blast
        then show "overlay (block * ppb s) (ppb s) bufs (view cont s) sec = overlay (block * ppb s) (ppb s) bufs (view cont ?s1) sec"
          using view_drop_other [OF I(5) e, of sec] lb in_block_iff [OF geo(1) [OF I(2)], of sec block] by (auto simp: overlay_def)
      qed
      show "ends (andthen (require (\<lambda>_. block < 0x2000)) (\<lambda>_ s.
          andthen (ftl_release_pool_block (ftl_map s block)) (\<lambda>_.
          andthen (modify (\<lambda>s. s\<lparr>ftl_map := (ftl_map s)(block := u16_mod v)\<rparr>)) (\<lambda>_.
          finish (Go ()))) s) s3) (\<lambda>(t :: (unit, nat) turn) s'. t = Go () \<and> steady dev cont s' \<and> calm cont s s'
          \<and> overlay (block * ppb s) (ppb s) bufs (view cont s) \<subseteq>\<^sub>m view cont s' \<and> pagesused (ftl_log s' e) < ppb s)"
      proof (rule ends_weaken [OF replace_map [OF O3(1) b3 n3 data]], elim conjE, intro conjI)
        fix t s' assume "t = (Go () :: (unit, nat) turn)" and ok': "ftl_ok dev cont s' []" and c': "calm cont s3 s'"
          and l4: "ftl_log s' = ftl_log s3" and v': "view cont s' = overlay (block * ppb s3) (ppb s3) bufs (view cont s3)"
        then show "t = Go ()" by simp
        show "calm cont s s'" by (rule calm_trans [OF cs3 c'])
        have ppb: "ppb s' = ppb s" using same_layout(6) [of s3 s'] c' l'(6) by (simp add: calm_def)
        have "active s' = active ?s1" by (simp only: active_def l4 l3)
        then have "entry_ok (ppb s') (ftl_log s' i)" if "i \<in> set (active s')" for i
          using that others unfolding active_drop_entry l4 l3 ppb by auto
        then show "steady dev cont s'" using ok' by (simp add: steady_def)
        show "overlay (block * ppb s) (ppb s) bufs (view cont s) \<subseteq>\<^sub>m view cont s'"
          unfolding v' O3(2) out l'(6) using v2 by simp
        show "pagesused (ftl_log s' e) < ppb s" unfolding l4 l3 using fit by (simp add: entry_fit_def)
      qed
    qed
  qed
qed

end
