(* ===== verification/FtlWrite.thy ===== *)
theory FtlWrite
  imports FtlWhole
begin

text \<open>The loop of \<open>ftl_write\<close>: after it, the view has the sectors that were written, and all the others are as before.\<close>

section \<open>One turn\<close>

definition wrote :: "'n nand_driver \<Rightarrow> 'n contents \<Rightarrow> nat \<Rightarrow> nat \<Rightarrow> (nat \<Rightarrow> page) \<Rightarrow> 'n ftl \<Rightarrow> 'n ftl \<Rightarrow> bool" where
  "wrote dev cont sector k bufs s s' \<longleftrightarrow> steady dev cont s' \<and> calm cont s s' \<and> overlay sector k bufs (view cont s) \<subseteq>\<^sub>m view cont s'"

lemma wrote_later:
  assumes "wrote dev cont sector k bufs s s1" "steady dev cont s2" "calm cont s1 s2" "view cont s1 \<subseteq>\<^sub>m view cont s2"
  shows "wrote dev cont sector k bufs s s2"
  using assms calm_trans [of cont s s1 s2] map_le_trans [of "overlay sector k bufs (view cont s)" "view cont s1" "view cont s2"]
  by (simp add: wrote_def)

lemma wrote_after:
  assumes "calm cont s s1" "view cont s \<subseteq>\<^sub>m view cont s1" "wrote dev cont sector k bufs s1 s2"
  shows "wrote dev cont sector k bufs s s2"
  using assms calm_trans [of cont s s1 s2] map_le_trans [OF overlay_mono [OF assms(2)], of sector k bufs "view cont s2"]
  by (simp add: wrote_def)

text \<open>An entry that was written to may be full; then it is removed.\<close>

lemma remove_full:
  assumes ok: "ftl_ok dev cont s []" and e: "e \<in> set (active s)"
    and others: "\<And>i. i \<in> set (active s) \<Longrightarrow> i \<noteq> e \<Longrightarrow> entry_ok (ppb s) (ftl_log s i)"
    and fit: "pagesused (ftl_log s e) \<le> ppb s" "0 < pagescurrent (ftl_log s e)" "l_usn (ftl_log s e) < 2 ^ 32"
      "issequential (ftl_log s e) = 1 \<longrightarrow> pagescurrent (ftl_log s e) = pagesused (ftl_log s e)"
  shows "ends ((if pagesused (ftl_log s e) = ppb s then ftl_remove_scattered_block dev (Some e) else finish 0) s)
    (\<lambda>_ s'. steady dev cont s' \<and> calm cont s s' \<and> view cont s \<subseteq>\<^sub>m view cont s')"
proof (cases "pagesused (ftl_log s e) = ppb s")
  case True
  have fr: "2 \<le> freecount (ftl_cxt s)" using blocks_ok_free(1) [OF ftl_okD(4) [OF ok]] by simp
  show ?thesis unfolding if_P [OF True]
  proof (rule ends_weaken [OF remove_entry [OF ok e fr fit(4,2)]], elim conjE disjE)
    fix rc :: nat and s' assume g: "gone dev cont e s [] s'"
    then have "ppb s' = ppb s" by (intro same_layout(6)) (simp add: gone_def calm_def)
    with g others show "steady dev cont s' \<and> calm cont s s' \<and> view cont s \<subseteq>\<^sub>m view cont s'"
      by (auto simp: gone_def steady_def)
  next
    fix rc :: nat and s' assume half: "pagescurrent (ftl_log s e) < ppb s div 2" and g: "shrunk dev cont e s [] s'"
    have ppb: "ppb s' = ppb s" by (rule same_layout(6)) (use g in \<open>simp add: shrunk_def calm_def\<close>)
    have "entry_ok (ppb s) (ftl_log s' i)" if "i \<in> set (active s)" for i
    proof (cases "i = e")
      case True
      then show ?thesis using g half fit(2,3) by (simp add: shrunk_def entry_ok_def)
    next
      case False
      then show ?thesis using g others [OF that] by (simp add: shrunk_def)
    qed
    with g show "steady dev cont s' \<and> calm cont s s' \<and> view cont s \<subseteq>\<^sub>m view cont s'"
      by (simp add: shrunk_def steady_def ppb)
  qed
next
  case False
  have "entry_ok (ppb s) (ftl_log s i)" if "i \<in> set (active s)" for i
    using others [OF that] fit False by (cases "i = e") (simp_all add: entry_ok_def)
  then show ?thesis using False ok by (simp add: steady_def)
qed

lemma write_turn:
  assumes st: "steady dev cont s" and rg: "sector + cnt \<le> userblocks s * ppb s" and i: "i < cnt"
  shows "ends (write_turn dev sector cnt buffer i s)
    (\<lambda>t s'. \<exists>n > 0. i + n \<le> cnt \<and> t = Go (i + n) \<and> wrote dev cont (sector + i) n (\<lambda>k. buffer (i + k)) s s')"
proof -
  note S = steadyD [OF st]
  note I = ftl_okD [OF S(1)]
  have sec: "sector + i < userblocks s * ppb s" using rg i by simp
  note sp = sector_split [OF sec]
  let ?b = "(sector + i) div ppb s" and ?p = "(sector + i) mod ppb s"
  have bp: "?b * ppb s + ?p = sector + i" by simp
  have u: "u32_mod (sector + i) = sector + i"
    using logical_small(1) [OF I(2) sp(1), of ?p 1] sp(2) unfolding bp by simp
  let ?full = "?p = 0 \<and> ppb s \<le> cnt - i"
  let ?fill = "\<lambda>e s. if ?p = 0 \<and> ppb s \<le> cnt - i then
          andthen (write_full dev e ?b (sector + i) (\<lambda>k. buffer (i + k)))
            (\<lambda>t s. finish (case t of Leave rc \<Rightarrow> Leave rc | Go _ \<Rightarrow> Go (e, i + ppb s)) s) s
        else
          andthen (if pagesused (ftl_log s e) = ppb s
            then andthen (ftl_remove_scattered_block dev (Some e)) (\<lambda>_. ftl_allocate_log_entry dev ?b)
            else finish (Some e)) (\<lambda>entry. case entry of None \<Rightarrow> finish (Leave (neg 7)) | Some e \<Rightarrow>
          andthen (write_scattered dev e ?p (sector + i) (cnt - i) (\<lambda>k. buffer (i + k))) (\<lambda>k.
          finish (Go (e, i + k)) :: ('a, (nat \<times> nat, nat) turn) ftl_op)) s"
  let ?fin = "\<lambda>e s. (if pagesused (ftl_log s e) = ppb s then ftl_remove_scattered_block dev (Some e) else finish 0) s"
  let ?wrote = "wrote dev cont (sector + i)" and ?rest = "\<lambda>k. buffer (i + k)"
  have wr: "ends (?fill e s1) (\<lambda>t s'. \<exists>n > 0. i + n \<le> cnt \<and> t = Go (e, i + n) \<and> ends (?fin e s') (\<lambda>_ s''. ?wrote n ?rest s s''))"
    if op: "opened dev cont ?b e s1" and v1: "view cont s \<subseteq>\<^sub>m view cont s1" and c1: "calm cont s s1" for e s1
  proof -
    have ok1: "ftl_ok dev cont s1 []" and e1: "e \<in> set (active s1)" and lb: "logicalvblock (ftl_log s1 e) = ?b"
      and fit: "entry_fit (ppb s1) (ftl_log s1 e)" and others: "\<forall>j \<in> set (active s1). j \<noteq> e \<longrightarrow> entry_ok (ppb s1) (ftl_log s1 j)"
      using op by (simp_all add: opened_def)
    have ppb: "ppb s1 = ppb s" by (rule same_layout(6)) (use c1 in \<open>simp add: calm_def\<close>)
    show ?thesis
    proof (cases ?full)
      case True
      then have bs: "?b * ppb s1 = sector + i" using bp ppb by simp
      have p0: "0 < ppb s" by (rule geo(1) [OF I(2)])
      have W: "ends (write_full dev e ?b (sector + i) ?rest s1)
        (\<lambda>t s'. t = Go () \<and> ppb s' = ppb s \<and> ends (?fin e s') (\<lambda>_ s''. ?wrote (ppb s) ?rest s s''))"
      proof (rule ends_weaken [OF write_full [OF op]], elim conjE, intro conjI)
        fix t s' assume t: "t = (Go () :: (unit, nat) turn)" and st': "steady dev cont s'" and c': "calm cont s1 s'"
          and v': "overlay (?b * ppb s1) (ppb s1) ?rest (view cont s1) \<subseteq>\<^sub>m view cont s'" and pu: "pagesused (ftl_log s' e) < ppb s1"
        show "t = Go ()" by (rule t)
        have ppb': "ppb s' = ppb s1" by (rule same_layout(6)) (use c' in \<open>simp add: calm_def\<close>)
        then show "ppb s' = ppb s" using ppb by simp
        have "?wrote (ppb s) ?rest s1 s'" using st' c' v' [unfolded bs, unfolded ppb] by (simp add: wrote_def)
        then have "?wrote (ppb s) ?rest s s'" by (rule wrote_after [OF c1 v1])
        then show "ends (?fin e s') (\<lambda>_ s''. ?wrote (ppb s) ?rest s s'')" using pu ppb' by simp
      qed
      have "i + ppb s \<le> cnt" using True i by linarith
      moreover have "?p = 0 \<and> ppb s1 \<le> cnt - i" using True ppb by simp
      ultimately show ?thesis using p0 unfolding if_P [OF True] ppb
        by (simp only: if_True ends_andthen) (rule ends_weaken [OF W], auto)
    next
      case False
      have pu: "pagesused (ftl_log s1 e) \<noteq> ppb s1" using fit by (simp add: entry_fit_def)
      have p1: "?p < ppb s1" and left: "0 < cnt - i" using sp(2) ppb i by simp_all
      have lpn: "sector + i = logicalvblock (ftl_log s1 e) * ppb s1 + ?p" using bp lb ppb by simp
      let ?k = "batch (ppb s1) ?p (pagesused (ftl_log s1 e)) (cnt - i)"
      have kb: "0 < ?k" "?k \<le> cnt - i" using batch_bounds [OF p1 _ left, of "pagesused (ftl_log s1 e)"] fit by (simp_all add: entry_fit_def)
      have tail: "ends ((if pagesused (ftl_log s2 e) = ppb s2 then ftl_remove_scattered_block dev (Some e) else finish 0) s2)
          (\<lambda>_ s'. wrote dev cont (sector + i) ?k (\<lambda>k. buffer (i + k)) s s')"
        if sc: "scattered dev cont e (sector + i) ?k (\<lambda>k. buffer (i + k)) s1 s2" for s2
      proof -
        note W = sc [unfolded scattered_def]
        have ppb2: "ppb s2 = ppb s1" by (rule same_layout(6)) (use W in \<open>simp add: calm_def\<close>)
        have "l_usn (ftl_log s2 e) < 2 ^ 32" using W fit by (simp add: entry_fit_def)
        moreover have "entry_ok (ppb s2) (ftl_log s2 j)" if "j \<in> set (active s2)" "j \<noteq> e" for j
          using that others W ppb2 by simp
        moreover have "e \<in> set (active s2)" "pagesused (ftl_log s2 e) \<le> ppb s2" using W e1 ppb2 by simp_all
        ultimately have "ends ((if pagesused (ftl_log s2 e) = ppb s2 then ftl_remove_scattered_block dev (Some e) else finish 0) s2)
          (\<lambda>_ s'. steady dev cont s' \<and> calm cont s2 s' \<and> view cont s2 \<subseteq>\<^sub>m view cont s')"
          using W by (intro remove_full) simp_all
        then show ?thesis
        proof (rule ends_weaken, elim conjE)
          fix rc :: nat and s' assume st': "steady dev cont s'" and c': "calm cont s2 s'" and v': "view cont s2 \<subseteq>\<^sub>m view cont s'"
          have "calm cont s1 s'" by (rule calm_trans [OF _ c']) (use W in blast)
          moreover have "overlay (sector + i) ?k (\<lambda>k. buffer (i + k)) (view cont s1) \<subseteq>\<^sub>m view cont s'" using W v' by simp
          ultimately have "wrote dev cont (sector + i) ?k (\<lambda>k. buffer (i + k)) s1 s'" using st' by (simp add: wrote_def)
          then show "wrote dev cont (sector + i) ?k (\<lambda>k. buffer (i + k)) s s'" by (rule wrote_after [OF c1 v1])
        qed
      qed
      have W: "ends (write_scattered dev e ?p (sector + i) (cnt - i) ?rest s1)
        (\<lambda>n s'. n = ?k \<and> scattered dev cont e (sector + i) ?k ?rest s1 s')"
        by (rule write_scattered [OF ok1 e1 fit p1 left lpn])
      have "\<not> (?p = 0 \<and> ppb s1 \<le> cnt - i)" using False ppb by simp
      moreover have "i + ?k \<le> cnt" using kb(2) i by linarith
      ultimately show ?thesis using kb(1) pu
        by (simp only: if_False ends_andthen ends_finish option.case) (rule ends_weaken [OF W], use tail in blast)
    qed
  qed
  show ?thesis unfolding write_turn_def Let_def u
  proof (rule ends_seq, rule allocate_log_entry [OF st sp(1)], elim exE conjE)
    fix r s1 e assume r: "r = Some e" and op: "opened dev cont ?b e s1" "view cont s \<subseteq>\<^sub>m view cont s1" "calm cont s s1"
    show "ends ((case r of None \<Rightarrow> finish (Leave (neg 5)) | Some e \<Rightarrow> andthen (?fill e) (\<lambda>t. case t of Leave rc \<Rightarrow> finish (Leave rc) | Go (e, i) \<Rightarrow> (\<lambda>s.
      andthen (if pagesused (ftl_log s e) = ppb s then ftl_remove_scattered_block dev (Some e) else finish 0) (\<lambda>_. finish (Go i)) s))) s1)
      (\<lambda>(t :: (nat, nat) turn) s'. \<exists>n > 0. i + n \<le> cnt \<and> t = Go (i + n) \<and> ?wrote n ?rest s s')"
      unfolding r option.case
    proof (rule ends_seq, rule wr [OF op], elim exE conjE)
      fix t :: "(nat \<times> nat, nat) turn" and s2 n assume "0 < n" "i + n \<le> cnt" "t = Go (e, i + n)" "ends (?fin e s2) (\<lambda>_ s''. ?wrote n ?rest s s'')"
      then show "ends ((case t of Leave rc \<Rightarrow> finish (Leave rc) | Go (e, i) \<Rightarrow> (\<lambda>s.
        andthen (if pagesused (ftl_log s e) = ppb s then ftl_remove_scattered_block dev (Some e) else finish 0) (\<lambda>_. finish (Go i)) s)) s2)
        (\<lambda>(t :: (nat, nat) turn) s'. \<exists>n > 0. i + n \<le> cnt \<and> t = Go (i + n) \<and> ?wrote n ?rest s s')"
        by (simp only: turn.case prod.case ends_andthen ends_finish) (elim ends_weaken, blast)
    qed
  qed
qed

section \<open>The loop\<close>

lemma write_loop:
  assumes st: "steady dev cont s" and rg: "sector + cnt \<le> userblocks s * ppb s"
  shows "ends (forever (\<lambda>i s. if cnt \<le> i then finish (Leave 0) s else write_turn dev sector cnt buffer i s) 0 s)
    (\<lambda>rc s'. rc = 0 \<and> wrote dev cont sector cnt buffer s s')"
proof (rule ends_forever [where P = "\<lambda>i s'. i \<le> cnt \<and> wrote dev cont sector i buffer s s'" and m = "\<lambda>i _. cnt - i"])
  show "0 \<le> cnt \<and> wrote dev cont sector 0 buffer s s" using st by (simp add: wrote_def)
  fix i s1 assume a: "i \<le> cnt \<and> wrote dev cont sector i buffer s s1"
  show "ends (if cnt \<le> i then finish (Leave 0) s1 else write_turn dev sector cnt buffer i s1)
    (\<lambda>t s'. case t of Leave r \<Rightarrow> r = 0 \<and> wrote dev cont sector cnt buffer s s'
      | Go i' \<Rightarrow> (i' \<le> cnt \<and> wrote dev cont sector i' buffer s s') \<and> cnt - i' < cnt - i)"
  proof (cases "cnt \<le> i")
    case True
    then have "i = cnt" using a by simp
    then show ?thesis using a by simp
  next
    case False
    have st1: "steady dev cont s1" and lay: "same_layout s s1" using a by (simp_all add: wrote_def calm_def)
    have rg1: "sector + cnt \<le> userblocks s1 * ppb s1" using rg same_layout(6,8) [OF lay] by simp
    have "ends (write_turn dev sector cnt buffer i s1)
      (\<lambda>t s'. \<exists>n > 0. i + n \<le> cnt \<and> t = Go (i + n) \<and> wrote dev cont (sector + i) n (\<lambda>k. buffer (i + k)) s1 s')"
      by (rule write_turn [OF st1 rg1]) (use False in simp)
    then show ?thesis unfolding if_not_P [OF False]
    proof (rule ends_weaken, elim exE conjE)
      fix t s' n assume n: "0 < n" "i + n \<le> cnt" "t = (Go (i + n) :: (nat, nat) turn)"
        and w: "wrote dev cont (sector + i) n (\<lambda>k. buffer (i + k)) s1 s'"
      have "wrote dev cont sector (i + n) buffer s s'"
        using a w overlay_more [of sector i buffer "view cont s" "view cont s1" n "view cont s'"] calm_trans [of cont s s1 s']
        by (simp add: wrote_def)
      then show "case t of Leave r \<Rightarrow> r = 0 \<and> wrote dev cont sector cnt buffer s s'
        | Go i' \<Rightarrow> (i' \<le> cnt \<and> wrote dev cont sector i' buffer s s') \<and> cnt - i' < cnt - i" using n by simp
    qed
  qed
qed

end
