(* ===== verification/FtlContext.thy ===== *)
theory FtlContext
  imports FtlWrite
begin

text \<open>
  The contexts of the VFL: eight copies are written to the next pages of a bank's context block, or of
  another one when it is full. None of these pages is a virtual page.
\<close>

section \<open>The contexts\<close>

text \<open>The context block that is written to is erased from the next page on, and there is another one.\<close>

definition cxt_ok :: "'n contents \<Rightarrow> nat \<Rightarrow> 'n ftl \<Rightarrow> bool" where
  "cxt_ok cont bank s \<longleftrightarrow> (let c = ftl_vfl_cxt s bank in
     activecxtblock c < 4 \<and> vflcxtblocks c (activecxtblock c) \<noteq> 0xFFFF
     \<and> (\<exists>i < 4. i \<noteq> activecxtblock c \<and> vflcxtblocks c i \<noteq> 0xFFFF) \<and> nextcxtpage c \<le> pagesperblock s
     \<and> (\<forall>i < 4. vflcxtblocks c i \<noteq> 0xFFFF \<longrightarrow> vflcxtblocks c i < 0x10000
          \<and> (\<forall>w < vpages s. fst (loc s w) = bank \<longrightarrow> snd (loc s w) div pagesperblock s \<noteq> vflcxtblocks c i))
     \<and> (\<forall>p < pagesperblock s. nextcxtpage c \<le> p \<longrightarrow>
          cont (nand s) bank (vflcxtblocks c (activecxtblock c) * pagesperblock s + p) = None))"

definition vfl_ok :: "'n contents \<Rightarrow> 'n ftl \<Rightarrow> bool" where
  "vfl_ok cont s \<longleftrightarrow> (\<forall>bank < ftl_banks s. cxt_ok cont bank s)"

lemma cxt_okD:
  assumes "cxt_ok cont bank s"
  shows "activecxtblock (ftl_vfl_cxt s bank) < 4" "vflcxtblocks (ftl_vfl_cxt s bank) (activecxtblock (ftl_vfl_cxt s bank)) \<noteq> 0xFFFF"
    "\<exists>i < 4. i \<noteq> activecxtblock (ftl_vfl_cxt s bank) \<and> vflcxtblocks (ftl_vfl_cxt s bank) i \<noteq> 0xFFFF"
    "nextcxtpage (ftl_vfl_cxt s bank) \<le> pagesperblock s"
    "i < 4 \<Longrightarrow> vflcxtblocks (ftl_vfl_cxt s bank) i \<noteq> 0xFFFF \<Longrightarrow> vflcxtblocks (ftl_vfl_cxt s bank) i < 0x10000"
    "i < 4 \<Longrightarrow> vflcxtblocks (ftl_vfl_cxt s bank) i \<noteq> 0xFFFF \<Longrightarrow> w < vpages s \<Longrightarrow> fst (loc s w) = bank \<Longrightarrow>
       snd (loc s w) div pagesperblock s \<noteq> vflcxtblocks (ftl_vfl_cxt s bank) i"
    "p < pagesperblock s \<Longrightarrow> nextcxtpage (ftl_vfl_cxt s bank) \<le> p \<Longrightarrow>
       cont (nand s) bank (vflcxtblocks (ftl_vfl_cxt s bank) (activecxtblock (ftl_vfl_cxt s bank)) * pagesperblock s + p) = None"
  using assms by (simp_all add: cxt_ok_def Let_def)

text \<open>The pages of the contexts are outside of the virtual pages.\<close>

lemma context_page_outside:
  assumes "cxt_ok cont bank s" "i < 4" "vflcxtblocks (ftl_vfl_cxt s bank) i \<noteq> 0xFFFF" "p < pagesperblock s" "w < vpages s"
  shows "loc s w \<noteq> (bank, vflcxtblocks (ftl_vfl_cxt s bank) i * pagesperblock s + p)"
proof
  assume "loc s w = (bank, vflcxtblocks (ftl_vfl_cxt s bank) i * pagesperblock s + p)"
  then have "fst (loc s w) = bank" "snd (loc s w) div pagesperblock s = vflcxtblocks (ftl_vfl_cxt s bank) i" using assms(4) by simp_all
  with cxt_okD(6) [OF assms(1-3,5)] show False by simp
qed

lemma vfl_ok_outside:
  assumes v: "vfl_ok cont s" and lay: "same_layout s s'" and o: "outside cont s s'" and c: "ftl_vfl_cxt s' = ftl_vfl_cxt s"
  shows "vfl_ok cont s'"
proof -
  note l = same_layout [OF lay]
  have "cxt_ok cont bank s'" if b: "bank < ftl_banks s" for bank
  proof -
    have k: "cxt_ok cont bank s" using v b by (simp add: vfl_ok_def)
    note K = cxt_okD [OF k]
    have "cont (nand s') bank (vflcxtblocks (ftl_vfl_cxt s bank) (activecxtblock (ftl_vfl_cxt s bank)) * pagesperblock s + p) = None"
      if p: "p < pagesperblock s" "nextcxtpage (ftl_vfl_cxt s bank) \<le> p" for p
      using o K(7) [OF p] context_page_outside [OF k K(1,2) p(1)] by (simp add: outside_def)
    then show ?thesis using k unfolding cxt_ok_def Let_def c l(3,4,9) by blast
  qed
  then show ?thesis by (simp add: vfl_ok_def l(7))
qed

lemma vfl_ok_calm: "vfl_ok cont s \<Longrightarrow> calm cont s s' \<Longrightarrow> vfl_ok cont s'"
  by (rule vfl_ok_outside) (simp_all add: calm_def)

section \<open>Changes that are not of the virtual pages\<close>

definition beside :: "'n contents \<Rightarrow> 'n ftl \<Rightarrow> 'n ftl \<Rightarrow> bool" where
  "beside cont s s' \<longleftrightarrow> same_layout s s' \<and> ftl_cxt s' = ftl_cxt s \<and> ftl_map s' = ftl_map s \<and> ftl_log s' = ftl_log s
     \<and> ftl_erasectr s' = ftl_erasectr s \<and> ftl_erasectr_dirt s' = ftl_erasectr_dirt s \<and> ftl_mtx s' = ftl_mtx s
     \<and> ftl_initialized s' = ftl_initialized s \<and> fkern s' = fkern s \<and> flash cont s' = flash cont s"

lemma beside_refl [simp]: "beside cont s s"
  by (simp add: beside_def)

lemma beside_trans: "beside cont s s' \<Longrightarrow> beside cont s' s'' \<Longrightarrow> beside cont s s''"
  unfolding beside_def using same_layout_trans [of s s' s''] by simp

lemma beside_ok:
  assumes "ftl_ok dev cont s ex" "beside cont s s'"
  shows "ftl_ok dev cont s' ex" "view cont s' = view cont s"
proof -
  note I = ftl_okD [OF assms(1)] and B = assms(2) [unfolded beside_def]
  have lay: "same_layout s s'" using B by blast
  have f: "flash cont s' w = flash cont s w" for w using B by simp
  have lo: "logs_ok cont s'" by (rule logs_ok_cong [OF I(5) lay]) (use B in simp_all)
  show "view cont s' = view cont s" by (rule view_cong [OF I(5) lay]) (use B in simp_all)
  have "pool s' = pool s" "active s' = active s" "vblocks s' = vblocks s" using B same_layout(5) [OF lay]
    by (simp_all add: pool_def active_def)
  then have "blocks_ok s' ex" using I(4) B same_layout(8) [OF lay] by (simp add: blocks_ok_def roles_def)
  then show "ftl_ok dev cont s' ex" using I B lo runs_on_layout [OF lay] by (simp add: ftl_ok_def tidy_def)
qed

section \<open>Eight copies\<close>

definition copies :: "'n contents \<Rightarrow> nat \<Rightarrow> nat \<Rightarrow> page \<times> ftl_spare_data_type \<Rightarrow> nat \<Rightarrow> 'n \<Rightarrow> 'n \<Rightarrow> bool" where
  "copies cont bank base x k n n' \<longleftrightarrow> cont n' = (\<lambda>b p. if b = bank \<and> base + 8 - k \<le> p \<and> p < base + 8 then Some x else cont n b p)"

lemma write_copies:
  assumes w: "working dev cont (ftl_banks s) pages" and b: "bank < ftl_banks s"
    and er: "\<And>p. p < 8 \<Longrightarrow> cont (nand s) bank (base + p) = None"
    and pg: "\<And>i. i \<in> {1..8} \<Longrightarrow> cxt_page bank i s = base + 8 - i"
  shows "ends (for_each [1..<9] (\<lambda>i _ s. andthen
       (chip (nand_write_page dev bank (cxt_page bank i s) (vfl_words (ftl_vfl_cxt s bank)) (ftl_sparebuffer s 0)))
       (\<lambda>_. finish (Go () :: (unit, nat) turn)) s) () s)
    (\<lambda>t s'. t = Go () \<and> (\<exists>n. s' = s\<lparr>nand := n\<rparr> \<and> copies cont bank base (vfl_words (ftl_vfl_cxt s bank), ftl_sparebuffer s 0) 8 (nand s) n))"
proof -
  let ?x = "(vfl_words (ftl_vfl_cxt s bank), ftl_sparebuffer s 0)"
  let ?body = "\<lambda>i (_ :: unit) s. andthen
       (chip (nand_write_page dev bank (cxt_page bank i s) (vfl_words (ftl_vfl_cxt s bank)) (ftl_sparebuffer s 0)))
       (\<lambda>_. finish (Go () :: (unit, nat) turn)) s"
  let ?P = "\<lambda>k (_ :: unit) s'. \<exists>n. s' = s\<lparr>nand := n\<rparr> \<and> copies cont bank base ?x k (nand s) n"
  have "ends (for_each [1..<9] ?body () s) (\<lambda>t s'. \<exists>x'. t = Go x' \<and> ?P (length [1..<9]) x' s')"
  proof (rule ends_for_each)
    show "?P 0 () s" by (rule exI [of _ "nand s"]) (auto simp: copies_def fun_eq_iff)
    fix k x s1 assume k: "k < length [1..<9]" and "?P k x s1"
    then obtain n where s1: "s1 = s\<lparr>nand := n\<rparr>" and c: "copies cont bank base ?x k (nand s) n" by blast
    have k8: "k < 8" using k by simp
    then have i: "[1..<9] ! k = Suc k" "Suc k \<in> {1..8}" by auto
    have page: "cxt_page bank (Suc k) s1 = base + (7 - k)" using pg [OF i(2)] k8 by (simp add: s1 cxt_page_def)
    have "cont n bank (base + (7 - k)) = None" using c er [of "7 - k"] k8 by (simp add: copies_def)
    from write_page [OF w b this, of "fst ?x" "snd ?x"] obtain rc n' where n': "nand_write_page dev bank (base + (7 - k)) (fst ?x) (snd ?x) n = (rc, n')"
      "cont n' = (cont n)(bank := (cont n bank)(base + (7 - k) := Some (fst ?x, snd ?x)))" .
    have "base + 8 - Suc k \<le> p \<and> p < base + 8 \<longleftrightarrow> base + 8 - k \<le> p \<and> p < base + 8 \<or> p = base + (7 - k)" for p using k8 by auto
    then have "copies cont bank base ?x (Suc k) (nand s) n'" using c n'(2) by (auto simp: copies_def fun_eq_iff)
    then show "ends (?body ([1..<9] ! k) x s1) (\<lambda>t s'. \<exists>x'. t = Go x' \<and> ?P (Suc k) x' s')"
      unfolding i(1) page using n'(1) by (simp add: s1) (rule exI [of _ n'], simp)
  qed
  then show ?thesis by (rule ends_weaken) auto
qed

lemma read_copies:
  assumes w: "working dev cont (ftl_banks s) pages" and b: "bank < ftl_banks s"
    and at: "\<And>i. i \<in> {1..8} \<Longrightarrow> cont (nand s) bank (cxt_page bank i s) = Some (vfl_words (ftl_vfl_cxt s bank), sp)"
    and sp: "sp_word0 sp = updatecount (ftl_vfl_cxt s bank)" "sp_field_8 sp = 0" "sp_type sp = 0x80"
  shows "ends (for_each [1..<9] (\<lambda>i good s. andthen (nand_read dev bank (cxt_page bank i s) False)
       (\<lambda>rc s. finish (Go (if cxt_page_good bank rc s then good + 1 else good) :: (nat, nat) turn) s) s) (0 :: nat) s)
    (\<lambda>t s'. t = Go 8 \<and> (\<exists>n sps buf. s' = s\<lparr>nand := n, ftl_sparebuffer := sps, ftl_buffer := buf\<rparr> \<and> cont n = cont (nand s)))"
proof -
  let ?body = "\<lambda>i good s. andthen (nand_read dev bank (cxt_page bank i s) False)
       (\<lambda>rc s. finish (Go (if cxt_page_good bank rc s then good + 1 else good) :: (nat, nat) turn) s) s"
  let ?P = "\<lambda>k good s'. good = k \<and> (\<exists>n sps buf. s' = s\<lparr>nand := n, ftl_sparebuffer := sps, ftl_buffer := buf\<rparr> \<and> cont n = cont (nand s))"
  have "ends (for_each [1..<9] ?body 0 s) (\<lambda>t s'. \<exists>x'. t = Go x' \<and> ?P (length [1..<9]) x' s')"
  proof (rule ends_for_each)
    show "?P 0 0 s" by (simp add: exI [of _ "nand s"] exI [of _ "ftl_sparebuffer s"] exI [of _ "ftl_buffer s"])
    fix k good s1 assume k: "k < length [1..<9]" and "?P k good s1"
    then obtain n sps buf where s1: "s1 = s\<lparr>nand := n, ftl_sparebuffer := sps, ftl_buffer := buf\<rparr>" and c: "cont n = cont (nand s)"
      and g: "good = k" by blast
    have i: "[1..<9] ! k = Suc k" "Suc k \<in> {1..8}" using k by auto
    have pg: "cxt_page bank (Suc k) s1 = cxt_page bank (Suc k) s" by (simp add: s1 cxt_page_def)
    from read_page [OF w b, where p = "cxt_page bank (Suc k) s" and buf = buf and sp = "sps 0" and ce = False and n = n]
    obtain rc d x n' where r: "nand_read_page dev bank (cxt_page bank (Suc k) s) buf (sps 0) False n = ((rc, d, x), n')" "cont n' = cont n"
      "case cont n bank (cxt_page bank (Suc k) s) of Some (d', y) \<Rightarrow> rc AND 0x11F = 0 \<and> d = d' \<and> x = y | None \<Rightarrow> False \<longrightarrow> rc AND 2 \<noteq> 0" .
    then have ok: "rc AND 0x11F = 0" "d = vfl_words (ftl_vfl_cxt s bank)" "x = sp" using at [OF i(2)] c by simp_all
    let ?s2 = "s\<lparr>nand := n', ftl_sparebuffer := sps(0 := x), ftl_buffer := d\<rparr>"
    have read: "nand_read dev bank (cxt_page bank (Suc k) s) False s1 = Some (Done rc, ?s2)"
      using r(1) by (simp add: nand_read_def put_page_def s1 set_spare_def)
    have "cxt_page_good bank rc ?s2" using ok sp by (simp add: cxt_page_good_def)
    then have "?body (Suc k) good s1 = Some (Done (Go (Suc k)), ?s2)"
      unfolding pg andthen_def read by (simp add: g finish_def)
    moreover have "?P (Suc k) (Suc k) ?s2" by (rule conjI [OF refl], intro exI conjI, rule refl) (simp add: r(2) c)
    ultimately show "ends (?body ([1..<9] ! k) good s1) (\<lambda>t s'. \<exists>x'. t = Go x' \<and> ?P (Suc k) x' s')"
      unfolding i(1) by simp
  qed
  then show ?thesis by (rule ends_weaken) auto
qed

section \<open>Storing a context\<close>

text \<open>What changes of the context of a bank.\<close>

definition cxt_step :: "nat \<Rightarrow> nat \<Rightarrow> nat \<Rightarrow> 'n ftl \<Rightarrow> 'n ftl \<Rightarrow> bool" where
  "cxt_step bank block next s s' \<longleftrightarrow> (\<forall>b. b \<noteq> bank \<longrightarrow> ftl_vfl_cxt s' b = ftl_vfl_cxt s b)
     \<and> vflcxtblocks (ftl_vfl_cxt s' bank) = vflcxtblocks (ftl_vfl_cxt s bank)
     \<and> activecxtblock (ftl_vfl_cxt s' bank) = block \<and> nextcxtpage (ftl_vfl_cxt s' bank) = next"

text \<open>What changes of the pages: some of a page on, of a block of a bank.\<close>

definition only_there :: "'n contents \<Rightarrow> nat \<Rightarrow> nat \<Rightarrow> nat \<Rightarrow> 'n \<Rightarrow> 'n \<Rightarrow> bool" where
  "only_there cont bank from k n n' \<longleftrightarrow> (\<forall>b p. \<not> (b = bank \<and> from \<le> p \<and> p < from + k) \<longrightarrow> cont n' b p = cont n b p)"

lemma update_checksum_fields [simp]:
  "vflcxtblocks (ftl_vfl_update_checksum c) = vflcxtblocks c" "activecxtblock (ftl_vfl_update_checksum c) = activecxtblock c"
  "nextcxtpage (ftl_vfl_update_checksum c) = nextcxtpage c" "updatecount (ftl_vfl_update_checksum c) = updatecount c"
  "bbt (ftl_vfl_update_checksum c) = bbt c" "spareused (ftl_vfl_update_checksum c) = spareused c"
  "firstspare (ftl_vfl_update_checksum c) = firstspare c" "remaptable (ftl_vfl_update_checksum c) = remaptable c"
  "scheduledstart (ftl_vfl_update_checksum c) = scheduledstart c"
  by (simp_all add: ftl_vfl_update_checksum_def Let_def case_prod_unfold)

lemma store_cxt:
  assumes r: "runs_on dev cont s" and b: "bank < ftl_banks s" and ac: "activecxtblock (ftl_vfl_cxt s bank) < 4"
    and blk: "vflcxtblocks (ftl_vfl_cxt s bank) (activecxtblock (ftl_vfl_cxt s bank)) < 0x10000"
    and nx: "nextcxtpage (ftl_vfl_cxt s bank) + 8 \<le> pagesperblock s"
    and er: "\<forall>p < pagesperblock s. nextcxtpage (ftl_vfl_cxt s bank) \<le> p \<longrightarrow>
       cont (nand s) bank (vflcxtblocks (ftl_vfl_cxt s bank) (activecxtblock (ftl_vfl_cxt s bank)) * pagesperblock s + p) = None"
    and out: "\<forall>w < vpages s. fst (loc s w) = bank \<longrightarrow>
       snd (loc s w) div pagesperblock s \<noteq> vflcxtblocks (ftl_vfl_cxt s bank) (activecxtblock (ftl_vfl_cxt s bank))"
  shows "ends (ftl_vfl_store_cxt dev bank s) (\<lambda>rc s'. rc = 0 \<and> beside cont s s'
    \<and> cxt_step bank (activecxtblock (ftl_vfl_cxt s bank)) (nextcxtpage (ftl_vfl_cxt s bank) + 8) s s'
    \<and> only_there cont bank (vflcxtblocks (ftl_vfl_cxt s bank) (activecxtblock (ftl_vfl_cxt s bank)) * pagesperblock s
        + nextcxtpage (ftl_vfl_cxt s bank)) 8 (nand s) (nand s'))"
proof -
  note R = runs_onD [OF r] and p = geo [OF runs_onD(1) [OF r]]
  let ?c = "ftl_vfl_cxt s bank"
  define base where "base = vflcxtblocks ?c (activecxtblock ?c) * pagesperblock s + nextcxtpage ?c"
  define s1 where "s1 = (let usn = u32_mod (ftl_vfl_usn s + 1);
           s = upd_vfl bank (\<lambda>c. ftl_vfl_update_checksum (c\<lparr>
                 updatecount := u32_mod (updatecount c + 0xFFFFFFFF),
                 v_usn := usn,
                 nextcxtpage := u16_mod (nextcxtpage c + 8)\<rparr>)) (s\<lparr>ftl_vfl_usn := usn\<rparr>) in
       set_spare 0 (spare_ff\<lparr>sp_word0 := updatecount (ftl_vfl_cxt s bank), sp_field_8 := 0, sp_type := 0x80\<rparr>) s)"
  have pp: "pagesperblock s \<le> 512" using p(4,5,2) by (metis dual_order.trans mult_le_mono2 mult.right_neutral One_nat_def Suc_leI)
  have u16: "u16_mod (nextcxtpage ?c + 8) = nextcxtpage ?c + 8" using nx pp by simp
  have c1: "b \<noteq> bank \<Longrightarrow> ftl_vfl_cxt s1 b = ftl_vfl_cxt s b" for b
    by (simp add: s1_def Let_def upd_vfl_def set_spare_def)
  have c1':
      "vflcxtblocks (ftl_vfl_cxt s1 bank) = vflcxtblocks ?c" "activecxtblock (ftl_vfl_cxt s1 bank) = activecxtblock ?c"
      "nextcxtpage (ftl_vfl_cxt s1 bank) = nextcxtpage ?c + 8"
    and sp1: "sp_word0 (ftl_sparebuffer s1 0) = updatecount (ftl_vfl_cxt s1 bank)" "sp_field_8 (ftl_sparebuffer s1 0) = 0"
      "sp_type (ftl_sparebuffer s1 0) = 0x80"
    by (simp_all add: s1_def Let_def upd_vfl_def set_spare_def u16)
  have lay: "same_layout s s1" by (simp add: s1_def Let_def upd_vfl_def set_spare_def same_layout_def)
  have n1: "nand s1 = nand s" by (simp add: s1_def Let_def upd_vfl_def set_spare_def)
  have bn1: "ftl_banks s1 = ftl_banks s" "pagesperblock s1 = pagesperblock s" using same_layout(7,9) [OF lay] .
  have "vflcxtblocks ?c (activecxtblock ?c) * pagesperblock s \<le> 0xFFFF * 512" using blk pp by (intro mult_le_mono) simp_all
  then have bl: "base + 8 < 2 ^ 32" using nx pp by (simp add: base_def)
  have pg: "cxt_page bank i s1 = base + 8 - i" if "i \<in> {1..8}" for i
  proof -
    have "vflcxtblocks ?c (activecxtblock ?c) * pagesperblock s + (nextcxtpage ?c + 8) + 2 ^ 32 - i = base + 8 - i + 2 ^ 32"
      using that by (simp add: base_def)
    then show ?thesis using bl unfolding cxt_page_def Let_def c1' bn1 by (simp only: mod_add_self2) simp
  qed
  have er1: "cont (nand s1) bank (base + q) = None" if "q < 8" for q
    using er [rule_format, of "nextcxtpage ?c + q"] that nx unfolding n1 base_def by (simp add: add.assoc)
  have w1: "working dev cont (ftl_banks s1) (pagesperblock s)" using R(3) bn1 by simp
  have b1: "bank < ftl_banks s1" using b bn1 by simp
  let ?x = "(vfl_words (ftl_vfl_cxt s1 bank), ftl_sparebuffer s1 0)"
  show ?thesis unfolding ftl_vfl_store_cxt_def base_def [symmetric]
  proof (rule ends_after_modify, fold s1_def, simp only: andthen_require c1' ac if_True, rule ends_unless_left,
      rule ends_weaken [OF write_copies [OF w1 b1 er1 pg]])
    fix t s2 assume "t = (Go () :: (unit, nat) turn) \<and> (\<exists>n. s2 = s1\<lparr>nand := n\<rparr> \<and> copies cont bank base ?x 8 (nand s1) n)"
    then obtain n where t: "t = Go ()" and s2: "s2 = s1\<lparr>nand := n\<rparr>" and c: "copies cont bank base ?x 8 (nand s1) n" by blast
    have w2: "working dev cont (ftl_banks s2) (pagesperblock s)" and b2: "bank < ftl_banks s2" using w1 b1 by (simp_all add: s2)
    have at: "cont (nand s2) bank (cxt_page bank i s2) = Some (vfl_words (ftl_vfl_cxt s2 bank), ftl_sparebuffer s1 0)" if "i \<in> {1..8}" for i
    proof -
      have "base \<le> base + 8 - i" "base + 8 - i < base + 8" using that by auto
      moreover have "cxt_page bank i s2 = base + 8 - i" using pg [OF that] by (simp add: s2 cxt_page_def)
      ultimately show ?thesis using c by (simp add: s2 copies_def)
    qed
    have sp2: "sp_word0 (ftl_sparebuffer s1 0) = updatecount (ftl_vfl_cxt s2 bank)" using sp1 by (simp add: s2)
    note RC = read_copies [OF w2 b2 at sp2 sp1(2,3)]
    have "ends (unless_left
       (for_each [1..<9] (\<lambda>i good s. andthen (nand_read dev bank (cxt_page bank i s) False)
          (\<lambda>rc s. finish (Go (if cxt_page_good bank rc s then good + 1 else good)) s) s) (0 :: nat))
       (\<lambda>good. finish (if good > 3 then 0 else 1)) s2) (\<lambda>rc s'. rc = (0 :: nat) \<and> beside cont s s'
        \<and> cxt_step bank (activecxtblock ?c) (nextcxtpage ?c + 8) s s' \<and> only_there cont bank base 8 (nand s) (nand s'))"
    proof (rule ends_unless_left, rule ends_weaken [OF RC])
      fix t s3 assume "t = (Go 8 :: (nat, nat) turn) \<and> (\<exists>n sps buf. s3 = s2\<lparr>nand := n, ftl_sparebuffer := sps, ftl_buffer := buf\<rparr> \<and> cont n = cont (nand s2))"
      then obtain m sps buf where t: "t = Go 8" and s3: "s3 = s2\<lparr>nand := m, ftl_sparebuffer := sps, ftl_buffer := buf\<rparr>" and cm: "cont m = cont n"
        by (auto simp: s2)
      have ot: "only_there cont bank base 8 (nand s) (nand s3)" using c by (auto simp: only_there_def s3 cm copies_def n1)
      have lay3: "same_layout s s3" by (rule same_layout_trans [OF lay]) (simp add: s3 s2 same_layout_def)
      have "flash cont s3 w = flash cont s w" for w
      proof (cases "w < vpages s")
        case True
        have "\<not> (fst (loc s w) = bank \<and> base \<le> snd (loc s w) \<and> snd (loc s w) < base + 8)"
        proof
          assume a: "fst (loc s w) = bank \<and> base \<le> snd (loc s w) \<and> snd (loc s w) < base + 8"
          have "snd (loc s w) div pagesperblock s = vflcxtblocks ?c (activecxtblock ?c)"
            by (rule div_nat_eqI) (use a nx in \<open>simp_all add: base_def mult.commute\<close>)
          with out True a show False by blast
        qed
        then show ?thesis using ot same_layout(3,4) [OF lay3] by (simp add: flash_def vcont_def only_there_def)
      qed (use same_layout(4) [OF lay3] in \<open>simp add: flash_def\<close>)
      then have fl: "flash cont s3 = flash cont s" by (rule ext)
      have rest: "ftl_cxt s1 = ftl_cxt s" "ftl_map s1 = ftl_map s" "ftl_log s1 = ftl_log s" "ftl_erasectr s1 = ftl_erasectr s"
        "ftl_erasectr_dirt s1 = ftl_erasectr_dirt s" "ftl_mtx s1 = ftl_mtx s" "ftl_initialized s1 = ftl_initialized s" "fkern s1 = fkern s"
        by (simp_all add: s1_def Let_def upd_vfl_def set_spare_def)
      have "beside cont s s3" unfolding beside_def using lay3 fl rest by (simp add: s3 s2)
      moreover have "cxt_step bank (activecxtblock ?c) (nextcxtpage ?c + 8) s s3"
        unfolding cxt_step_def using c1 c1' by (simp add: s3 s2)
      ultimately show "\<exists>x. t = Go x \<and> ends (finish (if x > 3 then 0 else 1) s3) (\<lambda>rc s'. rc = 0 \<and> beside cont s s'
        \<and> cxt_step bank (activecxtblock ?c) (nextcxtpage ?c + 8) s s' \<and> only_there cont bank base 8 (nand s) (nand s'))"
        using t ot by simp
    qed
    with t show "\<exists>x. t = Go x \<and> ends (unless_left
       (for_each [1..<9] (\<lambda>i good s. andthen (nand_read dev bank (cxt_page bank i s) False)
          (\<lambda>rc s. finish (Go (if cxt_page_good bank rc s then good + 1 else good)) s) s) (0 :: nat))
       (\<lambda>good. finish (if good > 3 then 0 else 1)) s2) (\<lambda>rc s'. rc = (0 :: nat) \<and> beside cont s s'
        \<and> cxt_step bank (activecxtblock ?c) (nextcxtpage ?c + 8) s s' \<and> only_there cont bank base 8 (nand s) (nand s'))" by simp
  qed
qed

section \<open>Committing a context\<close>

lemma erase_cxt:
  assumes w: "working dev cont (ftl_banks s) (pagesperblock s)" and b: "bank < ftl_banks s"
    and blk: "vflcxtblocks (ftl_vfl_cxt s bank) i < 0x10000" and pp: "pagesperblock s \<le> 512"
  shows "ends (erase_cxt_block dev bank i s) (\<lambda>t s'. t = Leave () \<and> (\<exists>n. s' = s\<lparr>nand := n\<rparr>
    \<and> cont n = (\<lambda>c q. if c = bank \<and> vflcxtblocks (ftl_vfl_cxt s bank) i * pagesperblock s \<le> q
         \<and> q < vflcxtblocks (ftl_vfl_cxt s bank) i * pagesperblock s + pagesperblock s then None else cont (nand s) c q)))"
proof -
  let ?p = "vflcxtblocks (ftl_vfl_cxt s bank) i * pagesperblock s"
  have "?p \<le> 0xFFFF * 512" using blk pp by (intro mult_le_mono) simp_all
  then have u: "u32_mod ?p = ?p" by simp
  have "pagesperblock s dvd ?p" by simp
  from erase_page [OF w b this, of "nand s"] obtain n where n: "nand_block_erase dev bank ?p (nand s) = (0, n)"
    "cont n = (\<lambda>c q. if c = bank \<and> ?p \<le> q \<and> q < ?p + pagesperblock s then None else cont (nand s) c q)" .
  have "[0..<4] = 0 # [1..<4]" by (simp add: upt_rec)
  then show ?thesis using n by (simp add: erase_cxt_block_def u ends_andthen) blast
qed

text \<open>The context of the bank after it was committed.\<close>

definition committed :: "'n contents \<Rightarrow> nat \<Rightarrow> 'n ftl \<Rightarrow> 'n ftl \<Rightarrow> bool" where
  "committed cont bank s s' \<longleftrightarrow> beside cont s s' \<and> vfl_ok cont s'
     \<and> (\<forall>b p. b \<noteq> bank \<longrightarrow> cont (nand s') b p = cont (nand s) b p)"

lemma committedI:
  assumes v: "vfl_ok cont s" and b: "bank < ftl_banks s" and bs: "beside cont s s'"
    and st: "cxt_step bank block next s s'" and nx: "next \<le> pagesperblock s"
    and ac: "block < 4" "vflcxtblocks (ftl_vfl_cxt s bank) block \<noteq> 0xFFFF"
    and other: "\<exists>i < 4. i \<noteq> block \<and> vflcxtblocks (ftl_vfl_cxt s bank) i \<noteq> 0xFFFF"
    and er: "\<And>p. p < pagesperblock s \<Longrightarrow> next \<le> p \<Longrightarrow>
       cont (nand s') bank (vflcxtblocks (ftl_vfl_cxt s bank) block * pagesperblock s + p) = None"
    and rest: "\<And>b p. b \<noteq> bank \<Longrightarrow> cont (nand s') b p = cont (nand s) b p"
  shows "committed cont bank s s'"
proof -
  have lay: "same_layout s s'" using bs by (simp add: beside_def)
  note l = same_layout [OF lay]
  have "cxt_ok cont k s'" if k: "k < ftl_banks s" for k
  proof (cases "k = bank")
    case True
    have "cxt_ok cont bank s" using v b by (simp add: vfl_ok_def)
    note K = cxt_okD [OF this]
    have c: "vflcxtblocks (ftl_vfl_cxt s' bank) = vflcxtblocks (ftl_vfl_cxt s bank)" "activecxtblock (ftl_vfl_cxt s' bank) = block"
      "nextcxtpage (ftl_vfl_cxt s' bank) = next" using st by (simp_all add: cxt_step_def)
    show ?thesis unfolding True cxt_ok_def Let_def c l(3,4,9) using ac other nx K(5,6) er by blast
  next
    case False
    then have "cxt_ok cont k s" "ftl_vfl_cxt s' k = ftl_vfl_cxt s k" using v k st by (simp_all add: vfl_ok_def cxt_step_def)
    then show ?thesis unfolding cxt_ok_def Let_def l(3,4,9) using rest [OF False] by simp
  qed
  then have "vfl_ok cont s'" by (simp add: vfl_ok_def l(7))
  with bs rest show ?thesis by (simp add: committed_def)
qed

lemma pages_small: "geo_ok s \<Longrightarrow> pagesperblock s \<le> 512" "geo_ok s \<Longrightarrow> 8 \<le> pagesperblock s"
proof -
  assume g: "geo_ok s"
  note p = geo [OF g]
  show "pagesperblock s \<le> 512" using p(4,5,2) by (metis dual_order.trans mult_le_mono2 mult.right_neutral One_nat_def Suc_leI)
  have "32 \<le> ppb s" using p(1,7) by (simp add: dvd_imp_le)
  moreover have "ppb s \<le> pagesperblock s * 4" unfolding p(5) using p(3) by simp
  ultimately show "8 \<le> pagesperblock s" by simp
qed

lemma commit_same_block:
  assumes r: "runs_on dev cont s" and v: "vfl_ok cont s" and b: "bank < ftl_banks s"
    and nx: "nextcxtpage (ftl_vfl_cxt s bank) + 8 \<le> pagesperblock s"
  shows "ends (ftl_vfl_store_cxt dev bank s) (\<lambda>rc s'. rc = 0 \<and> committed cont bank s s')"
proof -
  let ?c = "ftl_vfl_cxt s bank"
  have k: "cxt_ok cont bank s" using v b by (simp add: vfl_ok_def)
  note K = cxt_okD [OF k]
  have er: "\<forall>p < pagesperblock s. nextcxtpage ?c \<le> p \<longrightarrow> cont (nand s) bank (vflcxtblocks ?c (activecxtblock ?c) * pagesperblock s + p) = None"
    and out: "\<forall>w < vpages s. fst (loc s w) = bank \<longrightarrow> snd (loc s w) div pagesperblock s \<noteq> vflcxtblocks ?c (activecxtblock ?c)"
    using K(7) K(6) [OF K(1,2)] by blast+
  show ?thesis
  proof (rule ends_weaken [OF store_cxt [OF r b K(1) K(5) [OF K(1,2)] nx er out]], elim conjE, intro conjI)
    fix rc :: nat and s' assume "rc = 0" and bs: "beside cont s s'"
      and st: "cxt_step bank (activecxtblock ?c) (nextcxtpage ?c + 8) s s'"
      and ot: "only_there cont bank (vflcxtblocks ?c (activecxtblock ?c) * pagesperblock s + nextcxtpage ?c) 8 (nand s) (nand s')"
    then show "rc = 0" by simp
    show "committed cont bank s s'"
    proof (rule committedI [OF v b bs st nx K(1-3)])
      show "cont (nand s') bank (vflcxtblocks ?c (activecxtblock ?c) * pagesperblock s + p) = None"
        if "p < pagesperblock s" "nextcxtpage ?c + 8 \<le> p" for p
        using ot K(7) [of p] that by (simp add: only_there_def)
      show "cont (nand s') x p = cont (nand s) x p" if "x \<noteq> bank" for x p using ot that by (simp add: only_there_def)
    qed
  qed
qed

text \<open>The four blocks of a bank, from the current one on.\<close>

lemma ring4:
  assumes "c < (4 :: nat)"
  shows "d < 4 \<Longrightarrow> ((c + d) mod 4 + 4 - c) mod 4 = d" "x < 4 \<Longrightarrow> x \<noteq> c \<Longrightarrow> \<exists>e. 1 \<le> e \<and> e \<le> 3 \<and> (c + e) mod 4 = x"
    "d < 3 \<Longrightarrow> (c + (d + 1)) mod 4 \<noteq> c" "((c + d) mod 4 + 1) mod 4 = (c + (d + 1)) mod 4"
proof -
  have c: "c = 0 \<or> c = 1 \<or> c = 2 \<or> c = 3" using assms by linarith
  show "d < 4 \<Longrightarrow> ((c + d) mod 4 + 4 - c) mod 4 = d"
  proof -
    assume "d < 4"
    then have "d = 0 \<or> d = 1 \<or> d = 2 \<or> d = 3" by linarith
    with c show ?thesis by (elim disjE) simp_all
  qed
  show "\<exists>e. 1 \<le> e \<and> e \<le> 3 \<and> (c + e) mod 4 = x" if "x < 4" "x \<noteq> c"
  proof (cases "c < x")
    case True
    then show ?thesis using that by (intro exI [of _ "x - c"]) auto
  next
    case False
    then have "1 \<le> x + 4 - c" "x + 4 - c \<le> 3" "c + (x + 4 - c) = x + 4" using that assms by linarith+
    then show ?thesis using that(1) by (intro exI [of _ "x + 4 - c"]) simp
  qed
  show "d < 3 \<Longrightarrow> (c + (d + 1)) mod 4 \<noteq> c"
  proof -
    assume "d < 3"
    then have "d = 0 \<or> d = 1 \<or> d = 2" by linarith
    with c show ?thesis by (elim disjE) simp_all
  qed
  show "((c + d) mod 4 + 1) mod 4 = (c + (d + 1)) mod 4" by (simp add: mod_Suc_eq)
qed

lemma commit_cxt:
  assumes r: "runs_on dev cont s" and v: "vfl_ok cont s" and b: "bank < ftl_banks s"
  shows "ends (ftl_vfl_commit_cxt dev bank s) (\<lambda>rc s'. rc = 0 \<and> committed cont bank s s')"
proof (cases "nextcxtpage (ftl_vfl_cxt s bank) + 8 \<le> pagesperblock s")
  case True
  show ?thesis unfolding ftl_vfl_commit_cxt_def if_P [OF True]
    by (rule ends_seq, rule commit_same_block [OF r v b True]) simp
next
  case False
  note R = runs_onD [OF r] and ps = pages_small [OF runs_onD(1) [OF r]]
  let ?c = "ftl_vfl_cxt s bank"
  have k: "cxt_ok cont bank s" using v b by (simp add: vfl_ok_def)
  note K = cxt_okD [OF k]
  let ?cur = "activecxtblock ?c"
  let ?turn = "\<lambda>i s. let i = (i + 1) mod 4 in
         if i = ?cur then finish (Leave (1 :: nat)) s
         else if vflcxtblocks (ftl_vfl_cxt s bank) i = 0xFFFF then finish (Go i) s
         else andthen (erase_cxt_block dev bank i) (\<lambda>t. case t of
             Go _ \<Rightarrow> finish (Go i)
           | Leave _ \<Rightarrow> andthen (modify (upd_vfl bank (\<lambda>c. c\<lparr>activecxtblock := i, nextcxtpage := 0\<rparr>)))
               (\<lambda>_. andthen (ftl_vfl_store_cxt dev bank)
               (\<lambda>rc. finish (if rc = 0 then Leave 0 else Go i)))) s"
  have turn: "ends (?turn i s) (\<lambda>t s'. if vflcxtblocks ?c ((i + 1) mod 4) = 0xFFFF then t = Go ((i + 1) mod 4) \<and> s' = s
          else t = Leave 0 \<and> committed cont bank s s')" if ne: "(i + 1) mod 4 \<noteq> ?cur" for i
  proof (cases "vflcxtblocks ?c ((i + 1) mod 4) = 0xFFFF")
    case True
    then show ?thesis using ne by (simp add: Let_def)
  next
    case valid: False
    define j where "j = (i + 1) mod 4"
    have j: "j < 4" "j \<noteq> ?cur" "vflcxtblocks ?c j \<noteq> 0xFFFF" using ne valid by (simp_all add: j_def)
    have bj: "vflcxtblocks ?c j < 0x10000" by (rule K(5) [OF j(1,3)])
    show ?thesis unfolding Let_def j_def [symmetric] if_not_P [OF j(2)] if_not_P [OF j(3)]
    proof (rule ends_seq, rule erase_cxt [OF R(3) b bj ps(1)], elim conjE exE)
      fix t s1 n assume t: "t = (Leave () :: (unit, unit) turn)" and s1: "s1 = s\<lparr>nand := n\<rparr>"
        and cn: "cont n = (\<lambda>c q. if c = bank \<and> vflcxtblocks ?c j * pagesperblock s \<le> q
         \<and> q < vflcxtblocks ?c j * pagesperblock s + pagesperblock s then None else cont (nand s) c q)"
      define s2 where "s2 = upd_vfl bank (\<lambda>c. c\<lparr>activecxtblock := j, nextcxtpage := 0\<rparr>) s1"
      have c2: "activecxtblock (ftl_vfl_cxt s2 bank) = j" "nextcxtpage (ftl_vfl_cxt s2 bank) = 0"
        "vflcxtblocks (ftl_vfl_cxt s2 bank) = vflcxtblocks ?c" and n2: "nand s2 = n"
        and o2: "x \<noteq> bank \<Longrightarrow> ftl_vfl_cxt s2 x = ftl_vfl_cxt s x" for x
        by (simp_all add: s2_def s1 upd_vfl_def)
      have lay: "same_layout s s2" by (simp add: s2_def s1 upd_vfl_def same_layout_def)
      note l = same_layout [OF lay]
      have "flash cont s2 w = flash cont s w" for w
      proof (cases "w < vpages s")
        case True
        have "\<not> (fst (loc s w) = bank \<and> vflcxtblocks ?c j * pagesperblock s \<le> snd (loc s w)
          \<and> snd (loc s w) < vflcxtblocks ?c j * pagesperblock s + pagesperblock s)"
        proof
          assume a: "fst (loc s w) = bank \<and> vflcxtblocks ?c j * pagesperblock s \<le> snd (loc s w)
            \<and> snd (loc s w) < vflcxtblocks ?c j * pagesperblock s + pagesperblock s"
          have "snd (loc s w) div pagesperblock s = vflcxtblocks ?c j"
            by (rule div_nat_eqI) (use a in \<open>simp_all add: mult.commute\<close>)
          with K(6) [OF j(1,3) True] a show False by blast
        qed
        then show ?thesis using l(3,4) cn n2 by (auto simp: flash_def vcont_def)
      qed (use l(4) in \<open>simp add: flash_def\<close>)
      then have fl: "flash cont s2 = flash cont s" by (rule ext)
      have bs2: "beside cont s s2" unfolding beside_def using lay fl by (simp add: s2_def s1 upd_vfl_def)
      have r2: "runs_on dev cont s2" using r runs_on_layout [OF lay] by simp
      have b2: "bank < ftl_banks s2" using b l(7) by simp
      have cb: "vflcxtblocks (ftl_vfl_cxt s2 bank) (activecxtblock (ftl_vfl_cxt s2 bank)) = vflcxtblocks ?c j" by (simp add: c2)
      have ac2: "activecxtblock (ftl_vfl_cxt s2 bank) < 4" and nx2: "nextcxtpage (ftl_vfl_cxt s2 bank) + 8 \<le> pagesperblock s2"
        and bj2: "vflcxtblocks (ftl_vfl_cxt s2 bank) (activecxtblock (ftl_vfl_cxt s2 bank)) < 0x10000"
        using j(1) ps(2) bj l(9) by (simp_all add: c2)
      have er2: "\<forall>p < pagesperblock s2. nextcxtpage (ftl_vfl_cxt s2 bank) \<le> p \<longrightarrow>
          cont (nand s2) bank (vflcxtblocks (ftl_vfl_cxt s2 bank) (activecxtblock (ftl_vfl_cxt s2 bank)) * pagesperblock s2 + p) = None"
        unfolding cb l(9) n2 cn by simp
      have out2: "\<forall>w < vpages s2. fst (loc s2 w) = bank \<longrightarrow>
          snd (loc s2 w) div pagesperblock s2 \<noteq> vflcxtblocks (ftl_vfl_cxt s2 bank) (activecxtblock (ftl_vfl_cxt s2 bank))"
        unfolding cb l(3,4,9) using K(6) [OF j(1,3)] by blast
      note S = store_cxt [OF r2 b2 ac2 bj2 nx2 er2 out2, unfolded cb, unfolded c2 l(9)]
      show "ends ((case t of Go _ \<Rightarrow> finish (Go j)
           | Leave _ \<Rightarrow> andthen (modify (upd_vfl bank (\<lambda>c. c\<lparr>activecxtblock := j, nextcxtpage := 0\<rparr>)))
               (\<lambda>_. andthen (ftl_vfl_store_cxt dev bank)
               (\<lambda>rc. finish (if rc = 0 then Leave 0 else Go j)))) s1) (\<lambda>t s'. t = Leave 0 \<and> committed cont bank s s')"
        unfolding t turn.case
      proof (rule ends_after_modify, fold s2_def, rule ends_seq, rule S, elim conjE)
        fix rc :: nat and s3 assume rc: "rc = 0" and bs3: "beside cont s2 s3" and st3: "cxt_step bank j (0 + 8) s2 s3"
          and ot: "only_there cont bank (vflcxtblocks ?c j * pagesperblock s + 0) 8 (nand s2) (nand s3)"
        have st: "cxt_step bank j 8 s s3" using st3 o2 by (simp add: cxt_step_def c2)
        have other: "\<exists>i < 4. i \<noteq> j \<and> vflcxtblocks ?c i \<noteq> 0xFFFF" using K(1,2) j(2) by metis
        have "committed cont bank s s3"
        proof (rule committedI [OF v b beside_trans [OF bs2 bs3] st ps(2) j(1,3) other])
          show "cont (nand s3) bank (vflcxtblocks ?c j * pagesperblock s + p) = None" if "p < pagesperblock s" "8 \<le> p" for p
            using ot that unfolding n2 only_there_def cn by simp
          show "cont (nand s3) x p = cont (nand s) x p" if "x \<noteq> bank" for x p
            using ot that unfolding n2 only_there_def cn by simp
        qed
        then show "ends (finish (if rc = 0 then Leave 0 else Go j) s3) (\<lambda>t s'. t = Leave 0 \<and> committed cont bank s s')"
          by (simp add: rc)
      qed
    qed
  qed
  let ?at = "\<lambda>d. (?cur + d) mod 4"
  have loop: "ends (forever ?turn ?cur s) (\<lambda>rc s'. rc = 0 \<and> committed cont bank s s')"
  proof (rule ends_forever [where P = "\<lambda>i s'. s' = s \<and> (\<exists>d < 4. i = ?at d \<and> (\<forall>e \<in> {1..d}. vflcxtblocks ?c (?at e) = 0xFFFF))"
        and m = "\<lambda>i _. 3 - (i + 4 - ?cur) mod 4"])
    show "s = s \<and> (\<exists>d < 4. ?cur = ?at d \<and> (\<forall>e \<in> {1..d}. vflcxtblocks ?c (?at e) = 0xFFFF))"
      using K(1) by (intro conjI refl exI [of _ 0]) simp_all
    fix i s' assume "s' = s \<and> (\<exists>d < 4. i = ?at d \<and> (\<forall>e \<in> {1..d}. vflcxtblocks ?c (?at e) = 0xFFFF))"
    then obtain d where s': "s' = s" and d: "d < 4" "i = ?at d" "\<forall>e \<in> {1..d}. vflcxtblocks ?c (?at e) = 0xFFFF" by blast
    obtain x where x: "x < 4" "x \<noteq> ?cur" "vflcxtblocks ?c x \<noteq> 0xFFFF" using K(3) by blast
    have "d \<noteq> 3"
    proof
      assume "d = 3"
      from ring4(2) [OF K(1) x(1,2)] obtain e where "e \<in> {1..3}" "?at e = x" by auto
      with d(3) x(3) \<open>d = 3\<close> show False by blast
    qed
    then have d3: "d < 3" using d(1) by simp
    have next_at: "(i + 1) mod 4 = ?at (d + 1)" unfolding d(2) by (rule ring4(4) [OF K(1)])
    have ne: "(i + 1) mod 4 \<noteq> ?cur" unfolding next_at by (rule ring4(3) [OF K(1) d3])
    have m: "(?at d + 4 - ?cur) mod 4 = d" "(?at (d + 1) + 4 - ?cur) mod 4 = d + 1" using ring4(1) [OF K(1), of d] ring4(1) [OF K(1), of "d + 1"] d3 by simp_all
    show "ends (?turn i s') (\<lambda>t s'. case t of Leave r \<Rightarrow> r = 0 \<and> committed cont bank s s'
        | Go i' \<Rightarrow> (s' = s \<and> (\<exists>d < 4. i' = ?at d \<and> (\<forall>e \<in> {1..d}. vflcxtblocks ?c (?at e) = 0xFFFF)))
            \<and> 3 - (i' + 4 - ?cur) mod 4 < 3 - (i + 4 - ?cur) mod 4)"
      unfolding s'
    proof (rule ends_weaken [OF turn [OF ne]])
      fix t s'' assume a: "if vflcxtblocks ?c ((i + 1) mod 4) = 0xFFFF then t = Go ((i + 1) mod 4) \<and> s'' = s
          else t = Leave 0 \<and> committed cont bank s s''"
      show "case t of Leave r \<Rightarrow> r = 0 \<and> committed cont bank s s''
        | Go i' \<Rightarrow> (s'' = s \<and> (\<exists>d < 4. i' = ?at d \<and> (\<forall>e \<in> {1..d}. vflcxtblocks ?c (?at e) = 0xFFFF)))
            \<and> 3 - (i' + 4 - ?cur) mod 4 < 3 - (i + 4 - ?cur) mod 4"
      proof (cases "vflcxtblocks ?c ((i + 1) mod 4) = 0xFFFF")
        case True
        then have "vflcxtblocks ?c (?at e) = 0xFFFF" if "e \<in> {1..d + 1}" for e
          using that d(3) unfolding next_at by (cases "e = d + 1") auto
        then have "\<exists>d' < 4. (i + 1) mod 4 = ?at d' \<and> (\<forall>e \<in> {1..d'}. vflcxtblocks ?c (?at e) = 0xFFFF)"
          using d3 next_at by (intro exI [of _ "d + 1"]) simp
        moreover have "3 - ((i + 1) mod 4 + 4 - ?cur) mod 4 < 3 - (i + 4 - ?cur) mod 4"
          unfolding next_at unfolding d(2) m using d3 by simp
        ultimately show ?thesis using a True by simp
      next
        case False
        then show ?thesis using a by simp
      qed
    qed
  qed
  have "ends (andthen (forever ?turn ?cur) (\<lambda>rc. if rc = 0 then finish 0 else give_up) s) (\<lambda>rc s'. rc = (0 :: nat) \<and> committed cont bank s s')"
    by (rule ends_seq, rule loop) simp
  then show ?thesis unfolding ftl_vfl_commit_cxt_def if_not_P [OF False] andthen_finish Let_def if_not_P [OF one_neq_zero] .
qed

end
