(* ===== verification/FtlCtrl.thy ===== *)
theory FtlCtrl
  imports FtlContext
begin

text \<open>
  The pages of the FTL's own data: they are written one after the other to the control blocks. A control
  block that is full is followed by a new one, and the counters in the block that it replaces are written again.
\<close>

section \<open>What the sectors rest on\<close>

definition ctl :: "'n contents \<Rightarrow> 'n ftl \<Rightarrow> 'n ftl \<Rightarrow> bool" where
  "ctl cont s s' \<longleftrightarrow> same_layout s s' \<and> ftl_map s' = ftl_map s \<and> ftl_log s' = ftl_log s \<and> ftl_mtx s' = ftl_mtx s
     \<and> ftl_initialized s' = ftl_initialized s \<and> kernel_same (fkern s) (fkern s')
     \<and> (\<forall>w. w div ppb s \<in> in_use s \<longrightarrow> flash cont s' w = flash cont s w)"

lemma in_use_same: "same_layout s s' \<Longrightarrow> ftl_map s' = ftl_map s \<Longrightarrow> ftl_log s' = ftl_log s \<Longrightarrow> in_use s' = in_use s"
  using same_layout(8) [of s s'] by (simp add: in_use_def active_def)

lemma ctl_refl [simp]: "ctl cont s s"
  by (simp add: ctl_def)

lemma ctl_trans: "ctl cont s s' \<Longrightarrow> ctl cont s' s'' \<Longrightarrow> ctl cont s s''"
  unfolding ctl_def using same_layout_trans [of s s' s''] in_use_same [of s s'] same_layout(6) [of s s']
    kernel_same_trans [of "fkern s" "fkern s'" "fkern s''"] by simp

lemma ctl_ok:
  assumes i: "ftl_ok dev cont s ex" and c: "ctl cont s s'" and b: "blocks_ok s' ex'" and t: "tidy cont s'"
  shows "ftl_ok dev cont s' ex'" "view cont s' = view cont s"
proof -
  note I = ftl_okD [OF i] and C = c [unfolded ctl_def]
  have lay: "same_layout s s'" using C by blast
  show "view cont s' = view cont s" by (rule view_cong [OF I(5) lay]) (use C in simp_all)
  have "logs_ok cont s'" by (rule logs_ok_cong [OF I(5) lay]) (use C in simp_all)
  then show "ftl_ok dev cont s' ex'"
    using I b t C runs_on_layout [OF lay] kernel_same_can_take [of "fkern s" "fkern s'" "ftl_mtx s"] by (simp add: ftl_ok_def)
qed

lemma ctl_quiet: "quiet cont s s' \<Longrightarrow> (\<And>w. w div ppb s \<in> in_use s \<Longrightarrow> flash cont s' w = flash cont s w) \<Longrightarrow> ctl cont s s'"
  by (simp add: ctl_def quiet_def)

lemma ctl_beside: "beside cont s s' \<Longrightarrow> ctl cont s s'"
  by (simp add: ctl_def beside_def)

text \<open>The parts of the context that the pool and the roles rest on.\<close>

definition same_roles :: "'n ftl \<Rightarrow> 'n ftl \<Rightarrow> bool" where
  "same_roles s s' \<longleftrightarrow> same_pool s s' \<and> ftlctrlblocks (ftl_cxt s') = ftlctrlblocks (ftl_cxt s) \<and> ftl_erasectr s' = ftl_erasectr s
     \<and> clean_flag (ftl_cxt s') = clean_flag (ftl_cxt s)"

lemma same_roles_refl [simp]: "same_roles s s"
  by (simp add: same_roles_def)

lemma same_roles_trans: "same_roles s s' \<Longrightarrow> same_roles s' s'' \<Longrightarrow> same_roles s s''"
  unfolding same_roles_def using same_pool_trans [of s s' s''] by simp

lemma blocks_ok_same_roles:
  assumes "ctl cont s s'" "same_roles s s'" "blocks_ok s ex"
  shows "blocks_ok s' ex"
proof -
  have lay: "same_layout s s'" using assms(1) by (simp add: ctl_def)
  have a: "active s' = active s" using assms(1) by (simp add: active_def ctl_def)
  have p: "same_pool s s'" using assms(2) by (simp add: same_roles_def)
  show ?thesis
    using assms same_layout(5,8) [OF lay] same_pool(1) [OF p] a
    by (simp add: blocks_ok_def roles_def ctl_def same_roles_def same_pool_def)
qed

lemma ctl_same_ok:
  assumes "ftl_ok dev cont s ex" "ctl cont s s'" "same_roles s s'" "tidy cont s'"
  shows "ftl_ok dev cont s' ex"
  by (rule ctl_ok(1) [OF assms(1,2) blocks_ok_same_roles [OF assms(2,3) ftl_okD(4) [OF assms(1)]] assms(4)])

section \<open>Writing a page\<close>

text \<open>A page of a control block, and room behind it.\<close>

definition ctrl_room :: "'n contents \<Rightarrow> nat \<Rightarrow> 'n ftl \<Rightarrow> bool" where
  "ctrl_room cont p s \<longleftrightarrow> p div ppb s \<in> ftlctrlblocks (ftl_cxt s) ` {0..<3}
     \<and> (\<forall>w. p \<le> w \<and> w div ppb s = p div ppb s \<longrightarrow> flash cont s w = None)"

definition ctrl_ok :: "'n contents \<Rightarrow> 'n ftl \<Rightarrow> bool" where
  "ctrl_ok cont s \<longleftrightarrow> ftlctrlpage (ftl_cxt s) div ppb s \<in> ftlctrlblocks (ftl_cxt s) ` {0..<3}
     \<and> (\<forall>w. ftlctrlpage (ftl_cxt s) < w \<and> w div ppb s = ftlctrlpage (ftl_cxt s) div ppb s \<longrightarrow> flash cont s w = None)"

lemma ctrl_block:
  assumes "ftl_ok dev cont s ex" "b \<in> ftlctrlblocks (ftl_cxt s) ` {0..<3}"
  shows "b < vblocks s" "b \<notin> in_use s"
  using role_less(3) [OF ftl_okD(4) [OF assms(1)]] in_use_free [OF ftl_okD(4) [OF assms(1)], of b] assms(2) by auto

lemma ctrl_page:
  assumes "ftl_ok dev cont s ex" "p div ppb s \<in> ftlctrlblocks (ftl_cxt s) ` {0..<3}"
  shows "p < vpages s" "u32_mod p = p" "p div ppb s \<notin> in_use s"
proof -
  note g = ftl_okD(2) [OF assms(1)] and B = ctrl_block [OF assms]
  show v: "p < vpages s" by (rule in_vblock [OF B(1) refl geo(1) [OF g]])
  show "u32_mod p = p" by (rule vpages_small(2) [OF g v])
  show "p div ppb s \<notin> in_use s" by (rule B(2))
qed

lemma write_own_page:
  assumes ok: "ftl_ok dev cont s ex" and p: "ctrl_room cont p s"
  obtains n where "write_own dev p buf s = Some (Done 0, s\<lparr>nand := n\<rparr>)" "still cont s (s\<lparr>nand := n\<rparr>)"
    "flash cont (s\<lparr>nand := n\<rparr>) = (flash cont s)(p := Some (buf, ftl_sparebuffer s 0))"
proof -
  note I = ftl_okD [OF ok]
  have b: "p div ppb s \<in> ftlctrlblocks (ftl_cxt s) ` {0..<3}" using p by (simp add: ctrl_room_def)
  let ?b = "p div ppb s" and ?q = "p mod ppb s"
  have pq: "?b * ppb s + ?q = p" by simp
  have q: "?q + 1 \<le> ppb s" using geo(1) [OF I(2)] by (simp add: Suc_le_eq)
  have "flash cont s p = None" using p by (simp add: ctrl_room_def)
  then have "\<forall>i < 1. flash cont s (?b * ppb s + ?q + i) = None" unfolding pq by simp
  from write_pages [OF I(1) ctrl_block(1) [OF ok b] q zero_less_one this, of "\<lambda>_. buf" "ftl_sparebuffer s", unfolded pq]
  obtain n where n: "ftl_vfl_write dev p 1 (\<lambda>_. buf) (ftl_sparebuffer s) s = Some (Done 0, s\<lparr>nand := n\<rparr>)" "still cont s (s\<lparr>nand := n\<rparr>)"
    "flash cont (s\<lparr>nand := n\<rparr>) = (\<lambda>w. if p \<le> w \<and> w < p + 1 then Some (buf, ftl_sparebuffer s (w - p)) else flash cont s w)" .
  have "flash cont (s\<lparr>nand := n\<rparr>) = (flash cont s)(p := Some (buf, ftl_sparebuffer s 0))" unfolding n(3) by (auto simp: fun_eq_iff)
  with n(1,2) show ?thesis by (intro that [of n]) (simp_all add: write_own_def)
qed

text \<open>What has happened when such a page was written.\<close>

definition paged :: "'n contents \<Rightarrow> 'n ftl \<Rightarrow> 'n ftl \<Rightarrow> bool" where
  "paged cont s s' \<longleftrightarrow> ctl cont s s' \<and> same_roles s s' \<and> tidy cont s' \<and> vfl_ok cont s'
     \<and> ftlctrlpage (ftl_cxt s') = ftlctrlpage (ftl_cxt s) \<and> (\<forall>w. w \<noteq> ftlctrlpage (ftl_cxt s) \<longrightarrow> flash cont s' w = flash cont s w)"

lemma paged_ok:
  assumes ok: "ftl_ok dev cont s ex" and r: "ctrl_room cont (ftlctrlpage (ftl_cxt s)) s" and p: "paged cont s s'"
  shows "ftl_ok dev cont s' ex" "view cont s' = view cont s" "ctrl_ok cont s'"
proof -
  note P = p [unfolded paged_def]
  have c: "ctl cont s s'" and sr: "same_roles s s'" and t: "tidy cont s'" using P by blast+
  have b: "blocks_ok s' ex" by (rule blocks_ok_same_roles [OF c sr ftl_okD(4) [OF ok]])
  show "ftl_ok dev cont s' ex" "view cont s' = view cont s" by (rule ctl_ok [OF ok c b t])+
  have "ppb s' = ppb s" by (rule same_layout(6)) (use c in \<open>simp add: ctl_def\<close>)
  then show "ctrl_ok cont s'" using P r by (simp add: ctrl_ok_def ctrl_room_def same_roles_def)
qed

end
