(* ===== verification/Spec2Isabelle.thy ===== *)
theory Spec2Isabelle
  imports Prelude Thread ThreadSafety Scheduling ThreadOps TlsfProps Malloc Button FtlMount FtlCtrl
begin

text \<open>
  emCORE, the kernel of freemyipod, in Isabelle/HOL.
\<close>

end
